(* ===== verification/Prelude.thy ===== *)
theory Prelude
  imports Complex_Main "HOL-Library.Word" "HOL-Library.Monad_Syntax" "HOL-Library.Multiset"
begin

text \<open>
  Shared vocabulary of the potato development: pointers, aborting computations, kernel answers
  and the generic lemmas the component theories use.

  The C code reports a violated \<^verbatim>\<open>ASSERT\<close> or \<^verbatim>\<open>DASSERT\<close> (src/potato_old/aSsert.h) by leaving the
  process or by sleeping for ever: control never comes back from it. A computation that may hit such a check,
  or that would follow a NULL pointer, is a value of type \<open>'a option\<close>; \<open>None\<close> is the abort, and
  \<^const>\<open>Option.bind\<close> (the \<^theory_text>\<open>do\<close> notation of Monad\_Syntax) sequences such computations. The model is that
  of a build with \<^verbatim>\<open>PO_DEBUG\<close>: every \<^verbatim>\<open>DASSERT\<close> is present. A theorem that an operation is never
  \<open>None\<close> therefore also says that the build without \<^verbatim>\<open>PO_DEBUG\<close> computes the same.
\<close>

named_theorems po_defs \<open>definitions of the operations, for symbolic execution\<close>
named_theorems po_heap \<open>rewriting of updated pointer fields\<close>

unbundle bit_operations_syntax

subsection \<open>Machine types and pointers\<close>

type_synonym byte = "8 word"
type_synonym uint32 = "32 word"

text \<open>A pointer into an array of structs is the index of the struct; \<open>None\<close> is NULL.\<close>

type_synonym ptr = "nat option"

text \<open>The zero that ends a C string is not part of the list of its characters.\<close>

definition NUL :: char where
  "NUL = CHR 0x00"

subsection \<open>Assertions\<close>

definition ASSERT :: "bool \<Rightarrow> unit option" where
  "ASSERT b = (if b then Some () else None)"

lemma ASSERT_simps [simp]:
  "ASSERT True = Some ()"
  "ASSERT False = None"
  by (simp_all add: ASSERT_def)

lemma ASSERT_eq_Some [simp]: "ASSERT b = Some u \<longleftrightarrow> b"
  by (simp add: ASSERT_def)

lemma ASSERT_bind_Some: "ASSERT b \<bind> f = Some x \<longleftrightarrow> b \<and> f () = Some x"
  by (simp add: ASSERT_def)

lemma ASSERT_bind_not_None: "ASSERT b \<bind> f \<noteq> None \<longleftrightarrow> b \<and> f () \<noteq> None"
  by (simp add: ASSERT_def)

text \<open>Reading through a pointer: following NULL aborts.\<close>

definition deref :: "ptr \<Rightarrow> nat option" where
  "deref p = p"

lemma deref_simps [simp]: "deref (Some i) = Some i" "deref None = None"
  by (simp_all add: deref_def)

subsection \<open>Updating one struct of an array\<close>

text \<open>\<open>upd m i f\<close> stores \<open>f\<close> of the old struct at index \<open>i\<close>.\<close>

definition upd :: "(nat \<Rightarrow> 'a) \<Rightarrow> nat \<Rightarrow> ('a \<Rightarrow> 'a) \<Rightarrow> nat \<Rightarrow> 'a" where
  "upd m i f = m(i := f (m i))"

lemma upd_apply: "upd m i f j = (if j = i then f (m i) else m j)"
  by (simp add: upd_def)

lemma upd_same [simp]: "upd m i f i = f (m i)"
  by (simp add: upd_def)

lemma upd_other [simp]: "j \<noteq> i \<Longrightarrow> upd m i f j = m j"
  by (simp add: upd_def)

lemma comp_upd [po_heap]: "g \<circ> upd m i f = (g \<circ> m)(i := g (f (m i)))"
  by (simp add: upd_def fun_upd_comp)

lemma comp_fun_upd_triv [simp]: "(g \<circ> m)(i := g (m i)) = g \<circ> m"
  by auto

subsection \<open>Words that count\<close>

lemma unat_Suc_bound:
  fixes w :: uint32
  assumes "unat w < n" and "n < 2 ^ 32"
  shows "unat (w + 1) = Suc (unat w)"
proof -
  have "unat w + unat (1 :: uint32) < 2 ^ LENGTH(32)"
    using assms by simp
  then have "unat (w + 1) = unat w + unat (1 :: uint32)"
    by (rule unat_add_lem [THEN iffD1])
  then show ?thesis by simp
qed

lemma unat_pred_pos:
  fixes w :: uint32
  assumes "w \<noteq> 0"
  shows "unat (w - 1) = unat w - 1"
  using assms by (metis unat_minus_one)

lemma word_pred_gt_zero: "(w :: uint32) \<noteq> 1 \<Longrightarrow> 0 < w - 1"
  by (simp add: word_gt_0)

lemma unat_eq_zero_iff: "unat (w :: uint32) = 0 \<longleftrightarrow> w = 0"
  by (simp add: unat_eq_0)

lemma word_gt_zero_iff: "(0 :: uint32) < w \<longleftrightarrow> 0 < unat w"
  by (simp add: word_less_nat_alt)

subsection \<open>Bytes and the answers of the kernel\<close>

text \<open>The values of \<^verbatim>\<open>errno\<close> that the code tells apart; \<open>EOTHER\<close> is any other.\<close>

datatype errno = EAGAIN | EINTR | EPIPE | ECONNRESET | EOTHER

subsection \<open>Lists\<close>

lemma set_remove1_sup: "set xs - {x} \<subseteq> set (remove1 x xs)"
  by (induction xs) auto

lemma sorted_remove1_map: "sorted (map f xs) \<Longrightarrow> sorted (map f (remove1 x xs))"
proof (induction xs)
  case (Cons y ys)
  then show ?case using set_remove1_subset [of x ys] by fastforce
qed simp

lemma sorted_map_cong:
  "sorted (map f xs) \<Longrightarrow> (\<And>x. x \<in> set xs \<Longrightarrow> g x = f x) \<Longrightarrow> sorted (map g xs)"
  by (metis (no_types, lifting) map_cong)

subsection \<open>Reachable states\<close>

text \<open>States reachable from an initial one along a step relation, and the invariant rule.\<close>

inductive reachable :: "('s \<Rightarrow> bool) \<Rightarrow> ('s \<Rightarrow> 's \<Rightarrow> bool) \<Rightarrow> 's \<Rightarrow> bool"
  for init :: "'s \<Rightarrow> bool" and step :: "'s \<Rightarrow> 's \<Rightarrow> bool" where
  start [intro]: "init s \<Longrightarrow> reachable init step s"
| next_state: "reachable init step s \<Longrightarrow> step s t \<Longrightarrow> reachable init step t"

lemma reachable_rtranclp:
  assumes "step\<^sup>*\<^sup>* s t" and "reachable init step s"
  shows "reachable init step t"
  using assms by (induction rule: rtranclp_induct) (auto intro: reachable.next_state)

locale state_machine =
  fixes init :: "'s \<Rightarrow> bool" and step :: "'s \<Rightarrow> 's \<Rightarrow> bool" and inv :: "'s \<Rightarrow> bool"
  assumes inv_init: "init s \<Longrightarrow> inv s"
    and inv_step: "inv s \<Longrightarrow> step s t \<Longrightarrow> inv t"
begin

lemma inv_reachable: "reachable init step s \<Longrightarrow> inv s"
  by (induction rule: reachable.induct) (auto intro: inv_init inv_step)

lemma inv_steps: "step\<^sup>*\<^sup>* s t \<Longrightarrow> inv s \<Longrightarrow> inv t"
  by (induction rule: rtranclp_induct) (auto intro: inv_step)

end

end
