(* ===== verification/Linked.thy ===== *)
theory Linked
  imports Prelude
begin

text \<open>
  Pointer chains. The C code threads its queues and lists through \<^verbatim>\<open>next\<close> and \<^verbatim>\<open>prev\<close> members of
  structs that live in arrays (worker[] in threadPool.c, conn[] and listener[] in server.c, the
  servers of potato.c, the struct Out of service.c). This theory relates such fields to HOL lists,
  proves what the pointer assignments of the code do to the list, once for all users, and states
  the interface of a first-in first-out queue as a locale.
\<close>

subsection \<open>Chains\<close>

primrec chain :: "(nat \<Rightarrow> ptr) \<Rightarrow> ptr \<Rightarrow> nat list \<Rightarrow> ptr \<Rightarrow> bool" where
  "chain nx p [] q \<longleftrightarrow> p = q"
| "chain nx p (a # as) q \<longleftrightarrow> p = Some a \<and> chain nx (nx a) as q"

lemma chain_append [simp]:
  "chain nx p (as @ bs) q \<longleftrightarrow> (\<exists>r. chain nx p as r \<and> chain nx r bs q)"
  by (induction as arbitrary: p) auto

lemma chain_fun_upd [simp]: "u \<notin> set as \<Longrightarrow> chain (nx(u := v)) p as q \<longleftrightarrow> chain nx p as q"
  by (induction as arbitrary: p) auto

lemma chain_None_start [simp]: "chain nx None as None \<longleftrightarrow> as = []"
  by (cases as) auto

lemma chain_start: "chain nx p as None \<Longrightarrow> p = (if as = [] then None else Some (hd as))"
  by (cases as) auto

lemma chain_unique: "chain nx p as None \<Longrightarrow> chain nx p bs None \<Longrightarrow> as = bs"
proof (induction as arbitrary: p bs)
  case Nil
  then show ?case by (cases bs) auto
next
  case (Cons a as)
  then show ?case by (cases bs) auto
qed

subsection \<open>Singly linked queues: first, last and next\<close>

text \<open>
  \<open>slq nx first last xs\<close>: following \<open>nx\<close> from \<open>first\<close> visits \<open>xs\<close> and then NULL, no element occurs
  twice, and \<open>last\<close> points to the last element. Both ends are NULL exactly for the empty queue.
\<close>

definition slq :: "(nat \<Rightarrow> ptr) \<Rightarrow> ptr \<Rightarrow> ptr \<Rightarrow> nat list \<Rightarrow> bool" where
  "slq nx fr la xs \<longleftrightarrow>
     chain nx fr xs None \<and> distinct xs \<and> la = (if xs = [] then None else Some (last xs))"

lemma slq_Nil [simp]: "slq nx fr la [] \<longleftrightarrow> fr = None \<and> la = None"
  by (auto simp: slq_def)

lemma slq_Cons_first: "slq nx fr la (x # xs) \<Longrightarrow> fr = Some x"
  by (simp add: slq_def)

lemma slq_first_None: "slq nx None la xs \<Longrightarrow> xs = [] \<and> la = None"
  by (auto simp: slq_def)

lemma slq_last_None: "slq nx fr None xs \<Longrightarrow> xs = [] \<and> fr = None"
  by (auto simp: slq_def split: if_splits)

lemma slq_first_Some: "slq nx (Some x) la xs \<Longrightarrow> \<exists>ys. xs = x # ys"
  by (cases xs) (auto simp: slq_def)

lemma slq_last_Some: "slq nx fr (Some x) xs \<Longrightarrow> \<exists>ys. xs = ys @ [x]"
  by (auto simp: slq_def split: if_splits intro: append_butlast_last_id [symmetric])

lemma slq_distinct: "slq nx fr la xs \<Longrightarrow> distinct xs"
  by (simp add: slq_def)

lemma slq_unique: "slq nx fr la xs \<Longrightarrow> slq nx fr la' ys \<Longrightarrow> xs = ys"
  by (auto simp: slq_def intro: chain_unique)

lemma slq_pop: "slq nx (Some x) la (x # xs) \<Longrightarrow>
    slq nx (nx x) (if nx x = None then None else la) xs"
  by (cases xs) (auto simp: slq_def)

lemma slq_push_empty: "slq (nx(x := None)) (Some x) (Some x) [x]"
  by (simp add: slq_def)

lemma slq_push:
  assumes q: "slq nx fr (Some l) xs" and x: "x \<notin> set xs"
  shows "slq ((nx(x := None))(l := Some x)) fr (Some x) (xs @ [x])"
proof -
  from q obtain ys where ys: "xs = ys @ [l]"
    using slq_last_Some by blast
  with q x have "chain nx fr ys (Some l)" "l \<notin> set ys" "x \<notin> set ys" "x \<noteq> l" "distinct ys"
    by (auto simp: slq_def)
  then show ?thesis
    by (auto simp: slq_def ys)
qed

lemma slq_frame: "slq nx fr la xs \<Longrightarrow> u \<notin> set xs \<Longrightarrow> slq (nx(u := v)) fr la xs"
  by (simp add: slq_def)

subsection \<open>Doubly linked lists: top, bottom, next and prev\<close>

definition dll :: "(nat \<Rightarrow> ptr) \<Rightarrow> (nat \<Rightarrow> ptr) \<Rightarrow> ptr \<Rightarrow> ptr \<Rightarrow> nat list \<Rightarrow> bool" where
  "dll nx pv tp bt xs \<longleftrightarrow>
     chain nx tp xs None \<and> chain pv bt (rev xs) None \<and> distinct xs"

lemma dll_Nil [simp]: "dll nx pv tp bt [] \<longleftrightarrow> tp = None \<and> bt = None"
  by (auto simp: dll_def)

lemma dll_sym: "dll nx pv tp bt xs \<longleftrightarrow> dll pv nx bt tp (rev xs)"
  by (auto simp: dll_def)

lemma dll_distinct: "dll nx pv tp bt xs \<Longrightarrow> distinct xs"
  by (simp add: dll_def)

lemma dll_unique: "dll nx pv tp bt xs \<Longrightarrow> dll nx pv' tp bt' ys \<Longrightarrow> xs = ys"
  by (auto simp: dll_def intro: chain_unique)

lemma dll_top: "dll nx pv tp bt xs \<Longrightarrow> tp = (if xs = [] then None else Some (hd xs))"
  by (auto simp: dll_def dest: chain_start)

lemma dll_bot: "dll nx pv tp bt xs \<Longrightarrow> bt = (if xs = [] then None else Some (last xs))"
proof -
  assume "dll nx pv tp bt xs"
  then have "dll pv nx bt tp (rev xs)" by (simp add: dll_sym [symmetric])
  from dll_top [OF this] show ?thesis by (simp add: hd_rev)
qed

lemma dll_top_Some: "dll nx pv (Some a) bt xs \<Longrightarrow> \<exists>ys. xs = a # ys"
  by (cases xs) (auto simp: dll_def)

lemma dll_bot_Some: "dll nx pv tp (Some a) xs \<Longrightarrow> \<exists>ys. xs = ys @ [a]"
  using dll_top_Some [of pv nx a tp "rev xs"] dll_sym [of nx pv tp "Some a" xs]
  by auto

lemma dll_None_iff: "dll nx pv tp bt xs \<Longrightarrow> (tp = None \<longleftrightarrow> xs = []) \<and> (bt = None \<longleftrightarrow> xs = [])"
  using dll_top [of nx pv tp bt xs] dll_bot [of nx pv tp bt xs] by auto

lemma dll_prev_top: "dll nx pv (Some a) bt xs \<Longrightarrow> pv a = None"
proof -
  assume d: "dll nx pv (Some a) bt xs"
  then obtain ys where "xs = a # ys" using dll_top_Some by blast
  with d show ?thesis by (auto simp: dll_def)
qed

lemma dll_next_bot: "dll nx pv tp (Some a) xs \<Longrightarrow> nx a = None"
  using dll_prev_top [of pv nx a tp "rev xs"] dll_sym [of nx pv tp "Some a" xs] by auto

lemma dll_frame:
  "dll nx pv tp bt xs \<Longrightarrow> u \<notin> set xs \<Longrightarrow> dll (nx(u := v)) pv tp bt xs"
  "dll nx pv tp bt xs \<Longrightarrow> u \<notin> set xs \<Longrightarrow> dll nx (pv(u := v)) tp bt xs"
  by (simp_all add: dll_def)

lemma dll_cong_on:
  assumes "dll nx pv tp bt xs"
    and "\<And>i. i \<in> set xs \<Longrightarrow> nx' i = nx i" and "\<And>i. i \<in> set xs \<Longrightarrow> pv' i = pv i"
  shows "dll nx' pv' tp bt xs"
proof -
  have c: "chain f' p as q" if "chain f p as q" "\<forall>i \<in> set as. f' i = f i" for f f' p as q
    using that by (induction as arbitrary: p) auto
  show ?thesis using assms c [of nx tp xs None nx'] c [of pv bt "rev xs" None pv']
    by (simp add: dll_def)
qed

text \<open>Pushing on the top, with the assignments the code makes for an empty and a non-empty list.\<close>

lemma dll_single: "dll (nx(w := None)) (pv(w := None)) (Some w) (Some w) [w]"
  by (simp add: dll_def)

lemma dll_push_top:
  assumes d: "dll nx pv (Some a) bt xs" and w: "w \<notin> set xs"
  shows "dll (nx(w := Some a)) ((pv(a := Some w))(w := None)) (Some w) bt (w # xs)"
proof -
  from d obtain ys where ys: "xs = a # ys" using dll_top_Some by blast
  with d w have "chain pv bt (rev ys) (Some a)" "a \<notin> set ys" "w \<noteq> a" "w \<notin> set ys"
    "chain nx (Some a) (a # ys) None" "distinct ys"
    by (auto simp: dll_def)
  then show ?thesis by (auto simp: dll_def ys)
qed

lemma dll_push_bot:
  assumes d: "dll nx pv tp (Some a) xs" and w: "w \<notin> set xs"
  shows "dll ((nx(a := Some w))(w := None)) (pv(w := Some a)) tp (Some w) (xs @ [w])"
proof -
  from d have "dll pv nx (Some a) tp (rev xs)" by (simp add: dll_sym [symmetric])
  from dll_push_top [OF this, of w] w show ?thesis
    by (simp add: dll_sym [of _ _ _ _ "xs @ [w]"])
qed

text \<open>
  Unlinking an element anywhere in the list. \<open>unlink_next\<close> and the others are the four assignments
  a removal makes: the neighbour's pointers, or the ends of the list where there is no neighbour.
\<close>

definition unlink_next :: "(nat \<Rightarrow> ptr) \<Rightarrow> (nat \<Rightarrow> ptr) \<Rightarrow> nat \<Rightarrow> nat \<Rightarrow> ptr" where
  "unlink_next nx pv w = (case pv w of None \<Rightarrow> nx | Some p \<Rightarrow> nx(p := nx w))"

definition unlink_end :: "(nat \<Rightarrow> ptr) \<Rightarrow> (nat \<Rightarrow> ptr) \<Rightarrow> nat \<Rightarrow> ptr \<Rightarrow> ptr" where
  "unlink_end nx pv w tp = (case pv w of None \<Rightarrow> nx w | Some p \<Rightarrow> tp)"

lemma dll_unlink:
  assumes d: "dll nx pv tp bt (as @ w # bs)"
  shows "dll (unlink_next nx pv w) (unlink_next pv nx w)
            (unlink_end nx pv w tp) (unlink_end pv nx w bt) (as @ bs)"
proof -
  from d have dist: "distinct (as @ w # bs)"
    and fwd: "chain nx tp as (Some w)" "chain nx (nx w) bs None"
    and bwd: "chain pv bt (rev bs) (Some w)" "chain pv (pv w) (rev as) None"
    by (auto simp: dll_def)
  have F: "chain (unlink_next nx pv w) (unlink_end nx pv w tp) (as @ bs) None"
  proof (cases as rule: rev_cases)
    case Nil
    with bwd fwd show ?thesis by (simp add: unlink_next_def unlink_end_def)
  next
    case (snoc cs p)
    with bwd have "pv w = Some p" by simp
    with fwd snoc dist show ?thesis by (auto simp: unlink_next_def unlink_end_def)
  qed
  have B: "chain (unlink_next pv nx w) (unlink_end pv nx w bt) (rev (as @ bs)) None"
  proof (cases bs)
    case Nil
    with bwd fwd show ?thesis by (simp add: unlink_next_def unlink_end_def)
  next
    case (Cons n cs)
    with fwd have "nx w = Some n" by simp
    with bwd Cons dist show ?thesis by (auto simp: unlink_next_def unlink_end_def)
  qed
  from F B dist show ?thesis by (simp add: dll_def)
qed

lemma dll_next_elem: "dll nx pv tp bt (as @ w # bs) \<Longrightarrow> nx w = (if bs = [] then None else Some (hd bs))"
  by (cases bs) (auto simp: dll_def)

lemma dll_prev_elem:
  assumes "dll nx pv tp bt (as @ w # bs)"
  shows "pv w = (if as = [] then None else Some (last as))"
  using assms dll_next_elem [of pv nx bt tp "rev bs" w "rev as"]
  by (simp add: dll_sym [of nx] hd_rev)

subsection \<open>The interface of a queue\<close>

text \<open>
  A first-in first-out queue over an arbitrary representation. \<open>rep s xs\<close>: the state \<open>s\<close> represents
  the list \<open>xs\<close>, oldest first. \<open>enq\<close> returns \<open>None\<close> if it aborts; \<open>adm x xs\<close> says when \<open>x\<close> may be
  appended (room in a ring buffer, an element that is not yet linked). \<open>deq\<close> returns the oldest
  element, or \<open>None\<close> inside the result for an empty queue.
\<close>

datatype 'a queue_op = Enq 'a | Deq

fun queue_run :: "('a \<Rightarrow> 's \<Rightarrow> 's option) \<Rightarrow> ('s \<Rightarrow> ('a option \<times> 's) option) \<Rightarrow>
    'a queue_op list \<Rightarrow> 's \<Rightarrow> ('a list \<times> 's) option" where
  "queue_run enq deq [] s = Some ([], s)"
| "queue_run enq deq (Enq x # ops) s =
     do { s \<leftarrow> enq x s; queue_run enq deq ops s }"
| "queue_run enq deq (Deq # ops) s =
     do { (r, s) \<leftarrow> deq s; (out, s) \<leftarrow> queue_run enq deq ops s;
          Some ((case r of None \<Rightarrow> out | Some x \<Rightarrow> x # out), s) }"

fun queue_ins :: "'a queue_op list \<Rightarrow> 'a list" where
  "queue_ins [] = []"
| "queue_ins (Enq x # ops) = x # queue_ins ops"
| "queue_ins (Deq # ops) = queue_ins ops"

text \<open>When a sequence of operations is admissible on a queue that holds \<open>xs\<close>.\<close>

fun queue_adm :: "('a \<Rightarrow> 'a list \<Rightarrow> bool) \<Rightarrow> 'a queue_op list \<Rightarrow> 'a list \<Rightarrow> bool" where
  "queue_adm adm [] xs = True"
| "queue_adm adm (Enq x # ops) xs = (adm x xs \<and> queue_adm adm ops (xs @ [x]))"
| "queue_adm adm (Deq # ops) xs = queue_adm adm ops (tl xs)"

locale fifo =
  fixes rep :: "'s \<Rightarrow> 'a list \<Rightarrow> bool"
    and adm :: "'a \<Rightarrow> 'a list \<Rightarrow> bool"
    and enq :: "'a \<Rightarrow> 's \<Rightarrow> 's option"
    and deq :: "'s \<Rightarrow> ('a option \<times> 's) option"
  assumes enq_rep: "rep s xs \<Longrightarrow> adm x xs \<Longrightarrow> \<exists>s'. enq x s = Some s' \<and> rep s' (xs @ [x])"
    and deq_rep: "rep s (x # xs) \<Longrightarrow> \<exists>s'. deq s = Some (Some x, s') \<and> rep s' xs"
    and deq_empty: "rep s [] \<Longrightarrow> deq s = Some (None, s)"
begin

lemma deq_step: "rep s xs \<Longrightarrow>
    \<exists>s'. deq s = Some (if xs = [] then None else Some (hd xs), s') \<and> rep s' (tl xs)"
  using deq_rep deq_empty by (cases xs) auto

text \<open>
  Every admissible run returns, and what it took out followed by what is left is what was there
  followed by what was put in: nothing is lost, duplicated or reordered.
\<close>

lemma fifo_run:
  assumes "rep s xs" and "queue_adm adm ops xs"
  shows "\<exists>out s' ys. queue_run enq deq ops s = Some (out, s') \<and> rep s' ys
            \<and> out @ ys = xs @ queue_ins ops"
  using assms
proof (induction ops arbitrary: s xs)
  case Nil
  then show ?case by auto
next
  case (Cons op ops)
  show ?case
  proof (cases op)
    case (Enq x)
    with Cons.prems obtain s' where s': "enq x s = Some s'" "rep s' (xs @ [x])"
      using enq_rep by fastforce
    from Cons.IH [OF s'(2)] Cons.prems Enq s'(1) show ?thesis by auto
  next
    case Deq
    from deq_step [OF Cons.prems(1)] obtain s' where
      s': "deq s = Some (if xs = [] then None else Some (hd xs), s')" "rep s' (tl xs)"
      by blast
    from Cons.IH [OF s'(2)] Cons.prems Deq s'(1) show ?thesis
      by (cases xs) fastforce+
  qed
qed

end

subsection \<open>The interface of a double ended list\<close>

text \<open>
  A list that is pushed on its top and taken from either end. Taken from the top it is a stack;
  taken from the bottom it is a queue, which is the sublocale below.
\<close>

locale deque =
  fixes rep :: "'s \<Rightarrow> 'a list \<Rightarrow> bool"
    and adm :: "'a \<Rightarrow> 'a list \<Rightarrow> bool"
    and push :: "'a \<Rightarrow> 's \<Rightarrow> 's option"
    and pop :: "'s \<Rightarrow> ('a option \<times> 's) option"
    and pull :: "'s \<Rightarrow> ('a option \<times> 's) option"
  assumes push_rep: "rep s xs \<Longrightarrow> adm x xs \<Longrightarrow> \<exists>s'. push x s = Some s' \<and> rep s' (x # xs)"
    and pop_rep: "rep s (x # xs) \<Longrightarrow> \<exists>s'. pop s = Some (Some x, s') \<and> rep s' xs"
    and pop_empty: "rep s [] \<Longrightarrow> pop s = Some (None, s)"
    and pull_rep: "rep s (xs @ [x]) \<Longrightarrow> \<exists>s'. pull s = Some (Some x, s') \<and> rep s' xs"
    and pull_empty: "rep s [] \<Longrightarrow> pull s = Some (None, s)"
begin

lemma push_then_pop:
  "rep s xs \<Longrightarrow> adm x xs \<Longrightarrow> \<exists>s' s''. push x s = Some s' \<and> pop s' = Some (Some x, s'') \<and> rep s'' xs"
  using push_rep pop_rep by blast

end

sublocale deque \<subseteq> bottom: fifo "\<lambda>s xs. rep s (rev xs)" "\<lambda>x xs. adm x (rev xs)" push pull
  by unfold_locales (auto dest: push_rep pull_rep pull_empty)

end
