(* ===== verification/TaskQueue.thy ===== *)
theory TaskQueue
  imports Linked
begin

text \<open>
  The data structures of src/potato_old/threadPool.c: the configuration macros, the structs of
  threadPool.h, the doubly linked worker lists (\<^verbatim>\<open>listPush\<close>, \<^verbatim>\<open>listPop\<close>, \<^verbatim>\<open>listPull\<close>) and the task
  queue, a ring buffer (\<^verbatim>\<open>queueGetNext\<close>, \<^verbatim>\<open>queueMakeNewEntry\<close>). The worker lists are shown to be a
  \<open>deque\<close>, the ring buffer a \<open>fifo\<close>.
\<close>

subsection \<open>Configuration\<close>

text \<open>
  The macros \<^verbatim>\<open>PO_THREADPOOL_QUEUE_LENGTH\<close>, \<^verbatim>\<open>PO_THREADPOOL_MAX_NUM_THREADS\<close> and
  \<^verbatim>\<open>PO_THREADPOOL_MAX_IDLE_TIME\<close> (milliseconds, -1 for no timeout, 0 for no idle threads). A
  conditional of the preprocessor on them is a conditional of the model.
\<close>

record tp_config =
  QUEUE_LENGTH :: nat
  MAX_NUM_THREADS :: nat
  MAX_IDLE_TIME :: int

text \<open>
  What threadPool.h checks while compiling, for the branch with threads. The lengths are values of
  type int, so they are below \<open>2 ^ 31\<close>.
\<close>

definition tp_config_ok :: "tp_config \<Rightarrow> bool" where
  "tp_config_ok cfg \<longleftrightarrow> 0 < MAX_NUM_THREADS cfg \<and> MAX_NUM_THREADS cfg < 2 ^ 31
     \<and> QUEUE_LENGTH cfg < 2 ^ 31 \<and> - 1 \<le> MAX_IDLE_TIME cfg"

subsection \<open>Structs\<close>

text \<open>Callbacks and user data are pointers the pool never looks into: numbers.\<close>

record POThreadPool_task =
  t_userCallback :: nat
  t_userData :: nat

record POThreadPool_taskQueue =
  tq_task :: "POThreadPool_task list"
  nextReadIndex :: uint32
  tq_num :: uint32

text \<open>
  A condition variable as its only waiter sees it: nobody waits, the thread waits, or the thread
  has been signalled and not yet resumed. A signal with no waiter is lost.
\<close>

datatype condvar = NoWaiter | Waiting | Signaled

fun cond_signal :: "condvar \<Rightarrow> condvar" where
  "cond_signal Waiting = Signaled"
| "cond_signal c = c"

record POThreadPool_worker =
  w_userCallback :: "nat option"
  w_userData :: nat
  w_next :: ptr
  w_prev :: ptr
  w_lastWorkTime :: real
  w_cond :: condvar

record POThreadPool_workerList =
  wl_length :: uint32
  wl_top :: ptr
  wl_bottom :: ptr

type_synonym workers = "nat \<Rightarrow> POThreadPool_worker"
type_synonym wlist = "POThreadPool_workerList \<times> workers"

subsection \<open>Worker lists\<close>

text \<open>The \<^verbatim>\<open>DASSERT\<close>s that all three list operations start with.\<close>

definition listChecks :: "wlist \<Rightarrow> unit option" where
  "listChecks = (\<lambda>(l, ws). do {
     ASSERT (case wl_top l of None \<Rightarrow> True | Some t \<Rightarrow> w_prev (ws t) = None);
     ASSERT (case wl_bottom l of None \<Rightarrow> True | Some b \<Rightarrow> w_next (ws b) = None);
     ASSERT (wl_top l = None \<longleftrightarrow> wl_bottom l = None)
   })"

definition listPush :: "tp_config \<Rightarrow> nat \<Rightarrow> wlist \<Rightarrow> wlist option" where
  "listPush cfg w = (\<lambda>(l, ws). do {
     ASSERT (unat (wl_length l) < MAX_NUM_THREADS cfg);
     listChecks (l, ws);
     let l = l\<lparr>wl_length := wl_length l + 1\<rparr>;
     (case wl_top l of
        None \<Rightarrow> Some (l\<lparr>wl_top := Some w, wl_bottom := Some w\<rparr>,
                      upd ws w (\<lambda>x. x\<lparr>w_prev := None, w_next := None\<rparr>))
      | Some t \<Rightarrow>
          let ws = upd ws t (\<lambda>x. x\<lparr>w_prev := Some w\<rparr>);
              ws = upd ws w (\<lambda>x. x\<lparr>w_next := Some t\<rparr>);
              ws = upd ws w (\<lambda>x. x\<lparr>w_prev := None\<rparr>)
          in Some (l\<lparr>wl_top := Some w\<rparr>, ws))
   })"

definition listPull :: "tp_config \<Rightarrow> wlist \<Rightarrow> (nat option \<times> wlist) option" where
  "listPull cfg = (\<lambda>(l, ws). do {
     ASSERT (unat (wl_length l) \<le> MAX_NUM_THREADS cfg);
     listChecks (l, ws);
     (if wl_top l = None then do { ASSERT (wl_length l = 0); Some (None, l, ws) }
      else do {
        ASSERT (wl_length l \<noteq> 0);
        let l = l\<lparr>wl_length := wl_length l - 1\<rparr>;
        w \<leftarrow> deref (wl_bottom l);
        let (l, ws) = (case w_prev (ws w) of
              Some p \<Rightarrow> (l, upd ws p (\<lambda>x. x\<lparr>w_next := None\<rparr>))
            | None \<Rightarrow> (l\<lparr>wl_top := None\<rparr>, ws));
        Some (Some w, l\<lparr>wl_bottom := w_prev (ws w)\<rparr>, ws)
      })
   })"

definition listPop :: "tp_config \<Rightarrow> wlist \<Rightarrow> (nat option \<times> wlist) option" where
  "listPop cfg = (\<lambda>(l, ws). do {
     ASSERT (unat (wl_length l) \<le> MAX_NUM_THREADS cfg);
     listChecks (l, ws);
     (case wl_top l of
        None \<Rightarrow> do { ASSERT (wl_length l = 0); Some (None, l, ws) }
      | Some w \<Rightarrow> do {
        ASSERT (wl_length l \<noteq> 0);
        let l = l\<lparr>wl_length := wl_length l - 1\<rparr>;
        let (l, ws) = (case w_next (ws w) of
              Some n \<Rightarrow> (l, upd ws n (\<lambda>x. x\<lparr>w_prev := None\<rparr>))
            | None \<Rightarrow> (l\<lparr>wl_bottom := None\<rparr>, ws));
        Some (Some w, l\<lparr>wl_top := w_next (ws w)\<rparr>, ws)
      })
   })"

text \<open>
  \<open>wl_rep (l, ws) xs\<close>: the list head \<open>l\<close> over the workers \<open>ws\<close> represents \<open>xs\<close>, top first.
\<close>

definition wl_rep :: "nat \<Rightarrow> wlist \<Rightarrow> nat list \<Rightarrow> bool" where
  "wl_rep n = (\<lambda>(l, ws) xs. dll (w_next \<circ> ws) (w_prev \<circ> ws) (wl_top l) (wl_bottom l) xs
     \<and> unat (wl_length l) = length xs \<and> set xs \<subseteq> {..<n})"

text \<open>The worker without its links: what no list operation may change.\<close>

definition unlinked :: "POThreadPool_worker \<Rightarrow> POThreadPool_worker" where
  "unlinked w = w\<lparr>w_next := None, w_prev := None\<rparr>"

definition links_only :: "nat set \<Rightarrow> workers \<Rightarrow> workers \<Rightarrow> bool" where
  "links_only A ws ws' \<longleftrightarrow> (\<forall>i. i \<notin> A \<longrightarrow> ws' i = ws i) \<and> (\<forall>i. unlinked (ws' i) = unlinked (ws i))"

lemma unlinked_fields:
  assumes "unlinked v = unlinked w"
  shows "w_userCallback v = w_userCallback w" "w_userData v = w_userData w"
    "w_lastWorkTime v = w_lastWorkTime w" "w_cond v = w_cond w"
  using assms by (cases v; cases w; simp add: unlinked_def)+

lemma links_only_fields:
  assumes "links_only A ws ws'"
  shows "w_userCallback (ws' i) = w_userCallback (ws i)" "w_userData (ws' i) = w_userData (ws i)"
    "w_lastWorkTime (ws' i) = w_lastWorkTime (ws i)" "w_cond (ws' i) = w_cond (ws i)"
  using assms unlinked_fields [of "ws' i" "ws i"] by (auto simp: links_only_def)

lemma wl_rep_length: "wl_rep n (l, ws) xs \<Longrightarrow> length xs \<le> n"
proof -
  assume "wl_rep n (l, ws) xs"
  then have "distinct xs" "set xs \<subseteq> {..<n}"
    by (auto simp: wl_rep_def dest: dll_distinct)
  then show ?thesis
    by (metis card_lessThan card_mono distinct_card finite_lessThan)
qed

lemma wl_rep_room:
  assumes "wl_rep n (l, ws) xs" and "w < n" and "w \<notin> set xs"
  shows "length xs < n"
proof -
  from assms have "distinct (w # xs)" "set (w # xs) \<subseteq> {..<n}"
    by (auto simp: wl_rep_def dest: dll_distinct)
  then have "length (w # xs) \<le> n"
    by (metis card_lessThan card_mono distinct_card finite_lessThan)
  then show ?thesis by simp
qed

lemma wl_rep_frame:
  assumes "wl_rep n (l, ws) xs" and "links_only A ws ws'" and "A \<inter> set xs = {}"
  shows "wl_rep n (l, ws') xs"
proof -
  have "ws' i = ws i" if "i \<in> set xs" for i
    using assms(2,3) that by (auto simp: links_only_def)
  then show ?thesis
    using assms(1) dll_cong_on [of "w_next \<circ> ws" "w_prev \<circ> ws" "wl_top l" "wl_bottom l" xs
        "w_next \<circ> ws'" "w_prev \<circ> ws'"]
    by (auto simp: wl_rep_def)
qed

lemma listChecks_rep: "wl_rep n (l, ws) xs \<Longrightarrow> listChecks (l, ws) = Some ()"
  using dll_None_iff dll_prev_top dll_next_bot
  by (fastforce simp: listChecks_def wl_rep_def split: option.splits)

lemma listPush_spec:
  assumes rep: "wl_rep n (l, ws) xs" and n: "MAX_NUM_THREADS cfg = n" "n < 2 ^ 32"
    and w: "w < n" "w \<notin> set xs"
  shows "\<exists>l' ws'. listPush cfg w (l, ws) = Some (l', ws') \<and> wl_rep n (l', ws') (w # xs)
           \<and> links_only (insert w (set xs)) ws ws'"
proof -
  from wl_rep_room [OF rep w] have room: "length xs < n" .
  from rep have len: "unat (wl_length l) = length xs"
    and d: "dll (w_next \<circ> ws) (w_prev \<circ> ws) (wl_top l) (wl_bottom l) xs" and sub: "set xs \<subseteq> {..<n}"
    by (auto simp: wl_rep_def)
  have len': "unat (wl_length l + 1) = Suc (length xs)"
    using unat_Suc_bound [of "wl_length l" n] len room n by simp
  show ?thesis
  proof (cases "wl_top l")
    case None
    with d have "xs = []" using dll_None_iff by blast
    with None show ?thesis
      using listChecks_rep [OF rep] len len' room n w
      by (auto simp: listPush_def wl_rep_def links_only_def unlinked_def upd_apply po_heap dll_single)
  next
    case (Some t)
    with d have t: "t \<in> set xs" using dll_top_Some by fastforce
    with w have "t \<noteq> w" by auto
    with dll_push_top [OF d [unfolded Some] w(2)] Some t show ?thesis
      using listChecks_rep [OF rep] len len' room n w sub
      by (auto simp: listPush_def wl_rep_def links_only_def unlinked_def upd_apply po_heap Let_def)
  qed
qed

lemma unlink_pop:
  "pv w = None \<Longrightarrow> unlink_next nx pv w = nx \<and> unlink_end nx pv w tp = nx w"
  by (simp add: unlink_next_def unlink_end_def)

lemma listPop_spec:
  assumes rep: "wl_rep n (l, ws) (w # xs)" and n: "MAX_NUM_THREADS cfg = n"
  shows "\<exists>l' ws'. listPop cfg (l, ws) = Some (Some w, l', ws') \<and> wl_rep n (l', ws') xs
           \<and> links_only (set (w # xs)) ws ws'"
proof -
  from rep have len: "unat (wl_length l) = Suc (length xs)"
    and d: "dll (w_next \<circ> ws) (w_prev \<circ> ws) (wl_top l) (wl_bottom l) (w # xs)"
    and sub: "set (w # xs) \<subseteq> {..<n}"
    by (auto simp: wl_rep_def)
  from d have top: "wl_top l = Some w" using dll_top by fastforce
  with d have pv: "w_prev (ws w) = None" using dll_prev_top [of "w_next \<circ> ws" "w_prev \<circ> ws"] by auto
  from len have nz: "wl_length l \<noteq> 0" by auto
  have len': "unat (wl_length l - 1) = length xs" using unat_pred_pos [OF nz] len by simp
  have U: "dll (unlink_next (w_next \<circ> ws) (w_prev \<circ> ws) w) (unlink_next (w_prev \<circ> ws) (w_next \<circ> ws) w)
      (unlink_end (w_next \<circ> ws) (w_prev \<circ> ws) w (wl_top l))
      (unlink_end (w_prev \<circ> ws) (w_next \<circ> ws) w (wl_bottom l)) xs"
    using dll_unlink [of "w_next \<circ> ws" "w_prev \<circ> ws" "wl_top l" "wl_bottom l" "[]" w xs] d by simp
  have dist: "distinct (w # xs)" by (rule dll_distinct [OF d])
  have le: "length (w # xs) \<le> n" by (rule wl_rep_length [OF rep])
  show ?thesis
  proof (cases "w_next (ws w)")
    case None
    with U pv top show ?thesis
      using listChecks_rep [OF rep] nz len len' le n sub
      by (auto simp: listPop_def wl_rep_def links_only_def unlink_next_def unlink_end_def)
  next
    case (Some m)
    then have "m \<in> set xs" using dll_next_elem [of _ _ _ _ "[]" w xs] d by (fastforce split: if_splits)
    with U pv top Some dist show ?thesis
      using listChecks_rep [OF rep] nz len len' le n sub
      by (auto simp: listPop_def wl_rep_def links_only_def unlink_next_def unlink_end_def upd_apply
          unlinked_def po_heap)
  qed
qed

lemma listPull_spec:
  assumes rep: "wl_rep n (l, ws) (xs @ [w])" and n: "MAX_NUM_THREADS cfg = n"
  shows "\<exists>l' ws'. listPull cfg (l, ws) = Some (Some w, l', ws') \<and> wl_rep n (l', ws') xs
           \<and> links_only (set (xs @ [w])) ws ws'"
proof -
  from rep have len: "unat (wl_length l) = Suc (length xs)"
    and d: "dll (w_next \<circ> ws) (w_prev \<circ> ws) (wl_top l) (wl_bottom l) (xs @ [w])"
    and sub: "set (xs @ [w]) \<subseteq> {..<n}"
    by (auto simp: wl_rep_def)
  from d have bot: "wl_bottom l = Some w" using dll_bot by fastforce
  from d have top: "wl_top l \<noteq> None" using dll_None_iff by blast
  from d bot have nx: "w_next (ws w) = None" using dll_next_bot [of "w_next \<circ> ws" "w_prev \<circ> ws"] by auto
  from len have nz: "wl_length l \<noteq> 0" by auto
  have len': "unat (wl_length l - 1) = length xs" using unat_pred_pos [OF nz] len by simp
  have U: "dll (unlink_next (w_next \<circ> ws) (w_prev \<circ> ws) w) (unlink_next (w_prev \<circ> ws) (w_next \<circ> ws) w)
      (unlink_end (w_next \<circ> ws) (w_prev \<circ> ws) w (wl_top l))
      (unlink_end (w_prev \<circ> ws) (w_next \<circ> ws) w (wl_bottom l)) xs"
    using dll_unlink [of "w_next \<circ> ws" "w_prev \<circ> ws" "wl_top l" "wl_bottom l" xs w "[]"] d by simp
  have dist: "distinct (xs @ [w])" by (rule dll_distinct [OF d])
  have le: "length (xs @ [w]) \<le> n" by (rule wl_rep_length [OF rep])
  show ?thesis
  proof (cases "w_prev (ws w)")
    case None
    with U nx bot top show ?thesis
      using listChecks_rep [OF rep] nz len len' le n sub
      by (auto simp: listPull_def wl_rep_def links_only_def unlink_next_def unlink_end_def)
  next
    case (Some m)
    then have "m \<in> set xs" using dll_prev_elem [of _ _ _ _ xs w "[]"] d by (fastforce split: if_splits)
    with U nx bot top Some dist show ?thesis
      using listChecks_rep [OF rep] nz len len' le n sub
      by (auto simp: listPull_def wl_rep_def links_only_def unlink_next_def unlink_end_def upd_apply
          unlinked_def po_heap)
  qed
qed

lemma list_empty_spec:
  assumes rep: "wl_rep n (l, ws) []"
  shows "listPop cfg (l, ws) = Some (None, l, ws)" "listPull cfg (l, ws) = Some (None, l, ws)"
proof -
  from rep have "wl_top l = None" "wl_bottom l = None" "wl_length l = 0"
    by (auto simp: wl_rep_def unat_eq_zero_iff)
  then show "listPop cfg (l, ws) = Some (None, l, ws)" "listPull cfg (l, ws) = Some (None, l, ws)"
    by (simp_all add: listPop_def listPull_def listChecks_def)
qed

interpretation wl: deque "\<lambda>s xs. tp_config_ok cfg \<and> wl_rep (MAX_NUM_THREADS cfg) s xs"
    "\<lambda>w xs. w < MAX_NUM_THREADS cfg \<and> w \<notin> set xs" "listPush cfg" "listPop cfg" "listPull cfg"
  for cfg :: tp_config
proof (unfold_locales, goal_cases)
  case (1 s xs x)
  then show ?case using listPush_spec [of _ "fst s" "snd s" xs cfg x]
    by (fastforce simp: tp_config_ok_def)
next
  case (2 s x xs)
  then show ?case using listPop_spec [of _ "fst s" "snd s" x xs cfg] by fastforce
next
  case (3 s)
  then show ?case using list_empty_spec [of _ "fst s" "snd s" cfg] by fastforce
next
  case (4 s xs x)
  then show ?case using listPull_spec [of _ "fst s" "snd s" xs x cfg] by fastforce
next
  case (5 s)
  then show ?case using list_empty_spec [of _ "fst s" "snd s" cfg] by fastforce
qed

subsection \<open>The task queue\<close>

text \<open>
  The \<^verbatim>\<open>DASSERT\<close>s of the queue operations. The array access is checked against the length of the
  array as well; index arithmetic is that of uint32\_t.
\<close>

definition queueAsserts :: "tp_config \<Rightarrow> POThreadPool_taskQueue \<Rightarrow> unit option" where
  "queueAsserts cfg q = do {
     ASSERT (unat (nextReadIndex q) < QUEUE_LENGTH cfg);
     ASSERT (unat (tq_num q) \<le> QUEUE_LENGTH cfg)
   }"

definition queueCheck :: "tp_config \<Rightarrow> POThreadPool_taskQueue \<Rightarrow> bool option" where
  "queueCheck cfg q = do { queueAsserts cfg q; Some (tq_num q > 0) }"

definition queueGetNext :: "tp_config \<Rightarrow> POThreadPool_taskQueue \<Rightarrow>
    (POThreadPool_task option \<times> POThreadPool_taskQueue) option" where
  "queueGetNext cfg q = do {
     queueAsserts cfg q;
     (if tq_num q = 0 then Some (None, q)
      else do {
        let i = nextReadIndex q;
        let q = (if unat i < QUEUE_LENGTH cfg - 1 then q\<lparr>nextReadIndex := nextReadIndex q + 1\<rparr>
                 else q\<lparr>nextReadIndex := 0\<rparr>);
        let q = q\<lparr>tq_num := tq_num q - 1\<rparr>;
        ASSERT (unat i < length (tq_task q));
        Some (Some (tq_task q ! unat i), q)
      })
   }"

definition queueMakeNewEntry :: "tp_config \<Rightarrow> POThreadPool_task \<Rightarrow> POThreadPool_taskQueue \<Rightarrow>
    (bool \<times> POThreadPool_taskQueue) option" where
  "queueMakeNewEntry cfg t q = do {
     queueAsserts cfg q;
     (if unat (tq_num q) = QUEUE_LENGTH cfg then Some (False, q)
      else do {
        let i = (nextReadIndex q + tq_num q) mod of_nat (QUEUE_LENGTH cfg);
        let q = q\<lparr>tq_num := tq_num q + 1\<rparr>;
        ASSERT (unat i < length (tq_task q));
        Some (True, q\<lparr>tq_task := (tq_task q)[unat i := t]\<rparr>)
      })
   }"

definition tq_rep :: "tp_config \<Rightarrow> POThreadPool_taskQueue \<Rightarrow> POThreadPool_task list \<Rightarrow> bool" where
  "tq_rep cfg q xs \<longleftrightarrow> length (tq_task q) = QUEUE_LENGTH cfg
     \<and> unat (nextReadIndex q) < QUEUE_LENGTH cfg
     \<and> unat (tq_num q) = length xs \<and> length xs \<le> QUEUE_LENGTH cfg
     \<and> (\<forall>k < length xs. tq_task q ! ((unat (nextReadIndex q) + k) mod QUEUE_LENGTH cfg) = xs ! k)"

lemma tq_rep_asserts: "tq_rep cfg q xs \<Longrightarrow> queueAsserts cfg q = Some ()"
  by (simp add: tq_rep_def queueAsserts_def)

lemma queueGetNext_empty: "tq_rep cfg q [] \<Longrightarrow> queueGetNext cfg q = Some (None, q)"
  by (simp add: queueGetNext_def tq_rep_asserts) (simp add: tq_rep_def unat_eq_zero_iff)

text \<open>The read index steps through the ring.\<close>

lemma ring_step:
  fixes i :: uint32
  assumes "unat i < n" and "n < 2 ^ 31"
  shows "unat (if unat i < n - 1 then i + 1 else 0) = Suc (unat i) mod n"
proof (cases "unat i < n - 1")
  case True
  then have "unat (i + 1) = Suc (unat i)" using unat_Suc_bound [of i "n - 1"] assms by simp
  with True show ?thesis by simp
next
  case False
  with assms have "Suc (unat i) = n" by simp
  with False show ?thesis by simp
qed

lemma queueGetNext_spec:
  assumes rep: "tq_rep cfg q (x # xs)" and small: "QUEUE_LENGTH cfg < 2 ^ 31"
  shows "\<exists>q'. queueGetNext cfg q = Some (Some x, q') \<and> tq_rep cfg q' xs"
proof -
  define n i where "n = QUEUE_LENGTH cfg" and "i = nextReadIndex q"
  define j where "j = (if unat i < n - 1 then i + 1 else 0)"
  define q' where "q' = q\<lparr>nextReadIndex := j, tq_num := tq_num q - 1\<rparr>"
  from rep have i: "unat i < n" and num: "unat (tq_num q) = Suc (length xs)"
    and len: "length (tq_task q) = n" and le: "Suc (length xs) \<le> n"
    and el: "\<And>k. k < Suc (length xs) \<Longrightarrow> tq_task q ! ((unat i + k) mod n) = (x # xs) ! k"
    by (auto simp: tq_rep_def n_def i_def)
  from num have nz: "tq_num q \<noteq> 0" by auto
  have j: "unat j = Suc (unat i) mod n"
    unfolding j_def using ring_step i small by (simp add: n_def)
  have "queueGetNext cfg q = Some (Some (tq_task q ! unat i), q')"
    using nz len i rep by (simp add: queueGetNext_def tq_rep_asserts Let_def q'_def j_def n_def i_def)
  moreover have "tq_task q ! unat i = x" using el [of 0] i by simp
  moreover have "tq_rep cfg q' xs"
  proof -
    have "tq_task q ! ((unat j + k) mod n) = xs ! k" if "k < length xs" for k
      using el [of "Suc k"] that by (simp add: j mod_add_left_eq)
    then show ?thesis
      using unat_pred_pos [OF nz] num len le j by (simp add: tq_rep_def q'_def n_def)
  qed
  ultimately show ?thesis by simp
qed

lemma queueMakeNewEntry_full:
  "tq_rep cfg q xs \<Longrightarrow> length xs = QUEUE_LENGTH cfg \<Longrightarrow> queueMakeNewEntry cfg t q = Some (False, q)"
  by (simp add: queueMakeNewEntry_def tq_rep_asserts) (simp add: tq_rep_def)

lemma ring_slots_differ:
  fixes i k m n :: nat
  assumes "k < m" and "m < n"
  shows "(i + m) mod n \<noteq> (i + k) mod n"
proof
  assume "(i + m) mod n = (i + k) mod n"
  then have "n dvd (i + m) - (i + k)"
    using mod_eq_dvd_iff_nat [of "i + k" "i + m" n] assms by simp
  then have "n dvd m - k" by simp
  with assms show False by (auto dest: dvd_imp_le)
qed

lemma queueMakeNewEntry_spec:
  assumes rep: "tq_rep cfg q xs" and room: "length xs < QUEUE_LENGTH cfg"
    and small: "QUEUE_LENGTH cfg < 2 ^ 31"
  shows "\<exists>q'. queueMakeNewEntry cfg t q = Some (True, q') \<and> tq_rep cfg q' (xs @ [t])"
proof -
  define n i where "n = QUEUE_LENGTH cfg" and "i = nextReadIndex q"
  define s where "s = (unat i + length xs) mod n"
  define q' where "q' = q\<lparr>tq_num := tq_num q + 1, tq_task := (tq_task q)[s := t]\<rparr>"
  from rep have i: "unat i < n" and num: "unat (tq_num q) = length xs"
    and len: "length (tq_task q) = n"
    and el: "\<And>k. k < length xs \<Longrightarrow> tq_task q ! ((unat i + k) mod n) = xs ! k"
    by (auto simp: tq_rep_def n_def i_def)
  have n: "0 < n" "n < 2 ^ 31" "length xs < n" using room small by (auto simp: n_def)
  have "unat (i + tq_num q) = unat i + length xs"
    using unat_add_lem [of i "tq_num q"] i n num by simp
  then have idx: "unat ((i + tq_num q) mod of_nat n) = s"
    using n by (simp add: s_def unat_mod unsigned_of_nat take_bit_nat_eq_self)
  have "s < n" using n by (simp add: s_def)
  then have "queueMakeNewEntry cfg t q = Some (True, q')"
    using rep room idx num len
    by (simp add: queueMakeNewEntry_def tq_rep_asserts Let_def q'_def n_def i_def)
  moreover have "tq_rep cfg q' (xs @ [t])"
  proof -
    have "(tq_task q)[s := t] ! ((unat i + k) mod n) = (xs @ [t]) ! k" if "k < Suc (length xs)" for k
    proof (cases "k = length xs")
      case True
      then show ?thesis using \<open>s < n\<close> len by (simp add: s_def nth_append)
    next
      case False
      with that have k: "k < length xs" by simp
      have "s \<noteq> (unat i + k) mod n" unfolding s_def using ring_slots_differ k n by blast
      then show ?thesis using el [OF k] k by (simp add: nth_append)
    qed
    moreover have "unat (tq_num q + 1) = Suc (length xs)"
      using unat_Suc_bound [of "tq_num q" n] num n by simp
    ultimately show ?thesis using len i n by (simp add: tq_rep_def q'_def n_def i_def)
  qed
  ultimately show ?thesis by simp
qed

text \<open>
  Both operations of the ring as a queue. Appending is admissible while there is room; the code's
  answer \<^verbatim>\<open>false\<close> for a full queue is the lemma above.
\<close>

definition taskq_enq :: "tp_config \<Rightarrow> POThreadPool_task \<Rightarrow> POThreadPool_taskQueue \<Rightarrow>
    POThreadPool_taskQueue option" where
  "taskq_enq cfg t q = map_option snd (queueMakeNewEntry cfg t q)"

interpretation tq: fifo "\<lambda>q xs. tp_config_ok cfg \<and> tq_rep cfg q xs"
    "\<lambda>t xs. length xs < QUEUE_LENGTH cfg" "taskq_enq cfg" "queueGetNext cfg"
  for cfg :: tp_config
proof (unfold_locales, goal_cases)
  case (1 s xs x)
  then show ?case using queueMakeNewEntry_spec [of cfg s xs x]
    by (auto simp: taskq_enq_def tp_config_ok_def)
next
  case (2 s x xs)
  then show ?case using queueGetNext_spec [of cfg s x xs] by (auto simp: tp_config_ok_def)
next
  case (3 s)
  then show ?case by (simp add: queueGetNext_empty)
qed

end
