(* ===== verification/ThreadPool.thy ===== *)
theory ThreadPool
  imports TaskQueue
begin

text \<open>
  The operations of src/potato_old/threadPool.c. All data of a pool is protected by the pool mutex,
  so what a thread does between taking the mutex and giving it up (by unlocking it, or inside
  \<^verbatim>\<open>pthread_cond_wait\<close>) is one atomic section; each definition below is one such section, or a part
  of it with the name it has in the source. \<open>None\<close> is a failed assertion. The time read by
  \<^verbatim>\<open>poTime_getDouble\<close> is an argument (a real number: rounding of doubles is not modelled).
\<close>

record POThreadPool =
  num_threads :: uint32
  task :: POThreadPool_taskQueue
  task1 :: POThreadPool_task
  worker :: workers
  idle :: POThreadPool_workerList
  unused :: POThreadPool_workerList
  p_cond :: condvar
  cleanup :: bool
  detachThread :: bool
  taskWaitingToBeRun :: bool

text \<open>
  The struct has one member \<^verbatim>\<open>task\<close>: a queue (\<open>task\<close> here) if \<^verbatim>\<open>PO_THREADPOOL_QUEUE_LENGTH > 0\<close>, else
  room for one task (\<open>task1\<close>).
\<close>

subsection \<open>Construction\<close>

text \<open>The object that \<^verbatim>\<open>memset(p, 0, sizeof(*p))\<close> leaves.\<close>

definition zero_task :: POThreadPool_task where
  "zero_task = \<lparr>t_userCallback = 0, t_userData = 0\<rparr>"

definition zero_worker :: POThreadPool_worker where
  "zero_worker = \<lparr>w_userCallback = None, w_userData = 0, w_next = None, w_prev = None,
     w_lastWorkTime = 0, w_cond = NoWaiter\<rparr>"

definition zero_list :: POThreadPool_workerList where
  "zero_list = \<lparr>wl_length = 0, wl_top = None, wl_bottom = None\<rparr>"

definition zero_pool :: "tp_config \<Rightarrow> POThreadPool" where
  "zero_pool cfg = \<lparr>num_threads = 0,
     task = \<lparr>tq_task = replicate (QUEUE_LENGTH cfg) zero_task, nextReadIndex = 0, tq_num = 0\<rparr>,
     task1 = zero_task, worker = (\<lambda>_. zero_worker), idle = zero_list, unused = zero_list,
     p_cond = NoWaiter, cleanup = False, detachThread = False, taskWaitingToBeRun = False\<rparr>"

text \<open>One turn of the loop that links worker[i] into the list of unused workers.\<close>

definition create_step :: "tp_config \<Rightarrow> nat \<Rightarrow> POThreadPool \<Rightarrow> POThreadPool" where
  "create_step cfg i p =
     (if i \<noteq> 0 then
        p\<lparr>worker := upd (upd (worker p) (i - 1) (\<lambda>w. w\<lparr>w_next := Some i\<rparr>))
             i (\<lambda>w. w\<lparr>w_prev := Some (i - 1)\<rparr>)\<rparr>
      else
        p\<lparr>worker := upd (upd (worker p) (MAX_NUM_THREADS cfg - 1) (\<lambda>w. w\<lparr>w_next := None\<rparr>))
             i (\<lambda>w. w\<lparr>w_prev := None\<rparr>),
          unused := (unused p)\<lparr>wl_top := Some 0, wl_bottom := Some (MAX_NUM_THREADS cfg - 1)\<rparr>\<rparr>)"

text \<open>
  \<open>ok k\<close> is the success of the k-th initialisation call of pthreads: the condition of worker k, then
  the mutex and the condition of the pool. A failure ends in \<^verbatim>\<open>ASSERT\<close>.
\<close>

primrec create_loop :: "tp_config \<Rightarrow> (nat \<Rightarrow> bool) \<Rightarrow> nat list \<Rightarrow> POThreadPool \<Rightarrow> POThreadPool option" where
  "create_loop cfg ok [] p = Some p"
| "create_loop cfg ok (i # is) p = do { ASSERT (ok i); create_loop cfg ok is (create_step cfg i p) }"

definition poThreadPool_create :: "tp_config \<Rightarrow> (nat \<Rightarrow> bool) \<Rightarrow> POThreadPool option" where
  "poThreadPool_create cfg ok = do {
     let p = zero_pool cfg;
     let p = p\<lparr>unused := (unused p)\<lparr>wl_length := of_nat (MAX_NUM_THREADS cfg)\<rparr>\<rparr>;
     p \<leftarrow> create_loop cfg ok [0..<MAX_NUM_THREADS cfg] p;
     let p = p\<lparr>detachThread := True\<rparr>;
     ASSERT (ok (MAX_NUM_THREADS cfg));
     ASSERT (ok (Suc (MAX_NUM_THREADS cfg)));
     Some p
   }"

subsection \<open>The worker thread\<close>

definition signal_pool :: "POThreadPool \<Rightarrow> POThreadPool" where
  "signal_pool p = p\<lparr>p_cond := cond_signal (p_cond p)\<rparr>"

definition signal_worker :: "nat \<Rightarrow> POThreadPool \<Rightarrow> POThreadPool" where
  "signal_worker i p = p\<lparr>worker := upd (worker p) i (\<lambda>w. w\<lparr>w_cond := cond_signal (w_cond w)\<rparr>)\<rparr>"

definition lookForWork :: "tp_config \<Rightarrow> POThreadPool \<Rightarrow>
    (POThreadPool_task option \<times> POThreadPool) option" where
  "lookForWork cfg p =
     (if QUEUE_LENGTH cfg > 0 then do {
        (t, q) \<leftarrow> queueGetNext cfg (task p);
        let p = p\<lparr>task := q\<rparr>;
        (case t of
           None \<Rightarrow> Some (None, p)
         | Some t \<Rightarrow> do {
             ASSERT (wl_top (unused p) = None);
             ASSERT (MAX_IDLE_TIME cfg \<noteq> 0 \<longrightarrow> wl_top (idle p) = None);
             Some (Some t, if taskWaitingToBeRun p then signal_pool p else p)
           })
      }
      else if taskWaitingToBeRun p then Some (Some (task1 p), signal_pool p)
      else Some (None, p))"

text \<open>
  What a worker thread does after a section: run a task outside of the mutex, sleep in
  \<^verbatim>\<open>condWait(&worker->cond, pmutex)\<close>, or return.
\<close>

datatype wnext = Run POThreadPool_task | Sleep | Exit

text \<open>The first section of \<^verbatim>\<open>workerCallback\<close>: a new thread picks up its task and reports to the master.\<close>

definition worker_enter :: "tp_config \<Rightarrow> nat \<Rightarrow> POThreadPool \<Rightarrow> (wnext \<times> POThreadPool) option" where
  "worker_enter cfg i p = do {
     let w = worker p i;
     cb \<leftarrow> w_userCallback w;
     let t = \<lparr>t_userCallback = cb, t_userData = w_userData w\<rparr>;
     let p = p\<lparr>num_threads := num_threads p + 1\<rparr>;
     ASSERT (unat (num_threads p) \<le> MAX_NUM_THREADS cfg);
     Some (Run t, signal_pool p)
   }"

text \<open>After the loop of \<^verbatim>\<open>workerCallback\<close>: back to the unused workers. What \<^verbatim>\<open>pthread_detach\<close> does is left to the system.\<close>

definition worker_leave :: "tp_config \<Rightarrow> nat \<Rightarrow> POThreadPool \<Rightarrow> (wnext \<times> POThreadPool) option" where
  "worker_leave cfg i p = do {
     (l, ws) \<leftarrow> listPush cfg i (unused p, worker p);
     let p = p\<lparr>unused := l, worker := ws\<rparr>;
     let p = p\<lparr>num_threads := num_threads p - 1\<rparr>;
     ASSERT (unat (num_threads p) < MAX_NUM_THREADS cfg);
     ASSERT (QUEUE_LENGTH cfg > 0 \<longrightarrow> tq_num (task p) = 0);
     Some (Exit, p)
   }"

text \<open>Into the idle list and to sleep.\<close>

definition worker_sleep :: "tp_config \<Rightarrow> real \<Rightarrow> nat \<Rightarrow> POThreadPool \<Rightarrow> (wnext \<times> POThreadPool) option" where
  "worker_sleep cfg t i p = do {
     let p = p\<lparr>worker := upd (worker p) i (\<lambda>w. w\<lparr>w_userCallback := None\<rparr>)\<rparr>;
     let p = (if MAX_IDLE_TIME cfg > 0
              then p\<lparr>worker := upd (worker p) i (\<lambda>w. w\<lparr>w_lastWorkTime := t\<rparr>)\<rparr> else p);
     (l, ws) \<leftarrow> listPush cfg i (idle p, worker p);
     let p = p\<lparr>idle := l, worker := ws\<rparr>;
     Some (Sleep, p\<lparr>worker := upd (worker p) i (\<lambda>w. w\<lparr>w_cond := Waiting\<rparr>)\<rparr>)
   }"

text \<open>The section after the user callback has returned.\<close>

definition worker_done :: "tp_config \<Rightarrow> real \<Rightarrow> nat \<Rightarrow> POThreadPool \<Rightarrow> (wnext \<times> POThreadPool) option" where
  "worker_done cfg t i p = do {
     (r, p) \<leftarrow> lookForWork cfg p;
     (case r of
        Some tk \<Rightarrow> Some (Run tk, p)
      | None \<Rightarrow>
          if cleanup p then worker_leave cfg i (if num_threads p = 1 then signal_pool p else p)
          else if MAX_IDLE_TIME cfg \<noteq> 0 then worker_sleep cfg t i p
          else worker_leave cfg i p)
   }"

text \<open>The section after \<^verbatim>\<open>condWait(&worker->cond, pmutex)\<close> returns.\<close>

definition worker_wake :: "tp_config \<Rightarrow> nat \<Rightarrow> POThreadPool \<Rightarrow> (wnext \<times> POThreadPool) option" where
  "worker_wake cfg i p = do {
     let p = p\<lparr>worker := upd (worker p) i (\<lambda>w. w\<lparr>w_cond := NoWaiter\<rparr>)\<rparr>;
     let w = worker p i;
     (case w_userCallback w of
        Some cb \<Rightarrow> Some (Run \<lparr>t_userCallback = cb, t_userData = w_userData w\<rparr>, p)
      | None \<Rightarrow> do {
          (r, p) \<leftarrow> lookForWork cfg p;
          (case r of Some tk \<Rightarrow> Some (Run tk, p) | None \<Rightarrow> worker_leave cfg i p)
        })
   }"

subsection \<open>The master thread\<close>

definition checkThreadTimeout :: "tp_config \<Rightarrow> real \<Rightarrow> POThreadPool \<Rightarrow> POThreadPool option" where
  "checkThreadTimeout cfg t p =
     (if num_threads p < 2 then Some p
      else if num_threads p > 2 \<and>
         (case wl_bottom (idle p) of None \<Rightarrow> False
          | Some b \<Rightarrow> t - w_lastWorkTime (worker p b) > of_int (MAX_IDLE_TIME cfg) / 1000)
      then do {
        (w, l, ws) \<leftarrow> listPull cfg (idle p, worker p);
        let p = p\<lparr>idle := l, worker := ws\<rparr>;
        w \<leftarrow> w;
        ASSERT (w_userCallback (worker p w) = None);
        Some (signal_worker w p)
      }
      else Some p)"

text \<open>\<^verbatim>\<open>DVASSERT(!p->idle.top || !p->task.num, ...)\<close>.\<close>

definition idle_xor_queued :: "tp_config \<Rightarrow> POThreadPool \<Rightarrow> unit option" where
  "idle_xor_queued cfg p = ASSERT (MAX_IDLE_TIME cfg \<noteq> 0 \<and> QUEUE_LENGTH cfg > 0 \<longrightarrow>
     wl_top (idle p) = None \<or> tq_num (task p) = 0)"

definition poThreadPool_checkIdleThreadTimeout :: "tp_config \<Rightarrow> real \<Rightarrow> POThreadPool \<Rightarrow> POThreadPool option" where
  "poThreadPool_checkIdleThreadTimeout cfg t p =
     (if MAX_IDLE_TIME cfg > 0 then do {
        idle_xor_queued cfg p;
        ASSERT (unat (num_threads p) \<le> MAX_NUM_THREADS cfg);
        checkThreadTimeout cfg t p
      } else Some p)"

text \<open>
  What the master does after a section of \<^verbatim>\<open>poThreadPool_runTask\<close>: return, wait for the new thread
  of worker i to start, or wait for a worker to take a task.
\<close>

datatype mnext = Returns | AwaitStart nat | AwaitRoom

text \<open>One turn of the loop of \<^verbatim>\<open>poThreadPool_runTask\<close>.\<close>

definition runTask_turn :: "tp_config \<Rightarrow> real \<Rightarrow> POThreadPool_task \<Rightarrow> POThreadPool \<Rightarrow>
    (mnext \<times> POThreadPool) option" where
  "runTask_turn cfg t tk p = do {
     (iw, p) \<leftarrow> (if MAX_IDLE_TIME cfg \<noteq> 0 then do {
          (w, l, ws) \<leftarrow> listPop cfg (idle p, worker p);
          Some (w, p\<lparr>idle := l, worker := ws\<rparr>) } else Some (None, p));
     (case iw of
        Some i \<Rightarrow> do {
          let p = signal_worker i p;
          let p = p\<lparr>worker := upd (worker p) i (\<lambda>w. w\<lparr>w_userCallback := Some (t_userCallback tk),
                                                    w_userData := t_userData tk\<rparr>)\<rparr>;
          p \<leftarrow> (if MAX_IDLE_TIME cfg > 0 then checkThreadTimeout cfg t p else Some p);
          Some (Returns, p)
        }
      | None \<Rightarrow> do {
          (uw, l, ws) \<leftarrow> listPop cfg (unused p, worker p);
          let p = p\<lparr>unused := l, worker := ws\<rparr>;
          (case uw of
             Some i \<Rightarrow> do {
               ASSERT (unat (num_threads p) < MAX_NUM_THREADS cfg);
               let p = p\<lparr>worker := upd (worker p) i (\<lambda>w. w\<lparr>w_userCallback := Some (t_userCallback tk),
                                                         w_userData := t_userData tk\<rparr>)\<rparr>;
               Some (AwaitStart i, p\<lparr>p_cond := Waiting\<rparr>)
             }
           | None \<Rightarrow> do {
               (made, p) \<leftarrow> (if QUEUE_LENGTH cfg > 0 then do {
                    (b, q) \<leftarrow> queueMakeNewEntry cfg tk (task p);
                    Some (b, p\<lparr>task := q\<rparr>) } else Some (False, p));
               (if made then Some (Returns, p)
                else do {
                  let p = p\<lparr>taskWaitingToBeRun := True\<rparr>;
                  let p = (if QUEUE_LENGTH cfg < 1 then p\<lparr>task1 := tk\<rparr> else p);
                  Some (AwaitRoom, p\<lparr>p_cond := Waiting\<rparr>)
                })
             })
        })
   }"

definition runTask_enter :: "tp_config \<Rightarrow> real \<Rightarrow> POThreadPool_task \<Rightarrow> POThreadPool \<Rightarrow>
    (mnext \<times> POThreadPool) option" where
  "runTask_enter cfg t tk p = do {
     idle_xor_queued cfg p;
     ASSERT (unat (num_threads p) \<le> MAX_NUM_THREADS cfg);
     runTask_turn cfg t tk p
   }"

text \<open>
  The section after \<^verbatim>\<open>condWait(&p->cond, pmutex)\<close> with a blocked task: without a queue the task has
  been handed over and the call returns, with a queue the loop goes on.
\<close>

definition runTask_resume :: "tp_config \<Rightarrow> real \<Rightarrow> POThreadPool_task \<Rightarrow> POThreadPool \<Rightarrow>
    (mnext \<times> POThreadPool) option" where
  "runTask_resume cfg t tk p = do {
     let p = p\<lparr>p_cond := NoWaiter, taskWaitingToBeRun := False\<rparr>;
     (if QUEUE_LENGTH cfg < 1 then Some (Returns, p) else runTask_turn cfg t tk p)
   }"

text \<open>
  The sections of \<^verbatim>\<open>poThreadPool_destroy\<close>: take the next idle worker, tell it to return and join its
  thread; when no idle worker is left, wait for the threads that are still there.
\<close>

datatype dnext = JoinThread nat | AwaitLast | Destroyed

definition destroy_finish :: "POThreadPool \<Rightarrow> (dnext \<times> POThreadPool) option" where
  "destroy_finish p =
     (if num_threads p > 0 then Some (AwaitLast, p\<lparr>cleanup := True, p_cond := Waiting\<rparr>)
      else Some (Destroyed, p))"

definition destroy_next :: "tp_config \<Rightarrow> POThreadPool \<Rightarrow> (dnext \<times> POThreadPool) option" where
  "destroy_next cfg p = do {
     (w, l, ws) \<leftarrow> listPop cfg (idle p, worker p);
     let p = p\<lparr>idle := l, worker := ws\<rparr>;
     (case w of
        Some i \<Rightarrow> Some (JoinThread i, signal_worker i (p\<lparr>detachThread := False,
            worker := upd (worker p) i (\<lambda>w. w\<lparr>w_userCallback := None\<rparr>)\<rparr>))
      | None \<Rightarrow> destroy_finish (p\<lparr>detachThread := True\<rparr>))
   }"

definition destroy_enter :: "tp_config \<Rightarrow> POThreadPool \<Rightarrow> (dnext \<times> POThreadPool) option" where
  "destroy_enter cfg p = do {
     idle_xor_queued cfg p;
     (if MAX_IDLE_TIME cfg \<noteq> 0 then destroy_next cfg p else destroy_finish p)
   }"

subsection \<open>What a pool represents\<close>

text \<open>
  \<open>tp_rep cfg p il ul q\<close>: the idle list of the pool is \<open>il\<close>, the unused list \<open>ul\<close>, the queued tasks
  are \<open>q\<close>, oldest first. A task waits in the queue only when there is neither an idle nor an unused
  worker.
\<close>

definition tp_rep :: "tp_config \<Rightarrow> POThreadPool \<Rightarrow> nat list \<Rightarrow> nat list \<Rightarrow> POThreadPool_task list \<Rightarrow> bool" where
  "tp_rep cfg p il ul q \<longleftrightarrow>
     wl_rep (MAX_NUM_THREADS cfg) (idle p, worker p) il
     \<and> wl_rep (MAX_NUM_THREADS cfg) (unused p, worker p) ul
     \<and> set il \<inter> set ul = {}
     \<and> (if QUEUE_LENGTH cfg > 0 then tq_rep cfg (task p) q else q = [])
     \<and> (q \<noteq> [] \<longrightarrow> il = [] \<and> ul = [])
     \<and> (MAX_IDLE_TIME cfg = 0 \<longrightarrow> il = [])"

text \<open>What a worker holds apart from its links and times.\<close>

definition winfo :: "POThreadPool_worker \<Rightarrow> nat option \<times> nat \<times> condvar" where
  "winfo w = (w_userCallback w, w_userData w, w_cond w)"

lemma links_only_winfo: "links_only A ws ws' \<Longrightarrow> winfo \<circ> ws' = winfo \<circ> ws"
  by (auto simp: fun_eq_iff winfo_def links_only_fields)

lemma tp_rep_lists:
  assumes "tp_rep cfg p il ul q"
  shows "distinct il" "distinct ul" "set il \<subseteq> {..<MAX_NUM_THREADS cfg}"
    "set ul \<subseteq> {..<MAX_NUM_THREADS cfg}" "set il \<inter> set ul = {}"
  using assms by (auto simp: tp_rep_def wl_rep_def dest: dll_distinct)

text \<open>Changes of other fields, and of workers' fields that are not links, do not matter.\<close>

lemma tp_rep_cong:
  assumes "tp_rep cfg p il ul q"
    and "idle p' = idle p" "unused p' = unused p" "task p' = task p"
    and "w_next \<circ> worker p' = w_next \<circ> worker p" "w_prev \<circ> worker p' = w_prev \<circ> worker p"
  shows "tp_rep cfg p' il ul q"
  using assms by (simp add: tp_rep_def wl_rep_def)

lemma signal_pool_simps [simp]:
  "num_threads (signal_pool p) = num_threads p" "task (signal_pool p) = task p"
  "task1 (signal_pool p) = task1 p" "worker (signal_pool p) = worker p"
  "idle (signal_pool p) = idle p" "unused (signal_pool p) = unused p"
  "p_cond (signal_pool p) = cond_signal (p_cond p)" "cleanup (signal_pool p) = cleanup p"
  "taskWaitingToBeRun (signal_pool p) = taskWaitingToBeRun p"
  by (simp_all add: signal_pool_def)

lemma tp_rep_signal_pool [simp]: "tp_rep cfg (signal_pool p) il ul q = tp_rep cfg p il ul q"
  by (simp add: tp_rep_def)

lemma signal_worker_simps [simp]:
  "num_threads (signal_worker i p) = num_threads p" "task (signal_worker i p) = task p"
  "task1 (signal_worker i p) = task1 p"
  "idle (signal_worker i p) = idle p" "unused (signal_worker i p) = unused p"
  "p_cond (signal_worker i p) = p_cond p" "cleanup (signal_worker i p) = cleanup p"
  "taskWaitingToBeRun (signal_worker i p) = taskWaitingToBeRun p"
  "worker (signal_worker i p) = upd (worker p) i (\<lambda>w. w\<lparr>w_cond := cond_signal (w_cond w)\<rparr>)"
  by (simp_all add: signal_worker_def)

subsection \<open>The sections on a represented pool\<close>

lemma lookForWork_None:
  assumes "tp_rep cfg p il ul []" and "QUEUE_LENGTH cfg = 0 \<longrightarrow> \<not> taskWaitingToBeRun p"
  shows "lookForWork cfg p = Some (None, p)"
  using assms by (auto simp: lookForWork_def tp_rep_def queueGetNext_empty)

lemma lookForWork_slot:
  assumes "QUEUE_LENGTH cfg = 0" and "taskWaitingToBeRun p"
  shows "lookForWork cfg p = Some (Some (task1 p), signal_pool p)"
  using assms by (simp add: lookForWork_def)

lemma lookForWork_queue:
  assumes rep: "tp_rep cfg p il ul (x # q)" and ok: "tp_config_ok cfg"
  shows "\<exists>tq. lookForWork cfg p = Some (Some x, if taskWaitingToBeRun p
               then signal_pool (p\<lparr>task := tq\<rparr>) else p\<lparr>task := tq\<rparr>)
           \<and> tp_rep cfg (p\<lparr>task := tq\<rparr>) il ul q"
proof -
  from rep have Q: "QUEUE_LENGTH cfg > 0" "tq_rep cfg (task p) (x # q)" "il = []" "ul = []"
    by (auto simp: tp_rep_def split: if_splits)
  from queueGetNext_spec [OF Q(2)] ok obtain tq where
    tq: "queueGetNext cfg (task p) = Some (Some x, tq)" "tq_rep cfg tq q"
    by (auto simp: tp_config_ok_def)
  have "wl_top (idle p) = None" "wl_top (unused p) = None"
    using rep Q by (auto simp: tp_rep_def wl_rep_def)
  then have "lookForWork cfg p = Some (Some x, if taskWaitingToBeRun p
               then signal_pool (p\<lparr>task := tq\<rparr>) else p\<lparr>task := tq\<rparr>)"
    using Q tq by (simp add: lookForWork_def)
  moreover have "tp_rep cfg (p\<lparr>task := tq\<rparr>) il ul q"
    using rep tq Q by (simp add: tp_rep_def)
  ultimately show ?thesis by blast
qed

lemma worker_leave_spec:
  assumes rep: "tp_rep cfg p il ul []" and ok: "tp_config_ok cfg"
    and i: "i < MAX_NUM_THREADS cfg" "i \<notin> set il" "i \<notin> set ul"
    and n: "0 < unat (num_threads p)" "unat (num_threads p) \<le> MAX_NUM_THREADS cfg"
  shows "\<exists>l ws. worker_leave cfg i p =
              Some (Exit, p\<lparr>unused := l, worker := ws, num_threads := num_threads p - 1\<rparr>)
           \<and> tp_rep cfg (p\<lparr>unused := l, worker := ws, num_threads := num_threads p - 1\<rparr>) il (i # ul) []
           \<and> winfo \<circ> ws = winfo \<circ> worker p \<and> unat (num_threads p - 1) = unat (num_threads p) - 1"
proof -
  from rep have U: "wl_rep (MAX_NUM_THREADS cfg) (unused p, worker p) ul"
    and I: "wl_rep (MAX_NUM_THREADS cfg) (idle p, worker p) il" and disj: "set il \<inter> set ul = {}"
    by (auto simp: tp_rep_def)
  from listPush_spec [OF U refl _ i(1,3)] ok obtain l ws where
    P: "listPush cfg i (unused p, worker p) = Some (l, ws)"
       "wl_rep (MAX_NUM_THREADS cfg) (l, ws) (i # ul)" "links_only (insert i (set ul)) (worker p) ws"
    by (auto simp: tp_config_ok_def)
  from wl_rep_frame [OF I P(3)] i disj have I': "wl_rep (MAX_NUM_THREADS cfg) (idle p, ws) il"
    by blast
  have nz: "num_threads p \<noteq> 0" using n by auto
  have q0: "QUEUE_LENGTH cfg > 0 \<longrightarrow> tq_num (task p) = 0"
    using rep by (auto simp: tp_rep_def tq_rep_def unat_eq_zero_iff)
  have lt: "unat (num_threads p - 1) < MAX_NUM_THREADS cfg"
    using n unat_pred_pos [OF nz] by simp
  have "worker_leave cfg i p = Some (Exit, p\<lparr>unused := l, worker := ws, num_threads := num_threads p - 1\<rparr>)"
    using P(1) q0 lt by (simp add: worker_leave_def)
  moreover have "tp_rep cfg (p\<lparr>unused := l, worker := ws, num_threads := num_threads p - 1\<rparr>) il (i # ul) []"
    using P I' rep i disj by (auto simp: tp_rep_def)
  ultimately show ?thesis
    using unat_pred_pos [OF nz] links_only_winfo [OF P(3)] by blast
qed

lemma worker_sleep_spec:
  assumes rep: "tp_rep cfg p il ul []" and ok: "tp_config_ok cfg" and idle: "MAX_IDLE_TIME cfg \<noteq> 0"
    and i: "i < MAX_NUM_THREADS cfg" "i \<notin> set il" "i \<notin> set ul"
  shows "\<exists>l ws. worker_sleep cfg t i p = Some (Sleep, p\<lparr>idle := l, worker := ws\<rparr>)
           \<and> tp_rep cfg (p\<lparr>idle := l, worker := ws\<rparr>) (i # il) ul []
           \<and> winfo \<circ> ws = (winfo \<circ> worker p)(i := (None, w_userData (worker p i), Waiting))"
proof -
  define ws0 where "ws0 = upd (worker p) i (\<lambda>w. w\<lparr>w_userCallback := None\<rparr>)"
  define ws1 where "ws1 = (if MAX_IDLE_TIME cfg > 0
    then upd ws0 i (\<lambda>w. w\<lparr>w_lastWorkTime := t\<rparr>) else ws0)"
  have links: "w_next \<circ> ws1 = w_next \<circ> worker p" "w_prev \<circ> ws1 = w_prev \<circ> worker p"
    by (auto simp: ws1_def ws0_def fun_eq_iff upd_apply)
  from rep links have U: "wl_rep (MAX_NUM_THREADS cfg) (unused p, ws1) ul"
    and I: "wl_rep (MAX_NUM_THREADS cfg) (idle p, ws1) il" and disj: "set il \<inter> set ul = {}"
    by (auto simp: tp_rep_def wl_rep_def)
  from listPush_spec [OF I refl _ i(1,2)] ok obtain l ws where
    P: "listPush cfg i (idle p, ws1) = Some (l, ws)"
       "wl_rep (MAX_NUM_THREADS cfg) (l, ws) (i # il)" "links_only (insert i (set il)) ws1 ws"
    by (auto simp: tp_config_ok_def)
  from wl_rep_frame [OF U P(3)] i disj have U': "wl_rep (MAX_NUM_THREADS cfg) (unused p, ws) ul"
    by blast
  define ws2 where "ws2 = upd ws i (\<lambda>w. w\<lparr>w_cond := Waiting\<rparr>)"
  have "worker_sleep cfg t i p = Some (Sleep, p\<lparr>idle := l, worker := ws2\<rparr>)"
    using P(1) unfolding ws1_def ws0_def
    by (cases "MAX_IDLE_TIME cfg > 0") (simp_all add: worker_sleep_def ws2_def)
  moreover have "w_next \<circ> ws2 = w_next \<circ> ws" "w_prev \<circ> ws2 = w_prev \<circ> ws"
    by (auto simp: ws2_def fun_eq_iff upd_apply)
  then have "tp_rep cfg (p\<lparr>idle := l, worker := ws2\<rparr>) (i # il) ul []"
    using P U' rep i idle disj by (auto simp: tp_rep_def wl_rep_def)
  moreover have "winfo \<circ> ws2 = (winfo \<circ> worker p)(i := (None, w_userData (worker p i), Waiting))"
    using links_only_fields [OF P(3)]
    by (auto simp: fun_eq_iff winfo_def ws2_def ws1_def ws0_def upd_apply)
  ultimately show ?thesis by blast
qed

lemma checkThreadTimeout_spec:
  assumes rep: "tp_rep cfg p il ul q"
    and sleeping: "\<And>i. i \<in> set il \<Longrightarrow> w_userCallback (worker p i) = None \<and> w_cond (worker p i) = Waiting"
  shows "checkThreadTimeout cfg t p = Some p
    \<or> (\<exists>il' k l ws. il = il' @ [k] \<and> checkThreadTimeout cfg t p = Some (p\<lparr>idle := l, worker := ws\<rparr>)
         \<and> tp_rep cfg (p\<lparr>idle := l, worker := ws\<rparr>) il' ul q
         \<and> winfo \<circ> ws = (winfo \<circ> worker p)(k := (None, w_userData (worker p k), Signaled)))"
proof (cases "checkThreadTimeout cfg t p = Some p")
  case False
  then have go: "\<not> num_threads p < 2" "num_threads p > 2" "wl_bottom (idle p) \<noteq> None"
    "checkThreadTimeout cfg t p = do {
        (w, l, ws) \<leftarrow> listPull cfg (idle p, worker p);
        let p = p\<lparr>idle := l, worker := ws\<rparr>;
        w \<leftarrow> w;
        ASSERT (w_userCallback (worker p w) = None);
        Some (signal_worker w p) }"
    by (auto simp: checkThreadTimeout_def split: if_splits option.splits)
  from rep have I: "wl_rep (MAX_NUM_THREADS cfg) (idle p, worker p) il"
    and U: "wl_rep (MAX_NUM_THREADS cfg) (unused p, worker p) ul" and disj: "set il \<inter> set ul = {}"
    by (auto simp: tp_rep_def)
  from I go(3) have "il \<noteq> []" by (auto simp: wl_rep_def)
  then obtain il' k where il: "il = il' @ [k]" by (metis rev_exhaust)
  from listPull_spec [OF I [unfolded il] refl] obtain l ws where
    P: "listPull cfg (idle p, worker p) = Some (Some k, l, ws)"
       "wl_rep (MAX_NUM_THREADS cfg) (l, ws) il'" "links_only (set (il' @ [k])) (worker p) ws"
    by blast
  from wl_rep_frame [OF U P(3)] disj il have U': "wl_rep (MAX_NUM_THREADS cfg) (unused p, ws) ul"
    by auto
  have k: "w_userCallback (ws k) = None" "w_cond (ws k) = Waiting"
    using sleeping [of k] links_only_fields [OF P(3)] il by auto
  define ws2 where "ws2 = upd ws k (\<lambda>w. w\<lparr>w_cond := cond_signal (w_cond w)\<rparr>)"
  have "checkThreadTimeout cfg t p = Some (p\<lparr>idle := l, worker := ws2\<rparr>)"
    using go(4) P k by (simp add: signal_worker_def ws2_def)
  moreover have "w_next \<circ> ws2 = w_next \<circ> ws" "w_prev \<circ> ws2 = w_prev \<circ> ws"
    by (auto simp: ws2_def fun_eq_iff upd_apply)
  then have "tp_rep cfg (p\<lparr>idle := l, worker := ws2\<rparr>) il' ul q"
    using P U' rep disj il by (auto simp: tp_rep_def wl_rep_def)
  moreover have "winfo \<circ> ws2 = (winfo \<circ> worker p)(k := (None, w_userData (worker p k), Signaled))"
    using links_only_fields [OF P(3)] k
    by (auto simp: fun_eq_iff winfo_def ws2_def upd_apply)
  ultimately show ?thesis using il by blast
qed simp

text \<open>Handing a task to worker i, with its condition signalled or not.\<close>

definition assign :: "POThreadPool_task \<Rightarrow> nat \<Rightarrow> POThreadPool \<Rightarrow> POThreadPool" where
  "assign tk i p = p\<lparr>worker := upd (worker p) i (\<lambda>w. w\<lparr>w_userCallback := Some (t_userCallback tk),
     w_userData := t_userData tk\<rparr>)\<rparr>"

lemma listPop_idle_step:
  assumes rep: "tp_rep cfg p (i # il) ul q"
  shows "\<exists>l ws. listPop cfg (idle p, worker p) = Some (Some i, l, ws)
           \<and> tp_rep cfg (p\<lparr>idle := l, worker := ws\<rparr>) il ul q \<and> winfo \<circ> ws = winfo \<circ> worker p"
proof -
  from rep have I: "wl_rep (MAX_NUM_THREADS cfg) (idle p, worker p) (i # il)"
    and U: "wl_rep (MAX_NUM_THREADS cfg) (unused p, worker p) ul" and disj: "set (i # il) \<inter> set ul = {}"
    by (auto simp: tp_rep_def)
  from listPop_spec [OF I refl] obtain l ws where
    P: "listPop cfg (idle p, worker p) = Some (Some i, l, ws)"
       "wl_rep (MAX_NUM_THREADS cfg) (l, ws) il" "links_only (set (i # il)) (worker p) ws"
    by blast
  from wl_rep_frame [OF U P(3) disj] have "wl_rep (MAX_NUM_THREADS cfg) (unused p, ws) ul" .
  then show ?thesis
    using P rep disj links_only_winfo [OF P(3)] by (auto simp: tp_rep_def)
qed

lemma listPop_unused_step:
  assumes rep: "tp_rep cfg p il (i # ul) q"
  shows "\<exists>l ws. listPop cfg (unused p, worker p) = Some (Some i, l, ws)
           \<and> tp_rep cfg (p\<lparr>unused := l, worker := ws\<rparr>) il ul q \<and> winfo \<circ> ws = winfo \<circ> worker p"
proof -
  from rep have I: "wl_rep (MAX_NUM_THREADS cfg) (idle p, worker p) il"
    and U: "wl_rep (MAX_NUM_THREADS cfg) (unused p, worker p) (i # ul)" and disj: "set (i # ul) \<inter> set il = {}"
    by (auto simp: tp_rep_def)
  from listPop_spec [OF U refl] obtain l ws where
    P: "listPop cfg (unused p, worker p) = Some (Some i, l, ws)"
       "wl_rep (MAX_NUM_THREADS cfg) (l, ws) ul" "links_only (set (i # ul)) (worker p) ws"
    by blast
  from wl_rep_frame [OF I P(3) disj] have "wl_rep (MAX_NUM_THREADS cfg) (idle p, ws) il" .
  then show ?thesis
    using P rep disj links_only_winfo [OF P(3)] by (auto simp: tp_rep_def)
qed

lemma listPop_none:
  "tp_rep cfg p [] ul q \<Longrightarrow> listPop cfg (idle p, worker p) = Some (None, idle p, worker p)"
  "tp_rep cfg p il [] q \<Longrightarrow> listPop cfg (unused p, worker p) = Some (None, unused p, worker p)"
  by (auto simp: tp_rep_def list_empty_spec)

lemma runTask_turn_idle:
  fixes tk :: POThreadPool_task
  assumes rep: "tp_rep cfg p (i # il) ul q"
    and sleeping: "\<And>j. j \<in> set (i # il) \<Longrightarrow>
        w_userCallback (worker p j) = None \<and> w_cond (worker p j) = Waiting"
  defines "base \<equiv> (winfo \<circ> worker p)(i := (Some (t_userCallback tk), t_userData tk, Signaled))"
  shows "\<exists>l ws il'. runTask_turn cfg t tk p = Some (Returns, p\<lparr>idle := l, worker := ws\<rparr>)
     \<and> tp_rep cfg (p\<lparr>idle := l, worker := ws\<rparr>) il' ul q
     \<and> (il' = il \<and> winfo \<circ> ws = base
        \<or> MAX_IDLE_TIME cfg > 0 \<and> (\<exists>k d. il = il' @ [k] \<and> winfo \<circ> ws = base(k := (None, d, Signaled))))"
proof -
  from rep have idle: "MAX_IDLE_TIME cfg \<noteq> 0" and dist: "i \<notin> set il"
    using tp_rep_lists [OF rep] by (auto simp: tp_rep_def)
  from listPop_idle_step [OF rep] obtain l ws where
    P: "listPop cfg (idle p, worker p) = Some (Some i, l, ws)"
       "tp_rep cfg (p\<lparr>idle := l, worker := ws\<rparr>) il ul q" "winfo \<circ> ws = winfo \<circ> worker p"
    by blast
  define p1 where "p1 = p\<lparr>idle := l, worker := ws\<rparr>"
  define p2 where "p2 = assign tk i (signal_worker i p1)"
  define ws2 where "ws2 = worker p2"
  have wi: "winfo (ws j) = winfo (worker p j)" for j using P(3) by (metis comp_apply)
  have p2: "p2 = p\<lparr>idle := l, worker := ws2\<rparr>"
    by (simp add: p2_def p1_def ws2_def assign_def signal_worker_def)
  have rep2: "tp_rep cfg p2 il ul q"
    by (rule tp_rep_cong [OF P(2)]) (auto simp: p2_def p1_def assign_def fun_eq_iff upd_apply)
  have w2: "winfo \<circ> ws2 = base"
    using sleeping [of i] wi by (auto simp: ws2_def p2_def p1_def base_def assign_def fun_eq_iff winfo_def upd_apply)
  have "runTask_turn cfg t tk p =
      (if MAX_IDLE_TIME cfg > 0 then map_option (Pair Returns) (checkThreadTimeout cfg t p2)
       else Some (Returns, p2))"
    using P(1) idle by (auto simp: runTask_turn_def p2_def p1_def assign_def map_conv_bind_option comp_def)
  moreover have "w_userCallback (worker p2 j) = None \<and> w_cond (worker p2 j) = Waiting" if "j \<in> set il" for j
    using sleeping [of j] that dist fun_cong [OF w2, of j]
    by (auto simp: ws2_def base_def winfo_def split: if_splits)
  note T = checkThreadTimeout_spec [OF rep2 this, of t]
  ultimately show ?thesis
  proof (cases "MAX_IDLE_TIME cfg > 0 \<and> checkThreadTimeout cfg t p2 \<noteq> Some p2")
    case False
    then have "runTask_turn cfg t tk p = Some (Returns, p\<lparr>idle := l, worker := ws2\<rparr>)"
      using \<open>runTask_turn cfg t tk p = _\<close> p2 by auto
    then show ?thesis using rep2 w2 unfolding p2 by blast
  next
    case True
    with T obtain il' k l' ws' where
      K: "il = il' @ [k]" "checkThreadTimeout cfg t p2 = Some (p2\<lparr>idle := l', worker := ws'\<rparr>)"
         "tp_rep cfg (p2\<lparr>idle := l', worker := ws'\<rparr>) il' ul q"
         "winfo \<circ> ws' = (winfo \<circ> worker p2)(k := (None, w_userData (worker p2 k), Signaled))"
      by blast
    have "p2\<lparr>idle := l', worker := ws'\<rparr> = p\<lparr>idle := l', worker := ws'\<rparr>" by (simp add: p2)
    then show ?thesis
      using K True \<open>runTask_turn cfg t tk p = _\<close> w2 unfolding ws2_def by (metis option.simps(9))
  qed
qed

lemma runTask_turn_start:
  assumes rep: "tp_rep cfg p [] (i # ul) q" and n: "unat (num_threads p) < MAX_NUM_THREADS cfg"
  shows "\<exists>l ws. runTask_turn cfg t tk p =
       Some (AwaitStart i, p\<lparr>unused := l, worker := ws, p_cond := Waiting\<rparr>)
     \<and> tp_rep cfg (p\<lparr>unused := l, worker := ws, p_cond := Waiting\<rparr>) [] ul q
     \<and> winfo \<circ> ws = (winfo \<circ> worker p)(i := (Some (t_userCallback tk), t_userData tk, w_cond (worker p i)))"
proof -
  from listPop_unused_step [OF rep] obtain l ws where
    P: "listPop cfg (unused p, worker p) = Some (Some i, l, ws)"
       "tp_rep cfg (p\<lparr>unused := l, worker := ws\<rparr>) [] ul q" "winfo \<circ> ws = winfo \<circ> worker p"
    by blast
  define p1 where "p1 = assign tk i (p\<lparr>unused := l, worker := ws\<rparr>)"
  have wi: "winfo (ws j) = winfo (worker p j)" for j using P(3) by (metis comp_apply)
  have eq: "runTask_turn cfg t tk p = Some (AwaitStart i, p1\<lparr>p_cond := Waiting\<rparr>)"
    using P(1) n listPop_none(1) [OF rep] by (simp add: runTask_turn_def p1_def assign_def)
  have same: "p1\<lparr>p_cond := Waiting\<rparr> = p\<lparr>unused := l, worker := worker p1, p_cond := Waiting\<rparr>"
    by (simp add: p1_def assign_def)
  have "tp_rep cfg (p1\<lparr>p_cond := Waiting\<rparr>) [] ul q"
    by (rule tp_rep_cong [OF P(2)]) (auto simp: p1_def assign_def fun_eq_iff upd_apply)
  moreover have "winfo \<circ> worker p1 =
      (winfo \<circ> worker p)(i := (Some (t_userCallback tk), t_userData tk, w_cond (worker p i)))"
    using wi by (auto simp: p1_def assign_def fun_eq_iff winfo_def upd_apply)
  ultimately show ?thesis using eq unfolding same by blast
qed

lemma runTask_turn_queue:
  assumes rep: "tp_rep cfg p [] [] q" and ok: "tp_config_ok cfg" and room: "length q < QUEUE_LENGTH cfg"
  shows "\<exists>tq. runTask_turn cfg t tk p = Some (Returns, p\<lparr>task := tq\<rparr>)
           \<and> tp_rep cfg (p\<lparr>task := tq\<rparr>) [] [] (q @ [tk])"
proof -
  from rep room have "tq_rep cfg (task p) q" by (auto simp: tp_rep_def split: if_splits)
  from queueMakeNewEntry_spec [OF this room] ok obtain tq where
    "queueMakeNewEntry cfg tk (task p) = Some (True, tq)" "tq_rep cfg tq (q @ [tk])"
    by (auto simp: tp_config_ok_def)
  then show ?thesis
    using rep room listPop_none [OF rep] by (auto simp: runTask_turn_def tp_rep_def)
qed

lemma runTask_turn_block:
  fixes tk :: POThreadPool_task
  assumes rep: "tp_rep cfg p [] [] q" and full: "length q = QUEUE_LENGTH cfg"
  defines "p' \<equiv> p\<lparr>taskWaitingToBeRun := True, task1 := (if QUEUE_LENGTH cfg < 1 then tk else task1 p),
                     p_cond := Waiting\<rparr>"
  shows "runTask_turn cfg t tk p = Some (AwaitRoom, p') \<and> tp_rep cfg p' [] [] q"
proof -
  have "QUEUE_LENGTH cfg > 0 \<Longrightarrow> queueMakeNewEntry cfg tk (task p) = Some (False, task p)"
    using rep full by (auto simp: tp_rep_def queueMakeNewEntry_full split: if_splits)
  then show ?thesis
    using rep listPop_none [OF rep] by (auto simp: runTask_turn_def tp_rep_def p'_def)
qed

lemma idle_xor_queued_rep: "tp_rep cfg p il ul q \<Longrightarrow> idle_xor_queued cfg p = Some ()"
  by (auto simp: idle_xor_queued_def tp_rep_def wl_rep_def tq_rep_def unat_eq_zero_iff)

lemma destroy_next_idle:
  assumes rep: "tp_rep cfg p (i # il) ul q" and w: "w_cond (worker p i) = Waiting"
  shows "\<exists>l ws. destroy_next cfg p = Some (JoinThread i, p\<lparr>idle := l, detachThread := False, worker := ws\<rparr>)
     \<and> tp_rep cfg (p\<lparr>idle := l, detachThread := False, worker := ws\<rparr>) il ul q
     \<and> winfo \<circ> ws = (winfo \<circ> worker p)(i := (None, w_userData (worker p i), Signaled))"
proof -
  from listPop_idle_step [OF rep] obtain l ws where
    P: "listPop cfg (idle p, worker p) = Some (Some i, l, ws)"
       "tp_rep cfg (p\<lparr>idle := l, worker := ws\<rparr>) il ul q" "winfo \<circ> ws = winfo \<circ> worker p"
    by blast
  have wi: "winfo (ws j) = winfo (worker p j)" for j using P(3) by (metis comp_apply)
  define ws2 where "ws2 = upd (upd ws i (\<lambda>w. w\<lparr>w_userCallback := None\<rparr>)) i
      (\<lambda>w. w\<lparr>w_cond := cond_signal (w_cond w)\<rparr>)"
  have "destroy_next cfg p = Some (JoinThread i, p\<lparr>idle := l, detachThread := False, worker := ws2\<rparr>)"
    using P(1) by (simp add: destroy_next_def signal_worker_def ws2_def)
  moreover have "tp_rep cfg (p\<lparr>idle := l, detachThread := False, worker := ws2\<rparr>) il ul q"
    by (rule tp_rep_cong [OF P(2)]) (auto simp: ws2_def fun_eq_iff upd_apply)
  moreover have "winfo \<circ> ws2 = (winfo \<circ> worker p)(i := (None, w_userData (worker p i), Signaled))"
    using wi w by (auto simp: ws2_def fun_eq_iff winfo_def upd_apply)
  ultimately show ?thesis by blast
qed

lemma destroy_next_none:
  "tp_rep cfg p [] ul q \<Longrightarrow> destroy_next cfg p = destroy_finish (p\<lparr>detachThread := True\<rparr>)"
  by (simp add: destroy_next_def listPop_none)

subsection \<open>A new pool\<close>

text \<open>After the first k turns (k > 0) the workers below k are linked to a chain.\<close>

lemma create_loop_append:
  "create_loop cfg ok (xs @ ys) p = create_loop cfg ok xs p \<bind> create_loop cfg ok ys"
  by (induction xs arbitrary: p) (simp_all add: ASSERT_def)

lemma create_loop_links:
  assumes "0 < k" "k \<le> MAX_NUM_THREADS cfg" and "\<And>i. i < k \<Longrightarrow> ok i"
    and "worker p = (\<lambda>_. zero_worker)"
  shows "create_loop cfg ok [0..<k] p = Some (p\<lparr>
     worker := (\<lambda>i. zero_worker\<lparr>w_next := (if Suc i < k then Some (Suc i) else None),
                               w_prev := (if 0 < i \<and> i < k then Some (i - 1) else None)\<rparr>),
     unused := (unused p)\<lparr>wl_top := Some 0, wl_bottom := Some (MAX_NUM_THREADS cfg - 1)\<rparr>\<rparr>)"
  using assms
proof (induction k rule: nat_induct_non_zero)
  case 1
  have "(upd (upd (\<lambda>_. zero_worker) (MAX_NUM_THREADS cfg - 1) (\<lambda>w. w\<lparr>w_next := None\<rparr>))
             0 (\<lambda>w. w\<lparr>w_prev := None\<rparr>)) = (\<lambda>i. zero_worker\<lparr>w_next := (if Suc i < 1 then Some (Suc i) else None),
                               w_prev := (if 0 < i \<and> i < 1 then Some (i - 1) else None)\<rparr>)"
    by (auto simp: fun_eq_iff upd_apply zero_worker_def)
  with 1 show ?case by (simp add: create_step_def)
next
  case (Suc k)
  then have "upd (upd (\<lambda>i. zero_worker\<lparr>w_next := (if Suc i < k then Some (Suc i) else None),
                               w_prev := (if 0 < i \<and> i < k then Some (i - 1) else None)\<rparr>)
              (k - 1) (\<lambda>w. w\<lparr>w_next := Some k\<rparr>)) k (\<lambda>w. w\<lparr>w_prev := Some (k - 1)\<rparr>)
    = (\<lambda>i. zero_worker\<lparr>w_next := (if Suc i < Suc k then Some (Suc i) else None),
                     w_prev := (if 0 < i \<and> i < Suc k then Some (i - 1) else None)\<rparr>)"
    by (auto simp: fun_eq_iff upd_apply zero_worker_def)
  with Suc show ?case by (simp add: create_loop_append create_step_def)
qed

lemma chain_upt:
  assumes "\<And>i. nx i = (if Suc i < n then Some (Suc i) else None)"
  shows "chain nx (if j < n then Some j else None) [j..<n] None"
proof (induction "n - j" arbitrary: j)
  case 0
  then show ?case by simp
next
  case (Suc k)
  then have "j < n" "chain nx (if Suc j < n then Some (Suc j) else None) [Suc j..<n] None" by auto
  then show ?case using assms by (simp add: upt_conv_Cons)
qed

lemma chain_upt_rev:
  assumes "\<And>i. i < n \<Longrightarrow> pv i = (if 0 < i then Some (i - 1) else None)"
  shows "chain pv (if n = 0 then None else Some (n - 1)) (rev [0..<n]) None"
  using assms
proof (induction n)
  case (Suc n)
  then have "chain pv (if n = 0 then None else Some (n - 1)) (rev [0..<n]) None" by simp
  with Suc.prems [of n] show ?case by (cases n) simp_all
qed simp

lemma poThreadPool_create_spec:
  assumes ok: "tp_config_ok cfg" and init: "\<And>k. k \<le> Suc (MAX_NUM_THREADS cfg) \<Longrightarrow> ok k"
  shows "\<exists>p. poThreadPool_create cfg ok = Some p
     \<and> tp_rep cfg p [] [0..<MAX_NUM_THREADS cfg] []
     \<and> winfo \<circ> worker p = (\<lambda>_. (None, 0, NoWaiter)) \<and> num_threads p = 0 \<and> p_cond p = NoWaiter
     \<and> \<not> cleanup p \<and> \<not> taskWaitingToBeRun p \<and> detachThread p"
proof -
  define n where "n = MAX_NUM_THREADS cfg"
  from ok have n: "0 < n" "n < 2 ^ 31" by (auto simp: tp_config_ok_def n_def)
  define ws where "ws = (\<lambda>i. zero_worker\<lparr>w_next := (if Suc i < n then Some (Suc i) else None),
                               w_prev := (if 0 < i \<and> i < n then Some (i - 1) else None)\<rparr>)"
  define p where "p = (zero_pool cfg)\<lparr>worker := ws,
      unused := \<lparr>wl_length = of_nat n, wl_top = Some 0, wl_bottom = Some (n - 1)\<rparr>, detachThread := True\<rparr>"
  define p0 where "p0 = (zero_pool cfg)\<lparr>unused := (unused (zero_pool cfg))\<lparr>wl_length := of_nat n\<rparr>\<rparr>"
  have "create_loop cfg ok [0..<n] p0 = Some (p0\<lparr>worker := ws,
      unused := (unused p0)\<lparr>wl_top := Some 0, wl_bottom := Some (n - 1)\<rparr>\<rparr>)"
    using create_loop_links [of n cfg ok p0] init n
    by (simp add: n_def ws_def p0_def zero_pool_def)
  then have "poThreadPool_create cfg ok = Some p"
    using init by (simp add: poThreadPool_create_def p_def p0_def n_def zero_pool_def zero_list_def)
  moreover have "chain (w_next \<circ> ws) (Some 0) [0..<n] None"
    using chain_upt [of "w_next \<circ> ws" n 0] n by (simp add: ws_def)
  moreover have "chain (w_prev \<circ> ws) (Some (n - 1)) (rev [0..<n]) None"
    using chain_upt_rev [of n "w_prev \<circ> ws"] n by (simp add: ws_def)
  ultimately show ?thesis
    using n by (auto simp: p_def tp_rep_def wl_rep_def dll_def zero_pool_def zero_list_def tq_rep_def
        n_def [symmetric] winfo_def ws_def zero_worker_def fun_eq_iff unsigned_of_nat take_bit_nat_eq_self)
qed

end
