(* ===== verification/PoolMachine.thy ===== *)
theory PoolMachine
  imports ThreadPool "HOL-Library.Multiset"
begin

text \<open>
  The thread pool as a concurrent system: one master thread that calls \<^verbatim>\<open>poThreadPool_runTask\<close>,
  \<^verbatim>\<open>poThreadPool_checkIdleThreadTimeout\<close> and finally \<^verbatim>\<open>poThreadPool_destroy\<close>, and the worker
  threads. A step is one section of one thread; any order of enabled sections is a run. A thread
  that waits on a condition variable resumes only when it has been signalled.

  The invariant \<open>tp_inv\<close> at the end relates the lists and counters to the threads that exist and, with
  a queue, the submitted tasks to those that are queued, being run and finished.
\<close>

subsection \<open>Threads and steps\<close>

text \<open>
  Where a worker thread is: it does not exist, it has been created and has not run yet, it runs a
  user callback, or it sleeps in \<^verbatim>\<open>condWait(&worker->cond, pmutex)\<close>.
\<close>

datatype wpc = NoThread | Starting | Running POThreadPool_task | Sleeping

text \<open>
  Where the master is: outside of the pool, in one of the two waits of \<^verbatim>\<open>poThreadPool_runTask\<close>, in
  \<^verbatim>\<open>pthread_join\<close> or the last wait of \<^verbatim>\<open>poThreadPool_destroy\<close>, or done with the pool.
\<close>

datatype mpc = MFree | MWaitStart nat | MWaitRoom POThreadPool_task | MJoining nat | MWaitLast | MGone

record tp_sys =
  pool :: POThreadPool
  master :: mpc
  threads :: "nat \<Rightarrow> wpc"
  submitted :: "POThreadPool_task list"
  finished :: "POThreadPool_task list"

text \<open>\<open>submitted\<close> and \<open>finished\<close> record the calls of \<^verbatim>\<open>poThreadPool_runTask\<close> and the callbacks that
  returned; no section reads them.\<close>

datatype tp_event =
    Submit real POThreadPool_task
  | CheckTimeout real
  | Resume real
  | Destroy
  | Joined
  | Start nat
  | Finish real nat
  | Wake nat

fun tp_enabled :: "tp_event \<Rightarrow> tp_sys \<Rightarrow> bool" where
  "tp_enabled (Submit t tk) s = (master s = MFree)"
| "tp_enabled (CheckTimeout t) s = (master s = MFree)"
| "tp_enabled (Resume t) s = (p_cond (pool s) = Signaled \<and>
     (case master s of MWaitStart i \<Rightarrow> True | MWaitRoom tk \<Rightarrow> True | MWaitLast \<Rightarrow> True | _ \<Rightarrow> False))"
| "tp_enabled Destroy s = (master s = MFree)"
| "tp_enabled Joined s = (case master s of MJoining i \<Rightarrow> threads s i = NoThread | _ \<Rightarrow> False)"
| "tp_enabled (Start i) s = (threads s i = Starting)"
| "tp_enabled (Finish t i) s = (case threads s i of Running tk \<Rightarrow> True | _ \<Rightarrow> False)"
| "tp_enabled (Wake i) s = (threads s i = Sleeping \<and> w_cond (worker (pool s) i) = Signaled)"

fun put_master :: "POThreadPool_task \<Rightarrow> tp_sys \<Rightarrow> mnext \<times> POThreadPool \<Rightarrow> tp_sys" where
  "put_master tk s (Returns, p) = s\<lparr>pool := p, master := MFree\<rparr>"
| "put_master tk s (AwaitStart i, p) =
     s\<lparr>pool := p, master := MWaitStart i, threads := (threads s)(i := Starting)\<rparr>"
| "put_master tk s (AwaitRoom, p) = s\<lparr>pool := p, master := MWaitRoom tk\<rparr>"

fun put_destroy :: "tp_sys \<Rightarrow> dnext \<times> POThreadPool \<Rightarrow> tp_sys" where
  "put_destroy s (JoinThread i, p) = s\<lparr>pool := p, master := MJoining i\<rparr>"
| "put_destroy s (AwaitLast, p) = s\<lparr>pool := p, master := MWaitLast\<rparr>"
| "put_destroy s (Destroyed, p) = s\<lparr>pool := p, master := MGone\<rparr>"

fun put_worker :: "nat \<Rightarrow> tp_sys \<Rightarrow> wnext \<times> POThreadPool \<Rightarrow> tp_sys" where
  "put_worker i s (Run tk, p) = s\<lparr>pool := p, threads := (threads s)(i := Running tk)\<rparr>"
| "put_worker i s (Sleep, p) = s\<lparr>pool := p, threads := (threads s)(i := Sleeping)\<rparr>"
| "put_worker i s (Exit, p) = s\<lparr>pool := p, threads := (threads s)(i := NoThread)\<rparr>"

text \<open>The section an event runs; \<open>None\<close> if an assertion in it fails.\<close>

fun tp_exec :: "tp_config \<Rightarrow> tp_event \<Rightarrow> tp_sys \<Rightarrow> tp_sys option" where
  "tp_exec cfg (Submit t tk) s =
     map_option (put_master tk (s\<lparr>submitted := submitted s @ [tk]\<rparr>)) (runTask_enter cfg t tk (pool s))"
| "tp_exec cfg (CheckTimeout t) s =
     map_option (\<lambda>p. s\<lparr>pool := p\<rparr>) (poThreadPool_checkIdleThreadTimeout cfg t (pool s))"
| "tp_exec cfg (Resume t) s = (case master s of
       MWaitStart i \<Rightarrow> Some (s\<lparr>pool := (pool s)\<lparr>p_cond := NoWaiter\<rparr>, master := MFree\<rparr>)
     | MWaitRoom tk \<Rightarrow> map_option (put_master tk s) (runTask_resume cfg t tk (pool s))
     | MWaitLast \<Rightarrow> Some (s\<lparr>pool := (pool s)\<lparr>p_cond := NoWaiter\<rparr>, master := MGone\<rparr>)
     | _ \<Rightarrow> None)"
| "tp_exec cfg Destroy s = map_option (put_destroy s) (destroy_enter cfg (pool s))"
| "tp_exec cfg Joined s = map_option (put_destroy s) (destroy_next cfg (pool s))"
| "tp_exec cfg (Start i) s = map_option (put_worker i s) (worker_enter cfg i (pool s))"
| "tp_exec cfg (Finish t i) s = (case threads s i of
       Running tk \<Rightarrow> map_option (put_worker i (s\<lparr>finished := finished s @ [tk]\<rparr>))
                       (worker_done cfg t i (pool s))
     | _ \<Rightarrow> None)"
| "tp_exec cfg (Wake i) s = map_option (put_worker i s) (worker_wake cfg i (pool s))"

inductive tp_step :: "tp_config \<Rightarrow> tp_sys \<Rightarrow> tp_sys \<Rightarrow> bool" for cfg where
  tp_stepI: "tp_enabled e s \<Longrightarrow> tp_exec cfg e s = Some s' \<Longrightarrow> tp_step cfg s s'"

inductive_simps tp_step_iff: "tp_step cfg s s'"

definition tp_start :: "POThreadPool \<Rightarrow> tp_sys" where
  "tp_start p = \<lparr>pool = p, master = MFree, threads = (\<lambda>_. NoThread), submitted = [], finished = []\<rparr>"

definition tp_init :: "tp_config \<Rightarrow> tp_sys \<Rightarrow> bool" where
  "tp_init cfg s \<longleftrightarrow> (\<exists>ok p. poThreadPool_create cfg ok = Some p \<and> s = tp_start p)"

text \<open>A run given by its events, for concrete executions.\<close>

fun tp_run :: "tp_config \<Rightarrow> tp_event list \<Rightarrow> tp_sys \<Rightarrow> tp_sys option" where
  "tp_run cfg [] s = Some s"
| "tp_run cfg (e # es) s = (if tp_enabled e s then tp_exec cfg e s \<bind> tp_run cfg es else None)"

lemma tp_run_steps: "tp_run cfg es s = Some s' \<Longrightarrow> (tp_step cfg)\<^sup>*\<^sup>* s s'"
proof (induction es arbitrary: s)
  case Nil
  then show ?case by simp
next
  case (Cons e es)
  then obtain s1 where "tp_enabled e s" "tp_exec cfg e s = Some s1" "tp_run cfg es s1 = Some s'"
    by (auto split: if_splits simp: bind_eq_Some_conv)
  then show ?case using Cons.IH tp_stepI converse_rtranclp_into_rtranclp by metis
qed

subsection \<open>The invariant\<close>

text \<open>A thread counted by \<^verbatim>\<open>num_threads\<close>: it has run its first section and has not left.\<close>

definition active :: "wpc \<Rightarrow> bool" where
  "active c \<longleftrightarrow> c \<noteq> NoThread \<and> c \<noteq> Starting"

text \<open>The task that worker i is responsible for.\<close>

fun held :: "wpc \<Rightarrow> nat option \<times> nat \<times> condvar \<Rightarrow> POThreadPool_task multiset" where
  "held NoThread w = {#}"
| "held (Running tk) w = {#tk#}"
| "held _ (None, d, c) = {#}"
| "held _ (Some cb, d, c) = {#\<lparr>t_userCallback = cb, t_userData = d\<rparr>#}"

fun in_hand :: "mpc \<Rightarrow> POThreadPool_task multiset" where
  "in_hand (MWaitRoom tk) = {#tk#}"
| "in_hand _ = {#}"

text \<open>How worker i, its lists and its condition variable agree.\<close>

fun worker_ok :: "wpc \<Rightarrow> nat option \<times> nat \<times> condvar \<Rightarrow> bool \<Rightarrow> bool \<Rightarrow> bool \<Rightarrow> bool" where
  "worker_ok NoThread (cb, d, c) small inIdle inUnused \<longleftrightarrow> (small \<longrightarrow> inUnused) \<and> c = NoWaiter"
| "worker_ok Starting (cb, d, c) small inIdle inUnused \<longleftrightarrow>
     small \<and> \<not> inIdle \<and> \<not> inUnused \<and> cb \<noteq> None \<and> c = NoWaiter"
| "worker_ok (Running tk) (cb, d, c) small inIdle inUnused \<longleftrightarrow>
     small \<and> \<not> inIdle \<and> \<not> inUnused \<and> c = NoWaiter"
| "worker_ok Sleeping (cb, d, c) small inIdle inUnused \<longleftrightarrow>
     small \<and> \<not> inUnused \<and> (if inIdle then c = Waiting \<and> cb = None else c = Signaled)"

definition no_starting :: "tp_sys \<Rightarrow> bool" where
  "no_starting s \<longleftrightarrow> (\<forall>i. threads s i \<noteq> Starting)"

definition master_ok :: "tp_config \<Rightarrow> tp_sys \<Rightarrow> nat list \<Rightarrow> nat list \<Rightarrow> POThreadPool_task list \<Rightarrow> bool" where
  "master_ok cfg s il ul q = (let p = pool s in case master s of
      MFree \<Rightarrow> p_cond p = NoWaiter \<and> no_starting s \<and> \<not> taskWaitingToBeRun p \<and> \<not> cleanup p
    | MWaitStart j \<Rightarrow> \<not> taskWaitingToBeRun p \<and> \<not> cleanup p \<and> (\<forall>i. i \<noteq> j \<longrightarrow> threads s i \<noteq> Starting)
        \<and> (p_cond p = Waiting \<and> threads s j = Starting \<or> p_cond p = Signaled \<and> threads s j \<noteq> Starting)
    | MWaitRoom tk \<Rightarrow> no_starting s \<and> taskWaitingToBeRun p \<and> \<not> cleanup p
        \<and> (QUEUE_LENGTH cfg = 0 \<longrightarrow> task1 p = tk)
        \<and> (p_cond p = Waiting \<and> length q = QUEUE_LENGTH cfg \<and> il = [] \<and> ul = [] \<or> p_cond p = Signaled)
    | MJoining j \<Rightarrow> p_cond p = NoWaiter \<and> no_starting s \<and> \<not> taskWaitingToBeRun p \<and> \<not> cleanup p
        \<and> MAX_IDLE_TIME cfg \<noteq> 0 \<and> q = []
        \<and> (threads s j = NoThread \<or>
             threads s j = Sleeping \<and> j \<notin> set il \<and> w_userCallback (worker p j) = None)
    | MWaitLast \<Rightarrow> no_starting s \<and> \<not> taskWaitingToBeRun p \<and> cleanup p \<and> il = []
        \<and> (MAX_IDLE_TIME cfg \<le> 0 \<and> p_cond p = Waiting \<longrightarrow> 0 < num_threads p)
        \<and> (p_cond p = Waiting \<or> p_cond p = Signaled \<and> (\<forall>i. threads s i = NoThread))
    | MGone \<Rightarrow> p_cond p = NoWaiter \<and> \<not> taskWaitingToBeRun p \<and> (\<forall>i. threads s i = NoThread))"

text \<open>Without a timeout, only the worker that is being joined sleeps unlisted and without a task.\<close>

definition sleepers_ok :: "tp_config \<Rightarrow> tp_sys \<Rightarrow> nat list \<Rightarrow> bool" where
  "sleepers_ok cfg s il \<longleftrightarrow> (MAX_IDLE_TIME cfg \<le> 0 \<longrightarrow>
     (\<forall>i. threads s i = Sleeping \<and> i \<notin> set il \<and> w_userCallback (worker (pool s) i) = None
        \<longrightarrow> master s = MJoining i))"

definition workers_ok :: "tp_config \<Rightarrow> tp_sys \<Rightarrow> nat list \<Rightarrow> nat list \<Rightarrow> bool" where
  "workers_ok cfg s il ul \<longleftrightarrow>
     (\<forall>i. worker_ok (threads s i) (winfo (worker (pool s) i)) (i < MAX_NUM_THREADS cfg)
            (i \<in> set il) (i \<in> set ul))
     \<and> unat (num_threads (pool s)) = card {i. i < MAX_NUM_THREADS cfg \<and> active (threads s i)}"

definition held_by :: "nat \<Rightarrow> tp_sys \<Rightarrow> POThreadPool_task multiset" where
  "held_by n s = (\<Sum>i < n. held (threads s i) (winfo (worker (pool s) i)))"

definition tasks_ok :: "tp_config \<Rightarrow> tp_sys \<Rightarrow> POThreadPool_task list \<Rightarrow> bool" where
  "tasks_ok cfg s q \<longleftrightarrow> (QUEUE_LENGTH cfg > 0 \<longrightarrow>
     mset (submitted s) = mset (finished s)
       + held_by (MAX_NUM_THREADS cfg) s + mset q + in_hand (master s))"

definition tp_inv_at :: "tp_config \<Rightarrow> tp_sys \<Rightarrow> nat list \<Rightarrow> nat list \<Rightarrow> POThreadPool_task list \<Rightarrow> bool" where
  "tp_inv_at cfg s il ul q \<longleftrightarrow> tp_config_ok cfg \<and> tp_rep cfg (pool s) il ul q
     \<and> workers_ok cfg s il ul \<and> sleepers_ok cfg s il \<and> master_ok cfg s il ul q \<and> tasks_ok cfg s q"

definition tp_inv :: "tp_config \<Rightarrow> tp_sys \<Rightarrow> bool" where
  "tp_inv cfg s \<longleftrightarrow> (\<exists>il ul q. tp_inv_at cfg s il ul q)"

end
