(* ===== verification/PoolInvariant.thy ===== *)
theory PoolInvariant
  imports PoolMachine
begin

text \<open>
  Every section of the pool keeps the invariant \<open>tp_inv\<close> and runs without a failed assertion: one
  lemma per event, on top of lemmas about what changing one thread does to the invariant. The
  interpretation of \<open>state_machine\<close> at the end carries the invariant to every reachable state.
\<close>

subsection \<open>Changing one thread\<close>

lemma card_active_upd:
  fixes n :: nat
  assumes "i < n"
  shows "card {j. j < n \<and> active ((f(i := c)) j)} + of_bool (active (f i))
       = card {j. j < n \<and> active (f j)} + of_bool (active c)"
proof -
  define A where "A = {..<n} \<inter> {j. j \<noteq> i \<and> active (f j)}"
  have "{j. j < n \<and> active (g j)} = (if active (g i) then insert i A else A)"
    if "\<And>j. j \<noteq> i \<Longrightarrow> g j = f j" for g
    using assms by (auto simp: A_def split: if_splits) (metis that)+
  moreover have "finite A" "i \<notin> A" by (simp_all add: A_def)
  ultimately show ?thesis by simp
qed

lemma held_by_upd:
  assumes "i < n" and "threads s' = (threads s)(i := c)"
    and "\<And>j. j \<noteq> i \<Longrightarrow> held (threads s j) (winfo (worker (pool s') j)) = held (threads s j) (winfo (worker (pool s) j))"
  shows "held_by n s' + held (threads s i) (winfo (worker (pool s) i))
       = held_by n s + held c (winfo (worker (pool s') i))"
proof -
  have split: "held_by n r = held (threads r i) (winfo (worker (pool r) i))
      + (\<Sum>j \<in> {..<n} - {i}. held (threads r j) (winfo (worker (pool r) j)))" for r
    unfolding held_by_def using assms(1) by (simp add: sum.remove)
  have "(\<Sum>j \<in> {..<n} - {i}. held (threads s' j) (winfo (worker (pool s') j)))
      = (\<Sum>j \<in> {..<n} - {i}. held (threads s j) (winfo (worker (pool s) j)))"
    by (rule sum.cong) (auto simp: assms)
  then show ?thesis using split [of s] split [of s'] assms(2) by (simp add: ac_simps)
qed

lemma workers_ok_upd:
  assumes ok: "workers_ok cfg s il ul" and i: "i < MAX_NUM_THREADS cfg"
    and thr: "threads s' = (threads s)(i := c)"
    and wi: "\<And>j. winfo (worker (pool s') j) = (if j = i then w else winfo (worker (pool s) j))"
    and new: "worker_ok c w True (i \<in> set il') (i \<in> set ul')"
    and lists: "\<And>j. j \<noteq> i \<Longrightarrow> j \<in> set il' \<longleftrightarrow> j \<in> set il" "\<And>j. j \<noteq> i \<Longrightarrow> j \<in> set ul' \<longleftrightarrow> j \<in> set ul"
    and num: "unat (num_threads (pool s')) + of_bool (active (threads s i))
            = unat (num_threads (pool s)) + of_bool (active c)"
  shows "workers_ok cfg s' il' ul'"
proof -
  have "worker_ok (threads s' j) (winfo (worker (pool s') j)) (j < MAX_NUM_THREADS cfg) (j \<in> set il') (j \<in> set ul')" for j
    using ok new i lists by (cases "j = i") (auto simp: workers_ok_def thr wi)
  moreover have "unat (num_threads (pool s')) = card {j. j < MAX_NUM_THREADS cfg \<and> active (threads s' j)}"
    using card_active_upd [OF i, of "threads s" c] num ok by (simp add: workers_ok_def thr)
  ultimately show ?thesis by (simp add: workers_ok_def)
qed

lemma tasks_ok_gen:
  assumes ok: "tasks_ok cfg s q" and i: "i < MAX_NUM_THREADS cfg"
    and thr: "threads s' = (threads s)(i := c)" and w: "winfo (worker (pool s') i) = w"
    and wi: "\<And>j. j \<noteq> i \<Longrightarrow>
       held (threads s j) (winfo (worker (pool s') j)) = held (threads s j) (winfo (worker (pool s) j))"
    and bal: "QUEUE_LENGTH cfg > 0 \<Longrightarrow>
       mset (submitted s') + mset (finished s) + held (threads s i) (winfo (worker (pool s) i))
         + mset q + in_hand (master s)
       = mset (submitted s) + mset (finished s') + held c w + mset q' + in_hand (master s')"
  shows "tasks_ok cfg s' q'"
proof -
  let ?n = "MAX_NUM_THREADS cfg" and ?h = "held (threads s i) (winfo (worker (pool s) i))"
  have H: "held_by ?n s' + ?h = held_by ?n s + held c w"
    using held_by_upd [OF i thr wi] w by simp
  show ?thesis unfolding tasks_ok_def
  proof
    assume Q: "QUEUE_LENGTH cfg > 0"
    with ok have S: "mset (submitted s) = mset (finished s) + held_by ?n s + mset q + in_hand (master s)"
      by (simp add: tasks_ok_def)
    have "mset (submitted s') + (mset (finished s) + mset q + in_hand (master s) + held_by ?n s + ?h)
       = mset (finished s') + held_by ?n s' + mset q' + in_hand (master s')
         + (mset (finished s) + mset q + in_hand (master s) + held_by ?n s + ?h)"
      using bal [OF Q] H unfolding S
      by (smt (verit) ac_simps(1) ac_simps(2) ac_simps(3))
    then show "mset (submitted s') = mset (finished s') + held_by ?n s' + mset q' + in_hand (master s')"
      by (simp only: add_right_cancel)
  qed
qed

lemma tasks_ok_upd:
  assumes "tasks_ok cfg s q" and "i < MAX_NUM_THREADS cfg" and "threads s' = (threads s)(i := c)"
    and "\<And>j. winfo (worker (pool s') j) = (if j = i then w else winfo (worker (pool s) j))"
    and "QUEUE_LENGTH cfg > 0 \<Longrightarrow>
       mset (submitted s') + mset (finished s) + held (threads s i) (winfo (worker (pool s) i))
         + mset q + in_hand (master s)
       = mset (submitted s) + mset (finished s') + held c w + mset q' + in_hand (master s')"
  shows "tasks_ok cfg s' q'"
  by (rule tasks_ok_gen [OF assms(1-3)]) (simp_all add: assms(4,5))

lemma worker_okD:
  assumes "workers_ok cfg s il ul"
  shows "worker_ok (threads s i) (winfo (worker (pool s) i)) (i < MAX_NUM_THREADS cfg) (i \<in> set il) (i \<in> set ul)"
  using assms by (simp add: workers_ok_def)

lemma thread_small:
  assumes "workers_ok cfg s il ul" and "threads s i \<noteq> NoThread"
  shows "i < MAX_NUM_THREADS cfg" "i \<notin> set ul"
  using worker_okD [OF assms(1), of i] assms(2)
  by (cases "threads s i"; auto simp: winfo_def)+

lemma idle_sleeps:
  assumes "workers_ok cfg s il ul" and "tp_rep cfg (pool s) il ul q" and "i \<in> set il"
  shows "threads s i = Sleeping \<and> w_userCallback (worker (pool s) i) = None \<and> w_cond (worker (pool s) i) = Waiting"
proof -
  from assms(2,3) have "i < MAX_NUM_THREADS cfg" "i \<notin> set ul" using tp_rep_lists(3,5) [OF assms(2)] by auto
  with worker_okD [OF assms(1), of i] assms(3) show ?thesis
    by (cases "threads s i") (auto simp: winfo_def)
qed

lemma unused_no_thread:
  assumes "workers_ok cfg s il ul" and "i \<in> set ul"
  shows "threads s i = NoThread \<and> w_cond (worker (pool s) i) = NoWaiter"
  using worker_okD [OF assms(1), of i] assms(2) by (cases "threads s i") (auto simp: winfo_def)

lemma num_threads_bound:
  assumes ok: "workers_ok cfg s il ul"
  shows "unat (num_threads (pool s)) \<le> MAX_NUM_THREADS cfg"
    and "i < MAX_NUM_THREADS cfg \<Longrightarrow> \<not> active (threads s i) \<Longrightarrow> unat (num_threads (pool s)) < MAX_NUM_THREADS cfg"
    and "active (threads s i) \<Longrightarrow> 0 < unat (num_threads (pool s))"
proof -
  let ?n = "MAX_NUM_THREADS cfg" and ?A = "{i. i < MAX_NUM_THREADS cfg \<and> active (threads s i)}"
  have num: "unat (num_threads (pool s)) = card ?A" using ok by (simp add: workers_ok_def)
  show "unat (num_threads (pool s)) \<le> ?n"
    using card_mono [of "{..<?n}" ?A] num by auto
  show "unat (num_threads (pool s)) < ?n" if "i < ?n" "\<not> active (threads s i)"
    using psubset_card_mono [of "{..<?n}" ?A] that num by auto
  show "0 < unat (num_threads (pool s))" if "active (threads s i)"
    using thread_small(1) [OF ok, of i] that num by (auto simp: card_gt_0_iff active_def)
qed

lemma active_iff_num:
  assumes ok: "workers_ok cfg s il ul"
  shows "num_threads (pool s) = 0 \<longleftrightarrow> (\<forall>i. \<not> active (threads s i))"
proof -
  have "unat (num_threads (pool s)) = card {i. i < MAX_NUM_THREADS cfg \<and> active (threads s i)}"
    using ok by (simp add: workers_ok_def)
  then have "num_threads (pool s) = 0 \<longleftrightarrow> (\<forall>i < MAX_NUM_THREADS cfg. \<not> active (threads s i))"
    by (auto simp: unat_eq_zero_iff [symmetric])
  then show ?thesis using thread_small(1) [OF ok] by (metis active_def)
qed

lemma last_thread:
  assumes ok: "workers_ok cfg s il ul" and one: "num_threads (pool s) = 1"
    and i: "active (threads s i)" and j: "active (threads s j)"
  shows "j = i"
proof -
  let ?A = "{i. i < MAX_NUM_THREADS cfg \<and> active (threads s i)}"
  have "card ?A = 1" using ok one by (simp add: workers_ok_def)
  moreover have "i \<in> ?A" "j \<in> ?A" using thread_small(1) [OF ok] i j by (auto simp: active_def)
  ultimately show ?thesis by (metis card_1_singletonE singletonD)
qed

lemma active_simps [simp]:
  "\<not> active NoThread" "\<not> active Starting" "active (Running tk)" "active Sleeping"
  by (simp_all add: active_def)


subsection \<open>Every section keeps the invariant\<close>

lemma Start_inv:
  assumes inv: "tp_inv_at cfg s il ul q" and en: "tp_enabled (Start i) s"
  shows "\<exists>s'. tp_exec cfg (Start i) s = Some s' \<and> tp_inv_at cfg s' il ul q"
proof -
  define p where "p = pool s"
  from inv have rep: "tp_rep cfg p il ul q" and W: "workers_ok cfg s il ul" and T: "tasks_ok cfg s q"
    and M: "master_ok cfg s il ul q" and S: "sleepers_ok cfg s il" and ok: "tp_config_ok cfg"
    by (auto simp: tp_inv_at_def p_def)
  from en have i: "threads s i = Starting" by simp
  with worker_okD [OF W, of i] obtain cb where w: "w_userCallback (worker p i) = Some cb"
    "w_cond (worker p i) = NoWaiter" "i < MAX_NUM_THREADS cfg" "i \<notin> set il" "i \<notin> set ul"
    by (auto simp: winfo_def p_def)
  define tk :: POThreadPool_task where "tk = \<lparr>t_userCallback = cb, t_userData = w_userData (worker p i)\<rparr>"
  define p' where "p' = signal_pool (p\<lparr>num_threads := num_threads p + 1\<rparr>)"
  define s' where "s' = s\<lparr>pool := p', threads := (threads s)(i := Running tk)\<rparr>"
  have lt: "unat (num_threads p) < MAX_NUM_THREADS cfg"
    using num_threads_bound(2) [OF W w(3)] i by (simp add: p_def)
  have suc: "unat (num_threads p + 1) = Suc (unat (num_threads p))"
    using unat_Suc_bound [OF lt] ok by (simp add: tp_config_ok_def)
  have "tp_exec cfg (Start i) s = Some s'"
    using w suc lt by (simp add: worker_enter_def s'_def p'_def tk_def p_def)
  moreover have wi: "winfo (worker (pool s') j) = (if j = i then (Some cb, w_userData (worker p i), NoWaiter)
      else winfo (worker (pool s) j))" for j
    using w by (simp add: s'_def p'_def p_def winfo_def)
  have thr: "threads s' = (threads s)(i := Running tk)" by (simp add: s'_def)
  have "workers_ok cfg s' il ul"
    by (rule workers_ok_upd [OF W w(3) thr wi]) (use w suc i in \<open>auto simp: s'_def p'_def p_def\<close>)
  moreover have "tasks_ok cfg s' q"
    by (rule tasks_ok_upd [OF T w(3) thr wi]) (use w i in \<open>auto simp: s'_def winfo_def tk_def p_def\<close>)
  moreover have "tp_rep cfg p' il ul q"
    unfolding p'_def by (simp, rule tp_rep_cong [OF rep]) simp_all
  moreover have "master_ok cfg s' il ul q"
    using M i by (auto simp: master_ok_def Let_def s'_def p'_def p_def no_starting_def split: mpc.splits)
  moreover have "sleepers_ok cfg s' il"
    using S by (auto simp: sleepers_ok_def s'_def p'_def p_def)
  ultimately show ?thesis using ok by (auto simp: tp_inv_at_def s'_def)
qed

lemma tp_invI: "tp_inv_at cfg s il ul q \<Longrightarrow> tp_inv cfg s"
  unfolding tp_inv_def by blast

text \<open>A worker that holds the mutex does not wait on its condition variable.\<close>

definition calm :: "nat \<Rightarrow> POThreadPool \<Rightarrow> POThreadPool" where
  "calm i p = p\<lparr>worker := upd (worker p) i (\<lambda>w. w\<lparr>w_cond := NoWaiter\<rparr>)\<rparr>"

lemma calm_simps [simp]:
  "num_threads (calm i p) = num_threads p" "task (calm i p) = task p" "task1 (calm i p) = task1 p"
  "idle (calm i p) = idle p" "unused (calm i p) = unused p" "p_cond (calm i p) = p_cond p"
  "cleanup (calm i p) = cleanup p" "taskWaitingToBeRun (calm i p) = taskWaitingToBeRun p"
  "w_userCallback (worker (calm i p) j) = w_userCallback (worker p j)"
  "winfo (worker (calm i p) j) =
     (if j = i then (w_userCallback (worker p i), w_userData (worker p i), NoWaiter) else winfo (worker p j))"
  by (simp_all add: calm_def upd_apply winfo_def)

lemma tp_rep_calm: "tp_rep cfg p il ul q \<Longrightarrow> tp_rep cfg (calm i p) il ul q"
  by (erule tp_rep_cong) (auto simp: calm_def fun_eq_iff upd_apply)

lemma calm_triv: "w_cond (worker p i) = NoWaiter \<Longrightarrow> calm i p = p"
  by (cases p, cases "worker p i") (simp add: calm_def upd_def fun_upd_idem)

text \<open>A worker finds a task.\<close>

lemma look_run_inv:
  assumes inv: "tp_inv_at cfg s il ul q" and act: "active (threads s i)" and notin: "i \<notin> set il"
    and held: "held (threads s i) (winfo (worker (pool s) i)) = mset fin"
    and look: "lookForWork cfg (calm i (pool s)) = Some (Some tk, p')"
  shows "tp_inv_at cfg (put_worker i (s\<lparr>finished := finished s @ fin\<rparr>) (Run tk, p'))
           il ul (tl q)" (is "tp_inv_at _ ?s' _ _ _")
proof -
  from inv have rep: "tp_rep cfg (pool s) il ul q" and W: "workers_ok cfg s il ul" and T: "tasks_ok cfg s q"
    and M: "master_ok cfg s il ul q" and S: "sleepers_ok cfg s il" and ok: "tp_config_ok cfg"
    by (auto simp: tp_inv_at_def)
  note small = thread_small [OF W, of i]
  note rep1 = tp_rep_calm [OF rep, of i]
  consider r tq where "q = tk # r" "QUEUE_LENGTH cfg > 0" "tp_rep cfg (calm i (pool s)\<lparr>task := tq\<rparr>) il ul r"
      "p' = (if taskWaitingToBeRun (pool s) then signal_pool (calm i (pool s)\<lparr>task := tq\<rparr>) else calm i (pool s)\<lparr>task := tq\<rparr>)"
    | "QUEUE_LENGTH cfg = 0" "q = []" "taskWaitingToBeRun (pool s)" "p' = signal_pool (calm i (pool s))"
  proof (cases q)
    case Nil
    then show thesis
      using that(2) look lookForWork_None [OF rep1 [unfolded Nil]] lookForWork_slot [of cfg "calm i (pool s)"]
      by (cases "QUEUE_LENGTH cfg = 0 \<and> taskWaitingToBeRun (pool s)") auto
  next
    case (Cons x r)
    moreover have "QUEUE_LENGTH cfg > 0" using Cons rep by (auto simp: tp_rep_def split: if_splits)
    ultimately show thesis
      using that(1) look lookForWork_queue [OF rep1 [unfolded Cons] ok] by fastforce
  qed
  note cases_look = this
  have p': "winfo (worker p' j) = winfo (worker (calm i (pool s)) j)" "num_threads p' = num_threads (pool s)"
    "tp_rep cfg p' il ul (tl q)" for j
    using rep1 by (cases rule: cases_look; simp)+
  have wi: "winfo (worker (pool ?s') j) = (if j = i then (w_userCallback (worker (pool s) i), w_userData (worker (pool s) i), NoWaiter)
      else winfo (worker (pool s) j))" for j
    using p' by simp
  have i: "i < MAX_NUM_THREADS cfg" "i \<notin> set ul" using small act by (auto simp: active_def)
  have thr: "threads ?s' = (threads s)(i := Running tk)" by simp
  have "workers_ok cfg ?s' il ul"
    by (rule workers_ok_upd [OF W i(1) thr wi]) (use act notin i p' in auto)
  moreover have "tasks_ok cfg ?s' (tl q)"
    by (rule tasks_ok_upd [OF T i(1) thr wi])
      (use held in \<open>cases rule: cases_look; simp\<close>)+
  moreover have "master_ok cfg ?s' il ul (tl q)"
  proof (cases rule: cases_look)
    case (1 r tq)
    then show ?thesis
      using M act [unfolded active_def]
      by (cases "master s"; simp add: master_ok_def Let_def no_starting_def; auto)
  next
    case 2
    then show ?thesis
      using M act [unfolded active_def]
      by (cases "master s"; simp add: master_ok_def Let_def no_starting_def; auto)
  qed
  moreover have "sleepers_ok cfg ?s' il"
    using S p' by (auto simp: sleepers_ok_def winfo_def)
  ultimately show ?thesis using ok p' by (simp add: tp_inv_at_def)
qed

text \<open>A worker returns. \<open>b\<close>: it has signalled the master as the last thread.\<close>

lemma leave_inv:
  assumes inv: "tp_inv_at cfg s il ul []" and act: "active (threads s i)" and notin: "i \<notin> set il"
    and held: "held (threads s i) (winfo (worker (pool s) i)) = mset fin"
    and slot: "QUEUE_LENGTH cfg = 0 \<longrightarrow> \<not> taskWaitingToBeRun (pool s)"
    and b: "b \<Longrightarrow> cleanup (pool s) \<and> num_threads (pool s) = 1"
    and last: "master s = MWaitLast \<Longrightarrow> MAX_IDLE_TIME cfg \<le> 0 \<Longrightarrow> num_threads (pool s) = 1 \<Longrightarrow> b"
  shows "\<exists>p'. worker_leave cfg i (if b then signal_pool (calm i (pool s)) else calm i (pool s)) = Some (Exit, p')
     \<and> tp_inv_at cfg (put_worker i (s\<lparr>finished := finished s @ fin\<rparr>) (Exit, p')) il (i # ul) []"
proof -
  define p where "p = (if b then signal_pool (calm i (pool s)) else calm i (pool s))"
  from inv have rep: "tp_rep cfg (pool s) il ul []" and W: "workers_ok cfg s il ul" and T: "tasks_ok cfg s []"
    and M: "master_ok cfg s il ul []" and S: "sleepers_ok cfg s il" and ok: "tp_config_ok cfg"
    by (auto simp: tp_inv_at_def)
  have i: "i < MAX_NUM_THREADS cfg" "i \<notin> set ul"
    using thread_small [OF W, of i] act by (auto simp: active_def)
  have n: "0 < unat (num_threads (pool s))" "unat (num_threads (pool s)) \<le> MAX_NUM_THREADS cfg"
    using num_threads_bound [OF W] act by auto
  have p: "num_threads p = num_threads (pool s)" "taskWaitingToBeRun p = taskWaitingToBeRun (pool s)"
    "task1 p = task1 (pool s)" "cleanup p = cleanup (pool s)" "\<And>j. winfo (worker p j) = winfo (worker (calm i (pool s)) j)"
    "p_cond p = (if b then cond_signal (p_cond (pool s)) else p_cond (pool s))"
    by (auto simp: p_def)
  have "tp_rep cfg p il ul []" using tp_rep_calm [OF rep] by (simp add: p_def)
  from worker_leave_spec [OF this ok i(1) notin i(2)] n p(1) obtain l ws where
    L: "worker_leave cfg i p = Some (Exit, p\<lparr>unused := l, worker := ws, num_threads := num_threads p - 1\<rparr>)"
       "tp_rep cfg (p\<lparr>unused := l, worker := ws, num_threads := num_threads p - 1\<rparr>) il (i # ul) []"
       "winfo \<circ> ws = winfo \<circ> worker p" "unat (num_threads p - 1) = unat (num_threads p) - 1"
    by auto
  define p' where "p' = p\<lparr>unused := l, worker := ws, num_threads := num_threads p - 1\<rparr>"
  define s' where "s' = put_worker i (s\<lparr>finished := finished s @ fin\<rparr>) (Exit, p')"
  have wi: "winfo (worker (pool s') j) = (if j = i then (w_userCallback (worker (pool s) i), w_userData (worker (pool s) i), NoWaiter)
      else winfo (worker (pool s) j))" for j
    using fun_cong [OF L(3), of j] p(5) by (simp add: s'_def p'_def)
  have thr: "threads s' = (threads s)(i := NoThread)" by (simp add: s'_def)
  have cb: "w_userCallback (ws j) = w_userCallback (worker (pool s) j)" for j
    using wi [of j] by (auto simp: s'_def p'_def winfo_def split: if_splits)
  have W': "workers_ok cfg s' il (i # ul)"
    by (rule workers_ok_upd [OF W i(1) thr wi]) (use act notin i n L(4) p(1) in \<open>auto simp: s'_def p'_def\<close>)
  have "tasks_ok cfg s' []"
    by (rule tasks_ok_upd [OF T i(1) thr wi]) (use held in \<open>simp add: s'_def\<close>)
  moreover have "master_ok cfg s' il (i # ul) []"
  proof (cases "master s = MWaitLast")
    case MWaitLast: True
    have "threads s' j = NoThread" if b for j
      using last_thread [OF W _ act, of j] b that M MWaitLast
      by (auto simp: s'_def master_ok_def Let_def no_starting_def active_def)
    moreover have "0 < num_threads (pool s')" if "\<not> b" "MAX_IDLE_TIME cfg \<le> 0"
      using last [OF MWaitLast] that p(1) word_pred_gt_zero [of "num_threads p"]
      by (auto simp: s'_def p'_def)
    ultimately show ?thesis
      using M MWaitLast act p(2,4,6)
      by (cases b) (auto simp: s'_def p'_def master_ok_def Let_def no_starting_def active_def)
  next
    case False
    have "\<not> b"
      using False M b act by (cases "master s") (auto simp: master_ok_def Let_def active_def)
    with p have "p_cond p' = p_cond (pool s)" "cleanup p' = cleanup (pool s)" "task1 p' = task1 (pool s)"
      "taskWaitingToBeRun p' = taskWaitingToBeRun (pool s)" "worker p' = ws"
      by (simp_all add: p'_def)
    with False cb show ?thesis
      using M slot act [unfolded active_def]
      by (cases "master s"; simp add: s'_def master_ok_def Let_def no_starting_def; auto)
  qed
  moreover have "sleepers_ok cfg s' il"
    using S cb by (auto simp: sleepers_ok_def s'_def p'_def)
  ultimately have "tp_inv_at cfg s' il (i # ul) []"
    using ok L(2) W' by (simp add: tp_inv_at_def s'_def p'_def)
  then show ?thesis using L(1) by (auto simp: s'_def p'_def p_def)
qed

text \<open>A worker goes to sleep.\<close>

lemma sleep_inv:
  assumes inv: "tp_inv_at cfg s il ul []" and act: "threads s i = Running tk"
    and slot: "QUEUE_LENGTH cfg = 0 \<longrightarrow> \<not> taskWaitingToBeRun (pool s)"
    and idle: "MAX_IDLE_TIME cfg \<noteq> 0" and ncl: "\<not> cleanup (pool s)"
  shows "\<exists>p'. worker_sleep cfg t i (pool s) = Some (Sleep, p')
     \<and> tp_inv_at cfg (put_worker i (s\<lparr>finished := finished s @ [tk]\<rparr>) (Sleep, p')) (i # il) ul []"
proof -
  from inv have rep: "tp_rep cfg (pool s) il ul []" and W: "workers_ok cfg s il ul" and T: "tasks_ok cfg s []"
    and M: "master_ok cfg s il ul []" and S: "sleepers_ok cfg s il" and ok: "tp_config_ok cfg"
    by (auto simp: tp_inv_at_def)
  have i: "i < MAX_NUM_THREADS cfg" "i \<notin> set ul" "i \<notin> set il"
    using thread_small [OF W, of i] act worker_okD [OF W, of i] by (auto simp: winfo_def)
  from worker_sleep_spec [OF rep ok idle i(1,3,2), of t] obtain l ws where
    L: "worker_sleep cfg t i (pool s) = Some (Sleep, (pool s)\<lparr>idle := l, worker := ws\<rparr>)"
       "tp_rep cfg ((pool s)\<lparr>idle := l, worker := ws\<rparr>) (i # il) ul []"
       "winfo \<circ> ws = (winfo \<circ> worker (pool s))(i := (None, w_userData (worker (pool s) i), Waiting))"
    by blast
  define s' where "s' = put_worker i (s\<lparr>finished := finished s @ [tk]\<rparr>)
     (Sleep, (pool s)\<lparr>idle := l, worker := ws\<rparr>)"
  have wi: "winfo (worker (pool s') j) = (if j = i then (None, w_userData (worker (pool s) i), Waiting)
      else winfo (worker (pool s) j))" for j
    using fun_cong [OF L(3), of j] by (simp add: s'_def)
  have cb: "w_userCallback (ws j) = (if j = i then None else w_userCallback (worker (pool s) j))" for j
    using wi [of j] by (auto simp: s'_def winfo_def split: if_splits)
  have thr: "threads s' = (threads s)(i := Sleeping)" by (simp add: s'_def)
  have "workers_ok cfg s' (i # il) ul"
    by (rule workers_ok_upd [OF W i(1) thr wi]) (use act i in \<open>auto simp: s'_def\<close>)
  moreover have "tasks_ok cfg s' []"
    by (rule tasks_ok_upd [OF T i(1) thr wi]) (use act in \<open>simp add: s'_def\<close>)
  moreover have "master_ok cfg s' (i # il) ul []"
  proof (cases "master s")
    case (MJoining j)
    with M act have "j \<noteq> i" by (auto simp: master_ok_def Let_def)
    with MJoining M cb [of j] show ?thesis
      by (auto simp: s'_def master_ok_def Let_def no_starting_def)
  next
    case (MWaitRoom tk')
    with M slot have "0 < QUEUE_LENGTH cfg" by (auto simp: master_ok_def Let_def)
    with MWaitRoom M act show ?thesis by (auto simp: s'_def master_ok_def Let_def no_starting_def)
  qed (use M act ncl in \<open>auto simp: s'_def master_ok_def Let_def no_starting_def\<close>)
  moreover have "sleepers_ok cfg s' (i # il)"
    using S cb by (auto simp: sleepers_ok_def s'_def)
  ultimately show ?thesis using ok L by (auto simp: tp_inv_at_def s'_def)
qed

lemma Finish_inv:
  assumes inv: "tp_inv_at cfg s il ul q" and en: "tp_enabled (Finish t i) s"
  shows "\<exists>s'. tp_exec cfg (Finish t i) s = Some s' \<and> tp_inv cfg s'"
proof -
  from en obtain tk where i: "threads s i = Running tk" by (cases "threads s i") auto
  from inv have rep: "tp_rep cfg (pool s) il ul q" and W: "workers_ok cfg s il ul"
    and M: "master_ok cfg s il ul q" and ok: "tp_config_ok cfg"
    by (auto simp: tp_inv_at_def)
  have ni: "i \<notin> set il" and calm: "calm i (pool s) = pool s"
    using worker_okD [OF W, of i] i by (auto simp: winfo_def calm_triv)
  have held: "held (threads s i) (winfo (worker (pool s) i)) = mset [tk]" by (simp add: i)
  show ?thesis
  proof (cases "lookForWork cfg (pool s) = Some (None, pool s)")
    case True
    then have q: "q = []" and slot: "QUEUE_LENGTH cfg = 0 \<longrightarrow> \<not> taskWaitingToBeRun (pool s)"
      using lookForWork_queue [of cfg "pool s" il ul] rep ok lookForWork_slot [of cfg "pool s"]
      by (cases q; fastforce)+
    consider "cleanup (pool s)" | "\<not> cleanup (pool s)" "MAX_IDLE_TIME cfg \<noteq> 0"
      | "\<not> cleanup (pool s)" "MAX_IDLE_TIME cfg = 0" by blast
    then show ?thesis
    proof cases
      case 1
      with leave_inv [OF inv [unfolded q] _ ni held slot, of "num_threads (pool s) = 1"] i calm True
      show ?thesis by (auto simp: worker_done_def intro: tp_invI split: if_splits)
    next
      case 2
      with sleep_inv [OF inv [unfolded q] i slot, of t] i True show ?thesis
        by (auto simp: worker_done_def intro: tp_invI)
    next
      case 3
      then have "master s \<noteq> MWaitLast" using M by (auto simp: master_ok_def Let_def)
      with 3 leave_inv [OF inv [unfolded q] _ ni held slot, of False] i calm True
      show ?thesis by (auto simp: worker_done_def intro: tp_invI)
    qed
  next
    case False
    then obtain tk' p' where L: "lookForWork cfg (pool s) = Some (Some tk', p')"
      using lookForWork_queue [of cfg "pool s" il ul] rep ok lookForWork_slot [of cfg "pool s"]
        lookForWork_None [of cfg "pool s" il ul] by (cases q) fastforce+
    with look_run_inv [OF inv _ ni held, of tk' p'] i calm show ?thesis
      by (auto simp: worker_done_def intro: tp_invI)
  qed
qed

lemma finished_triv: "s\<lparr>finished := finished s\<rparr> = (s :: tp_sys)"
  by simp

lemma Wake_inv:
  assumes inv: "tp_inv_at cfg s il ul q" and en: "tp_enabled (Wake i) s"
  shows "\<exists>s'. tp_exec cfg (Wake i) s = Some s' \<and> tp_inv cfg s'"
proof -
  from en have i: "threads s i = Sleeping" "w_cond (worker (pool s) i) = Signaled" by auto
  from inv have rep: "tp_rep cfg (pool s) il ul q" and W: "workers_ok cfg s il ul" and S: "sleepers_ok cfg s il"
    and M: "master_ok cfg s il ul q" and T: "tasks_ok cfg s q" and ok: "tp_config_ok cfg"
    by (auto simp: tp_inv_at_def)
  have ni: "i \<notin> set il" using worker_okD [OF W, of i] i by (auto simp: winfo_def)
  note small = thread_small [OF W, of i]
  note rep1 = tp_rep_calm [OF rep, of i]
  have exec: "tp_exec cfg (Wake i) s = map_option (put_worker i s) (case w_userCallback (worker (pool s) i) of
       Some cb \<Rightarrow> Some (Run \<lparr>t_userCallback = cb, t_userData = w_userData (worker (pool s) i)\<rparr>, calm i (pool s))
     | None \<Rightarrow> do { (r, p) \<leftarrow> lookForWork cfg (calm i (pool s));
         case r of Some tk \<Rightarrow> Some (Run tk, p) | None \<Rightarrow> worker_leave cfg i p })"
    by (cases "w_userCallback (worker (pool s) i)") (simp_all add: worker_wake_def calm_def)
  show ?thesis
  proof (cases "w_userCallback (worker (pool s) i)")
    case (Some cb)
    define tk :: POThreadPool_task where "tk = \<lparr>t_userCallback = cb, t_userData = w_userData (worker (pool s) i)\<rparr>"
    define s' where "s' = put_worker i s (Run tk, calm i (pool s))"
    have thr: "threads s' = (threads s)(i := Running tk)" by (simp add: s'_def)
    have wi: "winfo (worker (pool s') j) = (if j = i then (Some cb, w_userData (worker (pool s) i), NoWaiter)
      else winfo (worker (pool s) j))" for j
      by (simp add: s'_def Some)
    have "workers_ok cfg s' il ul"
      by (rule workers_ok_upd [OF W _ thr wi]) (use i ni small in \<open>auto simp: s'_def\<close>)
    moreover have "tasks_ok cfg s' q"
      by (rule tasks_ok_upd [OF T _ thr wi]) (use i small Some in \<open>auto simp: s'_def winfo_def tk_def\<close>)
    moreover have "master_ok cfg s' il ul q"
      using M i Some by (cases "master s"; simp add: s'_def master_ok_def Let_def no_starting_def; auto)
    moreover have "sleepers_ok cfg s' il" using S by (auto simp: sleepers_ok_def s'_def)
    ultimately have "tp_inv_at cfg s' il ul q" using ok rep1 by (simp add: tp_inv_at_def s'_def)
    then show ?thesis using exec Some by (auto simp: s'_def tk_def intro: tp_invI)
  next
    case None
    have held: "held (threads s i) (winfo (worker (pool s) i)) = mset []" by (simp add: i None winfo_def)
    show ?thesis
    proof (cases "lookForWork cfg (calm i (pool s)) = Some (None, calm i (pool s))")
      case True
      then have q: "q = []" and slot: "QUEUE_LENGTH cfg = 0 \<longrightarrow> \<not> taskWaitingToBeRun (pool s)"
        using lookForWork_queue [of cfg "calm i (pool s)" il ul] rep1 ok lookForWork_slot [of cfg "calm i (pool s)"]
        by (cases q; fastforce)+
      have "\<not> (master s = MWaitLast \<and> MAX_IDLE_TIME cfg \<le> 0)"
        using S i ni None by (auto simp: sleepers_ok_def)
      then obtain p' where "worker_leave cfg i (calm i (pool s)) = Some (Exit, p')"
        "tp_inv_at cfg (put_worker i s (Exit, p')) il (i # ul) []"
        using leave_inv [OF inv [unfolded q] _ ni held slot, of False] i by auto
      then show ?thesis using exec None True by (auto intro: tp_invI)
    next
      case False
      then obtain tk' p' where L: "lookForWork cfg (calm i (pool s)) = Some (Some tk', p')"
        using lookForWork_queue [of cfg "calm i (pool s)" il ul] rep1 ok lookForWork_slot [of cfg "calm i (pool s)"]
          lookForWork_None [of cfg "calm i (pool s)" il ul] by (cases q) fastforce+
      with look_run_inv [OF inv _ ni held, of tk' p'] i exec None show ?thesis
        by (auto intro: tp_invI simp: finished_triv)
    qed
  qed
qed

text \<open>
  One turn of \<^verbatim>\<open>poThreadPool_runTask\<close>, by a master that has the task in hand.
\<close>

lemma turn_idle_inv:
  assumes ok: "tp_config_ok cfg" and rep: "tp_rep cfg (pool s) (i # il) ul q" and W: "workers_ok cfg s (i # il) ul"
    and S: "sleepers_ok cfg s (i # il)" and T: "tasks_ok cfg s q" and m: "master s = MWaitRoom tk"
    and c: "p_cond (pool s) = NoWaiter" "no_starting s" "\<not> taskWaitingToBeRun (pool s)" "\<not> cleanup (pool s)"
  shows "\<exists>p'. runTask_turn cfg t tk (pool s) = Some (Returns, p') \<and> tp_inv cfg (s\<lparr>pool := p', master := MFree\<rparr>)"
proof -
  let ?g = "\<lambda>j. winfo (worker (pool s) j)"
  note sl = idle_sleeps [OF W rep]
  note lists = tp_rep_lists [OF rep]
  from runTask_turn_idle [OF rep, where tk = tk and t = t] sl obtain l ws il' where
    R: "runTask_turn cfg t tk (pool s) = Some (Returns, (pool s)\<lparr>idle := l, worker := ws\<rparr>)"
       "tp_rep cfg ((pool s)\<lparr>idle := l, worker := ws\<rparr>) il' ul q"
    and alt: "il' = il \<and> winfo \<circ> ws = (winfo \<circ> worker (pool s))(i := (Some (t_userCallback tk), t_userData tk, Signaled))
       \<or> MAX_IDLE_TIME cfg > 0 \<and> (\<exists>k d. il = il' @ [k] \<and>
           winfo \<circ> ws = ((winfo \<circ> worker (pool s))(i := (Some (t_userCallback tk), t_userData tk, Signaled)))(k := (None, d, Signaled)))"
    by metis
  define s' where "s' = s\<lparr>pool := (pool s)\<lparr>idle := l, worker := ws\<rparr>, master := MFree\<rparr>"
  have i: "i < MAX_NUM_THREADS cfg" "i \<notin> set il" "i \<notin> set ul" "threads s i = Sleeping"
    using lists sl [of i] by auto
  have w: "winfo (ws i) = (Some (t_userCallback tk), t_userData tk, Signaled)"
    using alt i(2) by (auto simp: fun_eq_iff)
  have others: "winfo (ws j) = ?g j \<and> (j \<in> set il' \<longleftrightarrow> j \<in> set il)
      \<or> j \<in> set il \<and> j \<notin> set il' \<and> (\<exists>d. winfo (ws j) = (None, d, Signaled)) \<and> MAX_IDLE_TIME cfg > 0"
    if "j \<noteq> i" for j
    using alt lists(1) that by (auto simp: fun_eq_iff split: if_splits)
  have i': "i \<notin> set il'" using alt i(2) by auto
  have "worker_ok (threads s j) (winfo (ws j)) (j < MAX_NUM_THREADS cfg) (j \<in> set il') (j \<in> set ul)" for j
    using worker_okD [OF W, of j] others [of j] w i i' sl [of j] lists
    by (cases "j = i") auto
  then have "workers_ok cfg s' il' ul" using W by (simp add: workers_ok_def s'_def)
  moreover have "tasks_ok cfg s' q"
  proof (rule tasks_ok_gen [OF T i(1)])
    show "threads s' = (threads s)(i := Sleeping)" using i by (auto simp: s'_def)
    show "held (threads s j) (winfo (worker (pool s') j)) = held (threads s j) (?g j)" if "j \<noteq> i" for j
      using others [OF that] sl [of j] by (auto simp: s'_def winfo_def)
  qed (use w i sl [of i] m in \<open>auto simp: s'_def winfo_def\<close>)
  moreover have "sleepers_ok cfg s' il'"
    unfolding sleepers_ok_def
  proof (intro impI allI, elim conjE)
    fix j
    assume "MAX_IDLE_TIME cfg \<le> 0" "threads s' j = Sleeping" "j \<notin> set il'" "w_userCallback (worker (pool s') j) = None"
    moreover from this have "j \<noteq> i" using w by (auto simp: s'_def winfo_def)
    ultimately show "master s' = MJoining j"
      using others [of j] S m by (auto simp: s'_def sleepers_ok_def winfo_def)
  qed
  moreover have "master_ok cfg s' il' ul q"
    using c by (simp add: s'_def master_ok_def no_starting_def)
  ultimately have "tp_inv_at cfg s' il' ul q" using ok R(2) by (simp add: tp_inv_at_def s'_def)
  then show ?thesis using R(1) by (auto simp: s'_def intro: tp_invI)
qed

lemma turn_start_inv:
  assumes ok: "tp_config_ok cfg" and rep: "tp_rep cfg (pool s) [] (i # ul) q" and W: "workers_ok cfg s [] (i # ul)"
    and S: "sleepers_ok cfg s []" and T: "tasks_ok cfg s q" and m: "master s = MWaitRoom tk"
    and c: "p_cond (pool s) = NoWaiter" "no_starting s" "\<not> taskWaitingToBeRun (pool s)" "\<not> cleanup (pool s)"
  shows "\<exists>p'. runTask_turn cfg t tk (pool s) = Some (AwaitStart i, p') \<and> tp_inv cfg (put_master tk s (AwaitStart i, p'))"
proof -
  note lists = tp_rep_lists [OF rep]
  from lists unused_no_thread [OF W, of i] have i: "i < MAX_NUM_THREADS cfg" "threads s i = NoThread"
    "w_cond (worker (pool s) i) = NoWaiter" "i \<notin> set ul" by auto
  have "unat (num_threads (pool s)) < MAX_NUM_THREADS cfg"
    using num_threads_bound(2) [OF W i(1)] i(2) by simp
  from runTask_turn_start [OF rep this, where tk = tk and t = t] i(3) obtain l ws where
    R: "runTask_turn cfg t tk (pool s) = Some (AwaitStart i, (pool s)\<lparr>unused := l, worker := ws, p_cond := Waiting\<rparr>)"
       "tp_rep cfg ((pool s)\<lparr>unused := l, worker := ws, p_cond := Waiting\<rparr>) [] ul q"
    and wf: "winfo \<circ> ws = (winfo \<circ> worker (pool s))(i := (Some (t_userCallback tk), t_userData tk, NoWaiter))"
    by auto
  define s' where "s' = put_master tk s (AwaitStart i, (pool s)\<lparr>unused := l, worker := ws, p_cond := Waiting\<rparr>)"
  have thr: "threads s' = (threads s)(i := Starting)" by (simp add: s'_def)
  have wi: "winfo (worker (pool s') j) =
      (if j = i then (Some (t_userCallback tk), t_userData tk, NoWaiter) else winfo (worker (pool s) j))" for j
    using fun_cong [OF wf, of j] by (simp add: s'_def)
  have "workers_ok cfg s' [] ul"
    by (rule workers_ok_upd [OF W i(1) thr wi]) (use i in \<open>auto simp: s'_def\<close>)
  moreover have "tasks_ok cfg s' q"
    by (rule tasks_ok_upd [OF T i(1) thr wi]) (use i m in \<open>simp add: s'_def\<close>)
  moreover have "master_ok cfg s' [] ul q"
    using c by (simp add: s'_def master_ok_def no_starting_def)
  moreover have "w_userCallback (ws j) = (if j = i then Some (t_userCallback tk) else w_userCallback (worker (pool s) j))" for j
    using wi [of j] by (simp add: s'_def winfo_def split: if_splits)
  then have "sleepers_ok cfg s' []"
    using S m by (auto simp: sleepers_ok_def s'_def)
  ultimately have "tp_inv_at cfg s' [] ul q" using ok R(2) by (simp add: tp_inv_at_def s'_def)
  then show ?thesis using R(1) by (auto simp: s'_def intro: tp_invI)
qed

lemma tasks_ok_cong:
  assumes "tasks_ok cfg s q" and "threads s' = threads s" and "worker (pool s') = worker (pool s)"
    and "mset (submitted s') + mset (finished s) + mset q + in_hand (master s)
       = mset (submitted s) + mset (finished s') + mset q' + in_hand (master s')"
  shows "tasks_ok cfg s' q'"
proof (cases "0 < MAX_NUM_THREADS cfg")
  case True
  show ?thesis
    by (rule tasks_ok_upd [OF assms(1) True, of _ "threads s 0" "winfo (worker (pool s) 0)"])
      (use assms in \<open>auto simp: ac_simps\<close>)
next
  case False
  then show ?thesis using assms by (auto simp: tasks_ok_def held_by_def)
qed

lemma workers_ok_cong:
  assumes "workers_ok cfg s il ul" and "threads s' = threads s" and "worker (pool s') = worker (pool s)"
    and "num_threads (pool s') = num_threads (pool s)"
  shows "workers_ok cfg s' il ul"
  using assms by (simp add: workers_ok_def)

lemma sleepers_ok_cong:
  assumes "sleepers_ok cfg s il" and "threads s' = threads s" and "worker (pool s') = worker (pool s)"
    and "\<And>i. master s = MJoining i \<Longrightarrow> master s' = MJoining i \<or> threads s i = NoThread"
  shows "sleepers_ok cfg s' il"
  using assms by (fastforce simp: sleepers_ok_def)

lemma turn_inv:
  assumes ok: "tp_config_ok cfg" and rep: "tp_rep cfg (pool s) il ul q" and W: "workers_ok cfg s il ul"
    and S: "sleepers_ok cfg s il" and T: "tasks_ok cfg s q" and m: "master s = MWaitRoom tk"
    and c: "p_cond (pool s) = NoWaiter" "no_starting s" "\<not> taskWaitingToBeRun (pool s)" "\<not> cleanup (pool s)"
  shows "\<exists>r. runTask_turn cfg t tk (pool s) = Some r \<and> tp_inv cfg (put_master tk s r)"
proof (cases il)
  case (Cons i il0)
  with assms turn_idle_inv [of cfg s i il0 ul q tk t] show ?thesis by fastforce
next
  case Nil
  show ?thesis
  proof (cases ul)
    case (Cons i ul0)
    with assms Nil turn_start_inv [of cfg s i ul0 q tk t] show ?thesis by fastforce
  next
    case ul: Nil
    note rep0 = rep [unfolded Nil ul]
    show ?thesis
    proof (cases "length q < QUEUE_LENGTH cfg")
      case True
      from runTask_turn_queue [OF rep0 ok True, of t tk] obtain tq where
        R: "runTask_turn cfg t tk (pool s) = Some (Returns, (pool s)\<lparr>task := tq\<rparr>)"
           "tp_rep cfg ((pool s)\<lparr>task := tq\<rparr>) [] [] (q @ [tk])" by blast
      have "tp_inv_at cfg (put_master tk s (Returns, (pool s)\<lparr>task := tq\<rparr>)) [] [] (q @ [tk])"
        unfolding tp_inv_at_def
        using ok R(2) workers_ok_cong [OF W] sleepers_ok_cong [OF S] tasks_ok_cong [OF T] m c Nil ul
        by (auto simp: master_ok_def no_starting_def)
      then show ?thesis using R(1) by (auto intro: tp_invI)
    next
      case False
      moreover have "length q \<le> QUEUE_LENGTH cfg"
        using rep by (auto simp: tp_rep_def tq_rep_def split: if_splits)
      ultimately have full: "length q = QUEUE_LENGTH cfg" by simp
      let ?p = "(pool s)\<lparr>taskWaitingToBeRun := True, task1 := (if QUEUE_LENGTH cfg < 1 then tk else task1 (pool s)),
                     p_cond := Waiting\<rparr>"
      note R = runTask_turn_block [OF rep0 full, where tk = tk and t = t]
      have "tp_inv_at cfg (put_master tk s (AwaitRoom, ?p)) [] [] q"
        unfolding tp_inv_at_def
        using ok R workers_ok_cong [OF W] sleepers_ok_cong [OF S] tasks_ok_cong [OF T] m c Nil ul full
        by (auto simp: master_ok_def no_starting_def)
      then show ?thesis using R by (auto intro: tp_invI)
    qed
  qed
qed

lemma Submit_inv:
  assumes inv: "tp_inv_at cfg s il ul q" and en: "tp_enabled (Submit t tk) s"
  shows "\<exists>s'. tp_exec cfg (Submit t tk) s = Some s' \<and> tp_inv cfg s'"
proof -
  define s1 where "s1 = s\<lparr>submitted := submitted s @ [tk], master := MWaitRoom tk\<rparr>"
  from inv en have rep: "tp_rep cfg (pool s) il ul q" and W: "workers_ok cfg s il ul" and T: "tasks_ok cfg s q"
    and M: "master_ok cfg s il ul q" and S: "sleepers_ok cfg s il" and ok: "tp_config_ok cfg" and m: "master s = MFree"
    by (auto simp: tp_inv_at_def)
  have "tasks_ok cfg s1 q" by (rule tasks_ok_cong [OF T]) (use m in \<open>simp_all add: s1_def\<close>)
  moreover have "sleepers_ok cfg s1 il" by (rule sleepers_ok_cong [OF S]) (use m in \<open>simp_all add: s1_def\<close>)
  moreover have "workers_ok cfg s1 il ul" by (rule workers_ok_cong [OF W]) (simp_all add: s1_def)
  ultimately obtain r where "runTask_turn cfg t tk (pool s) = Some r" "tp_inv cfg (put_master tk s1 r)"
    using turn_inv [of cfg s1 il ul q tk t] ok rep M m by (auto simp: s1_def master_ok_def Let_def no_starting_def)
  moreover have "put_master tk s1 r = put_master tk (s\<lparr>submitted := submitted s @ [tk]\<rparr>) r"
    by (cases r; cases "fst r") (auto simp: s1_def)
  ultimately show ?thesis
    using idle_xor_queued_rep [OF rep] num_threads_bound(1) [OF W] by (simp add: runTask_enter_def)
qed

lemma CheckTimeout_inv:
  assumes inv: "tp_inv_at cfg s il ul q" and en: "tp_enabled (CheckTimeout t) s"
  shows "\<exists>s'. tp_exec cfg (CheckTimeout t) s = Some s' \<and> tp_inv cfg s'"
proof -
  from inv en have rep: "tp_rep cfg (pool s) il ul q" and W: "workers_ok cfg s il ul" and T: "tasks_ok cfg s q"
    and M: "master_ok cfg s il ul q" and S: "sleepers_ok cfg s il" and ok: "tp_config_ok cfg" and m: "master s = MFree"
    by (auto simp: tp_inv_at_def)
  have exec: "tp_exec cfg (CheckTimeout t) s = map_option (\<lambda>p. s\<lparr>pool := p\<rparr>)
      (if MAX_IDLE_TIME cfg > 0 then checkThreadTimeout cfg t (pool s) else Some (pool s))"
    using idle_xor_queued_rep [OF rep] num_threads_bound(1) [OF W]
    by (simp add: poThreadPool_checkIdleThreadTimeout_def)
  note sl = idle_sleeps [OF W rep]
  show ?thesis
  proof (cases "MAX_IDLE_TIME cfg > 0 \<and> checkThreadTimeout cfg t (pool s) \<noteq> Some (pool s)")
    case False
    then show ?thesis using exec inv by (auto intro: tp_invI)
  next
    case True
    with checkThreadTimeout_spec [OF rep, of t] sl obtain il' k l ws where
      il: "il = il' @ [k]" and R: "checkThreadTimeout cfg t (pool s) = Some ((pool s)\<lparr>idle := l, worker := ws\<rparr>)"
        "tp_rep cfg ((pool s)\<lparr>idle := l, worker := ws\<rparr>) il' ul q"
      and wf: "winfo \<circ> ws = (winfo \<circ> worker (pool s))(k := (None, w_userData (worker (pool s) k), Signaled))"
      by blast
    define s' where "s' = s\<lparr>pool := (pool s)\<lparr>idle := l, worker := ws\<rparr>\<rparr>"
    have k: "threads s k = Sleeping" "w_userCallback (worker (pool s) k) = None" "k < MAX_NUM_THREADS cfg"
      "k \<notin> set il'" "k \<notin> set ul"
      using sl [of k] tp_rep_lists [OF rep] il by auto
    have thr: "threads s' = (threads s)(k := Sleeping)" using k by (auto simp: s'_def)
    have wi: "winfo (worker (pool s') j) =
        (if j = k then (None, w_userData (worker (pool s) k), Signaled) else winfo (worker (pool s) j))" for j
      using fun_cong [OF wf, of j] by (simp add: s'_def)
    have "workers_ok cfg s' il' ul"
      by (rule workers_ok_upd [OF W k(3) thr wi]) (use k il in \<open>auto simp: s'_def\<close>)
    moreover have "tasks_ok cfg s' q"
      by (rule tasks_ok_upd [OF T k(3) thr wi]) (use k in \<open>simp add: s'_def winfo_def\<close>)
    moreover have "sleepers_ok cfg s' il'" using True by (simp add: sleepers_ok_def)
    moreover have "master_ok cfg s' il' ul q" using M m by (simp add: master_ok_def Let_def s'_def no_starting_def)
    ultimately have "tp_inv_at cfg s' il' ul q" using ok R(2) by (simp add: tp_inv_at_def s'_def)
    then show ?thesis using exec R(1) True by (auto simp: s'_def intro: tp_invI)
  qed
qed

lemma Resume_inv:
  assumes inv: "tp_inv_at cfg s il ul q" and en: "tp_enabled (Resume t) s"
  shows "\<exists>s'. tp_exec cfg (Resume t) s = Some s' \<and> tp_inv cfg s'"
proof -
  from inv en have rep: "tp_rep cfg (pool s) il ul q" and W: "workers_ok cfg s il ul" and T: "tasks_ok cfg s q"
    and M: "master_ok cfg s il ul q" and S: "sleepers_ok cfg s il" and ok: "tp_config_ok cfg"
    and sg: "p_cond (pool s) = Signaled"
    by (auto simp: tp_inv_at_def)
  define p where "p = (pool s)\<lparr>p_cond := NoWaiter, taskWaitingToBeRun := False\<rparr>"
  have rep': "tp_rep cfg p il ul q" "tp_rep cfg ((pool s)\<lparr>p_cond := NoWaiter\<rparr>) il ul q"
    by (rule tp_rep_cong [OF rep]; simp add: p_def)+
  show ?thesis
  proof (cases "master s")
    case (MWaitRoom tk)
    define s1 where "s1 = s\<lparr>pool := p\<rparr>"
    have s1: "tasks_ok cfg s1 q" "sleepers_ok cfg s1 il" "workers_ok cfg s1 il ul"
      using tasks_ok_cong [OF T] sleepers_ok_cong [OF S] workers_ok_cong [OF W] by (simp_all add: s1_def p_def)
    have same: "put_master tk s1 r = put_master tk s r" for r
      by (cases r; cases "fst r") (auto simp: s1_def)
    show ?thesis
    proof (cases "QUEUE_LENGTH cfg < 1")
      case True
      have "tp_inv_at cfg (put_master tk s (Returns, p)) il ul q"
        unfolding tp_inv_at_def
        using ok rep' workers_ok_cong [OF W] sleepers_ok_cong [OF S] M MWaitRoom True
        by (auto simp: master_ok_def Let_def no_starting_def tasks_ok_def p_def)
      then show ?thesis using MWaitRoom True by (auto simp: runTask_resume_def p_def intro: tp_invI)
    next
      case False
      then show ?thesis
        using turn_inv [of cfg s1 il ul q tk t] ok s1 rep' M MWaitRoom same
        by (auto simp: runTask_resume_def p_def s1_def master_ok_def Let_def no_starting_def)
    qed
  next
    case (MWaitStart j)
    with M sg have "threads s i \<noteq> Starting" for i
      by (cases "i = j") (auto simp: master_ok_def Let_def)
    then have "tp_inv_at cfg (s\<lparr>pool := (pool s)\<lparr>p_cond := NoWaiter\<rparr>, master := MFree\<rparr>) il ul q"
      unfolding tp_inv_at_def
      using ok rep' workers_ok_cong [OF W] sleepers_ok_cong [OF S] tasks_ok_cong [OF T] M MWaitStart sg
      by (auto simp: master_ok_def Let_def no_starting_def)
    then show ?thesis using MWaitStart by (auto intro: tp_invI)
  next
    case MWaitLast
    have "tp_inv_at cfg (s\<lparr>pool := (pool s)\<lparr>p_cond := NoWaiter\<rparr>, master := MGone\<rparr>) il ul q"
      unfolding tp_inv_at_def
      using ok rep' workers_ok_cong [OF W] sleepers_ok_cong [OF S] tasks_ok_cong [OF T] M MWaitLast sg
      by (auto simp: master_ok_def Let_def no_starting_def)
    then show ?thesis using MWaitLast by (auto intro: tp_invI)
  qed (use en in simp_all)
qed

text \<open>A section of \<^verbatim>\<open>poThreadPool_destroy\<close>: the master joins nobody, or the thread it joined is gone.\<close>

lemma destroy_finish_inv:
  assumes inv: "tp_inv_at cfg s [] ul q"
    and m: "master s = MFree \<or> (\<exists>j. master s = MJoining j \<and> threads s j = NoThread)"
  shows "\<exists>r. destroy_finish ((pool s)\<lparr>detachThread := d\<rparr>) = Some r \<and> tp_inv cfg (put_destroy s r)"
proof -
  from inv have rep: "tp_rep cfg (pool s) [] ul q" and W: "workers_ok cfg s [] ul" and T: "tasks_ok cfg s q"
    and M: "master_ok cfg s [] ul q" and S: "sleepers_ok cfg s []" and ok: "tp_config_ok cfg"
    by (auto simp: tp_inv_at_def)
  have c: "p_cond (pool s) = NoWaiter" "no_starting s" "\<not> taskWaitingToBeRun (pool s)" "\<not> cleanup (pool s)"
    using M m by (auto simp: master_ok_def Let_def)
  have h: "in_hand (master s) = {#}" using m by auto
  show ?thesis
  proof (cases "num_threads (pool s) > 0")
    case True
    let ?p = "(pool s)\<lparr>detachThread := d, cleanup := True, p_cond := Waiting\<rparr>"
    have "tp_rep cfg ?p [] ul q" by (rule tp_rep_cong [OF rep]) simp_all
    then have "tp_inv_at cfg (put_destroy s (AwaitLast, ?p)) [] ul q"
      unfolding tp_inv_at_def
      using ok workers_ok_cong [OF W] sleepers_ok_cong [OF S] tasks_ok_cong [OF T] m c h True
      by (auto simp: master_ok_def no_starting_def)
    then show ?thesis using True by (auto simp: destroy_finish_def intro: tp_invI)
  next
    case False
    let ?p = "(pool s)\<lparr>detachThread := d\<rparr>"
    have "threads s i = NoThread" for i
      using False active_iff_num [OF W] c(2) by (auto simp: word_gt_0 active_def no_starting_def)
    moreover have "tp_rep cfg ?p [] ul q" by (rule tp_rep_cong [OF rep]) simp_all
    ultimately have "tp_inv_at cfg (put_destroy s (Destroyed, ?p)) [] ul q"
      unfolding tp_inv_at_def
      using ok workers_ok_cong [OF W] sleepers_ok_cong [OF S] tasks_ok_cong [OF T] c h
      by (auto simp: master_ok_def)
    then show ?thesis using False by (auto simp: destroy_finish_def intro: tp_invI)
  qed
qed

lemma destroy_next_inv:
  assumes inv: "tp_inv_at cfg s il ul q"
    and m: "master s = MFree \<or> (\<exists>j. master s = MJoining j \<and> threads s j = NoThread)"
  shows "\<exists>r. destroy_next cfg (pool s) = Some r \<and> tp_inv cfg (put_destroy s r)"
proof (cases il)
  case Nil
  then show ?thesis
    using destroy_finish_inv [OF inv [unfolded Nil] m] inv
    by (auto simp: destroy_next_none tp_inv_at_def)
next
  case (Cons i il')
  from inv have rep: "tp_rep cfg (pool s) (i # il') ul q" and W: "workers_ok cfg s (i # il') ul" and T: "tasks_ok cfg s q"
    and M: "master_ok cfg s (i # il') ul q" and S: "sleepers_ok cfg s (i # il')" and ok: "tp_config_ok cfg"
    by (auto simp: tp_inv_at_def Cons)
  have i: "threads s i = Sleeping" "w_userCallback (worker (pool s) i) = None" "i < MAX_NUM_THREADS cfg"
    "i \<notin> set il'" "i \<notin> set ul" "w_cond (worker (pool s) i) = Waiting" "q = []" "MAX_IDLE_TIME cfg \<noteq> 0"
    using idle_sleeps [OF W rep, of i] tp_rep_lists [OF rep] rep by (auto simp: tp_rep_def)
  from destroy_next_idle [OF rep i(6)] obtain l ws where
    R: "destroy_next cfg (pool s) = Some (JoinThread i, (pool s)\<lparr>idle := l, detachThread := False, worker := ws\<rparr>)"
       "tp_rep cfg ((pool s)\<lparr>idle := l, detachThread := False, worker := ws\<rparr>) il' ul q"
    and wf: "winfo \<circ> ws = (winfo \<circ> worker (pool s))(i := (None, w_userData (worker (pool s) i), Signaled))"
    by blast
  define s' where "s' = put_destroy s (JoinThread i, (pool s)\<lparr>idle := l, detachThread := False, worker := ws\<rparr>)"
  have thr: "threads s' = (threads s)(i := Sleeping)" using i by (auto simp: s'_def)
  have wi: "winfo (worker (pool s') j) =
      (if j = i then (None, w_userData (worker (pool s) i), Signaled) else winfo (worker (pool s) j))" for j
    using fun_cong [OF wf, of j] by (simp add: s'_def)
  have cb: "w_userCallback (ws j) = w_userCallback (worker (pool s) j)" for j
    using wi [of j] i by (simp add: s'_def winfo_def split: if_splits)
  have "workers_ok cfg s' il' ul"
    by (rule workers_ok_upd [OF W i(3) thr wi]) (use i in \<open>auto simp: s'_def\<close>)
  moreover have "tasks_ok cfg s' q"
    by (rule tasks_ok_upd [OF T i(3) thr wi]) (use i m in \<open>auto simp: s'_def winfo_def\<close>)
  moreover have "sleepers_ok cfg s' il'"
    using S m cb by (fastforce simp: sleepers_ok_def s'_def)
  moreover have "master_ok cfg s' il' ul q"
    using M m i cb by (auto simp: master_ok_def Let_def s'_def no_starting_def)
  ultimately have "tp_inv_at cfg s' il' ul q" using ok R(2) by (simp add: tp_inv_at_def s'_def)
  then show ?thesis using R(1) by (auto simp: s'_def intro: tp_invI)
qed

lemma Destroy_inv:
  assumes inv: "tp_inv_at cfg s il ul q" and en: "tp_enabled Destroy s"
  shows "\<exists>s'. tp_exec cfg Destroy s = Some s' \<and> tp_inv cfg s'"
proof -
  from inv have rep: "tp_rep cfg (pool s) il ul q" by (simp add: tp_inv_at_def)
  show ?thesis
  proof (cases "MAX_IDLE_TIME cfg = 0")
    case True
    with rep have "il = []" by (simp add: tp_rep_def)
    with destroy_finish_inv [of cfg s ul q "detachThread (pool s)"] inv en True idle_xor_queued_rep [OF rep]
    show ?thesis by (auto simp: destroy_enter_def)
  next
    case False
    with destroy_next_inv [OF inv] en idle_xor_queued_rep [OF rep] show ?thesis
      by (auto simp: destroy_enter_def)
  qed
qed

lemma Joined_inv:
  assumes inv: "tp_inv_at cfg s il ul q" and en: "tp_enabled Joined s"
  shows "\<exists>s'. tp_exec cfg Joined s = Some s' \<and> tp_inv cfg s'"
  using destroy_next_inv [OF inv] en by (auto split: mpc.splits)

theorem tp_exec_inv:
  assumes "tp_inv cfg s" and "tp_enabled e s"
  shows "\<exists>s'. tp_exec cfg e s = Some s' \<and> tp_inv cfg s'"
proof -
  from assms(1) obtain il ul q where inv: "tp_inv_at cfg s il ul q" by (auto simp: tp_inv_def)
  show ?thesis
    using assms(2) Submit_inv [OF inv] CheckTimeout_inv [OF inv] Resume_inv [OF inv] Destroy_inv [OF inv]
      Joined_inv [OF inv] Start_inv [OF inv] Finish_inv [OF inv] Wake_inv [OF inv]
    by (cases e) (blast intro: tp_invI)+
qed

lemma create_loop_ok: "create_loop cfg ok is p \<noteq> None \<Longrightarrow> i \<in> set is \<Longrightarrow> ok i"
  by (induction "is" arbitrary: p) (auto simp: ASSERT_def split: if_splits)

lemma tp_init_inv:
  assumes ok: "tp_config_ok cfg" and "tp_init cfg s"
  shows "tp_inv cfg s"
proof -
  from assms(2) obtain init p where p: "poThreadPool_create cfg init = Some p" and s: "s = tp_start p"
    by (auto simp: tp_init_def)
  from p have init: "init k" if "k \<le> Suc (MAX_NUM_THREADS cfg)" for k
    using create_loop_ok [of cfg init "[0..<MAX_NUM_THREADS cfg]" _ k] that le_Suc_eq
    by (fastforce simp: poThreadPool_create_def ASSERT_def bind_eq_Some_conv split: if_splits)
  from poThreadPool_create_spec [OF ok, of init, OF init] p have P: "tp_rep cfg p [] [0..<MAX_NUM_THREADS cfg] []"
     "winfo \<circ> worker p = (\<lambda>_. (None, 0, NoWaiter))" "num_threads p = 0" "p_cond p = NoWaiter"
     "\<not> cleanup p" "\<not> taskWaitingToBeRun p"
    by auto
  have "winfo (worker p i) = (None, 0, NoWaiter)" for i using fun_cong [OF P(2), of i] by simp
  with P ok have "tp_inv_at cfg s [] [0..<MAX_NUM_THREADS cfg] []"
    by (auto simp: tp_inv_at_def s tp_start_def workers_ok_def sleepers_ok_def master_ok_def no_starting_def
        tasks_ok_def held_by_def)
  then show ?thesis by (rule tp_invI)
qed

interpretation pm: state_machine "\<lambda>s. tp_config_ok cfg \<and> tp_init cfg s" "tp_step cfg" "tp_inv cfg"
  for cfg :: tp_config
proof (unfold_locales, goal_cases)
  case (1 s)
  then show ?case using tp_init_inv by blast
next
  case (2 s t)
  then show ?case using tp_exec_inv [of cfg s] by (fastforce simp: tp_step_iff)
qed

end
