(* ===== verification/PoolProperties.thy ===== *)
theory PoolProperties
  imports PoolInvariant
begin

text \<open>
  What the invariant means for the users of the pool: the statements about every run, and two runs
  that show where the code does less than it means to.
\<close>

subsection \<open>Every run\<close>

abbreviation tp_reachable :: "tp_config \<Rightarrow> tp_sys \<Rightarrow> bool" where
  "tp_reachable cfg \<equiv> reachable (\<lambda>s. tp_config_ok cfg \<and> tp_init cfg s) (tp_step cfg)"

lemma reachable_at:
  assumes "tp_reachable cfg s"
  obtains il ul q where "tp_inv_at cfg s il ul q"
  using pm.inv_reachable [OF assms] by (auto simp: tp_inv_def)

lemma queue_of: "tp_rep cfg p il ul q \<Longrightarrow> QUEUE_LENGTH cfg > 0 \<Longrightarrow> tq_rep cfg (task p) q"
  by (simp add: tp_rep_def)

text \<open>The tasks in the ring, oldest first.\<close>

definition queued :: "tp_config \<Rightarrow> tp_sys \<Rightarrow> POThreadPool_task list" where
  "queued cfg s = map (\<lambda>k. tq_task (task (pool s)) ! ((unat (nextReadIndex (task (pool s))) + k) mod QUEUE_LENGTH cfg))
     [0..<unat (tq_num (task (pool s)))]"

lemma queued_rep: "tq_rep cfg (task (pool s)) q \<Longrightarrow> queued cfg s = q"
  by (rule nth_equalityI) (auto simp: queued_def tq_rep_def)

text \<open>Without threads there is nothing left to run.\<close>

lemma no_thread_no_task:
  assumes inv: "tp_inv_at cfg s il ul q" and none: "\<And>i. threads s i = NoThread"
  shows "q = []" and "held_by n s = {#}"
proof -
  from inv have "0 < MAX_NUM_THREADS cfg" and W: "workers_ok cfg s il ul" and rep: "tp_rep cfg (pool s) il ul q"
    by (auto simp: tp_inv_at_def tp_config_ok_def)
  with worker_okD [OF W, of 0] none [of 0] have "ul \<noteq> []" by (auto simp: winfo_def)
  with rep show "q = []" by (auto simp: tp_rep_def)
  show "held_by n s = {#}" using none by (simp add: held_by_def)
qed

text \<open>A waiting master: an event of another thread, or the end of its own wait.\<close>

fun wakes_master :: "tp_event \<Rightarrow> bool" where
  "wakes_master (Submit t tk) = False"
| "wakes_master (CheckTimeout t) = False"
| "wakes_master Destroy = False"
| "wakes_master _ = True"

lemma active_can_step:
  assumes inv: "tp_inv_at cfg s il ul q" and act: "active (threads s i)" and ni: "i \<notin> set il"
  shows "\<exists>e. wakes_master e \<and> tp_enabled e s"
proof (cases "threads s i")
  case (Running tk)
  then show ?thesis by (intro exI [of _ "Finish 0 i"]) simp
next
  case Sleeping
  with inv ni have "w_cond (worker (pool s) i) = Signaled"
    using worker_okD [of cfg s il ul i] by (auto simp: tp_inv_at_def winfo_def)
  with Sleeping show ?thesis by (intro exI [of _ "Wake i"]) simp
qed (use act in simp_all)

lemma waiting_master_can_step:
  assumes inv: "tp_inv_at cfg s il ul q" and m: "master s \<noteq> MFree" "master s \<noteq> MGone"
    and last: "master s = MWaitLast \<longrightarrow> MAX_IDLE_TIME cfg \<le> 0"
  shows "\<exists>e. wakes_master e \<and> tp_enabled e s"
proof -
  from inv have ok: "tp_config_ok cfg" and W: "workers_ok cfg s il ul" and M: "master_ok cfg s il ul q"
    by (auto simp: tp_inv_at_def)
  consider j where "master s = MWaitStart j" | tk where "master s = MWaitRoom tk" | j where "master s = MJoining j"
    | "master s = MWaitLast"
    using m by (cases "master s") auto
  then show ?thesis
  proof cases
    case (1 j)
    with M show ?thesis
      by (auto simp: master_ok_def Let_def intro: exI [of _ "Resume 0"] exI [of _ "Start j"])
  next
    case (2 tk)
    show ?thesis
    proof (cases "p_cond (pool s) = Signaled")
      case True
      with 2 show ?thesis by (intro exI [of _ "Resume 0"]) simp
    next
      case False
      with 2 M have "il = []" "ul = []" "no_starting s" by (auto simp: master_ok_def Let_def)
      moreover have "0 < MAX_NUM_THREADS cfg" using ok by (simp add: tp_config_ok_def)
      ultimately have "active (threads s 0)"
        using worker_okD [OF W, of 0] by (auto simp: winfo_def active_def no_starting_def)
      with active_can_step [OF inv] \<open>il = []\<close> show ?thesis by fastforce
    qed
  next
    case (3 j)
    show ?thesis
    proof (cases "threads s j = NoThread")
      case True
      with 3 show ?thesis by (intro exI [of _ Joined]) simp
    next
      case False
      with 3 M active_can_step [OF inv, of j] show ?thesis by (auto simp: master_ok_def Let_def)
    qed
  next
    case 4
    show ?thesis
    proof (cases "p_cond (pool s) = Signaled")
      case True
      with 4 show ?thesis by (intro exI [of _ "Resume 0"]) simp
    next
      case False
      with 4 M last have "0 < num_threads (pool s)" and il: "il = []" by (auto simp: master_ok_def Let_def)
      with active_iff_num [OF W] obtain i where "active (threads s i)" by (auto simp: word_gt_0)
      with active_can_step [OF inv, of i] il show ?thesis by simp
    qed
  qed
qed

subsection \<open>Small pools for concrete runs\<close>

definition small_cfg :: "nat \<Rightarrow> nat \<Rightarrow> int \<Rightarrow> tp_config" where
  "small_cfg q n t = \<lparr>QUEUE_LENGTH = q, MAX_NUM_THREADS = n, MAX_IDLE_TIME = t\<rparr>"

definition tsk :: "nat \<Rightarrow> POThreadPool_task" where
  "tsk d = \<lparr>t_userCallback = 1, t_userData = d\<rparr>"

text \<open>A run from a new pool.\<close>

definition pool_run :: "tp_config \<Rightarrow> tp_event list \<Rightarrow> tp_sys option" where
  "pool_run cfg es = poThreadPool_create cfg (\<lambda>_. True) \<bind> (\<lambda>p. tp_run cfg es (tp_start p))"

lemma pool_run_reachable:
  assumes "tp_config_ok cfg" and "pool_run cfg es = Some s"
  shows "tp_reachable cfg s"
proof -
  from assms(2) obtain p where p: "poThreadPool_create cfg (\<lambda>_. True) = Some p" "tp_run cfg es (tp_start p) = Some s"
    by (auto simp: pool_run_def bind_eq_Some_conv)
  then have "tp_reachable cfg (tp_start p)" using assms(1) by (auto simp: tp_init_def)
  with reachable_rtranclp [OF tp_run_steps [OF p(2)]] show ?thesis by blast
qed

lemma run_reachable:
  "tp_config_ok cfg \<Longrightarrow> pool_run cfg es \<noteq> None \<Longrightarrow> tp_reachable cfg (the (pool_run cfg es))"
  by (rule pool_run_reachable [of cfg es]) auto

text \<open>Two workers, one queued task, one blocked call; and a whole life of a pool.\<close>

definition busy_run :: "tp_event list" where
  "busy_run = [Submit 0 (tsk 0), Start 0, Resume 0, Submit 0 (tsk 1), Start 1, Resume 0,
     Submit 0 (tsk 2), Submit 0 (tsk 3)]"

definition life_run :: "tp_event list" where
  "life_run = busy_run @ [Finish 1 1, Resume 1, Finish 2 0, Finish 3 1, Destroy, Wake 1, Joined, Finish 4 0, Resume 4]"

definition hang_run :: "tp_event list" where
  "hang_run = [Submit 0 (tsk 0), Start 0, Resume 0, Submit 0 (tsk 1), Start 1, Resume 0,
     Submit 0 (tsk 2), Start 2, Resume 0, Finish 0 0, Finish 1 1, Finish 2 2, CheckTimeout 9,
     Destroy, Wake 2, Joined, Wake 1, Joined, Wake 0]"

definition twice_run :: "tp_event list" where
  "twice_run = [Submit 0 (tsk 0), Start 0, Resume 0, Submit 0 (tsk 1), Start 1, Resume 0,
     Submit 0 (tsk 2), Finish 0 0, Finish 0 1, Finish 0 0, Finish 0 1, Resume 0]"

lemma small_cfg_simps [simp]:
  "QUEUE_LENGTH (small_cfg q n t) = q" "MAX_NUM_THREADS (small_cfg q n t) = n" "MAX_IDLE_TIME (small_cfg q n t) = t"
  "tp_config_ok (small_cfg q n t) \<longleftrightarrow> 0 < n \<and> n < 2 ^ 31 \<and> q < 2 ^ 31 \<and> - 1 \<le> t"
  by (simp_all add: small_cfg_def tp_config_ok_def)

definition busy :: tp_sys where
  "busy = the (pool_run (small_cfg 1 2 1000) busy_run)"

definition life :: tp_sys where
  "life = the (pool_run (small_cfg 1 2 1000) life_run)"

lemma busy_view: "map_option (\<lambda>s. (master s, queued (small_cfg 1 2 1000) s, threads s 1))
    (pool_run (small_cfg 1 2 1000) busy_run) = Some (MWaitRoom (tsk 3), [tsk 2], Running (tsk 1))"
  by code_simp

lemma busy_facts: "tp_reachable (small_cfg 1 2 1000) busy" "master busy = MWaitRoom (tsk 3)"
    "queued (small_cfg 1 2 1000) busy = [tsk 2]" "threads busy 1 = Running (tsk 1)"
  using busy_view run_reachable [of "small_cfg 1 2 1000" busy_run] by (auto simp: busy_def)

lemma life_view: "map_option (\<lambda>s. (master s, submitted s)) (pool_run (small_cfg 1 2 1000) life_run)
    = Some (MGone, [tsk 0, tsk 1, tsk 2, tsk 3])"
  by code_simp

lemma life_facts: "tp_reachable (small_cfg 1 2 1000) life" "master life = MGone"
    "submitted life = [tsk 0, tsk 1, tsk 2, tsk 3]"
  using life_view run_reachable [of "small_cfg 1 2 1000" life_run] by (auto simp: life_def)

lemma twice_view: "map_option (\<lambda>s. (submitted s, finished s)) (pool_run (small_cfg 0 2 1000) twice_run)
    = Some ([tsk 0, tsk 1, tsk 2], [tsk 0, tsk 1, tsk 2, tsk 2])"
  by code_simp

lemma hang_view: "map_option (\<lambda>s. (master s, num_threads (pool s), p_cond (pool s)))
    (pool_run (small_cfg 2 3 1000) hang_run) = Some (MWaitLast, 0, Waiting)"
  by code_simp

subsection \<open>The promises of the pool\<close>

text \<open>
  Property C1. No \<^verbatim>\<open>ASSERT\<close> or \<^verbatim>\<open>DASSERT\<close> of threadPool.c fails: in every reachable state of the pool,
  under any interleaving of the master and the workers, every section that a thread can run returns.
\<close>

theorem pool_asserts_hold:
  assumes "tp_reachable cfg s" and "tp_enabled e s"
  shows "\<exists>s'. tp_exec cfg e s = Some s'"
  using tp_exec_inv [OF pm.inv_reachable [OF assms(1)] assms(2)] by blast

theorem pool_asserts_hold_witness: "\<exists>s'. tp_exec (small_cfg 1 2 1000) (Finish 5 1) busy = Some s'"
  by (rule pool_asserts_hold [OF busy_facts(1)]) (simp add: busy_facts del: One_nat_def)

text \<open>
  Property C2. With a task queue, no task is lost, duplicated or made up: in every reachable state the
  tasks given to \<^verbatim>\<open>poThreadPool_runTask\<close> are, with their multiplicity, those whose callback has
  returned, those that a worker has, those in the queue and the one of a blocked call.
\<close>

theorem pool_tasks_conserved:
  assumes "tp_reachable cfg s" and "QUEUE_LENGTH cfg > 0"
  shows "mset (submitted s) = mset (finished s) + held_by (MAX_NUM_THREADS cfg) s
           + mset (queued cfg s) + in_hand (master s)"
proof -
  from assms(1) obtain il ul q where inv: "tp_inv_at cfg s il ul q" by (rule reachable_at)
  then have "queued cfg s = q" using queued_rep queue_of assms(2) by (auto simp: tp_inv_at_def)
  with inv assms(2) show ?thesis by (simp add: tp_inv_at_def tasks_ok_def)
qed

theorem pool_tasks_conserved_witness:
  "mset (submitted busy) = mset (finished busy) + held_by 2 busy + {#tsk 2#} + {#tsk 3#}"
  using pool_tasks_conserved [OF busy_facts(1)] by (simp add: busy_facts del: One_nat_def)

text \<open>
  Property C3. When \<^verbatim>\<open>poThreadPool_destroy\<close> has returned, no worker thread is left; and if the pool has a task queue
  (\<^verbatim>\<open>PO_THREADPOOL_QUEUE_LENGTH\<close> is not 0), the queue is empty and the callback of every submitted task has returned exactly once. Without a queue
  a task can run twice (\<open>pool_without_queue_runs_task_twice\<close>).
\<close>

theorem pool_destroy_complete:
  assumes "tp_reachable cfg s" and "master s = MGone"
  shows "(\<forall>i. threads s i = NoThread) \<and> num_threads (pool s) = 0
     \<and> (QUEUE_LENGTH cfg > 0 \<longrightarrow> queued cfg s = [] \<and> mset (finished s) = mset (submitted s))"
proof -
  from assms(1) obtain il ul q where inv: "tp_inv_at cfg s il ul q" by (rule reachable_at)
  with assms(2) have none: "threads s i = NoThread" for i by (simp add: tp_inv_at_def master_ok_def Let_def)
  from inv have W: "workers_ok cfg s il ul" and rep: "tp_rep cfg (pool s) il ul q" and T: "tasks_ok cfg s q"
    by (auto simp: tp_inv_at_def)
  have "queued cfg s = [] \<and> mset (finished s) = mset (submitted s)" if Q: "QUEUE_LENGTH cfg > 0"
  proof -
    have "queued cfg s = q" using queued_rep queue_of rep Q by blast
    with no_thread_no_task [OF inv none] T Q assms(2) show ?thesis by (simp add: tasks_ok_def)
  qed
  then show ?thesis using none active_iff_num [OF W] by simp
qed

theorem pool_destroy_complete_witness: "mset (finished life) = {#tsk 0, tsk 1, tsk 2, tsk 3#}"
  using pool_destroy_complete [OF life_facts(1)] by (simp add: life_facts)

text \<open>
  Property C4. The master never waits for ever in \<^verbatim>\<open>poThreadPool_runTask\<close> or for a thread it joins, nor,
  without an idle timeout, for the last thread: whenever it waits, some worker can run, or its own
  wait is over.
\<close>

theorem pool_master_progress:
  assumes "tp_reachable cfg s" and "master s \<notin> {MFree, MGone}"
    and "master s = MWaitLast \<longrightarrow> MAX_IDLE_TIME cfg \<le> 0"
  shows "\<exists>e. wakes_master e \<and> tp_enabled e s"
proof -
  from assms(1) obtain il ul q where "tp_inv_at cfg s il ul q" by (rule reachable_at)
  then show ?thesis by (rule waiting_master_can_step) (use assms in auto)
qed

theorem pool_master_progress_witness: "\<exists>e. wakes_master e \<and> tp_enabled e busy"
  by (rule pool_master_progress [OF busy_facts(1)]) (simp_all add: busy_facts)

text \<open>
  The bookkeeping of the pool is exact in every reachable state: the unused list holds
  precisely the workers without a thread, every worker in the idle list has a thread that sleeps and
  has no task, \<^verbatim>\<open>num_threads\<close> counts the threads that have started and not left, and a task waits in
  the queue only when there is neither an idle nor an unused worker.
\<close>

theorem pool_bookkeeping:
  assumes "tp_reachable cfg s"
  shows "\<exists>il ul. wl_rep (MAX_NUM_THREADS cfg) (idle (pool s), worker (pool s)) il
     \<and> wl_rep (MAX_NUM_THREADS cfg) (unused (pool s), worker (pool s)) ul
     \<and> set ul = {i. i < MAX_NUM_THREADS cfg \<and> threads s i = NoThread}
     \<and> set il \<subseteq> {i. threads s i = Sleeping \<and> w_userCallback (worker (pool s) i) = None}
     \<and> unat (num_threads (pool s)) = card {i. i < MAX_NUM_THREADS cfg \<and> active (threads s i)}
     \<and> (QUEUE_LENGTH cfg > 0 \<and> queued cfg s \<noteq> [] \<longrightarrow> il = [] \<and> ul = [])"
proof -
  from assms obtain il ul q where inv: "tp_inv_at cfg s il ul q" by (rule reachable_at)
  then have W: "workers_ok cfg s il ul" and rep: "tp_rep cfg (pool s) il ul q" by (auto simp: tp_inv_at_def)
  have "i \<in> set ul \<longleftrightarrow> i < MAX_NUM_THREADS cfg \<and> threads s i = NoThread" for i
    using worker_okD [OF W, of i] unused_no_thread [OF W, of i] tp_rep_lists(4) [OF rep] by (auto simp: winfo_def)
  moreover have "QUEUE_LENGTH cfg > 0 \<Longrightarrow> queued cfg s = q" using queued_rep queue_of rep by blast
  ultimately show ?thesis
    using W rep idle_sleeps [OF W rep] by (intro exI [of _ il] exI [of _ ul]) (auto simp: workers_ok_def tp_rep_def)
qed

theorem pool_bookkeeping_witness:
  "unat (num_threads (pool busy)) = card {i. i < 2 \<and> active (threads busy i)}"
  using pool_bookkeeping [OF busy_facts(1)] by auto

text \<open>
  Property C5. The ring buffer of tasks is a first-in first-out queue: any sequence of
  \<^verbatim>\<open>queueMakeNewEntry\<close> (while there is room) and \<^verbatim>\<open>queueGetNext\<close> returns the tasks in the order they
  were entered, across the wrap-around of the index, and fails no assertion.
\<close>

theorem task_ring_fifo:
  assumes "tp_config_ok cfg" and "tq_rep cfg q xs"
    and "queue_adm (\<lambda>t ys. length ys < QUEUE_LENGTH cfg) ops xs"
  shows "\<exists>out q' ys. queue_run (taskq_enq cfg) (queueGetNext cfg) ops q = Some (out, q') \<and> tq_rep cfg q' ys
           \<and> out @ ys = xs @ queue_ins ops"
  using tq.fifo_run [of cfg q xs ops] assms by blast

text \<open>A ring of two slots whose read index is at the last slot.\<close>

definition ring2 :: POThreadPool_taskQueue where
  "ring2 = \<lparr>tq_task = [tsk 8, tsk 9], nextReadIndex = 1, tq_num = 1\<rparr>"

theorem task_ring_fifo_witness:
  "\<exists>out q' ys. queue_run (taskq_enq (small_cfg 2 1 0)) (queueGetNext (small_cfg 2 1 0))
       [Enq (tsk 1), Deq, Enq (tsk 2), Deq] ring2 = Some (out, q')
     \<and> tq_rep (small_cfg 2 1 0) q' ys \<and> out @ ys = [tsk 9, tsk 1, tsk 2]"
  using task_ring_fifo [of "small_cfg 2 1 0" ring2 "[tsk 9]" "[Enq (tsk 1), Deq, Enq (tsk 2), Deq]"]
  by (simp add: ring2_def tq_rep_def)

text \<open>
  The idle list taken from its bottom, as the idle timeout does, gives the workers back in
  the order in which they went idle: \<^verbatim>\<open>listPush\<close> and \<^verbatim>\<open>listPull\<close> on the doubly linked list are a queue.
\<close>

theorem idle_list_fifo:
  assumes "tp_config_ok cfg" and "wl_rep (MAX_NUM_THREADS cfg) l (rev xs)"
    and "queue_adm (\<lambda>w ys. w < MAX_NUM_THREADS cfg \<and> w \<notin> set ys) ops xs"
  shows "\<exists>out l' ys. queue_run (listPush cfg) (listPull cfg) ops l = Some (out, l')
           \<and> wl_rep (MAX_NUM_THREADS cfg) l' (rev ys) \<and> out @ ys = xs @ queue_ins ops"
  using wl.bottom.fifo_run [of cfg l xs ops] assms by auto

theorem idle_list_fifo_witness:
  "\<exists>out l' ys. queue_run (listPush (small_cfg 2 3 0)) (listPull (small_cfg 2 3 0))
       [Enq 2, Enq 0, Deq, Enq 1, Deq, Enq 2] (zero_list, \<lambda>_. zero_worker) = Some (out, l')
     \<and> wl_rep 3 l' (rev ys) \<and> out @ ys = [2, 0, 1, 2]"
  using idle_list_fifo [of "small_cfg 2 3 0" "(zero_list, \<lambda>_. zero_worker)" "[]" "[Enq 2, Enq 0, Deq, Enq 1, Deq, Enq 2]"]
  by (simp add: wl_rep_def zero_list_def)

subsection \<open>Where the code does less than it means to\<close>

text \<open>
  Without a task queue (\<^verbatim>\<open>PO_THREADPOOL_QUEUE_LENGTH\<close> 0) a blocked task can run twice:
  \<^verbatim>\<open>lookForWork\<close> hands it out and leaves \<^verbatim>\<open>taskWaitingToBeRun\<close> set until the master has woken up, so a
  second worker that finishes before takes the same task. Here two workers run task 2, which was
  submitted once, to the end twice, and start it twice more.
\<close>

theorem pool_without_queue_runs_task_twice:
  "\<exists>s. tp_reachable (small_cfg 0 2 1000) s
     \<and> count (mset (submitted s)) (tsk 2) = 1 \<and> count (mset (finished s)) (tsk 2) = 2"
proof -
  from twice_view obtain s where s: "pool_run (small_cfg 0 2 1000) twice_run = Some s"
    "submitted s = [tsk 0, tsk 1, tsk 2]" "finished s = [tsk 0, tsk 1, tsk 2, tsk 2]"
    by auto
  have "tp_reachable (small_cfg 0 2 1000) s" by (rule pool_run_reachable [OF _ s(1)]) simp
  with s show ?thesis by (intro exI [of _ s]) (simp add: tsk_def)
qed

text \<open>
  Property C6. With an idle timeout \<^verbatim>\<open>poThreadPool_destroy\<close> can wait for ever: a worker that the timeout
  took from the idle list is counted in \<^verbatim>\<open>num_threads\<close> and not joined; if it wakes up after the master
  has begun to wait for the last thread, it leaves without signalling the master. The state reached
  has no thread left, the master waits, and nothing can happen any more.
\<close>

theorem pool_destroy_can_hang:
  "\<exists>s. tp_reachable (small_cfg 2 3 1000) s \<and> master s = MWaitLast \<and> num_threads (pool s) = 0
     \<and> (\<forall>e. \<not> tp_enabled e s)"
proof -
  from hang_view obtain s where s: "pool_run (small_cfg 2 3 1000) hang_run = Some s"
    "master s = MWaitLast" "num_threads (pool s) = 0" "p_cond (pool s) = Waiting"
    by auto
  have reach: "tp_reachable (small_cfg 2 3 1000) s" by (rule pool_run_reachable [OF _ s(1)]) simp
  then obtain il ul q where inv: "tp_inv_at (small_cfg 2 3 1000) s il ul q" by (rule reachable_at)
  then have "workers_ok (small_cfg 2 3 1000) s il ul" "no_starting s"
    using s(2) by (auto simp: tp_inv_at_def master_ok_def Let_def)
  with active_iff_num s(3) have none: "threads s i = NoThread" for i
    by (auto simp: no_starting_def active_def)
  have "\<not> tp_enabled e s" for e using s none by (cases e) simp_all
  with reach s show ?thesis by blast
qed
end
