(* ===== verification/ServerLists.thy ===== *)
theory ServerLists
  imports Linked
begin

text \<open>
  The data of src/potato_old/server.h and the list operations at the head of server.c: the queue of
  listeners that wait for a free connection (\<^verbatim>\<open>queuePush\<close>, \<^verbatim>\<open>queuePull\<close>), the queue of unused
  connection structs (\<^verbatim>\<open>unusedPush\<close>, \<^verbatim>\<open>unusedPop\<close>), and the moves between that queue and the time
  ordered list of used connections (\<^verbatim>\<open>listAddNew\<close>, \<^verbatim>\<open>listRemove\<close>). Both queues are shown to be a
  \<open>fifo\<close>; the moves keep the array conn[] partitioned into the list and the queue.
\<close>

subsection \<open>Configuration and structs\<close>

text \<open>The macros of the server; times in milliseconds, -1 for none.\<close>

record sv_config =
  NUM_LISTENERS :: nat
  MAX_CONNECTIONS :: nat
  LONG_TIMEOUT :: int
  WAIT_TIMEOUT :: int

definition sv_config_ok :: "sv_config \<Rightarrow> bool" where
  "sv_config_ok cfg \<longleftrightarrow> 1 \<le> NUM_LISTENERS cfg \<and> 1 \<le> MAX_CONNECTIONS cfg
     \<and> NUM_LISTENERS cfg < 2 ^ 31 \<and> MAX_CONNECTIONS cfg < 2 ^ 31
     \<and> -1 \<le> LONG_TIMEOUT cfg \<and> -1 \<le> WAIT_TIMEOUT cfg
     \<and> \<not> (0 < LONG_TIMEOUT cfg \<and> 0 < WAIT_TIMEOUT cfg \<and> LONG_TIMEOUT cfg \<le> WAIT_TIMEOUT cfg)"

text \<open>
  Callbacks are numbers (\<open>None\<close> is NULL), and so are the data pointers and socket addresses the
  server only passes on. A pointer to a connection or a listener is its index in conn[] or
  listener[]; the back pointer to the server is left out, there is one server. \<^verbatim>\<open>changeCount\<close> is an
  int that is only incremented and compared; it is unbounded here (the C int overflows after
  \<open>2 ^ 31\<close> removals of one struct).
\<close>

record POServer_listener =
  l_fd :: int
  l_addr :: nat
  l_next :: ptr
  waiting :: bool
  callback :: "nat option"
  l_data :: nat

record POServer_listenerWaitingQueue =
  wq_first :: ptr
  wq_last :: ptr

record POServer_connection =
  changeCount :: int
  markedForRemoval :: bool
  c_fd :: int
  acceptTime :: real
  c_next :: ptr
  c_prev :: ptr
  readData :: nat
  writeData :: nat
  cleanupData :: nat
  readCallback :: "nat option"
  writeCallback :: "nat option"
  cleanupCallback :: "nat option"
  readReady :: bool
  writeReady :: bool

record POServer_connectionQueue =
  cq_back :: ptr
  cq_front :: ptr

record POServer_connectionList =
  cl_num :: uint32
  cl_first :: ptr
  cl_last :: ptr

record POServer =
  listener :: "nat \<Rightarrow> POServer_listener"
  numListeners :: uint32
  waitingq :: POServer_listenerWaitingQueue
  efd :: int
  conn :: "nat \<Rightarrow> POServer_connection"
  used :: POServer_connectionList
  unusedq :: POServer_connectionQueue
  isRunning :: bool
  listenersDown :: bool

subsection \<open>Listeners that wait\<close>

type_synonym wqueue = "POServer_listenerWaitingQueue \<times> (nat \<Rightarrow> POServer_listener)"

definition queuePull :: "wqueue \<Rightarrow> wqueue option" where
  "queuePull = (\<lambda>(q, ls). do {
     ASSERT (wq_first q \<noteq> None \<and> wq_last q \<noteq> None);
     f \<leftarrow> deref (wq_first q);
     let ls = upd ls f (\<lambda>l. l\<lparr>waiting := False\<rparr>);
     let q = q\<lparr>wq_first := l_next (ls f)\<rparr>;
     Some (if wq_first q = None then q\<lparr>wq_last := None\<rparr> else q, ls)
   })"

definition queuePush :: "nat \<Rightarrow> wqueue \<Rightarrow> wqueue option" where
  "queuePush i = (\<lambda>(q, ls). do {
     ASSERT (wq_first q = None \<longleftrightarrow> wq_last q = None);
     (if waiting (ls i) then Some (q, ls)
      else let ls = upd ls i (\<lambda>l. l\<lparr>l_next := None\<rparr>);
               ls = upd ls i (\<lambda>l. l\<lparr>waiting := True\<rparr>)
           in (case wq_last q of
             Some la \<Rightarrow> Some (q\<lparr>wq_last := Some i\<rparr>, upd ls la (\<lambda>l. l\<lparr>l_next := Some i\<rparr>))
           | None \<Rightarrow> Some (q\<lparr>wq_first := Some i, wq_last := Some i\<rparr>, ls)))
   })"

text \<open>The queue holds \<open>xs\<close>, and \<^verbatim>\<open>waiting\<close> tells who is in it.\<close>

definition wq_rep :: "nat \<Rightarrow> wqueue \<Rightarrow> nat list \<Rightarrow> bool" where
  "wq_rep n = (\<lambda>(q, ls) xs. slq (l_next \<circ> ls) (wq_first q) (wq_last q) xs
     \<and> set xs \<subseteq> {..<n} \<and> (\<forall>i < n. waiting (ls i) \<longleftrightarrow> i \<in> set xs))"

text \<open>What the two operations leave alone.\<close>

definition same_listeners :: "(nat \<Rightarrow> POServer_listener) \<Rightarrow> (nat \<Rightarrow> POServer_listener) \<Rightarrow> bool" where
  "same_listeners ls ls' \<longleftrightarrow> (\<forall>i. l_fd (ls' i) = l_fd (ls i) \<and> callback (ls' i) = callback (ls i)
     \<and> l_data (ls' i) = l_data (ls i) \<and> l_addr (ls' i) = l_addr (ls i))"

lemma same_listeners_refl [simp]: "same_listeners ls ls"
  by (simp add: same_listeners_def)

lemma queuePull_spec:
  assumes rep: "wq_rep n (q, ls) (x # xs)"
  shows "\<exists>q' ls'. queuePull (q, ls) = Some (q', ls') \<and> wq_rep n (q', ls') xs \<and> same_listeners ls ls'"
proof -
  from rep have s: "slq (l_next \<circ> ls) (wq_first q) (wq_last q) (x # xs)"
    and sub: "set (x # xs) \<subseteq> {..<n}" and w: "\<And>i. i < n \<Longrightarrow> waiting (ls i) \<longleftrightarrow> i \<in> set (x # xs)"
    by (auto simp: wq_rep_def)
  from s have fr: "wq_first q = Some x" by (rule slq_Cons_first)
  with s have la: "wq_last q \<noteq> None" by (metis slq_last_None list.distinct(1))
  from s have d: "x \<notin> set xs" using slq_distinct by fastforce
  define ls' where "ls' = upd ls x (\<lambda>l. l\<lparr>waiting := False\<rparr>)"
  have nx: "l_next \<circ> ls' = l_next \<circ> ls" by (auto simp: ls'_def fun_eq_iff upd_apply)
  from slq_pop [of "l_next \<circ> ls" x "wq_last q" xs] s fr
  have P: "slq (l_next \<circ> ls) (l_next (ls x)) (if l_next (ls x) = None then None else wq_last q) xs" by simp
  define q' where "q' = (if l_next (ls x) = None then q\<lparr>wq_first := None, wq_last := None\<rparr>
    else q\<lparr>wq_first := l_next (ls x)\<rparr>)"
  have "queuePull (q, ls) = Some (q', ls')"
    using fr la by (auto simp: queuePull_def ls'_def q'_def)
  moreover have "wq_rep n (q', ls') xs"
    using P nx w sub d by (auto simp: wq_rep_def q'_def) (auto simp: ls'_def upd_apply split: if_splits)
  moreover have "same_listeners ls ls'" by (simp add: same_listeners_def ls'_def upd_apply)
  ultimately show ?thesis by blast
qed

lemma queuePush_spec:
  assumes rep: "wq_rep n (q, ls) xs" and i: "i < n"
  shows "\<exists>q' ls'. queuePush i (q, ls) = Some (q', ls') \<and> same_listeners ls ls'
           \<and> wq_rep n (q', ls') (if i \<in> set xs then xs else xs @ [i])"
proof -
  from rep have s: "slq (l_next \<circ> ls) (wq_first q) (wq_last q) xs"
    and sub: "set xs \<subseteq> {..<n}" and w: "\<And>j. j < n \<Longrightarrow> waiting (ls j) \<longleftrightarrow> j \<in> set xs"
    by (auto simp: wq_rep_def)
  have A: "wq_first q = None \<longleftrightarrow> wq_last q = None"
    using s slq_first_None slq_last_None by metis
  show ?thesis
  proof (cases "i \<in> set xs")
    case True
    then show ?thesis using rep A w i by (auto simp: queuePush_def)
  next
    case False
    show ?thesis
    proof (cases "wq_last q")
      case None
      with s have "xs = []" using slq_last_None by metis
      with None False w i A slq_push_empty [of "l_next \<circ> ls" i] show ?thesis
        by (auto simp: queuePush_def wq_rep_def same_listeners_def po_heap upd_apply)
    next
      case (Some la)
      with s have "la \<in> set xs" using slq_last_Some by fastforce
      with False have "la \<noteq> i" by auto
      with Some False w i A sub slq_push [OF s [unfolded Some] False] show ?thesis
        by (auto simp: queuePush_def wq_rep_def same_listeners_def po_heap upd_apply)
    qed
  qed
qed

text \<open>The first waiting listener taken out of the queue, as \<^verbatim>\<open>_poServer_accept\<close> does.\<close>

definition wq_take :: "wqueue \<Rightarrow> (nat option \<times> wqueue) option" where
  "wq_take = (\<lambda>(q, ls). case wq_first q of
       None \<Rightarrow> Some (None, q, ls)
     | Some f \<Rightarrow> map_option (Pair (Some f)) (queuePull (q, ls)))"

interpretation wq: fifo "wq_rep n" "\<lambda>i xs. i < n \<and> i \<notin> set xs" queuePush wq_take
  for n :: nat
proof (unfold_locales, goal_cases)
  case (1 s xs x)
  then show ?case using queuePush_spec [of n "fst s" "snd s" xs x] by fastforce
next
  case (2 s x xs)
  obtain q ls where s: "s = (q, ls)" by (cases s)
  from 2 s have "wq_first q = Some x" by (auto simp: wq_rep_def dest: slq_Cons_first)
  with 2 s queuePull_spec [of n q ls x xs] show ?case by (auto simp: wq_take_def)
next
  case (3 s)
  then show ?case by (cases s) (auto simp: wq_rep_def wq_take_def)
qed

subsection \<open>Unused connections\<close>

type_synonym cqueue = "POServer_connectionQueue \<times> (nat \<Rightarrow> POServer_connection)"

definition unusedPop :: "cqueue \<Rightarrow> (nat option \<times> cqueue) option" where
  "unusedPop = (\<lambda>(q, cs). case cq_front q of
       None \<Rightarrow> do { ASSERT (cq_back q = None); Some (None, q, cs) }
     | Some c \<Rightarrow>
         let q = q\<lparr>cq_front := c_next (cs c)\<rparr>
         in Some (Some c, if cq_front q = None then q\<lparr>cq_back := None\<rparr> else q, cs))"

definition unusedPush :: "nat \<Rightarrow> cqueue \<Rightarrow> cqueue option" where
  "unusedPush c = (\<lambda>(q, cs).
     let cs = upd cs c (\<lambda>x. x\<lparr>c_next := None\<rparr>)
     in (case cq_back q of
         Some b \<Rightarrow> do {
           ASSERT (cq_front q \<noteq> None);
           Some (q\<lparr>cq_back := Some c\<rparr>, upd cs b (\<lambda>x. x\<lparr>c_next := Some c\<rparr>)) }
       | None \<Rightarrow> do {
           ASSERT (cq_front q = None);
           Some (q\<lparr>cq_front := Some c, cq_back := Some c\<rparr>, cs) }))"

definition cq_rep :: "cqueue \<Rightarrow> nat list \<Rightarrow> bool" where
  "cq_rep = (\<lambda>(q, cs) xs. slq (c_next \<circ> cs) (cq_front q) (cq_back q) xs)"

text \<open>A connection without its links; list operations do not change it.\<close>

definition body :: "POServer_connection \<Rightarrow> POServer_connection" where
  "body c = c\<lparr>c_next := None, c_prev := None\<rparr>"

lemma body_simps [simp]:
  "body (c\<lparr>c_next := a\<rparr>) = body c" "body (c\<lparr>c_prev := a\<rparr>) = body c"
  by (simp_all add: body_def)

lemma body_upd [simp]:
  "body (upd cs i (\<lambda>x. x\<lparr>c_next := v\<rparr>) j) = body (cs j)"
  "body (upd cs i (\<lambda>x. x\<lparr>c_prev := v\<rparr>) j) = body (cs j)"
  by (simp_all add: upd_apply)

lemma body_fields:
  assumes "body c = body d"
  shows "changeCount c = changeCount d" "markedForRemoval c = markedForRemoval d" "c_fd c = c_fd d"
    "acceptTime c = acceptTime d" "readCallback c = readCallback d" "writeCallback c = writeCallback d"
    "cleanupCallback c = cleanupCallback d" "readReady c = readReady d" "writeReady c = writeReady d"
    "readData c = readData d" "writeData c = writeData d" "cleanupData c = cleanupData d"
  using arg_cong [OF assms, of changeCount] arg_cong [OF assms, of markedForRemoval] arg_cong [OF assms, of c_fd]
    arg_cong [OF assms, of acceptTime] arg_cong [OF assms, of readCallback] arg_cong [OF assms, of writeCallback]
    arg_cong [OF assms, of cleanupCallback] arg_cong [OF assms, of readReady] arg_cong [OF assms, of writeReady]
    arg_cong [OF assms, of readData] arg_cong [OF assms, of writeData] arg_cong [OF assms, of cleanupData]
  by (simp_all add: body_def)

lemma unusedPop_spec:
  assumes "cq_rep (q, cs) (c # xs)"
  shows "\<exists>q'. unusedPop (q, cs) = Some (Some c, q', cs) \<and> cq_rep (q', cs) xs"
proof -
  from assms have s: "slq (c_next \<circ> cs) (cq_front q) (cq_back q) (c # xs)" by (simp add: cq_rep_def)
  then have fr: "cq_front q = Some c" by (rule slq_Cons_first)
  with slq_pop [of "c_next \<circ> cs" c "cq_back q" xs] s show ?thesis
    by (auto simp: unusedPop_def cq_rep_def Let_def)
qed

lemma unusedPush_spec:
  assumes rep: "cq_rep (q, cs) xs" and c: "c \<notin> set xs"
  shows "\<exists>q' cs'. unusedPush c (q, cs) = Some (q', cs') \<and> cq_rep (q', cs') (xs @ [c])
     \<and> (\<forall>i. body (cs' i) = body (cs i)) \<and> c_prev \<circ> cs' = c_prev \<circ> cs
     \<and> (\<forall>i. i \<notin> set (c # xs) \<longrightarrow> c_next (cs' i) = c_next (cs i))"
proof -
  from rep have s: "slq (c_next \<circ> cs) (cq_front q) (cq_back q) xs" by (simp add: cq_rep_def)
  show ?thesis
  proof (cases "cq_back q")
    case None
    with s have "xs = []" "cq_front q = None" using slq_last_None by metis+
    with None slq_push_empty [of "c_next \<circ> cs" c] show ?thesis
      by (auto simp: unusedPush_def cq_rep_def po_heap upd_apply)
  next
    case (Some b)
    with s have b: "b \<in> set xs" using slq_last_Some by fastforce
    with c have "b \<noteq> c" by auto
    have "cq_front q \<noteq> None" using s b slq_first_None by (metis empty_iff empty_set)
    with Some b \<open>b \<noteq> c\<close> slq_push [OF s [unfolded Some] c] show ?thesis
      by (auto simp: unusedPush_def cq_rep_def po_heap upd_apply)
  qed
qed

interpretation cq: fifo cq_rep "\<lambda>c xs. c \<notin> set xs" unusedPush unusedPop
proof (unfold_locales, goal_cases)
  case (1 s xs x)
  then show ?case using unusedPush_spec [of "fst s" "snd s" xs x] by fastforce
next
  case (2 s x xs)
  then show ?case using unusedPop_spec [of "fst s" "snd s" x xs] by fastforce
next
  case (3 s)
  then show ?case by (cases s) (auto simp: cq_rep_def unusedPop_def)
qed

subsection \<open>Used connections\<close>

text \<open>
  The loops that look for a connection in the list:
  \<^verbatim>\<open>for(len=0,c=l->first;c;++len,c=c->next) if(c == conn) break;\<close> and the same backwards. The result is
  \<^verbatim>\<open>c\<close> and \<^verbatim>\<open>len\<close>; \<open>None\<close> if there is no end in sight after \<open>k\<close> steps.
\<close>

primrec find_walk :: "nat \<Rightarrow> (nat \<Rightarrow> ptr) \<Rightarrow> nat \<Rightarrow> ptr \<Rightarrow> (ptr \<times> nat) option" where
  "find_walk 0 nx t p = None"
| "find_walk (Suc k) nx t p = (case p of
       None \<Rightarrow> Some (None, 0)
     | Some c \<Rightarrow> if c = t then Some (Some c, 0) else map_option (apsnd Suc) (find_walk k nx t (nx c)))"

lemma find_walk_out:
  "chain nx p xs None \<Longrightarrow> length xs < k \<Longrightarrow> t \<notin> set xs \<Longrightarrow> find_walk k nx t p = Some (None, length xs)"
proof (induction xs arbitrary: p k)
  case Nil
  then show ?case by (cases k) auto
next
  case (Cons x xs)
  then show ?case by (cases k) auto
qed

lemma find_walk_in:
  "chain nx p xs None \<Longrightarrow> length xs < k \<Longrightarrow> t \<in> set xs \<Longrightarrow> \<exists>n. find_walk k nx t p = Some (Some t, n)"
proof (induction xs arbitrary: p k)
  case (Cons x xs)
  then show ?case by (cases k) fastforce+
qed simp

definition listAddNew :: "sv_config \<Rightarrow> POServer \<Rightarrow> (nat \<times> POServer) option" where
  "listAddNew cfg s = do {
     ASSERT (unat (cl_num (used s)) < MAX_CONNECTIONS cfg);
     deref (cq_front (unusedq s));
     (r, q, cs) \<leftarrow> unusedPop (unusedq s, conn s);
     c \<leftarrow> r;
     let l = used s;
     ASSERT (cl_first l = None \<longleftrightarrow> cl_last l = None);
     ASSERT (cl_first l \<noteq> None \<and> cl_last l \<noteq> None \<or> cl_num l = 0);
     ASSERT (cl_first l = None \<and> cl_last l = None \<or> cl_num l > 0);
     ASSERT (case cl_first l of None \<Rightarrow> True | Some f \<Rightarrow> c_prev (cs f) = None);
     ASSERT (case cl_last l of None \<Rightarrow> True | Some f \<Rightarrow> c_next (cs f) = None);
     (f, len) \<leftarrow> find_walk (Suc (MAX_CONNECTIONS cfg)) (c_next \<circ> cs) c (cl_first l);
     ASSERT (f \<noteq> Some c);
     ASSERT (of_nat len = cl_num l);
     (f, len) \<leftarrow> find_walk (Suc (MAX_CONNECTIONS cfg)) (c_prev \<circ> cs) c (cl_last l);
     ASSERT (f \<noteq> Some c);
     ASSERT (of_nat len = cl_num l);
     let l = l\<lparr>cl_num := cl_num l + 1\<rparr>;
     let (l, cs) = (case cl_last l of
         Some la \<Rightarrow>
           let cs = upd cs la (\<lambda>x. x\<lparr>c_next := Some c\<rparr>);
               cs = upd cs c (\<lambda>x. x\<lparr>c_next := None\<rparr>);
               cs = upd cs c (\<lambda>x. x\<lparr>c_prev := Some la\<rparr>)
           in (l\<lparr>cl_last := Some c\<rparr>, cs)
       | None \<Rightarrow>
           (l\<lparr>cl_first := Some c, cl_last := Some c\<rparr>,
            upd cs c (\<lambda>x. x\<lparr>c_next := None, c_prev := None\<rparr>)));
     Some (c, s\<lparr>used := l, unusedq := q, conn := cs\<rparr>)
   }"

definition listRemove :: "sv_config \<Rightarrow> nat \<Rightarrow> POServer \<Rightarrow> POServer option" where
  "listRemove cfg c s = do {
     let l = used s;
     let cs = conn s;
     ASSERT (cl_num l > 0);
     ASSERT (unat (cl_num l) \<le> MAX_CONNECTIONS cfg);
     f \<leftarrow> deref (cl_first l);
     e \<leftarrow> deref (cl_last l);
     ASSERT (c_prev (cs f) = None);
     ASSERT (c_next (cs e) = None);
     (r, n) \<leftarrow> find_walk (Suc (MAX_CONNECTIONS cfg)) (c_next \<circ> cs) c (cl_first l);
     ASSERT (r = Some c);
     (r, n) \<leftarrow> find_walk (Suc (MAX_CONNECTIONS cfg)) (c_prev \<circ> cs) c (cl_last l);
     ASSERT (r = Some c);
     let l = l\<lparr>cl_num := cl_num l - 1\<rparr>;
     (l, cs) \<leftarrow> (case c_next (cs c) of
         Some n \<Rightarrow> Some (l, upd cs n (\<lambda>x. x\<lparr>c_prev := c_prev (cs c)\<rparr>))
       | None \<Rightarrow> do { ASSERT (cl_last l = Some c); Some (l\<lparr>cl_last := c_prev (cs c)\<rparr>, cs) });
     (l, cs) \<leftarrow> (case c_prev (cs c) of
         Some p \<Rightarrow> Some (l, upd cs p (\<lambda>x. x\<lparr>c_next := c_next (cs c)\<rparr>))
       | None \<Rightarrow> do { ASSERT (cl_first l = Some c); Some (l\<lparr>cl_first := c_next (cs c)\<rparr>, cs) });
     (q, cs) \<leftarrow> unusedPush c (unusedq s, cs);
     Some (s\<lparr>used := l, unusedq := q, conn := cs\<rparr>)
   }"

text \<open>
  The array conn[] is partitioned: the used list is \<open>us\<close>, oldest first, the queue of unused structs
  is \<open>fs\<close>.
\<close>

definition conn_rep :: "sv_config \<Rightarrow> POServer \<Rightarrow> nat list \<Rightarrow> nat list \<Rightarrow> bool" where
  "conn_rep cfg s us fs \<longleftrightarrow>
     dll (c_next \<circ> conn s) (c_prev \<circ> conn s) (cl_first (used s)) (cl_last (used s)) us
     \<and> slq (c_next \<circ> conn s) (cq_front (unusedq s)) (cq_back (unusedq s)) fs
     \<and> set us \<inter> set fs = {} \<and> set us \<union> set fs = {..<MAX_CONNECTIONS cfg}
     \<and> unat (cl_num (used s)) = length us"

lemma conn_rep_length:
  assumes "conn_rep cfg s us fs"
  shows "length us + length fs = MAX_CONNECTIONS cfg"
proof -
  from assms have "distinct us" "distinct fs" "set us \<inter> set fs = {}" "set us \<union> set fs = {..<MAX_CONNECTIONS cfg}"
    by (auto simp: conn_rep_def dest: dll_distinct slq_distinct)
  then show ?thesis
    using card_Un_disjoint [of "set us" "set fs"] by (simp add: distinct_card)
qed

lemma listAddNew_spec:
  assumes rep: "conn_rep cfg s us (c # fs)" and ok: "sv_config_ok cfg"
  shows "\<exists>s'. listAddNew cfg s = Some (c, s') \<and> conn_rep cfg s' (us @ [c]) fs
     \<and> (\<forall>i. body (conn s' i) = body (conn s i)) \<and> s' = s\<lparr>used := used s', unusedq := unusedq s', conn := conn s'\<rparr>"
proof -
  let ?n = "MAX_CONNECTIONS cfg" and ?cs = "conn s" and ?l = "used s"
  from rep have d: "dll (c_next \<circ> ?cs) (c_prev \<circ> ?cs) (cl_first ?l) (cl_last ?l) us"
    and q: "slq (c_next \<circ> ?cs) (cq_front (unusedq s)) (cq_back (unusedq s)) (c # fs)"
    and disj: "set us \<inter> set (c # fs) = {}" and cover: "set us \<union> set (c # fs) = {..<?n}"
    and num: "unat (cl_num ?l) = length us"
    by (auto simp: conn_rep_def)
  from conn_rep_length [OF rep] have len: "length us < ?n" by simp
  have n32: "?n < 2 ^ 31" using ok by (simp add: sv_config_ok_def)
  have num': "unat (cl_num ?l + 1) = Suc (length us)"
    using unat_Suc_bound [of "cl_num ?l" ?n] num len n32 by simp
  from unusedPop_spec [of "unusedq s" ?cs c fs] q obtain q' where
    P: "unusedPop (unusedq s, ?cs) = Some (Some c, q', ?cs)" "slq (c_next \<circ> ?cs) (cq_front q') (cq_back q') fs"
    by (auto simp: cq_rep_def)
  have fr: "cq_front (unusedq s) = Some c" using q by (rule slq_Cons_first)
  have ends: "(cl_first ?l = None \<longleftrightarrow> us = []) \<and> (cl_last ?l = None \<longleftrightarrow> us = [])"
    by (rule dll_None_iff [OF d])
  have cnt: "of_nat (length us) = cl_num ?l" by (simp flip: num)
  have walks: "find_walk (Suc ?n) (c_next \<circ> ?cs) c (cl_first ?l) = Some (None, length us)"
    "find_walk (Suc ?n) (c_prev \<circ> ?cs) c (cl_last ?l) = Some (None, length us)"
    using d len disj find_walk_out [of "c_next \<circ> ?cs" "cl_first ?l" us "Suc ?n" c]
      find_walk_out [of "c_prev \<circ> ?cs" "cl_last ?l" "rev us" "Suc ?n" c] by (auto simp: dll_def)
  have tips: "case cl_first ?l of None \<Rightarrow> True | Some f \<Rightarrow> c_prev (?cs f) = None"
    "case cl_last ?l of None \<Rightarrow> True | Some f \<Rightarrow> c_next (?cs f) = None"
    using d dll_prev_top [of "c_next \<circ> ?cs" "c_prev \<circ> ?cs"] dll_next_bot [of "c_next \<circ> ?cs" "c_prev \<circ> ?cs"]
    by (auto split: option.splits)
  have pos: "cl_num ?l = 0 \<longleftrightarrow> us = []" "cl_num ?l > 0 \<longleftrightarrow> us \<noteq> []"
    using num by (auto simp: unat_eq_zero_iff [symmetric] word_gt_zero_iff)
  have c: "c \<notin> set us" "c \<notin> set fs" "c < ?n" using disj cover slq_distinct [OF q] by auto
  define l' cs' where "l' = (if us = [] then ?l\<lparr>cl_num := cl_num ?l + 1, cl_first := Some c, cl_last := Some c\<rparr>
       else ?l\<lparr>cl_num := cl_num ?l + 1, cl_last := Some c\<rparr>)"
    and "cs' = (if us = [] then upd ?cs c (\<lambda>x. x\<lparr>c_next := None, c_prev := None\<rparr>)
       else upd (upd (upd ?cs (last us) (\<lambda>x. x\<lparr>c_next := Some c\<rparr>)) c (\<lambda>x. x\<lparr>c_next := None\<rparr>)) c (\<lambda>x. x\<lparr>c_prev := Some (last us)\<rparr>))"
  have la: "cl_last ?l = (if us = [] then None else Some (last us))" by (rule dll_bot [OF d])
  have "listAddNew cfg s = Some (c, s\<lparr>used := l', unusedq := q', conn := cs'\<rparr>)"
    using num len fr P ends pos tips walks cnt la
    by (cases "us = []") (simp_all add: listAddNew_def l'_def cs'_def Let_def)
  moreover have "dll (c_next \<circ> cs') (c_prev \<circ> cs') (cl_first l') (cl_last l') (us @ [c])"
  proof (cases "us = []")
    case True
    then show ?thesis by (simp add: cs'_def l'_def po_heap dll_single)
  next
    case False
    then have "last us \<noteq> c" using c last_in_set by metis
    with dll_push_bot [of "c_next \<circ> ?cs" "c_prev \<circ> ?cs" "cl_first ?l" "last us" us c] d la False c
    show ?thesis by (simp add: cs'_def l'_def po_heap fun_upd_twist)
  qed
  moreover have "last us \<notin> set fs" if "us \<noteq> []" using that disj last_in_set by fastforce
  then have "slq (c_next \<circ> cs') (cq_front q') (cq_back q') fs"
    using P c by (auto simp: cs'_def po_heap slq_frame)
  moreover have "body (cs' i) = body (?cs i)" for i
    by (simp add: cs'_def upd_apply)
  ultimately show ?thesis
    using disj cover num' c by (auto simp: conn_rep_def l'_def)
qed

lemma listRemove_spec:
  assumes rep: "conn_rep cfg s us fs" and ok: "sv_config_ok cfg" and c: "c \<in> set us"
  shows "\<exists>s'. listRemove cfg c s = Some s' \<and> conn_rep cfg s' (remove1 c us) (fs @ [c])
     \<and> (\<forall>i. body (conn s' i) = body (conn s i)) \<and> s' = s\<lparr>used := used s', unusedq := unusedq s', conn := conn s'\<rparr>"
proof -
  let ?n = "MAX_CONNECTIONS cfg" and ?cs = "conn s" and ?l = "used s"
  let ?nx = "c_next \<circ> ?cs" and ?pv = "c_prev \<circ> ?cs"
  from rep have d: "dll ?nx ?pv (cl_first ?l) (cl_last ?l) us"
    and q: "slq ?nx (cq_front (unusedq s)) (cq_back (unusedq s)) fs"
    and disj: "set us \<inter> set fs = {}" and cover: "set us \<union> set fs = {..<?n}"
    and num: "unat (cl_num ?l) = length us"
    by (auto simp: conn_rep_def)
  from c obtain as bs where us: "us = as @ c # bs" by (meson split_list)
  have dist: "distinct us" by (rule dll_distinct [OF d])
  then have rm: "remove1 c us = as @ bs" by (simp add: us remove1_append)
  from conn_rep_length [OF rep] have len: "length us \<le> ?n" by simp
  have nz: "cl_num ?l \<noteq> 0" using num us by auto
  have num': "unat (cl_num ?l - 1) = length (as @ bs)" using unat_pred_pos [OF nz] num us by simp
  from dll_top [OF d] dll_bot [OF d] us obtain f e where fe: "cl_first ?l = Some f" "cl_last ?l = Some e" by auto
  have tips: "c_prev (?cs f) = None" "c_next (?cs e) = None"
    using dll_prev_top [of ?nx ?pv] dll_next_bot [of ?nx ?pv] d fe by auto
  obtain n1 n2 where walks: "find_walk (Suc ?n) ?nx c (cl_first ?l) = Some (Some c, n1)"
    "find_walk (Suc ?n) ?pv c (cl_last ?l) = Some (Some c, n2)"
    using d len c find_walk_in [of ?nx "cl_first ?l" us "Suc ?n" c]
      find_walk_in [of ?pv "cl_last ?l" "rev us" "Suc ?n" c] by (auto simp: dll_def)
  have nxc: "c_next (?cs c) = (if bs = [] then None else Some (hd bs))"
    and pvc: "c_prev (?cs c) = (if as = [] then None else Some (last as))"
    using dll_next_elem [of ?nx ?pv _ _ as c bs] dll_prev_elem [of ?nx ?pv _ _ as c bs] d us by auto
  have only: "c_next (?cs c) = None \<Longrightarrow> e = c" "c_prev (?cs c) = None \<Longrightarrow> f = c"
    using nxc pvc fe dll_top [OF d] dll_bot [OF d] us by (auto split: if_splits)
  define cs1 where "cs1 = (case c_next (?cs c) of None \<Rightarrow> ?cs | Some n \<Rightarrow> upd ?cs n (\<lambda>x. x\<lparr>c_prev := c_prev (?cs c)\<rparr>))"
  define cs2 where "cs2 = (case c_prev (?cs c) of None \<Rightarrow> cs1 | Some p \<Rightarrow> upd cs1 p (\<lambda>x. x\<lparr>c_next := c_next (?cs c)\<rparr>))"
  define l' where "l' = ?l\<lparr>cl_num := cl_num ?l - 1, cl_last := unlink_end ?pv ?nx c (cl_last ?l),
    cl_first := unlink_end ?nx ?pv c (cl_first ?l)\<rparr>"
  have ne: "c \<notin> set as" "c \<notin> set bs" "bs \<noteq> [] \<Longrightarrow> hd bs \<noteq> c" "as \<noteq> [] \<Longrightarrow> last as \<noteq> c"
    using dist us by auto
  have c1: "c_prev (cs1 c) = c_prev (?cs c)" "c_next (cs1 c) = c_next (?cs c)"
    using nxc ne by (auto simp: cs1_def upd_apply)
  have links: "c_next \<circ> cs2 = unlink_next ?nx ?pv c" "c_prev \<circ> cs2 = unlink_next ?pv ?nx c"
    by (auto simp: cs2_def cs1_def unlink_next_def fun_eq_iff upd_apply split: option.splits)
  have D: "dll (c_next \<circ> cs2) (c_prev \<circ> cs2) (cl_first l') (cl_last l') (as @ bs)"
    using dll_unlink [OF d [unfolded us]] by (simp add: links l'_def)
  have Q: "slq (c_next \<circ> cs2) (cq_front (unusedq s)) (cq_back (unusedq s)) fs"
  proof (cases "as = []")
    case False
    then have "last as \<notin> set fs" using disj us last_in_set by fastforce
    with False q pvc show ?thesis by (simp add: links unlink_next_def slq_frame)
  qed (use q pvc in \<open>simp add: links unlink_next_def\<close>)
  have cfs: "c \<notin> set fs" using disj c by auto
  from unusedPush_spec [of "unusedq s" cs2 fs c] Q cfs obtain q' cs' where
    U: "unusedPush c (unusedq s, cs2) = Some (q', cs')" "slq (c_next \<circ> cs') (cq_front q') (cq_back q') (fs @ [c])"
       "\<And>i. body (cs' i) = body (cs2 i)" "c_prev \<circ> cs' = c_prev \<circ> cs2"
       "\<And>i. i \<notin> set (c # fs) \<Longrightarrow> c_next (cs' i) = c_next (cs2 i)"
    by (auto simp: cq_rep_def)
  have "listRemove cfg c s = Some (s\<lparr>used := l', unusedq := q', conn := cs'\<rparr>)"
    using num len nz fe tips walks U(1) c1 only
    by (cases "c_next (?cs c)"; cases "c_prev (?cs c)")
      (simp_all add: listRemove_def l'_def cs1_def cs2_def unlink_end_def word_gt_0 Let_def del: find_walk.simps)
  moreover have "dll (c_next \<circ> cs') (c_prev \<circ> cs') (cl_first l') (cl_last l') (as @ bs)"
  proof (rule dll_cong_on [OF D])
    fix i
    assume "i \<in> set (as @ bs)"
    then have "i \<notin> set (c # fs)" using disj us ne by auto
    then show "(c_next \<circ> cs') i = (c_next \<circ> cs2) i" using U(5) by simp
  qed (simp add: U(4))
  moreover have "body (cs' i) = body (?cs i)" for i
    using U(3) [of i] by (auto simp: cs2_def cs1_def split: option.splits)
  moreover have "set (as @ bs) \<inter> set (fs @ [c]) = {}" "set (as @ bs) \<union> set (fs @ [c]) = {..<?n}"
    using disj cover ne unfolding us by auto
  ultimately show ?thesis
    using U(2) num' by (intro exI [of _ "s\<lparr>used := l', unusedq := q', conn := cs'\<rparr>"])
      (simp add: conn_rep_def l'_def rm)
qed

end
