(* ===== verification/Server.thy ===== *)
theory Server
  imports ServerLists
begin

text \<open>
  The operations of src/potato_old/server.c on one connection or one listener, each run with the
  server mutex held: setting up, accepting, servicing and removing connections. The kernel is part
  of the state: which descriptors are open and which connections wait to be accepted. User callbacks
  are a parameter, an interpretation of callback numbers; the locale \<open>server_cb\<close> states what the
  server relies on.
\<close>

subsection \<open>The world of a server\<close>

text \<open>
  A client that waits in the backlog of a listening socket: the answers of \<^verbatim>\<open>fcntl\<close> and \<^verbatim>\<open>epoll_ctl\<close>
  for its descriptor, or an error of \<^verbatim>\<open>accept\<close> other than \<^verbatim>\<open>EAGAIN\<close>. An empty backlog is \<^verbatim>\<open>EAGAIN\<close>.
\<close>

datatype pending = Pending (fcntl_ok: bool) (epoll_ok: bool) | AcceptError

record kernel =
  open_fds :: "int list"
  backlog :: "int \<Rightarrow> pending list"
  clock :: real

text \<open>A new descriptor is the lowest number that is not open.\<close>

definition new_fd :: "int list \<Rightarrow> int" where
  "new_fd fds = hd (filter (\<lambda>n. n \<notin> set fds) (map int [0..<Suc (length fds)]))"

lemma new_fd: "new_fd fds \<notin> set fds" "0 \<le> new_fd fds"
proof -
  let ?c = "map int [0..<Suc (length fds)]"
  have "card (set ?c) = Suc (length fds)" using distinct_card [of ?c] by (simp add: distinct_map del: upt_Suc)
  then have "\<not> set ?c \<subseteq> set fds"
    using card_mono [of "set fds" "set ?c"] card_length [of fds] by fastforce
  then have "filter (\<lambda>n. n \<notin> set fds) ?c \<noteq> []" by (auto simp: filter_empty_conv)
  then have "new_fd fds \<in> set (filter (\<lambda>n. n \<notin> set fds) ?c)"
    unfolding new_fd_def by (rule hd_in_set)
  then show "new_fd fds \<notin> set fds" "0 \<le> new_fd fds" by (auto simp del: upt_Suc)
qed

text \<open>
  A callback gets its data, the connection it is called for and the state of the user, and returns
  its return value and both as it leaves them.
\<close>

type_synonym 'u ucb = "nat \<Rightarrow> nat \<Rightarrow> POServer_connection \<Rightarrow> 'u \<Rightarrow> int \<times> POServer_connection \<times> 'u"

record 'u world =
  srv :: POServer
  kern :: kernel
  usr :: 'u

definition set_conn :: "nat \<Rightarrow> (POServer_connection \<Rightarrow> POServer_connection) \<Rightarrow> 'u world \<Rightarrow> 'u world" where
  "set_conn c f w = w\<lparr>srv := (srv w)\<lparr>conn := upd (conn (srv w)) c f\<rparr>\<rparr>"

definition call_cb :: "'u ucb \<Rightarrow> nat \<Rightarrow> nat \<Rightarrow> nat \<Rightarrow> 'u world \<Rightarrow> int \<times> 'u world" where
  "call_cb cb k d c w = (let (rt, x, u) = cb k d (conn (srv w) c) (usr w)
     in (rt, (set_conn c (\<lambda>_. x) w)\<lparr>usr := u\<rparr>))"

definition close_fd :: "int \<Rightarrow> kernel \<Rightarrow> kernel option" where
  "close_fd fd k = do { ASSERT (fd \<in> set (open_fds k)); Some (k\<lparr>open_fds := removeAll fd (open_fds k)\<rparr>) }"

text \<open>\<^verbatim>\<open>setNonblocking\<close> of util.h: both checks are assertions, so it returns false or not at all.\<close>

definition setNonblocking :: "bool \<Rightarrow> bool option" where
  "setNonblocking ok = do { ASSERT ok; Some False }"

subsection \<open>Removing and adding connections\<close>

definition removeConnection :: "sv_config \<Rightarrow> 'u ucb \<Rightarrow> nat \<Rightarrow> 'u world \<Rightarrow> 'u world option" where
  "removeConnection cfg cb c w = do {
     ASSERT (unat (cl_num (used (srv w))) \<le> MAX_CONNECTIONS cfg);
     ASSERT (0 \<le> c_fd (conn (srv w) c));
     s \<leftarrow> listRemove cfg c (srv w);
     let w = w\<lparr>srv := s\<rparr>;
     w \<leftarrow> (case cleanupCallback (conn s c) of
         None \<Rightarrow> Some w
       | Some k \<Rightarrow> (let (rt, w) = call_cb cb k (cleanupData (conn s c)) c w
                   in do { ASSERT (rt = 0); Some w }));
     let w = set_conn c (\<lambda>x. x\<lparr>changeCount := changeCount x + 1, markedForRemoval := False,
         cleanupCallback := None, readCallback := None, writeCallback := None,
         readReady := False, writeReady := False\<rparr>) w;
     k \<leftarrow> close_fd (c_fd (conn (srv w) c)) (kern w);
     Some (set_conn c (\<lambda>x. x\<lparr>c_fd := -1\<rparr>) (w\<lparr>kern := k\<rparr>))
   }"

text \<open>
  \<open>locked\<close>: \<^verbatim>\<open>mutexTryLock(&conn->mutex)\<close> fails because a worker has the connection. In the build
  without threads it never does.
\<close>

definition checkTryRemoveConnection :: "sv_config \<Rightarrow> 'u ucb \<Rightarrow> bool \<Rightarrow> nat \<Rightarrow> 'u world \<Rightarrow> (bool \<times> 'u world) option" where
  "checkTryRemoveConnection cfg cb locked c w =
     (if \<not> locked then do { w \<leftarrow> removeConnection cfg cb c w; Some (True, w) }
      else Some (False, set_conn c (\<lambda>x. x\<lparr>markedForRemoval := True\<rparr>) w))"

definition addConnection :: "sv_config \<Rightarrow> int \<Rightarrow> pending \<Rightarrow> nat \<Rightarrow> 'u world \<Rightarrow> (nat option \<times> 'u world) option" where
  "addConnection cfg fd p l w = do {
     ASSERT (0 \<le> fd);
     ASSERT (unat (cl_num (used (srv w))) < MAX_CONNECTIONS cfg);
     ASSERT (cq_back (unusedq (srv w)) \<noteq> None);
     bad \<leftarrow> setNonblocking (fcntl_ok p);
     (if bad then do { k \<leftarrow> close_fd fd (kern w); Some (None, w\<lparr>kern := k\<rparr>) }
      else do {
        (c, s) \<leftarrow> listAddNew cfg (srv w);
        let w = w\<lparr>srv := s\<rparr>;
        let w = set_conn c (\<lambda>x. x\<lparr>c_fd := fd, readCallback := callback (listener s l),
            readData := l_data (listener s l), acceptTime := clock (kern w)\<rparr>) w;
        ASSERT (epoll_ok p);
        Some (Some c, w)
      })
   }"

text \<open>\<^verbatim>\<open>accept(2)\<close> on a listening socket.\<close>

datatype accepted = Accepted int pending | AcceptAgain | AcceptFailed

definition k_accept :: "int \<Rightarrow> kernel \<Rightarrow> accepted \<times> kernel" where
  "k_accept fd k = (case backlog k fd of
       [] \<Rightarrow> (AcceptAgain, k)
     | AcceptError # ps \<Rightarrow> (AcceptFailed, k\<lparr>backlog := (backlog k)(fd := ps)\<rparr>)
     | p # ps \<Rightarrow> (let n = new_fd (open_fds k)
                 in (Accepted n p, k\<lparr>backlog := (backlog k)(fd := ps), open_fds := n # open_fds k\<rparr>)))"

definition poServer_accept :: "sv_config \<Rightarrow> 'u world \<Rightarrow> (bool \<times> 'u world) option" where
  "poServer_accept cfg w = do {
     let s = srv w;
     ASSERT (unat (cl_num (used s)) \<le> MAX_CONNECTIONS cfg);
     ASSERT (cq_back (unusedq s) \<noteq> None);
     l \<leftarrow> deref (wq_first (waitingq s));
     ASSERT (0 \<le> l_fd (listener s l));
     let (r, k) = k_accept (l_fd (listener s l)) (kern w);
     let w = w\<lparr>kern := k\<rparr>;
     (case r of
        AcceptAgain \<Rightarrow> do {
          (q, ls) \<leftarrow> queuePull (waitingq s, listener s);
          Some (False, w\<lparr>srv := s\<lparr>waitingq := q, listener := ls\<rparr>\<rparr>) }
      | AcceptFailed \<Rightarrow> None
      | Accepted fd p \<Rightarrow> do {
          (c, w) \<leftarrow> addConnection cfg fd p l w;
          Some (c = None, w) })
   }"

subsection \<open>Setting up\<close>

definition zero_listener :: POServer_listener where
  "zero_listener = \<lparr>l_fd = -1, l_addr = 0, l_next = None, waiting = False, callback = None, l_data = 0\<rparr>"

definition zero_conn :: POServer_connection where
  "zero_conn = \<lparr>changeCount = 0, markedForRemoval = False, c_fd = -1, acceptTime = 0, c_next = None, c_prev = None,
     readData = 0, writeData = 0, cleanupData = 0, readCallback = None, writeCallback = None,
     cleanupCallback = None, readReady = False, writeReady = False\<rparr>"

text \<open>The zeroed object with all descriptors marked as closed; the loop pushes each struct to the unused queue.\<close>

definition zero_server :: POServer where
  "zero_server = \<lparr>listener = (\<lambda>_. zero_listener), numListeners = 0, waitingq = \<lparr>wq_first = None, wq_last = None\<rparr>,
     efd = -1, conn = (\<lambda>_. zero_conn), used = \<lparr>cl_num = 0, cl_first = None, cl_last = None\<rparr>,
     unusedq = \<lparr>cq_back = None, cq_front = None\<rparr>, isRunning = False, listenersDown = False\<rparr>"

primrec push_all :: "nat list \<Rightarrow> POServer \<Rightarrow> POServer option" where
  "push_all [] s = Some s"
| "push_all (i # is) s = do {
     (q, cs) \<leftarrow> unusedPush i (unusedq s, conn s);
     push_all is (s\<lparr>unusedq := q, conn := cs\<rparr>) }"

text \<open>
  \<open>init_failed\<close> is the answer of \<^verbatim>\<open>_poTato_init\<close>, \<open>ok\<close> the success of \<^verbatim>\<open>epoll_create1\<close>; the inner option is the
  returned pointer. The thread pool and the list of servers are other components.
\<close>

definition poServer_create :: "sv_config \<Rightarrow> bool \<Rightarrow> bool \<Rightarrow> kernel \<Rightarrow> (POServer option \<times> kernel) option" where
  "poServer_create cfg init_failed ok k =
     (if init_failed then Some (None, k)
      else do {
        s \<leftarrow> push_all [0..<MAX_CONNECTIONS cfg] zero_server;
        ASSERT ok;
        let n = new_fd (open_fds k);
        Some (Some (s\<lparr>efd := n\<rparr>), k\<lparr>open_fds := n # open_fds k\<rparr>)
      })"

text \<open>
  The answers of the kernel while a listener is set up. \<open>found\<close> is the descriptor
  \<^verbatim>\<open>_poTato_findListenerFd\<close> returns for the address, -1 if there is none from a handoff. Every check
  is an assertion (also \<^verbatim>\<open>poUtil_setAddress\<close> and \<^verbatim>\<open>setNonblocking\<close> return no error), so the label
  \<^verbatim>\<open>fail\<close> is never reached.
\<close>

record setup_answers =
  addr_ok :: bool
  found :: int
  socket_ok :: bool
  reuse_ok :: bool
  sa_fcntl_ok :: bool
  bind_ok :: bool
  listen_ok :: bool
  sa_epoll_ok :: bool

definition poServer_listenerSetup :: "sv_config \<Rightarrow> setup_answers \<Rightarrow> nat \<Rightarrow> nat option \<Rightarrow> nat \<Rightarrow>
    POServer \<times> kernel \<Rightarrow> (bool \<times> POServer \<times> kernel) option" where
  "poServer_listenerSetup cfg a addr cb d = (\<lambda>(s, k). do {
     ASSERT (cb \<noteq> None);
     ASSERT (unat (numListeners s) < NUM_LISTENERS cfg);
     let i = unat (numListeners s);
     ASSERT (l_fd (listener s i) = -1);
     ASSERT (addr_ok a);
     let s = s\<lparr>listener := upd (listener s) i (\<lambda>l. l\<lparr>l_addr := addr\<rparr>)\<rparr>;
     (fd, k) \<leftarrow> (if found a = -1 then do {
          ASSERT (socket_ok a);
          let n = new_fd (open_fds k);
          let k = k\<lparr>open_fds := n # open_fds k\<rparr>;
          ASSERT (reuse_ok a);
          setNonblocking (sa_fcntl_ok a);
          ASSERT (bind_ok a);
          Some (n, k) } else Some (found a, k));
     ASSERT (listen_ok a);
     ASSERT (sa_epoll_ok a);
     let s = s\<lparr>listener := upd (listener s) i (\<lambda>l. l\<lparr>l_fd := fd, callback := cb, l_data := d\<rparr>)\<rparr>;
     let s = s\<lparr>numListeners := numListeners s + 1\<rparr>;
     (if unat (numListeners s) = NUM_LISTENERS cfg
      then do { ASSERT (\<not> isRunning s); Some (False, s\<lparr>isRunning := True\<rparr>, k) }
      else Some (False, s, k))
   })"

subsection \<open>Servicing a connection\<close>

text \<open>
  What \<^verbatim>\<open>ServiceConnection\<close> does with the connection mutex held, after its first check: call the read
  and the write callback if there is an event for it, and tell whether the connection is to go.
\<close>

definition service_read :: "'u ucb \<Rightarrow> nat \<Rightarrow> 'u world \<Rightarrow> bool \<times> 'u world" where
  "service_read cb c w = (let x = conn (srv w) c in case readCallback x of
       Some k \<Rightarrow> if readReady x then
           (let (rt, w) = call_cb cb k (readData x) c w in
            if rt \<noteq> 0 then (True, set_conn c (\<lambda>x. x\<lparr>readCallback := None, writeCallback := None\<rparr>) w)
            else if readCallback (conn (srv w) c) \<noteq> None then (False, set_conn c (\<lambda>x. x\<lparr>readReady := False\<rparr>) w)
            else (False, w))
         else (False, w)
     | None \<Rightarrow> (False, w))"

definition service_write :: "'u ucb \<Rightarrow> nat \<Rightarrow> 'u world \<Rightarrow> bool \<times> 'u world" where
  "service_write cb c w = (let x = conn (srv w) c in case writeCallback x of
       Some k \<Rightarrow> if writeReady x then
           (let (rt, w) = call_cb cb k (writeData x) c w in
            if rt \<noteq> 0 then (True, set_conn c (\<lambda>x. x\<lparr>readCallback := None, writeCallback := None\<rparr>) w)
            else if writeCallback (conn (srv w) c) \<noteq> None then (False, set_conn c (\<lambda>x. x\<lparr>writeReady := False\<rparr>) w)
            else (False, w))
         else (False, w)
     | None \<Rightarrow> (False, w))"

definition service :: "'u ucb \<Rightarrow> nat \<Rightarrow> 'u world \<Rightarrow> (bool \<times> 'u world) option" where
  "service cb c w = do {
     ASSERT (0 \<le> c_fd (conn (srv w) c));
     let (r1, w) = service_read cb c w;
     let (r2, w) = service_write cb c w;
     Some (r1 \<or> r2 \<or> (readCallback (conn (srv w) c) = None \<and> writeCallback (conn (srv w) c) = None), w)
   }"

text \<open>The operations a callback uses on its connection.\<close>

definition poServer_setReadCallback :: "'u ucb \<Rightarrow> nat option \<Rightarrow> nat \<Rightarrow> POServer_connection \<Rightarrow> 'u \<Rightarrow>
    (int \<times> POServer_connection \<times> 'u) option" where
  "poServer_setReadCallback cb k d x u = do {
     ASSERT (0 \<le> c_fd x);
     let old = readCallback x;
     let x = x\<lparr>readCallback := k, readData := d\<rparr>;
     Some (case k of
         Some k \<Rightarrow> if old = None \<and> readReady x then cb k d x u else (0, x, u)
       | None \<Rightarrow> (0, x, u))
   }"

definition poServer_setWriteCallback :: "'u ucb \<Rightarrow> nat option \<Rightarrow> nat \<Rightarrow> POServer_connection \<Rightarrow> 'u \<Rightarrow>
    (int \<times> POServer_connection \<times> 'u) option" where
  "poServer_setWriteCallback cb k d x u = do {
     ASSERT (0 \<le> c_fd x);
     let old = writeCallback x;
     let x = x\<lparr>writeCallback := k, writeData := d\<rparr>;
     Some (case k of
         Some k \<Rightarrow> if old = None \<and> writeReady x then cb k d x u else (0, x, u)
       | None \<Rightarrow> (0, x, u))
   }"

definition poServer_setCleanupCallback :: "nat option \<Rightarrow> nat \<Rightarrow> POServer_connection \<Rightarrow> POServer_connection option" where
  "poServer_setCleanupCallback k d x = do {
     ASSERT (0 \<le> c_fd x);
     Some (x\<lparr>cleanupCallback := k, cleanupData := d\<rparr>)
   }"

subsection \<open>The invariant\<close>

text \<open>
  The descriptors of the server: those of the used connections, of the open listeners, and that of
  epoll. \<open>others\<close> are the descriptors of the process that are not the server's.
\<close>

definition conn_fds :: "POServer \<Rightarrow> nat list \<Rightarrow> int list" where
  "conn_fds s us = map (c_fd \<circ> conn s) us"

definition listen_fds :: "sv_config \<Rightarrow> POServer \<Rightarrow> int list" where
  "listen_fds cfg s = filter (\<lambda>fd. 0 \<le> fd) (map (l_fd \<circ> listener s) [0..<NUM_LISTENERS cfg])"

definition fds_ok :: "sv_config \<Rightarrow> int set \<Rightarrow> POServer \<Rightarrow> kernel \<Rightarrow> nat list \<Rightarrow> bool" where
  "fds_ok cfg others s k us \<longleftrightarrow>
     distinct (conn_fds s us @ listen_fds cfg s @ [efd s])
     \<and> set (open_fds k) = others \<union> set (conn_fds s us @ listen_fds cfg s @ [efd s])
     \<and> others \<inter> set (conn_fds s us @ listen_fds cfg s @ [efd s]) = {}
     \<and> (\<forall>c \<in> set us. 0 \<le> c_fd (conn s c))"

text \<open>An unused struct carries nothing of the connection it was.\<close>

definition conn_clear :: "POServer_connection \<Rightarrow> bool" where
  "conn_clear x \<longleftrightarrow> c_fd x = -1 \<and> readCallback x = None \<and> writeCallback x = None \<and> cleanupCallback x = None
     \<and> \<not> readReady x \<and> \<not> writeReady x \<and> \<not> markedForRemoval x"

text \<open>What only setting up and shutting down change.\<close>

definition shell :: "POServer \<Rightarrow> (nat \<Rightarrow> int) \<times> int \<times> bool \<times> uint32 \<times> bool" where
  "shell s = (l_fd \<circ> listener s, efd s, isRunning s, numListeners s, listenersDown s)"

text \<open>\<open>G\<close>: the callbacks that may be set for cleaning up.\<close>

definition sv_inv_at :: "sv_config \<Rightarrow> nat set \<Rightarrow> int set \<Rightarrow> 'u world \<Rightarrow> nat list \<Rightarrow> nat list \<Rightarrow> nat list \<Rightarrow> bool" where
  "sv_inv_at cfg G others w us fs ws \<longleftrightarrow> sv_config_ok cfg
     \<and> conn_rep cfg (srv w) us fs
     \<and> wq_rep (NUM_LISTENERS cfg) (waitingq (srv w), listener (srv w)) ws
     \<and> fds_ok cfg others (srv w) (kern w) us
     \<and> (\<forall>c \<in> set fs. conn_clear (conn (srv w) c))
     \<and> (\<forall>c \<in> set us. set_option (cleanupCallback (conn (srv w) c)) \<subseteq> G)
     \<and> (\<forall>l \<in> set ws. 0 \<le> l_fd (listener (srv w) l))
     \<and> sorted (map (acceptTime \<circ> conn (srv w)) us)
     \<and> (\<forall>c \<in> set us. acceptTime (conn (srv w) c) \<le> clock (kern w))"

definition sv_inv :: "sv_config \<Rightarrow> nat set \<Rightarrow> int set \<Rightarrow> 'u world \<Rightarrow> bool" where
  "sv_inv cfg G others w \<longleftrightarrow> (\<exists>us fs ws. sv_inv_at cfg G others w us fs ws)"

lemma sv_invI: "sv_inv_at cfg G others w us fs ws \<Longrightarrow> sv_inv cfg G others w"
  unfolding sv_inv_def by blast

text \<open>The part of a connection that belongs to the server; callbacks leave it alone.\<close>

definition owned :: "POServer_connection \<Rightarrow> int \<times> bool \<times> int \<times> real \<times> ptr \<times> ptr" where
  "owned x = (changeCount x, markedForRemoval x, c_fd x, acceptTime x, c_next x, c_prev x)"

lemma owned_fields:
  assumes "owned x = owned y"
  shows "changeCount x = changeCount y" "markedForRemoval x = markedForRemoval y" "c_fd x = c_fd y"
    "acceptTime x = acceptTime y" "c_next x = c_next y" "c_prev x = c_prev y"
  using assms by (simp_all add: owned_def)

lemma set_conn_simps [simp]:
  "kern (set_conn c f w) = kern w" "usr (set_conn c f w) = usr w"
  "conn (srv (set_conn c f w)) = upd (conn (srv w)) c f"
  "listener (srv (set_conn c f w)) = listener (srv w)" "waitingq (srv (set_conn c f w)) = waitingq (srv w)"
  "efd (srv (set_conn c f w)) = efd (srv w)" "used (srv (set_conn c f w)) = used (srv w)"
  "unusedq (srv (set_conn c f w)) = unusedq (srv w)" "isRunning (srv (set_conn c f w)) = isRunning (srv w)"
  "numListeners (srv (set_conn c f w)) = numListeners (srv w)"
  by (simp_all add: set_conn_def)

lemma conn_rep_upd:
  assumes "conn_rep cfg s us fs" and "used s' = used s" "unusedq s' = unusedq s"
    and "\<And>i. c_next (conn s' i) = c_next (conn s i)" "\<And>i. c_prev (conn s' i) = c_prev (conn s i)"
  shows "conn_rep cfg s' us fs"
proof -
  have "c_next \<circ> conn s' = c_next \<circ> conn s" "c_prev \<circ> conn s' = c_prev \<circ> conn s"
    using assms(4,5) by auto
  then show ?thesis using assms(1-3) by (simp add: conn_rep_def)
qed

lemma conn_rep_mem: "conn_rep cfg s us fs \<Longrightarrow> distinct us \<and> distinct fs \<and> set us \<inter> set fs = {}"
  by (auto simp: conn_rep_def dest: dll_distinct slq_distinct)

text \<open>Closing the descriptor of one connection, opening one for a new connection.\<close>

lemma fds_ok_remove:
  assumes ok: "fds_ok cfg others s k us" and c: "c \<in> set us" "distinct us"
    and fd: "\<And>i. i \<noteq> c \<Longrightarrow> c_fd (conn s' i) = c_fd (conn s i)" and l: "listener s' = listener s" "efd s' = efd s"
  shows "fds_ok cfg others s' (k\<lparr>open_fds := removeAll (c_fd (conn s c)) (open_fds k)\<rparr>) (remove1 c us)"
    and "c_fd (conn s c) \<in> set (open_fds k)"
proof -
  from c obtain as bs where us: "us = as @ c # bs" by (meson split_list)
  with c(2) have rm: "remove1 c us = as @ bs" "c \<notin> set as" "c \<notin> set bs" by (auto simp: remove1_append)
  then have fd': "i \<in> set as \<union> set bs \<Longrightarrow> c_fd (conn s' i) = c_fd (conn s i)" for i by (intro fd) auto
  then have m: "map (c_fd \<circ> conn s') (as @ bs) = map (c_fd \<circ> conn s) (as @ bs)" by (intro map_cong refl) auto
  have lf: "listen_fds cfg s' = listen_fds cfg s" by (simp add: listen_fds_def l)
  show "c_fd (conn s c) \<in> set (open_fds k)" using ok c by (auto simp: fds_ok_def conn_fds_def)
  have "conn_fds s' (remove1 c us) = conn_fds s as @ conn_fds s bs" using m rm by (simp add: conn_fds_def)
  moreover have "conn_fds s us = conn_fds s as @ c_fd (conn s c) # conn_fds s bs" by (simp add: conn_fds_def us)
  ultimately show "fds_ok cfg others s' (k\<lparr>open_fds := removeAll (c_fd (conn s c)) (open_fds k)\<rparr>) (remove1 c us)"
    using ok rm fd' us l by (auto simp: fds_ok_def lf)
qed

text \<open>
  The kernel does not fail for the clients that wait: \<^verbatim>\<open>accept\<close> gives no error but \<^verbatim>\<open>EAGAIN\<close>, the
  descriptor can be made non-blocking and registered.
\<close>

definition kernel_calm :: "kernel \<Rightarrow> bool" where
  "kernel_calm k \<longleftrightarrow> (\<forall>fd. \<forall>p \<in> set (backlog k fd). p = Pending True True)"

lemma fds_ok_add:
  assumes ok: "fds_ok cfg others s k us" and c: "c \<notin> set us" and n: "n \<notin> set (open_fds k)" "0 \<le> n"
    and fd: "\<And>i. c_fd (conn s' i) = (if i = c then n else c_fd (conn s i))" and l: "listener s' = listener s" "efd s' = efd s"
    and k: "open_fds k' = n # open_fds k"
  shows "fds_ok cfg others s' k' (us @ [c])"
proof -
  have "map (c_fd \<circ> conn s') us = map (c_fd \<circ> conn s) us" using fd c by (intro map_cong refl) auto
  then have "conn_fds s' (us @ [c]) = conn_fds s us @ [n]" by (simp add: conn_fds_def fd)
  moreover have "listen_fds cfg s' = listen_fds cfg s" by (simp add: listen_fds_def l)
  ultimately show ?thesis using ok n k l fd c by (auto simp: fds_ok_def)
qed

lemma accept_again:
  assumes inv: "sv_inv_at cfg G others w us (c # fs) (l # ws)" and empty: "backlog (kern w) (l_fd (listener (srv w) l)) = []"
  shows "\<exists>w'. poServer_accept cfg w = Some (False, w') \<and> sv_inv_at cfg G others w' us (c # fs) ws
     \<and> kern w' = kern w \<and> conn (srv w') = conn (srv w) \<and> same_listeners (listener (srv w)) (listener (srv w'))
     \<and> shell (srv w') = shell (srv w)"
proof -
  from inv have rep: "conn_rep cfg (srv w) us (c # fs)" and F: "fds_ok cfg others (srv w) (kern w) us"
    and wq: "wq_rep (NUM_LISTENERS cfg) (waitingq (srv w), listener (srv w)) (l # ws)"
    and lws: "0 \<le> l_fd (listener (srv w) l)"
    by (auto simp: sv_inv_at_def)
  from queuePull_spec [OF wq] obtain q ls where
    Q: "queuePull (waitingq (srv w), listener (srv w)) = Some (q, ls)" "wq_rep (NUM_LISTENERS cfg) (q, ls) ws"
       "same_listeners (listener (srv w)) ls" by blast
  have front: "wq_first (waitingq (srv w)) = Some l" using wq by (auto simp: wq_rep_def dest: slq_Cons_first)
  have bk: "cq_back (unusedq (srv w)) \<noteq> None" using rep by (auto simp: conn_rep_def slq_def)
  define w' where "w' = w\<lparr>srv := (srv w)\<lparr>waitingq := q, listener := ls\<rparr>\<rparr>"
  have "poServer_accept cfg w = Some (False, w')"
    using front bk lws empty Q(1) rep conn_rep_length [OF rep]
    by (simp add: poServer_accept_def k_accept_def w'_def conn_rep_def)
  moreover have "listen_fds cfg (srv w') = listen_fds cfg (srv w)"
    using Q(3) by (simp add: listen_fds_def w'_def same_listeners_def comp_def)
  then have "fds_ok cfg others (srv w') (kern w') us" using F by (simp add: fds_ok_def w'_def conn_fds_def)
  ultimately show ?thesis
    using inv Q by (intro exI [of _ w']) (auto simp: sv_inv_at_def w'_def conn_rep_def same_listeners_def shell_def)
qed

lemma accept_new:
  assumes inv: "sv_inv_at cfg G others w us (c # fs) (l # ws)"
    and p: "backlog (kern w) (l_fd (listener (srv w) l)) = Pending True True # ps"
  shows "\<exists>w'. poServer_accept cfg w = Some (False, w') \<and> sv_inv_at cfg G others w' (us @ [c]) fs (l # ws)
     \<and> backlog (kern w') = (backlog (kern w))(l_fd (listener (srv w) l) := ps) \<and> clock (kern w') = clock (kern w)
     \<and> listener (srv w') = listener (srv w) \<and> shell (srv w') = shell (srv w) \<and> acceptTime (conn (srv w') c) = clock (kern w)
     \<and> readCallback (conn (srv w') c) = callback (listener (srv w) l)
     \<and> changeCount (conn (srv w') c) = changeCount (conn (srv w) c)
     \<and> (\<forall>i. i \<noteq> c \<longrightarrow> body (conn (srv w') i) = body (conn (srv w) i)) \<and> usr w' = usr w"
proof -
  from inv have ok: "sv_config_ok cfg" and rep: "conn_rep cfg (srv w) us (c # fs)" and F: "fds_ok cfg others (srv w) (kern w) us"
    and clear: "\<And>i. i \<in> set (c # fs) \<Longrightarrow> conn_clear (conn (srv w) i)"
    and wq: "wq_rep (NUM_LISTENERS cfg) (waitingq (srv w), listener (srv w)) (l # ws)"
    and cl: "\<And>i. i \<in> set us \<Longrightarrow> set_option (cleanupCallback (conn (srv w) i)) \<subseteq> G"
    and lws: "\<And>i. i \<in> set (l # ws) \<Longrightarrow> 0 \<le> l_fd (listener (srv w) i)"
    and srt: "sorted (map (acceptTime \<circ> conn (srv w)) us)" "\<And>i. i \<in> set us \<Longrightarrow> acceptTime (conn (srv w) i) \<le> clock (kern w)"
    by (auto simp: sv_inv_at_def)
  have mem: "c \<notin> set us" "c \<notin> set fs" using conn_rep_mem [OF rep] by auto
  from listAddNew_spec [OF rep ok] obtain s1 where
    L: "listAddNew cfg (srv w) = Some (c, s1)" "conn_rep cfg s1 (us @ [c]) fs"
       "\<And>i. body (conn s1 i) = body (conn (srv w) i)" "s1 = (srv w)\<lparr>used := used s1, unusedq := unusedq s1, conn := conn s1\<rparr>"
    by blast
  note B = body_fields [OF L(3)]
  have s1: "listener s1 = listener (srv w)" "waitingq s1 = waitingq (srv w)" "efd s1 = efd (srv w)" "shell s1 = shell (srv w)"
    unfolding shell_def by (subst L(4), simp)+
  define n where "n = new_fd (open_fds (kern w))"
  define k where "k = (kern w)\<lparr>backlog := (backlog (kern w))(l_fd (listener (srv w) l) := ps), open_fds := n # open_fds (kern w)\<rparr>"
  define x where "x = (conn s1 c)\<lparr>c_fd := n, readCallback := callback (listener (srv w) l), readData := l_data (listener (srv w) l),
     acceptTime := clock (kern w)\<rparr>"
  define w' where "w' = w\<lparr>srv := s1\<lparr>conn := (conn s1)(c := x)\<rparr>, kern := k\<rparr>"
  note n = new_fd [of "open_fds (kern w)", folded n_def]
  have front: "wq_first (waitingq (srv w)) = Some l" using wq by (auto simp: wq_rep_def dest: slq_Cons_first)
  have bk: "cq_back (unusedq (srv w)) \<noteq> None" using rep by (auto simp: conn_rep_def slq_def)
  have "unat (cl_num (used (srv w))) < MAX_CONNECTIONS cfg" using rep conn_rep_length [OF rep] by (simp add: conn_rep_def)
  then have "poServer_accept cfg w = Some (False, w')"
    using front bk lws p n L(1) s1
    by (simp add: poServer_accept_def k_accept_def addConnection_def setNonblocking_def set_conn_def upd_def
        w'_def k_def x_def n_def [symmetric] Let_def)
  moreover have R: "conn_rep cfg (srv w') (us @ [c]) fs"
    by (rule conn_rep_upd [OF L(2)]) (auto simp: w'_def x_def)
  moreover have FD: "fds_ok cfg others (srv w') (kern w') (us @ [c])"
    by (rule fds_ok_add [OF F mem(1) n]) (use B s1 in \<open>auto simp: w'_def x_def k_def\<close>)
  moreover have bd: "i \<noteq> c \<Longrightarrow> body (conn (srv w') i) = body (conn (srv w) i)" for i using L(3) by (simp add: w'_def)
  note bf = body_fields [OF bd]
  have at: "acceptTime (conn (srv w') i) = acceptTime (conn (srv w) i)" if "i \<in> set us" for i
    using mem(1) that by (intro bf(4)) auto
  have "sorted (map (acceptTime \<circ> conn (srv w')) us)"
    by (rule sorted_map_cong [OF srt(1)]) (simp add: at)
  moreover have "acceptTime (conn (srv w') c) = clock (kern w)" by (simp add: w'_def x_def)
  ultimately have S: "sorted (map (acceptTime \<circ> conn (srv w')) (us @ [c]))"
    using srt(2) at by (simp add: sorted_append)
  have old: "set_option (cleanupCallback (conn (srv w') i)) \<subseteq> G \<and> acceptTime (conn (srv w') i) \<le> clock (kern w')"
    if "i \<in> set (us @ [c])" for i
    using that mem(1) cl [of i] srt(2) [of i] bf(4,7) [of i] clear [of c] B(7) [of c]
    by (cases "i = c") (auto simp: w'_def k_def x_def conn_clear_def)
  have C: "conn_clear (conn (srv w') i)" if "i \<in> set fs" for i
    using clear [of i] that mem(2) bf [of i] by (cases "i = c") (auto simp: conn_clear_def)
  have "sv_inv_at cfg G others w' (us @ [c]) fs (l # ws)"
    unfolding sv_inv_at_def using ok R FD S C old wq lws s1 by (simp add: w'_def)
  then show ?thesis
    using \<open>poServer_accept cfg w = Some (False, w')\<close> bd B s1 by (auto simp: w'_def k_def x_def shell_def)
qed

text \<open>Changing a used connection, but not its links, descriptor and time.\<close>

lemma sv_inv_at_conn:
  assumes inv: "sv_inv_at cfg G others w us fs ws" and c: "c \<in> set us"
    and w': "srv w' = (srv w)\<lparr>conn := (conn (srv w))(c := x)\<rparr>" "kern w' = kern w"
    and X: "c_fd x = c_fd (conn (srv w) c)" "acceptTime x = acceptTime (conn (srv w) c)"
      "c_next x = c_next (conn (srv w) c)" "c_prev x = c_prev (conn (srv w) c)"
    and cl: "set_option (cleanupCallback x) \<subseteq> G"
  shows "sv_inv_at cfg G others w' us fs ws"
proof -
  from inv have rep: "conn_rep cfg (srv w) us fs" and F: "fds_ok cfg others (srv w) (kern w) us"
    and srt: "sorted (map (acceptTime \<circ> conn (srv w)) us)"
    by (auto simp: sv_inv_at_def)
  have "conn_rep cfg (srv w') us fs"
    by (rule conn_rep_upd [OF rep]) (use X w' in auto)
  moreover have fd: "c_fd (conn (srv w') i) = c_fd (conn (srv w) i)" "acceptTime (conn (srv w') i) = acceptTime (conn (srv w) i)" for i
    using X w' by auto
  have "fds_ok cfg others (srv w') (kern w') us"
    using F fd w' by (simp add: fds_ok_def conn_fds_def listen_fds_def comp_def)
  moreover have "sorted (map (acceptTime \<circ> conn (srv w')) us)"
    by (rule sorted_map_cong [OF srt]) (simp add: fd)
  moreover have "c \<notin> set fs" using conn_rep_mem [OF rep] c by auto
  ultimately show ?thesis
    using inv w' cl fd by (auto simp: sv_inv_at_def)
qed

text \<open>\<open>touched G c w w'\<close>: nothing but what callbacks may change of connection c is different.\<close>

definition touched :: "nat set \<Rightarrow> nat \<Rightarrow> 'u world \<Rightarrow> 'u world \<Rightarrow> bool" where
  "touched G c w w' \<longleftrightarrow> kern w' = kern w \<and> (\<exists>x. srv w' = (srv w)\<lparr>conn := (conn (srv w))(c := x)\<rparr>
     \<and> owned x = owned (conn (srv w) c) \<and> set_option (cleanupCallback x) \<subseteq> G)"

lemma touched_set:
  assumes "touched G c w w1" and "\<And>x. owned (f x) = owned x" "\<And>x. cleanupCallback (f x) = cleanupCallback x"
  shows "touched G c w (set_conn c f w1)"
  using assms by (fastforce simp: touched_def set_conn_def upd_def)

lemma owned_upd [simp]:
  "owned (x\<lparr>readCallback := a\<rparr>) = owned x" "owned (x\<lparr>writeCallback := a\<rparr>) = owned x"
  "owned (x\<lparr>readReady := b\<rparr>) = owned x" "owned (x\<lparr>writeReady := b\<rparr>) = owned x"
  by (simp_all add: owned_def)

lemma touched_inv:
  assumes inv: "sv_inv_at cfg G others w us fs ws" and c: "c \<in> set us" and t: "touched G c w w'"
  shows "sv_inv_at cfg G others w' us fs ws"
proof -
  from t obtain x where x: "srv w' = (srv w)\<lparr>conn := (conn (srv w))(c := x)\<rparr>" "kern w' = kern w"
    "owned x = owned (conn (srv w) c)" "set_option (cleanupCallback x) \<subseteq> G"
    by (auto simp: touched_def)
  note X = owned_fields [OF x(3)]
  show ?thesis by (rule sv_inv_at_conn [OF inv c x(1,2) X(3,4,5,6) x(4)])
qed

lemma touched_shell: "touched G c w w' \<Longrightarrow> shell (srv w') = shell (srv w) \<and> listener (srv w') = listener (srv w)"
  by (auto simp: touched_def shell_def)

locale server_cb =
  fixes cb :: "'u ucb" and G :: "nat set"
  assumes cb_owned: "cb k d x u = (rt, x', u') \<Longrightarrow> owned x' = owned x"
    and cb_cleanup: "cb k d x u = (rt, x', u') \<Longrightarrow> set_option (cleanupCallback x) \<subseteq> G \<Longrightarrow>
      set_option (cleanupCallback x') \<subseteq> G"
    and cleanup_zero: "k \<in> G \<Longrightarrow> cb k d x u = (rt, x', u') \<Longrightarrow> rt = 0"
begin

lemma call_cb_frame:
  assumes "call_cb cb k d c w = (rt, w')"
  shows "\<exists>x. srv w' = (srv w)\<lparr>conn := (conn (srv w))(c := x)\<rparr> \<and> kern w' = kern w \<and> owned x = owned (conn (srv w) c)
    \<and> (set_option (cleanupCallback (conn (srv w) c)) \<subseteq> G \<longrightarrow> set_option (cleanupCallback x) \<subseteq> G)
    \<and> (k \<in> G \<longrightarrow> rt = 0)"
proof (cases "cb k d (conn (srv w) c) (usr w)")
  case (fields r x u)
  with assms cb_owned [OF fields] cb_cleanup [OF fields] cleanup_zero [OF _ fields] show ?thesis
    by (auto simp: call_cb_def set_conn_def upd_def)
qed

lemma removeConnection_inv:
  assumes inv: "sv_inv_at cfg G others w us fs ws" and c: "c \<in> set us"
  shows "\<exists>w'. removeConnection cfg cb c w = Some w' \<and> sv_inv_at cfg G others w' (remove1 c us) (fs @ [c]) ws
     \<and> kern w' = (kern w)\<lparr>open_fds := removeAll (c_fd (conn (srv w) c)) (open_fds (kern w))\<rparr>
     \<and> listener (srv w') = listener (srv w) \<and> shell (srv w') = shell (srv w)
     \<and> (\<forall>i. i \<noteq> c \<longrightarrow> body (conn (srv w') i) = body (conn (srv w) i))
     \<and> changeCount (conn (srv w') c) = changeCount (conn (srv w) c) + 1"
proof -
  from inv have ok: "sv_config_ok cfg" and rep: "conn_rep cfg (srv w) us fs" and F: "fds_ok cfg others (srv w) (kern w) us"
    and clear: "\<And>i. i \<in> set fs \<Longrightarrow> conn_clear (conn (srv w) i)"
    and wq: "wq_rep (NUM_LISTENERS cfg) (waitingq (srv w), listener (srv w)) ws"
    and cl: "\<And>i. i \<in> set us \<Longrightarrow> set_option (cleanupCallback (conn (srv w) i)) \<subseteq> G"
    and lws: "\<And>l. l \<in> set ws \<Longrightarrow> 0 \<le> l_fd (listener (srv w) l)"
    and srt: "sorted (map (acceptTime \<circ> conn (srv w)) us)" "\<And>i. i \<in> set us \<Longrightarrow> acceptTime (conn (srv w) i) \<le> clock (kern w)"
    by (auto simp: sv_inv_at_def)
  note mem = conn_rep_mem [OF rep]
  from listRemove_spec [OF rep ok c] obtain s1 where
    L: "listRemove cfg c (srv w) = Some s1" "conn_rep cfg s1 (remove1 c us) (fs @ [c])"
       "\<And>i. body (conn s1 i) = body (conn (srv w) i)"
       "s1 = (srv w)\<lparr>used := used s1, unusedq := unusedq s1, conn := conn s1\<rparr>"
    by blast
  note B = body_fields [OF L(3)]
  obtain x w2 where W2: "(case cleanupCallback (conn s1 c) of
         None \<Rightarrow> Some (w\<lparr>srv := s1\<rparr>)
       | Some k \<Rightarrow> (let (rt, w) = call_cb cb k (cleanupData (conn s1 c)) c (w\<lparr>srv := s1\<rparr>)
                   in do { ASSERT (rt = 0); Some w })) = Some w2"
     "srv w2 = s1\<lparr>conn := (conn s1)(c := x)\<rparr>" "kern w2 = kern w" "owned x = owned (conn s1 c)"
  proof (cases "cleanupCallback (conn s1 c)")
    case None
    then show thesis by (intro that [of "w\<lparr>srv := s1\<rparr>" "conn s1 c"]) simp_all
  next
    case (Some k)
    then have "k \<in> G" using cl [OF c] B by auto
    obtain rt w2 where "call_cb cb k (cleanupData (conn s1 c)) c (w\<lparr>srv := s1\<rparr>) = (rt, w2)" by fastforce
    with call_cb_frame [OF this] Some \<open>k \<in> G\<close> that show thesis by auto
  qed
  define y where "y = x\<lparr>changeCount := changeCount x + 1, markedForRemoval := False, cleanupCallback := None,
     readCallback := None, writeCallback := None, readReady := False, writeReady := False, c_fd := -1\<rparr>"
  define k' where "k' = (kern w)\<lparr>open_fds := removeAll (c_fd (conn (srv w) c)) (open_fds (kern w))\<rparr>"
  define w' where "w' = w2\<lparr>srv := s1\<lparr>conn := (conn s1)(c := y)\<rparr>, kern := k'\<rparr>"
  note X = owned_fields [OF W2(4)]
  have fdc: "c_fd x = c_fd (conn (srv w) c)" using X B by simp
  have "0 \<le> c_fd (conn (srv w) c)" "unat (cl_num (used (srv w))) \<le> MAX_CONNECTIONS cfg"
    using F c rep conn_rep_length [OF rep] by (auto simp: fds_ok_def conn_rep_def)
  moreover have "c_fd (conn (srv w) c) \<in> set (open_fds (kern w))"
    using fds_ok_remove(2) [OF F c, of "srv w"] mem by auto
  ultimately have "removeConnection cfg cb c w = Some w'"
    using L(1) W2 fdc by (simp add: removeConnection_def close_fd_def set_conn_def upd_def w'_def k'_def y_def)
  moreover have "conn_rep cfg (srv w') (remove1 c us) (fs @ [c])"
    by (rule conn_rep_upd [OF L(2)]) (use X in \<open>auto simp: w'_def y_def\<close>)
  moreover have lst: "listener (srv w') = listener (srv w)" "waitingq (srv w') = waitingq (srv w)" "efd (srv w') = efd (srv w)"
    "shell (srv w') = shell (srv w)"
    by (simp_all add: w'_def shell_def) (subst L(4), simp)+
  moreover have bd: "body (conn (srv w') i) = body (conn (srv w) i)" if "i \<noteq> c" for i
    using L(3) that by (simp add: w'_def)
  note bf = body_fields [OF bd]
  moreover have "fds_ok cfg others (srv w') (kern w') (remove1 c us)"
    using fds_ok_remove(1) [OF F c _ bf(3)] mem lst by (simp add: w'_def k'_def)
  moreover have us': "i \<in> set (remove1 c us) \<Longrightarrow> i \<in> set us \<and> i \<noteq> c" for i
    using mem c by (auto dest: notin_set_remove1)
  have "sorted (map (acceptTime \<circ> conn (srv w')) (remove1 c us))"
  proof (rule sorted_map_cong [OF sorted_remove1_map [OF srt(1)]])
    fix i assume "i \<in> set (remove1 c us)"
    then have "i \<noteq> c" using us' by blast
    then show "(acceptTime \<circ> conn (srv w')) i = (acceptTime \<circ> conn (srv w)) i" using bf(4) by simp
  qed
  moreover have "conn_clear (conn (srv w') i)" if "i \<in> set (fs @ [c])" for i
    using clear [of i] that bf [of i] mem c by (cases "i = c") (auto simp: conn_clear_def w'_def y_def)
  moreover have us2: "set_option (cleanupCallback (conn (srv w') i)) \<subseteq> G \<and> acceptTime (conn (srv w') i) \<le> clock (kern w')"
    if "i \<in> set (remove1 c us)" for i
    using us' [OF that] cl srt(2) bf(4,7) by (simp add: w'_def k'_def)
  ultimately have "sv_inv_at cfg G others w' (remove1 c us) (fs @ [c]) ws"
    unfolding sv_inv_at_def using ok wq cl lws srt(2) us2 by (simp add: w'_def k'_def)
  then show ?thesis
    using \<open>removeConnection cfg cb c w = Some w'\<close> bd lst X(1) B(1) by (auto simp: w'_def k'_def y_def)
qed

lemma touched_refl:
  assumes "set_option (cleanupCallback (conn (srv w) c)) \<subseteq> G"
  shows "touched G c w w"
  using assms by (auto simp: touched_def intro!: exI [of _ "conn (srv w) c"])

lemma call_cb_touched:
  assumes "touched G c w w1" and "call_cb cb k d c w1 = (rt, w2)"
  shows "touched G c w w2"
  using call_cb_frame [OF assms(2)] assms(1) by (auto simp: touched_def)

lemma service_touched:
  assumes fd: "0 \<le> c_fd (conn (srv w) c)" and cl: "set_option (cleanupCallback (conn (srv w) c)) \<subseteq> G"
  shows "\<exists>rm w'. service cb c w = Some (rm, w') \<and> touched G c w w'"
proof -
  have R: "touched G c w (snd (service_read cb c w1))" if "touched G c w w1" for w1
    using that call_cb_touched [OF that]
    by (auto simp: service_read_def Let_def touched_set split: option.splits prod.splits)
  have W: "touched G c w (snd (service_write cb c w1))" if "touched G c w w1" for w1
    using that call_cb_touched [OF that]
    by (auto simp: service_write_def Let_def touched_set split: option.splits prod.splits)
  show ?thesis
    using W [OF R [OF touched_refl [OF cl]]] fd by (auto simp: service_def split: prod.splits)
qed

end

end
