(* ===== verification/ServerSeq.thy ===== *)
theory ServerSeq
  imports Server
begin

text \<open>
  The server of src/potato_old/server.c built without a thread pool (\<^verbatim>\<open>PO_SERVER_NO_THREADPOOL\<close>): the
  event loop, shutting down and destroying. Waiting in \<^verbatim>\<open>epoll_wait\<close> is an argument, the answer of the
  kernel and what happened meanwhile. Shown: from a good state the loops return, no assertion fails,
  every connection struct is in exactly one list and every descriptor is closed once; and where that
  needs an assumption on the events, what happens without it.
\<close>

subsection \<open>The event loop\<close>

definition ServiceConnection :: "sv_config \<Rightarrow> 'u ucb \<Rightarrow> nat \<Rightarrow> 'u world \<Rightarrow> 'u world option" where
  "ServiceConnection cfg cb c w = do {
     (removeMe, w) \<leftarrow> service cb c w;
     (if removeMe then removeConnection cfg cb c w else Some w)
   }"

definition older :: "int \<Rightarrow> real \<Rightarrow> nat \<Rightarrow> 'u world \<Rightarrow> bool" where
  "older ms t c w \<longleftrightarrow> t - acceptTime (conn (srv w) c) \<ge> of_int ms / 1000"

text \<open>The three loops. A loop that does not end is \<open>None\<close>.\<close>

partial_function (option) remove_old :: "sv_config \<Rightarrow> 'u ucb \<Rightarrow> real \<Rightarrow> 'u world \<Rightarrow> 'u world option" where
  "remove_old cfg cb t w = (case cl_first (used (srv w)) of
       None \<Rightarrow> Some w
     | Some c \<Rightarrow> if older (LONG_TIMEOUT cfg) t c w then do {
           ASSERT (cl_num (used (srv w)) > 0);
           r \<leftarrow> checkTryRemoveConnection cfg cb False c w;
           remove_old cfg cb t (snd r) }
         else Some w)"

partial_function (option) accept_waiting :: "sv_config \<Rightarrow> 'u world \<Rightarrow> 'u world option" where
  "accept_waiting cfg w =
     (if wq_first (waitingq (srv w)) \<noteq> None \<and> cq_back (unusedq (srv w)) \<noteq> None
      then do { r \<leftarrow> poServer_accept cfg w; accept_waiting cfg (snd r) }
      else Some w)"

partial_function (option) timed_out_loop :: "sv_config \<Rightarrow> 'u ucb \<Rightarrow> real \<Rightarrow> 'u world \<Rightarrow> 'u world option" where
  "timed_out_loop cfg cb t w = (case cl_first (used (srv w)) of
       None \<Rightarrow> Some w
     | Some c \<Rightarrow> if wq_first (waitingq (srv w)) \<noteq> None \<and> older (WAIT_TIMEOUT cfg) t c w then do {
           r \<leftarrow> checkTryRemoveConnection cfg cb False c w;
           (if fst r then do { r \<leftarrow> poServer_accept cfg (snd r); timed_out_loop cfg cb t (snd r) }
            else Some (snd r)) }
         else Some w)"

definition lookForAcceptFromTimedOutConns :: "sv_config \<Rightarrow> 'u ucb \<Rightarrow> real \<Rightarrow> 'u world \<Rightarrow> 'u world option" where
  "lookForAcceptFromTimedOutConns cfg cb t w =
     (if WAIT_TIMEOUT cfg \<noteq> -1 \<and> wq_first (waitingq (srv w)) \<noteq> None \<and> cl_first (used (srv w)) \<noteq> None then do {
        ASSERT (unat (cl_num (used (srv w))) = MAX_CONNECTIONS cfg);
        timed_out_loop cfg cb t w
      } else Some w)"

text \<open>
  \<^verbatim>\<open>ev->data.ptr\<close> points to a listener or to a connection; told apart in the code by the order of both
  arrays in the struct.
\<close>

datatype ev_data = EvListener nat | EvConn nat

record epoll_event =
  ev_ptr :: ev_data
  EPOLLIN :: bool
  EPOLLOUT :: bool
  EPOLLRDHUP :: bool
  EPOLLERR :: bool

definition listen_event :: "sv_config \<Rightarrow> 'u ucb \<Rightarrow> nat \<Rightarrow> 'u world \<Rightarrow> 'u world option" where
  "listen_event cfg cb l w =
     (if \<not> isRunning (srv w) \<and> l_fd (listener (srv w) l) = -1 then Some w
      else do {
        ASSERT (0 \<le> l_fd (listener (srv w) l));
        (q, ls) \<leftarrow> queuePush l (waitingq (srv w), listener (srv w));
        let w = w\<lparr>srv := (srv w)\<lparr>waitingq := q, listener := ls\<rparr>\<rparr>;
        (if cq_back (unusedq (srv w)) \<noteq> None then map_option snd (poServer_accept cfg w)
         else lookForAcceptFromTimedOutConns cfg cb (clock (kern w)) w)
      })"

definition conn_ready :: "epoll_event \<Rightarrow> nat \<Rightarrow> 'u world \<Rightarrow> 'u world" where
  "conn_ready ev c w = set_conn c (\<lambda>x. x\<lparr>readReady := EPOLLIN ev \<or> readReady x, writeReady := EPOLLOUT ev \<or> writeReady x\<rparr>) w"

definition call_it :: "POServer_connection \<Rightarrow> bool" where
  "call_it x \<longleftrightarrow> readReady x \<and> readCallback x \<noteq> None \<or> writeReady x \<and> writeCallback x \<noteq> None"

definition conn_event :: "sv_config \<Rightarrow> 'u ucb \<Rightarrow> epoll_event \<Rightarrow> nat \<Rightarrow> 'u world \<Rightarrow> 'u world option" where
  "conn_event cfg cb ev c w =
     (if readCallback (conn (srv w) c) = None \<and> writeCallback (conn (srv w) c) = None
      then map_option snd (checkTryRemoveConnection cfg cb False c w)
      else do {
        w \<leftarrow> (if EPOLLIN ev \<or> EPOLLOUT ev then
               (let w = conn_ready ev c w in
                if call_it (conn (srv w) c) then ServiceConnection cfg cb c w else Some w)
             else Some w);
        (if c_fd (conn (srv w) c) \<noteq> -1 \<and> (EPOLLRDHUP ev \<or> EPOLLERR ev)
         then map_option snd (checkTryRemoveConnection cfg cb False c w) else Some w)
      })"

definition doEvent :: "sv_config \<Rightarrow> 'u ucb \<Rightarrow> epoll_event \<Rightarrow> 'u world \<Rightarrow> 'u world option" where
  "doEvent cfg cb ev w = (case ev_ptr ev of
       EvListener l \<Rightarrow> do {
         ASSERT (EPOLLIN ev \<and> \<not> EPOLLOUT ev \<and> \<not> EPOLLRDHUP ev \<and> \<not> EPOLLERR ev);
         listen_event cfg cb l w }
     | EvConn c \<Rightarrow> conn_event cfg cb ev c w)"

primrec doEvents :: "sv_config \<Rightarrow> 'u ucb \<Rightarrow> epoll_event list \<Rightarrow> 'u world \<Rightarrow> 'u world option" where
  "doEvents cfg cb [] w = Some w"
| "doEvents cfg cb (ev # evs) w = do { w \<leftarrow> doEvent cfg cb ev w; doEvents cfg cb evs w }"

text \<open>What the server does before it waits in \<^verbatim>\<open>epoll_wait\<close>.\<close>

definition ready_for_events :: "sv_config \<Rightarrow> 'u ucb \<Rightarrow> 'u world \<Rightarrow> 'u world option" where
  "ready_for_events cfg cb w = do {
     let t = clock (kern w);
     w \<leftarrow> (if LONG_TIMEOUT cfg \<noteq> -1 then remove_old cfg cb t w else Some w);
     w \<leftarrow> accept_waiting cfg w;
     lookForAcceptFromTimedOutConns cfg cb t w
   }"

text \<open>What \<^verbatim>\<open>epoll_wait\<close> returns, the time it took and the clients that came meanwhile.\<close>

datatype wait_answer = WaitTimeout | WaitInterrupted | WaitFailed | WaitEvents "epoll_event list"

record wake =
  answer :: wait_answer
  elapsed :: real
  arrivals :: "(int \<times> pending) list"

definition epoll_wait :: "wake \<Rightarrow> kernel \<Rightarrow> kernel" where
  "epoll_wait wk k = k\<lparr>clock := clock k + elapsed wk,
     backlog := (\<lambda>fd. backlog k fd @ map snd (filter (\<lambda>(f, p). f = fd) (arrivals wk)))\<rparr>"

definition poServer_doNextEvent :: "sv_config \<Rightarrow> 'u ucb \<Rightarrow> wake \<Rightarrow> 'u world \<Rightarrow> 'u world option" where
  "poServer_doNextEvent cfg cb wk w = do {
     w \<leftarrow> ready_for_events cfg cb w;
     let w = w\<lparr>kern := epoll_wait wk (kern w)\<rparr>;
     (case answer wk of
        WaitTimeout \<Rightarrow> Some w
      | WaitInterrupted \<Rightarrow> Some w
      | WaitFailed \<Rightarrow> None
      | WaitEvents evs \<Rightarrow> doEvents cfg cb evs w)
   }"

definition poServer_doNextEvents :: "sv_config \<Rightarrow> 'u ucb \<Rightarrow> wake \<Rightarrow> 'u world \<Rightarrow> 'u world option" where
  "poServer_doNextEvents cfg cb wk w = do {
     ASSERT (0 \<le> efd (srv w));
     ASSERT (unat (numListeners (srv w)) = NUM_LISTENERS cfg);
     poServer_doNextEvent cfg cb wk w
   }"

subsection \<open>Shutting down and destroying\<close>

text \<open>A \<^verbatim>\<open>close\<close> whose answer is ignored.\<close>

definition close_any :: "int \<Rightarrow> kernel \<Rightarrow> kernel" where
  "close_any fd k = k\<lparr>open_fds := removeAll fd (open_fds k)\<rparr>"

primrec close_listeners :: "nat list \<Rightarrow> POServer \<times> kernel \<Rightarrow> POServer \<times> kernel" where
  "close_listeners [] sk = sk"
| "close_listeners (i # is) sk = (let (s, k) = sk in close_listeners is
     (if 0 \<le> l_fd (listener s i)
      then (s\<lparr>listener := upd (listener s) i (\<lambda>l. l\<lparr>l_fd := -1\<rparr>), numListeners := numListeners s - 1\<rparr>,
            close_any (l_fd (listener s i)) k)
      else (s, k)))"

partial_function (option) pull_all :: "wqueue \<Rightarrow> wqueue option" where
  "pull_all q = (if wq_first (fst q) \<noteq> None then do { q \<leftarrow> queuePull q; pull_all q } else Some q)"

text \<open>
  \<open>wks\<close> is what the kernel answers to the calls of \<^verbatim>\<open>epoll_wait\<close>. The result tells whether the loop has
  ended; if not, it waits for more events.
\<close>

primrec drain :: "sv_config \<Rightarrow> 'u ucb \<Rightarrow> wake list \<Rightarrow> 'u world \<Rightarrow> (bool \<times> 'u world) option" where
  "drain cfg cb [] w = Some (cl_first (used (srv w)) = None, w)"
| "drain cfg cb (wk # wks) w = (if cl_first (used (srv w)) = None then Some (True, w)
     else do { w \<leftarrow> poServer_doNextEvent cfg cb wk w; drain cfg cb wks w })"

text \<open>The first half of \<^verbatim>\<open>poServer_shutdown\<close>; only the thread of the event loop touches the listeners.\<close>

definition shut_listeners :: "sv_config \<Rightarrow> 'u world \<Rightarrow> 'u world option" where
  "shut_listeners cfg w = do {
     ASSERT (0 \<le> efd (srv w));
     ASSERT (unat (numListeners (srv w)) = NUM_LISTENERS cfg);
     let s = (srv w)\<lparr>listenersDown := True\<rparr>;
     let (s, k) = close_listeners [0..<NUM_LISTENERS cfg] (s, kern w);
     (q, ls) \<leftarrow> pull_all (waitingq s, listener s);
     let w = w\<lparr>srv := s\<lparr>waitingq := q, listener := ls\<rparr>, kern := k\<rparr>;
     ASSERT (numListeners (srv w) = 0);
     Some w
   }"

definition poServer_shutdown :: "sv_config \<Rightarrow> 'u ucb \<Rightarrow> wake list \<Rightarrow> 'u world \<Rightarrow> (bool \<times> 'u world) option" where
  "poServer_shutdown cfg cb wks w = do { w \<leftarrow> shut_listeners cfg w; drain cfg cb wks w }"

text \<open>The object that \<^verbatim>\<open>poServer_destroy\<close> leaves is not used any more; it is not overwritten here.\<close>

primrec close_quietly :: "nat list \<Rightarrow> POServer \<Rightarrow> kernel \<Rightarrow> kernel" where
  "close_quietly [] s k = k"
| "close_quietly (i # is) s k = close_quietly is s
     (if 0 \<le> l_fd (listener s i) then close_any (l_fd (listener s i)) k else k)"

partial_function (option) remove_all :: "sv_config \<Rightarrow> 'u ucb \<Rightarrow> 'u world \<Rightarrow> 'u world option" where
  "remove_all cfg cb w = (case cl_first (used (srv w)) of
       None \<Rightarrow> Some w
     | Some c \<Rightarrow> do { w \<leftarrow> removeConnection cfg cb c w; remove_all cfg cb w })"

primrec close_checked :: "nat list \<Rightarrow> POServer \<Rightarrow> kernel \<Rightarrow> kernel option" where
  "close_checked [] s k = Some k"
| "close_checked (i # is) s k = do {
     k \<leftarrow> (if 0 \<le> l_fd (listener s i) then close_fd (l_fd (listener s i)) k else Some k);
     close_checked is s k }"

definition poServer_destroy :: "sv_config \<Rightarrow> 'u ucb \<Rightarrow> 'u world \<Rightarrow> 'u world option" where
  "poServer_destroy cfg cb w = do {
     ASSERT (0 \<le> efd (srv w));
     let w = w\<lparr>kern := close_quietly [0..<NUM_LISTENERS cfg] (srv w) (kern w)\<rparr>;
     w \<leftarrow> remove_all cfg cb w;
     ASSERT (cl_num (used (srv w)) = 0);
     k \<leftarrow> close_checked [0..<NUM_LISTENERS cfg] (srv w) (kern w);
     k \<leftarrow> close_fd (efd (srv w)) k;
     Some (w\<lparr>kern := k\<rparr>)
   }"

subsection \<open>The loops return\<close>

text \<open>The clients that wait at the listeners.\<close>

definition pend :: "sv_config \<Rightarrow> 'u world \<Rightarrow> nat" where
  "pend cfg w = (\<Sum>i < NUM_LISTENERS cfg. length (backlog (kern w) (l_fd (listener (srv w) i))))"

lemma pend_pop:
  assumes l: "l < NUM_LISTENERS cfg" and b: "backlog (kern w) (l_fd (listener (srv w) l)) = p # ps"
    and k: "backlog (kern w') = (backlog (kern w))(l_fd (listener (srv w) l) := ps)"
    and s: "\<And>i. l_fd (listener (srv w') i) = l_fd (listener (srv w) i)"
  shows "pend cfg w' < pend cfg w"
  unfolding pend_def
proof (rule sum_strict_mono_ex1)
  show "\<forall>i \<in> {..<NUM_LISTENERS cfg}. length (backlog (kern w') (l_fd (listener (srv w') i)))
      \<le> length (backlog (kern w) (l_fd (listener (srv w) i)))"
    using b by (auto simp: k s)
  show "\<exists>i \<in> {..<NUM_LISTENERS cfg}. length (backlog (kern w') (l_fd (listener (srv w') i)))
      < length (backlog (kern w) (l_fd (listener (srv w) i)))"
    using b l by (intro bexI [of _ l]) (auto simp: k s)
qed simp

text \<open>What every operation of the event loop keeps.\<close>

definition kept :: "'u world \<Rightarrow> 'u world \<Rightarrow> bool" where
  "kept w w' \<longleftrightarrow> shell (srv w') = shell (srv w) \<and> clock (kern w') = clock (kern w)
     \<and> (kernel_calm (kern w) \<longrightarrow> kernel_calm (kern w'))"

lemma kept_refl [simp]: "kept w w"
  by (simp add: kept_def)

lemma kept_trans: "kept w w' \<Longrightarrow> kept w' w'' \<Longrightarrow> kept w w''"
  by (simp add: kept_def)

lemma shell_fds: "shell s' = shell s \<Longrightarrow> l_fd (listener s' i) = l_fd (listener s i)"
  by (auto simp: shell_def fun_eq_iff)

lemma first_used: "conn_rep cfg s us fs \<Longrightarrow> cl_first (used s) = (if us = [] then None else Some (hd us))"
  by (auto simp: conn_rep_def dest: dll_top)

lemma back_unused: "conn_rep cfg s us fs \<Longrightarrow> cq_back (unusedq s) = None \<longleftrightarrow> fs = []"
  by (auto simp: conn_rep_def slq_def)

lemma first_waiting: "wq_rep n (q, ls) ws \<Longrightarrow> wq_first q = (if ws = [] then None else Some (hd ws))"
  by (cases ws) (auto simp: wq_rep_def dest: slq_Cons_first)

lemma kernel_calm_pop:
  assumes "kernel_calm k" and "backlog k fd = p # ps" and "backlog k' = (backlog k)(fd := ps)"
  shows "kernel_calm k'"
  unfolding kernel_calm_def
proof (intro allI ballI)
  fix f q
  assume "q \<in> set (backlog k' f)"
  then have "q \<in> set (backlog k f)" using assms(2,3) by (auto split: if_splits)
  then show "q = Pending True True" using assms(1) by (auto simp: kernel_calm_def)
qed

text \<open>\<^verbatim>\<open>_poServer_accept\<close> in both cases: it uses up a waiting client or a waiting listener.\<close>

lemma accept_inv:
  assumes inv: "sv_inv_at cfg G others w us fs ws" and ne: "fs \<noteq> []" "ws \<noteq> []" and calm: "kernel_calm (kern w)"
  shows "\<exists>w' us' fs' ws'. poServer_accept cfg w = Some (False, w') \<and> sv_inv_at cfg G others w' us' fs' ws' \<and> kept w w'
     \<and> (us' = us \<and> fs' = fs \<and> pend cfg w' = pend cfg w \<and> length ws' < length ws
        \<or> (\<exists>c. us' = us @ [c] \<and> fs = c # fs') \<and> pend cfg w' < pend cfg w \<and> ws' = ws)"
proof -
  from ne obtain c fs0 l ws0 where fs: "fs = c # fs0" and ws: "ws = l # ws0" by (meson neq_Nil_conv)
  have l: "l < NUM_LISTENERS cfg" using inv by (auto simp: sv_inv_at_def wq_rep_def ws)
  show ?thesis
  proof (cases "backlog (kern w) (l_fd (listener (srv w) l))")
    case Nil
    from accept_again [OF inv [unfolded fs ws] Nil] obtain w' where
      A: "poServer_accept cfg w = Some (False, w')" "sv_inv_at cfg G others w' us (c # fs0) ws0" "kern w' = kern w"
         "shell (srv w') = shell (srv w)" by blast
    then have "pend cfg w' = pend cfg w" by (simp add: pend_def shell_fds [OF A(4)])
    with A show ?thesis using ws fs by (intro exI [of _ w'] exI [of _ us] exI [of _ fs] exI [of _ ws0]) (simp add: kept_def)
  next
    case (Cons p ps)
    then have p: "p = Pending True True" using calm by (metis kernel_calm_def list.set_intros(1))
    from accept_new [OF inv [unfolded fs ws] Cons [unfolded p]] obtain w' where
      A: "poServer_accept cfg w = Some (False, w')" "sv_inv_at cfg G others w' (us @ [c]) fs0 (l # ws0)"
         "backlog (kern w') = (backlog (kern w))(l_fd (listener (srv w) l) := ps)" "clock (kern w') = clock (kern w)"
         "shell (srv w') = shell (srv w)" by blast
    have "pend cfg w' < pend cfg w" by (rule pend_pop [OF l Cons A(3)]) (rule shell_fds [OF A(5)])
    moreover have "kernel_calm (kern w')" by (rule kernel_calm_pop [OF calm Cons A(3)])
    ultimately show ?thesis using A ws fs
      by (intro exI [of _ w'] exI [of _ "us @ [c]"] exI [of _ fs0] exI [of _ ws]) (auto simp: kept_def)
  qed
qed

lemma accept_waiting_inv:
  assumes "sv_inv_at cfg G others w us fs ws" and "kernel_calm (kern w)"
  shows "\<exists>w' us' fs' ws'. accept_waiting cfg w = Some w' \<and> sv_inv_at cfg G others w' us' fs' ws' \<and> kept w w'
     \<and> (fs' = [] \<or> ws' = [])"
  using assms
proof (induction "pend cfg w + length ws" arbitrary: w us fs ws rule: less_induct)
  case less
  from less.prems have rep: "conn_rep cfg (srv w) us fs"
    and wq: "wq_rep (NUM_LISTENERS cfg) (waitingq (srv w), listener (srv w)) ws" by (auto simp: sv_inv_at_def)
  show ?case
  proof (cases "fs = [] \<or> ws = []")
    case True
    then show ?thesis using less.prems back_unused [OF rep] first_waiting [OF wq]
      by (subst accept_waiting.simps) auto
  next
    case False
    with accept_inv [OF less.prems(1) _ _ less.prems(2)] obtain w1 us1 fs1 ws1 where
      A: "poServer_accept cfg w = Some (False, w1)" "sv_inv_at cfg G others w1 us1 fs1 ws1" "kept w w1"
      and dec: "pend cfg w1 + length ws1 < pend cfg w + length ws" by fastforce
    have "kernel_calm (kern w1)" using A(3) less.prems(2) by (simp add: kept_def)
    from less.hyps [OF dec A(2) this] obtain w' us' fs' ws' where
      "accept_waiting cfg w1 = Some w'" "sv_inv_at cfg G others w' us' fs' ws'" "kept w1 w'" "fs' = [] \<or> ws' = []"
      by blast
    moreover have "accept_waiting cfg w = accept_waiting cfg w1"
      using False A(1) back_unused [OF rep] first_waiting [OF wq] by (subst accept_waiting.simps) simp
    ultimately show ?thesis using A(3) kept_trans by metis
  qed
qed

subsection \<open>Events\<close>

text \<open>
  A listener can be served: it is open, or the server is going down and it has been closed.
\<close>

definition listeners_ok :: "sv_config \<Rightarrow> POServer \<Rightarrow> bool" where
  "listeners_ok cfg s \<longleftrightarrow> (\<forall>i < NUM_LISTENERS cfg. 0 \<le> l_fd (listener s i) \<or> \<not> isRunning s \<and> l_fd (listener s i) = -1)"

lemma listeners_ok_kept: "kept w w' \<Longrightarrow> listeners_ok cfg (srv w) \<Longrightarrow> listeners_ok cfg (srv w')"
  by (auto simp: listeners_ok_def kept_def shell_def fun_eq_iff)

text \<open>
  Events that fit a server whose used connections include \<open>U\<close>: \<^verbatim>\<open>epoll_wait\<close> reports a connection
  once and only while it is open. With a wait timeout the handling of a listener may close other
  connections, so no event of a connection may come after the one of a listener.
\<close>

fun fresh :: "sv_config \<Rightarrow> nat set \<Rightarrow> epoll_event list \<Rightarrow> bool" where
  "fresh cfg U [] = True"
| "fresh cfg U (ev # evs) = (case ev_ptr ev of
       EvConn c \<Rightarrow> c \<in> U \<and> fresh cfg (U - {c}) evs
     | EvListener l \<Rightarrow> l < NUM_LISTENERS cfg \<and> EPOLLIN ev \<and> \<not> EPOLLOUT ev \<and> \<not> EPOLLRDHUP ev \<and> \<not> EPOLLERR ev
         \<and> fresh cfg (if WAIT_TIMEOUT cfg = -1 then U else {}) evs)"

lemma fresh_mono: "fresh cfg U evs \<Longrightarrow> U \<subseteq> V \<Longrightarrow> fresh cfg V evs"
proof (induction evs arbitrary: U V)
  case (Cons ev evs)
  show ?case
  proof (cases "ev_ptr ev")
    case (EvListener l)
    then show ?thesis using Cons.prems Cons.IH [of "if WAIT_TIMEOUT cfg = -1 then U else {}"] by auto
  next
    case (EvConn c)
    then show ?thesis using Cons.prems Cons.IH [of "U - {c}" "V - {c}"] by auto
  qed
qed simp

context server_cb
begin

lemma remove_kept:
  assumes inv: "sv_inv_at cfg G others w us fs ws" and c: "c \<in> set us"
  shows "\<exists>w'. removeConnection cfg cb c w = Some w' \<and> sv_inv_at cfg G others w' (remove1 c us) (fs @ [c]) ws
     \<and> kept w w' \<and> pend cfg w' = pend cfg w \<and> (\<forall>i. i \<noteq> c \<longrightarrow> body (conn (srv w') i) = body (conn (srv w) i))"
proof -
  from removeConnection_inv [OF inv c] obtain w' where
    "removeConnection cfg cb c w = Some w'" "sv_inv_at cfg G others w' (remove1 c us) (fs @ [c]) ws"
    "kern w' = (kern w)\<lparr>open_fds := removeAll (c_fd (conn (srv w) c)) (open_fds (kern w))\<rparr>"
    "listener (srv w') = listener (srv w)" "shell (srv w') = shell (srv w)"
    "\<forall>i. i \<noteq> c \<longrightarrow> body (conn (srv w') i) = body (conn (srv w) i)" by blast
  then show ?thesis by (auto simp: kept_def pend_def kernel_calm_def)
qed

lemma try_remove_kept:
  assumes inv: "sv_inv_at cfg G others w us fs ws" and c: "c \<in> set us"
  shows "\<exists>w'. checkTryRemoveConnection cfg cb False c w = Some (True, w') \<and> sv_inv_at cfg G others w' (remove1 c us) (fs @ [c]) ws
     \<and> kept w w' \<and> pend cfg w' = pend cfg w \<and> (\<forall>i. i \<noteq> c \<longrightarrow> body (conn (srv w') i) = body (conn (srv w) i))"
  using remove_kept [OF assms] by (auto simp: checkTryRemoveConnection_def)

lemma remove_old_inv:
  assumes "sv_inv_at cfg G others w us fs ws"
  shows "\<exists>w' us' fs'. remove_old cfg cb t w = Some w' \<and> sv_inv_at cfg G others w' us' fs' ws \<and> kept w w'
     \<and> set us' \<subseteq> set us \<and> (\<forall>c \<in> set us'. \<not> older (LONG_TIMEOUT cfg) t c w)
     \<and> (\<forall>c \<in> set us. \<not> older (LONG_TIMEOUT cfg) t c w \<longrightarrow> c \<in> set us')
     \<and> (\<forall>c \<in> set us'. body (conn (srv w') c) = body (conn (srv w) c))"
  using assms
proof (induction us arbitrary: w fs)
  case Nil
  then have "cl_first (used (srv w)) = None" using first_used by (fastforce simp: sv_inv_at_def)
  then show ?case using Nil by (subst remove_old.simps) auto
next
  case (Cons c us)
  from Cons.prems have rep: "conn_rep cfg (srv w) (c # us) fs"
    and srt: "sorted (map (acceptTime \<circ> conn (srv w)) (c # us))" by (auto simp: sv_inv_at_def)
  have fr: "cl_first (used (srv w)) = Some c" using first_used [OF rep] by simp
  have pos: "cl_num (used (srv w)) > 0" using rep by (simp add: conn_rep_def word_gt_zero_iff)
  show ?case
  proof (cases "older (LONG_TIMEOUT cfg) t c w")
    case False
    then have "\<not> older (LONG_TIMEOUT cfg) t i w" if "i \<in> set (c # us)" for i
      using srt that by (auto simp: older_def)
    with False fr Cons.prems show ?thesis by (subst remove_old.simps) auto
  next
    case True
    from try_remove_kept [OF Cons.prems, of c] obtain w1 where
      A: "checkTryRemoveConnection cfg cb False c w = Some (True, w1)" "sv_inv_at cfg G others w1 us (fs @ [c]) ws" "kept w w1"
         "\<And>i. i \<noteq> c \<Longrightarrow> body (conn (srv w1) i) = body (conn (srv w) i)"
      by auto
    from Cons.IH [OF A(2)] obtain w' us' fs' where
      B: "remove_old cfg cb t w1 = Some w'" "sv_inv_at cfg G others w' us' fs' ws" "kept w1 w'"
         "set us' \<subseteq> set us" "\<forall>c \<in> set us'. \<not> older (LONG_TIMEOUT cfg) t c w1"
         "\<forall>c \<in> set us. \<not> older (LONG_TIMEOUT cfg) t c w1 \<longrightarrow> c \<in> set us'"
         "\<forall>c \<in> set us'. body (conn (srv w') c) = body (conn (srv w1) c)" by blast
    have run: "remove_old cfg cb t w = remove_old cfg cb t w1"
      using fr pos True A(1) by (subst remove_old.simps) simp
    have ne: "i \<noteq> c" if "i \<in> set us" for i using that conn_rep_mem [OF rep] by auto
    have old: "older (LONG_TIMEOUT cfg) t i w1 = older (LONG_TIMEOUT cfg) t i w" if "i \<in> set us" for i
      using body_fields(4) [OF A(4) [OF ne [OF that]]] by (simp add: older_def)
    have "\<forall>i \<in> set us'. \<not> older (LONG_TIMEOUT cfg) t i w" using B(4,5) old by blast
    moreover have "\<forall>i \<in> set (c # us). \<not> older (LONG_TIMEOUT cfg) t i w \<longrightarrow> i \<in> set us'" using B(6) old True by simp
    moreover have "\<forall>i \<in> set us'. body (conn (srv w') i) = body (conn (srv w) i)" using B(4,7) A(4) ne by (metis subset_iff)
    moreover have "set us' \<subseteq> set (c # us)" using B(4) by auto
    moreover have "kept w w'" using A(3) B(3) by (rule kept_trans)
    ultimately show ?thesis unfolding run using B(1,2) by blast
  qed
qed

lemma timed_out_loop_inv:
  assumes "sv_inv_at cfg G others w us fs ws" and "kernel_calm (kern w)"
  shows "\<exists>w'. timed_out_loop cfg cb t w = Some w' \<and> sv_inv cfg G others w' \<and> kept w w'"
  using assms
proof (induction "pend cfg w + length us" arbitrary: w us fs ws rule: less_induct)
  case less
  from less.prems have rep: "conn_rep cfg (srv w) us fs"
    and wq: "wq_rep (NUM_LISTENERS cfg) (waitingq (srv w), listener (srv w)) ws" by (auto simp: sv_inv_at_def)
  show ?case
  proof (cases "us \<noteq> [] \<and> ws \<noteq> [] \<and> older (WAIT_TIMEOUT cfg) t (hd us) w")
    case False
    then have "timed_out_loop cfg cb t w = Some w"
      using first_used [OF rep] first_waiting [OF wq] by (subst timed_out_loop.simps) auto
    then show ?thesis using less.prems by (auto intro: sv_invI)
  next
    case True
    from try_remove_kept [OF less.prems(1), of "hd us"] True obtain w1 where
      A: "checkTryRemoveConnection cfg cb False (hd us) w = Some (True, w1)"
         "sv_inv_at cfg G others w1 (tl us) (fs @ [hd us]) ws" "kept w w1" "pend cfg w1 = pend cfg w"
      by (cases us) auto
    have calm1: "kernel_calm (kern w1)" using A(3) less.prems(2) by (simp add: kept_def)
    from accept_inv [OF A(2) _ _ calm1] True obtain w2 us2 fs2 ws2 where
      B: "poServer_accept cfg w1 = Some (False, w2)" "sv_inv_at cfg G others w2 us2 fs2 ws2" "kept w1 w2"
      and dec: "pend cfg w2 + length us2 < pend cfg w + length us"
      using A(4) by (cases us) fastforce+
    have "kernel_calm (kern w2)" using B(3) calm1 by (simp add: kept_def)
    from less.hyps [OF dec B(2) this] obtain w' where
      "timed_out_loop cfg cb t w2 = Some w'" "sv_inv cfg G others w'" "kept w2 w'" by blast
    moreover have "timed_out_loop cfg cb t w = timed_out_loop cfg cb t w2"
      using True A(1) B(1) first_used [OF rep] first_waiting [OF wq] by (subst timed_out_loop.simps) simp
    ultimately show ?thesis using A(3) B(3) kept_trans by metis
  qed
qed

lemma lookForAccept_inv:
  assumes inv: "sv_inv_at cfg G others w us fs ws" and calm: "kernel_calm (kern w)" and full: "fs = [] \<or> ws = []"
  shows "\<exists>w'. lookForAcceptFromTimedOutConns cfg cb t w = Some w' \<and> sv_inv cfg G others w' \<and> kept w w'
     \<and> (WAIT_TIMEOUT cfg = -1 \<longrightarrow> w' = w)"
proof -
  from inv have rep: "conn_rep cfg (srv w) us fs"
    and wq: "wq_rep (NUM_LISTENERS cfg) (waitingq (srv w), listener (srv w)) ws" by (auto simp: sv_inv_at_def)
  have "unat (cl_num (used (srv w))) = MAX_CONNECTIONS cfg" if "ws \<noteq> []"
    using that full rep conn_rep_length [OF rep] by (auto simp: conn_rep_def)
  with timed_out_loop_inv [OF inv calm, of t] first_waiting [OF wq] inv show ?thesis
    by (auto simp: lookForAcceptFromTimedOutConns_def intro: sv_invI)
qed

lemma listen_event_inv:
  assumes inv: "sv_inv_at cfg G others w us fs ws" and calm: "kernel_calm (kern w)" and l: "l < NUM_LISTENERS cfg"
    and ok: "listeners_ok cfg (srv w)"
  shows "\<exists>w'. listen_event cfg cb l w = Some w' \<and> kept w w' \<and> sv_inv cfg G others w'
     \<and> (WAIT_TIMEOUT cfg = -1 \<longrightarrow> (\<exists>us' fs' ws'. sv_inv_at cfg G others w' us' fs' ws' \<and> set us \<subseteq> set us'))"
proof (cases "\<not> isRunning (srv w) \<and> l_fd (listener (srv w) l) = -1")
  case True
  then show ?thesis using inv by (auto simp: listen_event_def intro: sv_invI)
next
  case False
  then have fd: "0 \<le> l_fd (listener (srv w) l)" using ok l by (auto simp: listeners_ok_def)
  from inv have wq: "wq_rep (NUM_LISTENERS cfg) (waitingq (srv w), listener (srv w)) ws" and rep: "conn_rep cfg (srv w) us fs"
    and F: "fds_ok cfg others (srv w) (kern w) us" by (auto simp: sv_inv_at_def)
  from queuePush_spec [OF wq l] obtain q ls where
    Q: "queuePush l (waitingq (srv w), listener (srv w)) = Some (q, ls)" "same_listeners (listener (srv w)) ls"
       "wq_rep (NUM_LISTENERS cfg) (q, ls) (if l \<in> set ws then ws else ws @ [l])" by blast
  define ws1 where "ws1 = (if l \<in> set ws then ws else ws @ [l])"
  define w1 where "w1 = w\<lparr>srv := (srv w)\<lparr>waitingq := q, listener := ls\<rparr>\<rparr>"
  have ne: "ws1 \<noteq> []" by (auto simp: ws1_def)
  have "listen_fds cfg (srv w1) = listen_fds cfg (srv w)"
    using Q(2) by (simp add: listen_fds_def w1_def same_listeners_def comp_def)
  then have "fds_ok cfg others (srv w1) (kern w1) us" using F by (simp add: fds_ok_def w1_def conn_fds_def)
  then have inv1: "sv_inv_at cfg G others w1 us fs ws1"
    using inv Q(2,3) fd by (auto simp: sv_inv_at_def w1_def ws1_def conn_rep_def same_listeners_def)
  have k1: "kept w w1" using Q(2) by (auto simp: kept_def w1_def shell_def same_listeners_def)
  have exec: "listen_event cfg cb l w = (if fs \<noteq> [] then map_option snd (poServer_accept cfg w1)
      else lookForAcceptFromTimedOutConns cfg cb (clock (kern w1)) w1)"
    using False fd Q(1) back_unused [OF rep] by (cases "fs = []") (auto simp: listen_event_def w1_def Let_def)
  show ?thesis
  proof (cases "fs = []")
    case True
    with lookForAccept_inv [OF inv1, of "clock (kern w1)"] calm obtain w' where
      "listen_event cfg cb l w = Some w'" "sv_inv cfg G others w'" "kept w1 w'" "WAIT_TIMEOUT cfg = -1 \<longrightarrow> w' = w1"
      using exec by (auto simp: w1_def)
    with inv1 k1 kept_trans show ?thesis by blast
  next
    case False
    with accept_inv [OF inv1 _ ne] calm obtain w' us' fs' ws' where
      "listen_event cfg cb l w = Some w'" "sv_inv_at cfg G others w' us' fs' ws'" "kept w1 w'" "set us \<subseteq> set us'"
      using exec by (fastforce simp: w1_def)
    with k1 kept_trans show ?thesis by (blast intro: sv_invI)
  qed
qed

lemma service_kept:
  assumes inv: "sv_inv_at cfg G others w us fs ws" and c: "c \<in> set us"
  shows "\<exists>w' us' fs'. ServiceConnection cfg cb c w = Some w' \<and> sv_inv_at cfg G others w' us' fs' ws \<and> kept w w'
     \<and> (us' = us \<or> us' = remove1 c us \<and> c_fd (conn (srv w') c) = -1)"
proof -
  from inv c have "0 \<le> c_fd (conn (srv w) c)" "set_option (cleanupCallback (conn (srv w) c)) \<subseteq> G"
    by (auto simp: sv_inv_at_def fds_ok_def)
  from service_touched [OF this] obtain rm w1 where
    S: "service cb c w = Some (rm, w1)" "touched G c w w1" by blast
  have inv1: "sv_inv_at cfg G others w1 us fs ws" by (rule touched_inv [OF inv c S(2)])
  have k1: "kept w w1" using touched_shell [OF S(2)] S(2) by (simp add: kept_def touched_def)
  show ?thesis
  proof (cases rm)
    case False
    then show ?thesis using S(1) inv1 k1 by (auto simp: ServiceConnection_def)
  next
    case True
    from remove_kept [OF inv1 c] obtain w' where
      R: "removeConnection cfg cb c w1 = Some w'" "sv_inv_at cfg G others w' (remove1 c us) (fs @ [c]) ws" "kept w1 w'" by blast
    have "c_fd (conn (srv w') c) = -1" using R(2) by (simp add: sv_inv_at_def conn_clear_def)
    with R True S(1) k1 kept_trans show ?thesis by (fastforce simp: ServiceConnection_def)
  qed
qed

lemma conn_event_inv:
  assumes inv: "sv_inv_at cfg G others w us fs ws" and c: "c \<in> set us"
  shows "\<exists>w' us' fs'. conn_event cfg cb ev c w = Some w' \<and> sv_inv_at cfg G others w' us' fs' ws \<and> kept w w'
     \<and> set us - {c} \<subseteq> set us'"
proof (cases "readCallback (conn (srv w) c) = None \<and> writeCallback (conn (srv w) c) = None")
  case True
  from try_remove_kept [OF inv c] obtain w' where
    A: "checkTryRemoveConnection cfg cb False c w = Some (True, w')" "sv_inv_at cfg G others w' (remove1 c us) (fs @ [c]) ws" "kept w w'"
    by blast
  have "conn_event cfg cb ev c w = Some w'" using True A(1) by (simp add: conn_event_def)
  moreover have "set us - {c} \<subseteq> set (remove1 c us)" by (rule set_remove1_sup)
  ultimately show ?thesis using A(2,3) by blast
next
  case False
  define body where "body = (if EPOLLIN ev \<or> EPOLLOUT ev then
      (let w = conn_ready ev c w in if call_it (conn (srv w) c) then ServiceConnection cfg cb c w else Some w) else Some w)"
  have "\<exists>w' us' fs'. body = Some w' \<and> sv_inv_at cfg G others w' us' fs' ws \<and> kept w w'
     \<and> (us' = us \<or> us' = remove1 c us \<and> c_fd (conn (srv w') c) = -1)"
  proof (cases "EPOLLIN ev \<or> EPOLLOUT ev")
    case True
    define w1 where "w1 = conn_ready ev c w"
    have cl: "set_option (cleanupCallback (conn (srv w) c)) \<subseteq> G" using inv c by (simp add: sv_inv_at_def)
    have t: "touched G c w w1"
      unfolding w1_def conn_ready_def by (rule touched_set [OF touched_refl [OF cl]]) simp_all
    have inv1: "sv_inv_at cfg G others w1 us fs ws" by (rule touched_inv [OF inv c t])
    have k1: "kept w w1" using touched_shell [OF t] t by (simp add: kept_def touched_def)
    show ?thesis
    proof (cases "call_it (conn (srv w1) c)")
      case True
      with service_kept [OF inv1 c] k1 kept_trans \<open>EPOLLIN ev \<or> EPOLLOUT ev\<close> show ?thesis
        unfolding body_def Let_def w1_def by (smt (verit, best))
    next
      case False
      with inv1 k1 \<open>EPOLLIN ev \<or> EPOLLOUT ev\<close> show ?thesis
        unfolding body_def Let_def w1_def by auto
    qed
  qed (use inv in \<open>auto simp: body_def\<close>)
  then obtain w1 us1 fs1 where B: "body = Some w1" "sv_inv_at cfg G others w1 us1 fs1 ws" "kept w w1"
     "us1 = us \<or> us1 = remove1 c us \<and> c_fd (conn (srv w1) c) = -1" by blast
  have exec: "conn_event cfg cb ev c w = (if c_fd (conn (srv w1) c) \<noteq> -1 \<and> (EPOLLRDHUP ev \<or> EPOLLERR ev)
         then map_option snd (checkTryRemoveConnection cfg cb False c w1) else Some w1)"
    using B(1) unfolding conn_event_def if_not_P [OF False] body_def by simp
  have dist: "distinct us" using inv conn_rep_mem by (fastforce simp: sv_inv_at_def)
  have sub: "set us - {c} \<subseteq> set us1" using B(4) dist by auto
  show ?thesis
  proof (cases "c_fd (conn (srv w1) c) \<noteq> -1 \<and> (EPOLLRDHUP ev \<or> EPOLLERR ev)")
    case True
    with B(4) c have "c \<in> set us1" by auto
    from try_remove_kept [OF B(2) this] obtain w' where
      "checkTryRemoveConnection cfg cb False c w1 = Some (True, w')" "sv_inv_at cfg G others w' (remove1 c us1) (fs1 @ [c]) ws" "kept w1 w'"
      by blast
    moreover have "set us - {c} \<subseteq> set (remove1 c us1)" using sub set_remove1_sup [of us1 c] by auto
    moreover have "conn_event cfg cb ev c w = Some w'" unfolding exec if_P [OF True] using calculation(1) by simp
    moreover have "kept w w'" using B(3) calculation(3) by (rule kept_trans)
    ultimately show ?thesis by blast
  next
    case False
    then have "conn_event cfg cb ev c w = Some w1" unfolding exec by (rule if_not_P)
    then show ?thesis using B(2,3) sub by blast
  qed
qed

lemma doEvents_inv:
  assumes "sv_inv_at cfg G others w us fs ws" and "kernel_calm (kern w)" and "listeners_ok cfg (srv w)"
    and "fresh cfg (set us) evs"
  shows "\<exists>w'. doEvents cfg cb evs w = Some w' \<and> sv_inv cfg G others w' \<and> kept w w'"
  using assms
proof (induction evs arbitrary: w us fs ws)
  case Nil
  then show ?case by (auto intro: sv_invI)
next
  case (Cons ev evs)
  have "\<exists>w1 us1 fs1 ws1. doEvent cfg cb ev w = Some w1 \<and> sv_inv_at cfg G others w1 us1 fs1 ws1 \<and> kept w w1
      \<and> fresh cfg (set us1) evs"
  proof (cases "ev_ptr ev")
    case (EvConn c)
    with Cons.prems(4) have c: "c \<in> set us" and f: "fresh cfg (set us - {c}) evs" by auto
    from conn_event_inv [OF Cons.prems(1) c, of ev] obtain w' us' fs' where
      "conn_event cfg cb ev c w = Some w'" "sv_inv_at cfg G others w' us' fs' ws" "kept w w'" "set us - {c} \<subseteq> set us'" by blast
    moreover have "fresh cfg (set us') evs" using fresh_mono [OF f] calculation(4) .
    ultimately show ?thesis using EvConn by (auto simp: doEvent_def)
  next
    case (EvListener l)
    with Cons.prems(4) have l: "l < NUM_LISTENERS cfg" and f: "fresh cfg (if WAIT_TIMEOUT cfg = -1 then set us else {}) evs"
      and flags: "EPOLLIN ev \<and> \<not> EPOLLOUT ev \<and> \<not> EPOLLRDHUP ev \<and> \<not> EPOLLERR ev" by auto
    from listen_event_inv [OF Cons.prems(1,2) l Cons.prems(3)] obtain w' where
      L: "listen_event cfg cb l w = Some w'" "kept w w'" "sv_inv cfg G others w'"
         "WAIT_TIMEOUT cfg = -1 \<longrightarrow> (\<exists>us' fs' ws'. sv_inv_at cfg G others w' us' fs' ws' \<and> set us \<subseteq> set us')" by blast
    then obtain us' fs' ws' where "sv_inv_at cfg G others w' us' fs' ws'" "WAIT_TIMEOUT cfg = -1 \<longrightarrow> set us \<subseteq> set us'"
      unfolding sv_inv_def by blast
    moreover have "doEvent cfg cb ev w = Some w'" using EvListener flags L(1) by (simp add: doEvent_def)
    moreover have "fresh cfg (set us') evs" using fresh_mono [OF f] calculation(2) by (auto split: if_splits)
    ultimately show ?thesis using L(2) by blast
  qed
  then obtain w1 us1 fs1 ws1 where A: "doEvent cfg cb ev w = Some w1" "sv_inv_at cfg G others w1 us1 fs1 ws1" "kept w w1"
    "fresh cfg (set us1) evs" by blast
  moreover have "kernel_calm (kern w1)" using A(3) Cons.prems(2) by (simp add: kept_def)
  ultimately show ?case
    using Cons.IH [of w1 us1 fs1 ws1] listeners_ok_kept [OF A(3) Cons.prems(3)] kept_trans by fastforce
qed

lemma doNextEvent_inv:
  assumes inv: "sv_inv cfg G others w" and calm: "kernel_calm (kern w)" and lst: "listeners_ok cfg (srv w)"
    and wk: "0 \<le> elapsed wk" "\<And>p. p \<in> snd ` set (arrivals wk) \<Longrightarrow> p = Pending True True" "answer wk \<noteq> WaitFailed"
    and evs: "\<And>evs w1 us fs ws. answer wk = WaitEvents evs \<Longrightarrow> sv_inv_at cfg G others w1 us fs ws \<Longrightarrow>
       ready_for_events cfg cb w = Some w1 \<Longrightarrow> fresh cfg (set us) evs"
  shows "\<exists>w'. poServer_doNextEvent cfg cb wk w = Some w' \<and> sv_inv cfg G others w' \<and> shell (srv w') = shell (srv w)
     \<and> kernel_calm (kern w')"
proof -
  let ?t = "clock (kern w)"
  from inv obtain us fs ws where inv0: "sv_inv_at cfg G others w us fs ws" by (auto simp: sv_inv_def)
  obtain w1 us1 fs1 where A: "(if LONG_TIMEOUT cfg \<noteq> -1 then remove_old cfg cb ?t w else Some w) = Some w1"
     "sv_inv_at cfg G others w1 us1 fs1 ws" "kept w w1"
    using remove_old_inv [OF inv0, of ?t] inv0 kept_refl by (cases "LONG_TIMEOUT cfg = -1") auto
  have c1: "kernel_calm (kern w1)" using A(3) calm by (simp add: kept_def)
  from accept_waiting_inv [OF A(2) c1] obtain w2 us2 fs2 ws2 where
    B: "accept_waiting cfg w1 = Some w2" "sv_inv_at cfg G others w2 us2 fs2 ws2" "kept w1 w2" "fs2 = [] \<or> ws2 = []" by blast
  have c2: "kernel_calm (kern w2)" using B(3) c1 by (simp add: kept_def)
  from lookForAccept_inv [OF B(2) c2 B(4), of ?t] obtain w3 where
    C: "lookForAcceptFromTimedOutConns cfg cb ?t w2 = Some w3" "sv_inv cfg G others w3" "kept w2 w3" by blast
  have k3: "kept w w3" using A(3) B(3) C(3) kept_trans by blast
  from C(2) obtain us3 fs3 ws3 where I3: "sv_inv_at cfg G others w3 us3 fs3 ws3" by (auto simp: sv_inv_def)
  define w4 where "w4 = w3\<lparr>kern := epoll_wait wk (kern w3)\<rparr>"
  have I4: "sv_inv_at cfg G others w4 us3 fs3 ws3"
    using I3 wk(1) unfolding sv_inv_at_def by (fastforce simp: w4_def epoll_wait_def fds_ok_def)
  have c4: "kernel_calm (kern w4)"
    using k3 calm wk(2) by (auto simp: kernel_calm_def w4_def epoll_wait_def kept_def)
  have l4: "listeners_ok cfg (srv w4)" using listeners_ok_kept [OF k3 lst] by (simp add: w4_def)
  have R: "ready_for_events cfg cb w = Some w3"
    using A(1) B(1) C(1) by (simp add: ready_for_events_def)
  have exec: "poServer_doNextEvent cfg cb wk w = (case answer wk of WaitTimeout \<Rightarrow> Some w4 | WaitInterrupted \<Rightarrow> Some w4
      | WaitFailed \<Rightarrow> None | WaitEvents evs \<Rightarrow> doEvents cfg cb evs w4)"
    unfolding poServer_doNextEvent_def R w4_def Let_def by simp
  have s4: "shell (srv w4) = shell (srv w)" using k3 by (simp add: kept_def w4_def)
  show ?thesis
  proof (cases "answer wk")
    case (WaitEvents evs)
    from doEvents_inv [OF I4 c4 l4 evs [OF WaitEvents I3 R]] exec WaitEvents s4 c4 show ?thesis
      by (auto simp: kept_def)
  qed (use exec I4 c4 s4 wk(3) in \<open>auto intro: sv_invI\<close>)
qed

end

end
