(* ===== verification/ServerLife.thy ===== *)
theory ServerLife
  imports ServerSeq
begin

text \<open>
  The life of a server: created and set up, it satisfies the invariant and runs; shut down, it has
  closed its listeners and, with a long timeout, all connections go; destroyed, it has given back
  every descriptor.
\<close>

subsection \<open>Creating\<close>

lemma push_all_spec:
  assumes "cq_rep (unusedq s, conn s) xs" and "distinct (xs @ is)"
  shows "\<exists>s'. push_all is s = Some s' \<and> cq_rep (unusedq s', conn s') (xs @ is)
     \<and> (\<forall>i. body (conn s' i) = body (conn s i)) \<and> s' = s\<lparr>unusedq := unusedq s', conn := conn s'\<rparr>"
  using assms
proof (induction "is" arbitrary: s xs)
  case Nil
  then show ?case by (intro exI [of _ s]) simp
next
  case (Cons i "is")
  from unusedPush_spec [OF Cons.prems(1), of i] Cons.prems(2) obtain q cs where
    U: "unusedPush i (unusedq s, conn s) = Some (q, cs)" "cq_rep (q, cs) (xs @ [i])" "\<And>j. body (cs j) = body (conn s j)"
    by auto
  from Cons.IH [of "s\<lparr>unusedq := q, conn := cs\<rparr>" "xs @ [i]"] U Cons.prems(2) obtain s' where
    S: "push_all is (s\<lparr>unusedq := q, conn := cs\<rparr>) = Some s'" "cq_rep (unusedq s', conn s') ((xs @ [i]) @ is)"
       "\<And>j. body (conn s' j) = body (cs j)" "s' = (s\<lparr>unusedq := q, conn := cs\<rparr>)\<lparr>unusedq := unusedq s', conn := conn s'\<rparr>"
    by auto
  have "s' = s\<lparr>unusedq := unusedq s', conn := conn s'\<rparr>" by (subst S(4)) simp
  then show ?case using S(1-3) U by (intro exI [of _ s']) simp
qed

text \<open>How far the listeners are set up.\<close>

definition setup_ok :: "sv_config \<Rightarrow> POServer \<Rightarrow> bool" where
  "setup_ok cfg s \<longleftrightarrow> unat (numListeners s) \<le> NUM_LISTENERS cfg
     \<and> (\<forall>i < NUM_LISTENERS cfg. if i < unat (numListeners s) then 0 \<le> l_fd (listener s i) else l_fd (listener s i) = -1)
     \<and> (isRunning s \<longleftrightarrow> unat (numListeners s) = NUM_LISTENERS cfg)"

lemma create_inv:
  assumes ok: "sv_config_ok cfg"
  shows "\<exists>s k'. poServer_create cfg False True k = Some (Some s, k')
     \<and> sv_inv_at cfg G (set (open_fds k)) \<lparr>srv = s, kern = k', usr = u\<rparr> [] [0..<MAX_CONNECTIONS cfg] []
     \<and> setup_ok cfg s \<and> numListeners s = 0 \<and> backlog k' = backlog k"
proof -
  from push_all_spec [of zero_server "[]" "[0..<MAX_CONNECTIONS cfg]"] obtain s where
    S: "push_all [0..<MAX_CONNECTIONS cfg] zero_server = Some s" "cq_rep (unusedq s, conn s) [0..<MAX_CONNECTIONS cfg]"
       "\<And>i. body (conn s i) = body (conn zero_server i)" "s = zero_server\<lparr>unusedq := unusedq s, conn := conn s\<rparr>"
    by (auto simp: cq_rep_def zero_server_def)
  define n where "n = new_fd (open_fds k)"
  note n = new_fd [of "open_fds k", folded n_def]
  have f: "listener s = (\<lambda>_. zero_listener)" "waitingq s = \<lparr>wq_first = None, wq_last = None\<rparr>" "numListeners s = 0"
    "used s = \<lparr>cl_num = 0, cl_first = None, cl_last = None\<rparr>" "isRunning s = False"
    by (subst S(4), simp add: zero_server_def)+
  have lf: "listen_fds cfg (s\<lparr>efd := n\<rparr>) = []" by (auto simp: listen_fds_def f zero_listener_def filter_empty_conv)
  have "conn_clear (conn s i)" for i
    using body_fields [OF S(3), of i] by (simp add: conn_clear_def zero_server_def zero_conn_def)
  moreover have "conn_rep cfg (s\<lparr>efd := n\<rparr>) [] [0..<MAX_CONNECTIONS cfg]"
    using S(2) f by (auto simp: conn_rep_def cq_rep_def)
  moreover have "fds_ok cfg (set (open_fds k)) (s\<lparr>efd := n\<rparr>) (k\<lparr>open_fds := n # open_fds k\<rparr>) []"
    using n lf by (auto simp: fds_ok_def conn_fds_def)
  ultimately have "sv_inv_at cfg G (set (open_fds k)) \<lparr>srv = s\<lparr>efd := n\<rparr>, kern = k\<lparr>open_fds := n # open_fds k\<rparr>, usr = u\<rparr>
      [] [0..<MAX_CONNECTIONS cfg] []"
    using ok f by (simp add: sv_inv_at_def wq_rep_def zero_listener_def)
  moreover have "setup_ok cfg (s\<lparr>efd := n\<rparr>)"
    using ok by (simp add: setup_ok_def f zero_listener_def sv_config_ok_def)
  ultimately show ?thesis
    using S(1) f by (auto simp: poServer_create_def n_def Let_def)
qed

definition setup_calm :: "setup_answers \<Rightarrow> bool" where
  "setup_calm a \<longleftrightarrow> addr_ok a \<and> socket_ok a \<and> reuse_ok a \<and> sa_fcntl_ok a \<and> bind_ok a \<and> listen_ok a \<and> sa_epoll_ok a"

lemma filter_map_upd:
  assumes "i < n" and "f i = -1" and "0 \<le> (x :: int)"
  shows "mset (filter ((\<le>) 0) (map (f(i := x)) [0..<n])) = add_mset x (mset (filter ((\<le>) 0) (map f [0..<n])))"
proof -
  have "[0..<n] = [0..<i] @ i # [Suc i..<n]"
    using assms(1) by (metis le_add_diff_inverse less_imp_le upt_add_eq_append upt_conv_Cons zero_le)
  moreover have "map (f(i := x)) [0..<i] = map f [0..<i]" "map (f(i := x)) [Suc i..<n] = map f [Suc i..<n]"
    by simp_all
  ultimately show ?thesis using assms(2,3) by simp
qed

text \<open>
  A listener that is set up gets a new socket, or one that was handed over: then its descriptor was
  one of the others of the process.
\<close>

lemma listenerSetup_inv:
  assumes inv: "sv_inv_at cfg G others w us fs ws" and st: "setup_ok cfg (srv w)"
    and more: "unat (numListeners (srv w)) < NUM_LISTENERS cfg" and a: "setup_calm a"
    and fd: "found a = -1 \<or> found a \<in> others" and pos: "\<forall>x \<in> others. 0 \<le> x"
  shows "\<exists>s k. poServer_listenerSetup cfg a addr (Some cbk) d (srv w, kern w) = Some (False, s, k)
     \<and> sv_inv_at cfg G (others - {found a}) (w\<lparr>srv := s, kern := k\<rparr>) us fs ws \<and> setup_ok cfg s
     \<and> unat (numListeners s) = Suc (unat (numListeners (srv w))) \<and> backlog k = backlog (kern w)"
proof -
  let ?s = "srv w" and ?k = "kern w" and ?i = "unat (numListeners (srv w))"
  from inv have F: "fds_ok cfg others ?s ?k us" and ok: "sv_config_ok cfg"
    and wq: "wq_rep (NUM_LISTENERS cfg) (waitingq ?s, listener ?s) ws"
    by (auto simp: sv_inv_at_def)
  define n where "n = (if found a = -1 then new_fd (open_fds ?k) else found a)"
  define k where "k = (if found a = -1 then ?k\<lparr>open_fds := n # open_fds ?k\<rparr> else ?k)"
  define ls where "ls = upd (upd (listener ?s) ?i (\<lambda>l. l\<lparr>l_addr := addr\<rparr>)) ?i
     (\<lambda>l. l\<lparr>l_fd := n, callback := Some cbk, l_data := d\<rparr>)"
  define s where "s = ?s\<lparr>listener := ls, numListeners := numListeners ?s + 1,
     isRunning := (Suc ?i = NUM_LISTENERS cfg)\<rparr>"
  have i: "l_fd (listener ?s ?i) = -1" "\<not> isRunning ?s" using st more by (auto simp: setup_ok_def)
  have suc: "unat (numListeners ?s + 1) = Suc ?i"
    using unat_Suc_bound [OF more] ok by (simp add: sv_config_ok_def)
  have exec: "poServer_listenerSetup cfg a addr (Some cbk) d (?s, ?k) = Some (False, s, k)"
    using a i more suc
    by (auto simp: poServer_listenerSetup_def setup_calm_def setNonblocking_def n_def k_def ls_def s_def Let_def)
  have n: "0 \<le> n" "n \<notin> set (conn_fds ?s us @ listen_fds cfg ?s @ [efd ?s])"
    "set (open_fds k) = insert n (set (open_fds ?k))" "others - {found a} = others - {n}" "n \<in> others \<or> n \<notin> set (open_fds ?k)"
    using fd pos new_fd [of "open_fds ?k"] F by (auto simp: n_def k_def fds_ok_def)
  have lsfd: "l_fd \<circ> ls = (l_fd \<circ> listener ?s)(?i := n)" by (auto simp: ls_def fun_eq_iff upd_apply)
  have "mset (listen_fds cfg s) = add_mset n (mset (listen_fds cfg ?s))"
    using filter_map_upd [of ?i "NUM_LISTENERS cfg" "l_fd \<circ> listener ?s" n] more i n(1) lsfd
    by (simp add: listen_fds_def s_def)
  then have lf: "set (listen_fds cfg s) = insert n (set (listen_fds cfg ?s))" "distinct (listen_fds cfg s) \<longleftrightarrow>
      distinct (n # listen_fds cfg ?s)"
    by (metis mset.simps(2) set_mset_add_mset_insert set_mset_mset, metis mset.simps(2) mset_eq_imp_distinct_iff)
  have cf: "conn_fds s us = conn_fds ?s us" "conn s = conn ?s" "efd s = efd ?s" by (simp_all add: s_def conn_fds_def)
  have "fds_ok cfg (others - {n}) s k us"
    using F n lf cf unfolding fds_ok_def by auto
  moreover have "wq_rep (NUM_LISTENERS cfg) (waitingq s, listener s) ws"
  proof -
    have "l_next \<circ> ls = l_next \<circ> listener ?s" "\<And>j. waiting (ls j) = waiting (listener ?s j)"
      by (auto simp: ls_def fun_eq_iff upd_apply)
    then show ?thesis using wq by (simp add: wq_rep_def s_def)
  qed
  moreover have "0 \<le> l_fd (listener s l)" if "l \<in> set ws" for l
    using that inv n(1) lsfd by (auto simp: sv_inv_at_def s_def fun_eq_iff)
  ultimately have "sv_inv_at cfg G (others - {found a}) (w\<lparr>srv := s, kern := k\<rparr>) us fs ws"
    using inv n(4) unfolding sv_inv_at_def by (auto simp: s_def k_def conn_rep_def)
  moreover have "setup_ok cfg s"
    using st more suc n(1) lsfd unfolding setup_ok_def by (auto simp: s_def fun_eq_iff less_Suc_eq)
  ultimately show ?thesis using exec suc by (auto simp: s_def k_def)
qed

subsection \<open>Shutting down\<close>

lemma close_listeners_spec:
  assumes "close_listeners is (s, k) = (s', k')" and "distinct is"
  shows "s' = s\<lparr>listener := listener s', numListeners := numListeners s'\<rparr>
    \<and> (\<forall>i. listener s' i = (if i \<in> set is \<and> 0 \<le> l_fd (listener s i) then (listener s i)\<lparr>l_fd := -1\<rparr> else listener s i))
    \<and> numListeners s' = numListeners s - of_nat (length (filter (\<lambda>i. 0 \<le> l_fd (listener s i)) is))
    \<and> k' = k\<lparr>open_fds := open_fds k'\<rparr>
    \<and> set (open_fds k') = set (open_fds k) - {fd. \<exists>i \<in> set is. 0 \<le> fd \<and> fd = l_fd (listener s i)}"
  using assms
proof (induction "is" arbitrary: s k)
  case Nil
  then show ?case by auto
next
  case (Cons i "is")
  show ?case
  proof (cases "0 \<le> l_fd (listener s i)")
    case True
    define s1 where "s1 = s\<lparr>listener := upd (listener s) i (\<lambda>l. l\<lparr>l_fd := -1\<rparr>), numListeners := numListeners s - 1\<rparr>"
    define k1 where "k1 = close_any (l_fd (listener s i)) k"
    have other: "listener s1 j = listener s j" if "j \<in> set is" for j using that Cons.prems(2) by (auto simp: s1_def upd_apply)
    then have flt: "filter (\<lambda>i. 0 \<le> l_fd (listener s1 i)) is = filter (\<lambda>i. 0 \<le> l_fd (listener s i)) is"
      by (auto intro: filter_cong)
    from Cons.prems True have "close_listeners is (s1, k1) = (s', k')" by (simp add: s1_def k1_def)
    from Cons.IH [OF this] Cons.prems(2)
    have IH: "s' = s1\<lparr>listener := listener s', numListeners := numListeners s'\<rparr>"
      "\<And>j. listener s' j = (if j \<in> set is \<and> 0 \<le> l_fd (listener s1 j) then (listener s1 j)\<lparr>l_fd := -1\<rparr> else listener s1 j)"
      "numListeners s' = numListeners s1 - of_nat (length (filter (\<lambda>i. 0 \<le> l_fd (listener s1 i)) is))"
      "k' = k1\<lparr>open_fds := open_fds k'\<rparr>"
      "set (open_fds k') = set (open_fds k1) - {fd. \<exists>i \<in> set is. 0 \<le> fd \<and> fd = l_fd (listener s1 i)}"
      by auto
    have L: "listener s' j = (if j \<in> set (i # is) \<and> 0 \<le> l_fd (listener s j) then (listener s j)\<lparr>l_fd := -1\<rparr> else listener s j)" for j
      using IH(2) [of j] other [of j] True Cons.prems(2) by (cases "j = i") (auto simp: s1_def)
    have "s' = s\<lparr>listener := listener s', numListeners := numListeners s'\<rparr>"
      using IH(1) by (simp add: s1_def)
    moreover have "numListeners s' = numListeners s - of_nat (length (filter (\<lambda>i. 0 \<le> l_fd (listener s i)) (i # is)))"
      using IH(3) True flt by (simp add: s1_def)
    moreover have "k' = k\<lparr>open_fds := open_fds k'\<rparr>"
      using IH(4) by (simp add: k1_def close_any_def)
    moreover have "set (open_fds k') = set (open_fds k) - {fd. \<exists>j \<in> set (i # is). 0 \<le> fd \<and> fd = l_fd (listener s j)}"
      using IH(5) True other by (auto simp: k1_def close_any_def)
    ultimately show ?thesis using L by blast
  next
    case False
    then have "close_listeners is (s, k) = (s', k')" "distinct is" using Cons.prems by simp_all
    note IH = Cons.IH [OF this]
    have e1: "j \<in> set (i # is) \<and> 0 \<le> l_fd (listener s j) \<longleftrightarrow> j \<in> set is \<and> 0 \<le> l_fd (listener s j)" for j
      using False by auto
    have e2: "filter (\<lambda>i. 0 \<le> l_fd (listener s i)) (i # is) = filter (\<lambda>i. 0 \<le> l_fd (listener s i)) is"
      using False by simp
    have e3: "{fd. \<exists>j \<in> set (i # is). 0 \<le> fd \<and> fd = l_fd (listener s j)} =
        {fd. \<exists>j \<in> set is. 0 \<le> fd \<and> fd = l_fd (listener s j)}"
      using False by auto
    show ?thesis unfolding e1 e2 e3 by (rule IH)
  qed
qed

lemma pull_all_spec:
  assumes "wq_rep n (q, ls) ws"
  shows "\<exists>q' ls'. pull_all (q, ls) = Some (q', ls') \<and> wq_rep n (q', ls') [] \<and> same_listeners ls ls'"
  using assms
proof (induction ws arbitrary: q ls)
  case Nil
  then show ?case using first_waiting [OF Nil] by (subst pull_all.simps) simp
next
  case (Cons l ws)
  from queuePull_spec [OF Cons.prems] obtain q1 ls1 where
    P: "queuePull (q, ls) = Some (q1, ls1)" "wq_rep n (q1, ls1) ws" "same_listeners ls ls1" by blast
  have "pull_all (q, ls) = pull_all (q1, ls1)"
    using first_waiting [OF Cons.prems] P(1) by (subst pull_all.simps) simp
  then show ?case using Cons.IH [OF P(2)] P(3) by (auto simp: same_listeners_def)
qed

text \<open>No listener is open any more.\<close>

definition no_listeners :: "sv_config \<Rightarrow> POServer \<Rightarrow> bool" where
  "no_listeners cfg s \<longleftrightarrow> (\<forall>i < NUM_LISTENERS cfg. l_fd (listener s i) = -1)"

lemma no_listeners_fds: "no_listeners cfg s \<Longrightarrow> listen_fds cfg s = []"
  by (auto simp: no_listeners_def listen_fds_def filter_empty_conv)

text \<open>The first half of \<^verbatim>\<open>poServer_shutdown\<close>: every listener is closed and none waits.\<close>

lemma shutdown_closes:
  assumes inv: "sv_inv_at cfg G others w us fs ws" and pos: "\<And>i. i < NUM_LISTENERS cfg \<Longrightarrow> 0 \<le> l_fd (listener (srv w) i)"
    and run: "unat (numListeners (srv w)) = NUM_LISTENERS cfg" and e: "0 \<le> efd (srv w)"
  shows "\<exists>w1. shut_listeners cfg w = Some w1 \<and> sv_inv_at cfg G others w1 us fs []
     \<and> no_listeners cfg (srv w1) \<and> kern w1 = (kern w)\<lparr>open_fds := open_fds (kern w1)\<rparr> \<and> conn (srv w1) = conn (srv w)
     \<and> efd (srv w1) = efd (srv w) \<and> isRunning (srv w1) = isRunning (srv w)"
proof -
  let ?n = "NUM_LISTENERS cfg" and ?s0 = "(srv w)\<lparr>listenersDown := True\<rparr>"
  obtain s k where C: "close_listeners [0..<?n] (?s0, kern w) = (s, k)" by fastforce
  from close_listeners_spec [OF C] have
    S: "s = ?s0\<lparr>listener := listener s, numListeners := numListeners s\<rparr>"
    and L: "\<And>i. listener s i = (if i < ?n \<and> 0 \<le> l_fd (listener (srv w) i) then (listener (srv w) i)\<lparr>l_fd := -1\<rparr> else listener (srv w) i)"
    and N: "numListeners s = numListeners (srv w) - of_nat (length (filter (\<lambda>i. 0 \<le> l_fd (listener (srv w) i)) [0..<?n]))"
    and K: "k = (kern w)\<lparr>open_fds := open_fds k\<rparr>"
    and O: "set (open_fds k) = set (open_fds (kern w)) - {fd. \<exists>i \<in> set [0..<?n]. 0 \<le> fd \<and> fd = l_fd (listener (srv w) i)}"
    by auto
  then have "filter (\<lambda>i. 0 \<le> l_fd (listener (srv w) i)) [0..<?n] = [0..<?n]" by (intro filter_True) (simp add: pos)
  moreover have "numListeners (srv w) = of_nat ?n" by (simp flip: run)
  ultimately have zero: "numListeners s = 0" using N by simp
  from inv have wq: "wq_rep ?n (waitingq (srv w), listener (srv w)) ws" and F: "fds_ok cfg others (srv w) (kern w) us"
    by (auto simp: sv_inv_at_def)
  have "l_next \<circ> listener s = l_next \<circ> listener (srv w)" "\<And>i. waiting (listener s i) = waiting (listener (srv w) i)"
    by (auto simp: fun_eq_iff L)
  moreover have fld: "waitingq s = waitingq (srv w)" "conn s = conn (srv w)" "used s = used (srv w)" "unusedq s = unusedq (srv w)"
    "efd s = efd (srv w)" "isRunning s = isRunning (srv w)" by (subst S, simp)+
  ultimately have "wq_rep ?n (waitingq s, listener s) ws" using wq by (simp add: wq_rep_def)
  from pull_all_spec [OF this] obtain q ls where
    P: "pull_all (waitingq s, listener s) = Some (q, ls)" "wq_rep ?n (q, ls) []" "same_listeners (listener s) ls" by blast
  define w1 where "w1 = w\<lparr>srv := s\<lparr>waitingq := q, listener := ls\<rparr>, kern := k\<rparr>"
  have nl: "no_listeners cfg (srv w1)" using P(3) L pos by (auto simp: no_listeners_def w1_def same_listeners_def)
  have exec: "shut_listeners cfg w = Some w1"
    using e run C P(1) zero by (simp add: shut_listeners_def w1_def)
  have "{fd. \<exists>i \<in> set [0..<?n]. 0 \<le> fd \<and> fd = l_fd (listener (srv w) i)} = set (listen_fds cfg (srv w))"
    by (auto simp: listen_fds_def)
  then have "fds_ok cfg others (srv w1) (kern w1) us"
    using F O no_listeners_fds [OF nl] fld by (auto simp: fds_ok_def w1_def conn_fds_def)
  moreover have "clock k = clock (kern w)" by (subst K) simp
  ultimately have "sv_inv_at cfg G others w1 us fs []"
    using inv P(2) fld K unfolding sv_inv_at_def by (auto simp: w1_def conn_rep_def)
  then show ?thesis using exec nl K fld by (intro exI [of _ w1]) (simp add: w1_def)
qed

lemma sv_inv_wait:
  assumes "sv_inv_at cfg G others w us fs ws" and "0 \<le> elapsed wk"
  shows "sv_inv_at cfg G others (w\<lparr>kern := epoll_wait wk (kern w)\<rparr>) us fs ws"
  using assms unfolding sv_inv_at_def by (fastforce simp: epoll_wait_def fds_ok_def)

text \<open>\<^verbatim>\<open>epoll_wait\<close> returns with no event: a timeout or a signal.\<close>

definition quiet :: "wake \<Rightarrow> bool" where
  "quiet wk \<longleftrightarrow> (answer wk = WaitTimeout \<or> answer wk = WaitInterrupted) \<and> 0 \<le> elapsed wk"

text \<open>Without waiting listeners the server only removes what is too old before it waits.\<close>

lemma ready_no_waiting:
  assumes "(if LONG_TIMEOUT cfg \<noteq> -1 then remove_old cfg cb (clock (kern w)) w else Some w) = Some w1"
    and "sv_inv_at cfg G others w1 us1 fs1 []"
  shows "ready_for_events cfg cb w = Some w1"
proof -
  from assms(2) have none: "wq_first (waitingq (srv w1)) = None" using first_waiting by (fastforce simp: sv_inv_at_def)
  then have "accept_waiting cfg w1 = Some w1" by (subst accept_waiting.simps) simp
  moreover have "lookForAcceptFromTimedOutConns cfg cb (clock (kern w)) w1 = Some w1"
    using none by (simp add: lookForAcceptFromTimedOutConns_def)
  ultimately show ?thesis using assms(1) by (simp add: ready_for_events_def)
qed

context server_cb
begin

lemma quiet_event:
  assumes inv: "sv_inv_at cfg G others w us fs []" and wk: "quiet wk"
  shows "\<exists>w' us' fs'. poServer_doNextEvent cfg cb wk w = Some w' \<and> sv_inv_at cfg G others w' us' fs' []
     \<and> shell (srv w') = shell (srv w) \<and> clock (kern w') = clock (kern w) + elapsed wk
     \<and> set us' = {c \<in> set us. LONG_TIMEOUT cfg = -1 \<or> \<not> older (LONG_TIMEOUT cfg) (clock (kern w)) c w}
     \<and> (\<forall>c \<in> set us'. acceptTime (conn (srv w') c) = acceptTime (conn (srv w) c))"
proof -
  have "\<exists>w1 us1 fs1. (if LONG_TIMEOUT cfg \<noteq> -1 then remove_old cfg cb (clock (kern w)) w else Some w) = Some w1
     \<and> sv_inv_at cfg G others w1 us1 fs1 [] \<and> kept w w1
     \<and> set us1 = {c \<in> set us. LONG_TIMEOUT cfg = -1 \<or> \<not> older (LONG_TIMEOUT cfg) (clock (kern w)) c w}
     \<and> (\<forall>c \<in> set us1. acceptTime (conn (srv w1) c) = acceptTime (conn (srv w) c))"
  proof (cases "LONG_TIMEOUT cfg = -1")
    case True
    then show ?thesis using inv by (intro exI [of _ w] exI [of _ us] exI [of _ fs]) simp
  next
    case False
    from remove_old_inv [OF inv, of "clock (kern w)"] obtain w1 us1 fs1 where
      A: "remove_old cfg cb (clock (kern w)) w = Some w1" "sv_inv_at cfg G others w1 us1 fs1 []" "kept w w1" "set us1 \<subseteq> set us"
       "\<forall>c \<in> set us1. \<not> older (LONG_TIMEOUT cfg) (clock (kern w)) c w"
       "\<forall>c \<in> set us. \<not> older (LONG_TIMEOUT cfg) (clock (kern w)) c w \<longrightarrow> c \<in> set us1"
       "\<forall>c \<in> set us1. body (conn (srv w1) c) = body (conn (srv w) c)" by blast
    have "acceptTime (conn (srv w1) c) = acceptTime (conn (srv w) c)" if "c \<in> set us1" for c
      using arg_cong [OF bspec [OF A(7) that], of acceptTime] by (simp add: body_def)
    then show ?thesis using False A by (intro exI [of _ w1] exI [of _ us1] exI [of _ fs1]) auto
  qed
  then obtain w1 us1 fs1 where
    A: "(if LONG_TIMEOUT cfg \<noteq> -1 then remove_old cfg cb (clock (kern w)) w else Some w) = Some w1"
     "sv_inv_at cfg G others w1 us1 fs1 []" "kept w w1"
     "set us1 = {c \<in> set us. LONG_TIMEOUT cfg = -1 \<or> \<not> older (LONG_TIMEOUT cfg) (clock (kern w)) c w}"
     "\<forall>c \<in> set us1. acceptTime (conn (srv w1) c) = acceptTime (conn (srv w) c)" by blast
  have "poServer_doNextEvent cfg cb wk w = Some (w1\<lparr>kern := epoll_wait wk (kern w1)\<rparr>)"
    using ready_no_waiting [OF A(1,2)] wk by (auto simp: poServer_doNextEvent_def quiet_def)
  moreover have "sv_inv_at cfg G others (w1\<lparr>kern := epoll_wait wk (kern w1)\<rparr>) us1 fs1 []"
    using sv_inv_wait [OF A(2)] wk by (simp add: quiet_def)
  ultimately show ?thesis using A(3-5)
    by (intro exI [of _ "w1\<lparr>kern := epoll_wait wk (kern w1)\<rparr>"] exI [of _ us1] exI [of _ fs1]) (simp add: kept_def epoll_wait_def)
qed

text \<open>
  The loop of \<^verbatim>\<open>poServer_shutdown\<close> while no event comes: without a long timeout no connection is ever removed; with one, no
  connection is left at the turn after it.
\<close>

lemma drain_quiet:
  assumes "sv_inv_at cfg G others w us fs []" and "list_all quiet wks"
  shows "\<exists>b w' us' fs'. drain cfg cb wks w = Some (b, w') \<and> sv_inv_at cfg G others w' us' fs' [] \<and> shell (srv w') = shell (srv w)
     \<and> (b \<longleftrightarrow> us' = []) \<and> (LONG_TIMEOUT cfg = -1 \<longrightarrow> set us' = set us)
     \<and> (LONG_TIMEOUT cfg \<noteq> -1 \<and> wks \<noteq> []
         \<and> (\<forall>c \<in> set us. acceptTime (conn (srv w) c) + of_int (LONG_TIMEOUT cfg) / 1000 \<le> clock (kern w) + sum_list (map elapsed (butlast wks)))
         \<longrightarrow> us' = [])"
  using assms
proof (induction wks arbitrary: w us fs)
  case Nil
  have "conn_rep cfg (srv w) us fs" using Nil.prems(1) by (simp add: sv_inv_at_def)
  from first_used [OF this] have "cl_first (used (srv w)) = None \<longleftrightarrow> us = []" by simp
  then show ?case using Nil.prems(1) by (intro exI [of _ "us = []"] exI [of _ w] exI [of _ us] exI [of _ fs]) simp
next
  case (Cons wk wks)
  have "conn_rep cfg (srv w) us fs" using Cons.prems(1) by (simp add: sv_inv_at_def)
  from first_used [OF this] have fu: "cl_first (used (srv w)) = None \<longleftrightarrow> us = []" by simp
  show ?case
  proof (cases "us = []")
    case True
    then show ?thesis using fu Cons.prems(1) by (intro exI [of _ True] exI [of _ w] exI [of _ us] exI [of _ fs]) simp
  next
    case False
    from quiet_event [OF Cons.prems(1), of wk] Cons.prems(2) obtain w1 us1 fs1 where
      E: "poServer_doNextEvent cfg cb wk w = Some w1" "sv_inv_at cfg G others w1 us1 fs1 []" "shell (srv w1) = shell (srv w)"
        "clock (kern w1) = clock (kern w) + elapsed wk"
        "set us1 = {c \<in> set us. LONG_TIMEOUT cfg = -1 \<or> \<not> older (LONG_TIMEOUT cfg) (clock (kern w)) c w}"
        "\<forall>c \<in> set us1. acceptTime (conn (srv w1) c) = acceptTime (conn (srv w) c)" by auto
    have l: "list_all quiet wks" using Cons.prems(2) by simp
    from Cons.IH [OF E(2) l] obtain b w' us' fs' where
      I: "drain cfg cb wks w1 = Some (b, w')" "sv_inv_at cfg G others w' us' fs' []" "shell (srv w') = shell (srv w1)" "b \<longleftrightarrow> us' = []"
        "LONG_TIMEOUT cfg = -1 \<longrightarrow> set us' = set us1"
        "LONG_TIMEOUT cfg \<noteq> -1 \<and> wks \<noteq> []
         \<and> (\<forall>c \<in> set us1. acceptTime (conn (srv w1) c) + of_int (LONG_TIMEOUT cfg) / 1000 \<le> clock (kern w1) + sum_list (map elapsed (butlast wks)))
         \<longrightarrow> us' = []" by blast
    have run: "drain cfg cb (wk # wks) w = Some (b, w')" using False fu E(1) I(1) by auto
    have gone: "us' = []" if long: "LONG_TIMEOUT cfg \<noteq> -1"
      and t: "\<forall>c \<in> set us. acceptTime (conn (srv w) c) + of_int (LONG_TIMEOUT cfg) / 1000
        \<le> clock (kern w) + sum_list (map elapsed (butlast (wk # wks)))"
    proof (cases "wks = []")
      case True
      have "older (LONG_TIMEOUT cfg) (clock (kern w)) c w" if "c \<in> set us" for c
        using bspec [OF t that] True by (simp add: older_def)
      then have "us1 = []" using E(5) long by (cases us1) auto
      moreover have "conn_rep cfg (srv w1) us1 fs1" using E(2) by (simp add: sv_inv_at_def)
      ultimately have "cl_first (used (srv w1)) = None" using first_used by fastforce
      then show ?thesis using I(1,4) True by simp
    next
      case ne: False
      have "\<forall>c \<in> set us1. acceptTime (conn (srv w1) c) + of_int (LONG_TIMEOUT cfg) / 1000
          \<le> clock (kern w1) + sum_list (map elapsed (butlast wks))"
      proof
        fix c assume c: "c \<in> set us1"
        then have "c \<in> set us" using E(5) by simp
        from bspec [OF t this] show "acceptTime (conn (srv w1) c) + of_int (LONG_TIMEOUT cfg) / 1000
          \<le> clock (kern w1) + sum_list (map elapsed (butlast wks))"
          using bspec [OF E(6) c] ne unfolding E(4) by simp
      qed
      then show ?thesis using I(6) long ne by blast
    qed
    show ?thesis using run I(2-5) E(3,5) gone
      by (intro exI [of _ b] exI [of _ w'] exI [of _ us'] exI [of _ fs']) auto
  qed
qed

subsection \<open>Destroying\<close>

lemma remove_all_inv:
  assumes "sv_inv_at cfg G others w us fs ws"
  shows "\<exists>w' fs'. remove_all cfg cb w = Some w' \<and> sv_inv_at cfg G others w' [] fs' ws \<and> shell (srv w') = shell (srv w)"
  using assms
proof (induction us arbitrary: w fs)
  case Nil
  then have "cl_first (used (srv w)) = None" using first_used by (fastforce simp: sv_inv_at_def)
  then show ?case using Nil by (subst remove_all.simps) auto
next
  case (Cons c us)
  then have fr: "cl_first (used (srv w)) = Some c" using first_used by (fastforce simp: sv_inv_at_def)
  from remove_kept [OF Cons.prems, of c] obtain w1 where
    A: "removeConnection cfg cb c w = Some w1" "sv_inv_at cfg G others w1 us (fs @ [c]) ws" "kept w w1" by auto
  have "remove_all cfg cb w = remove_all cfg cb w1" using fr A(1) by (subst remove_all.simps) simp
  then show ?case using Cons.IH [OF A(2)] A(3) by (auto simp: kept_def)
qed

lemma destroy_after_shutdown:
  assumes inv: "sv_inv_at cfg G others w us fs ws" and nl: "no_listeners cfg (srv w)" and e: "0 \<le> efd (srv w)"
  shows "\<exists>w'. poServer_destroy cfg cb w = Some w' \<and> set (open_fds (kern w')) = others"
proof -
  have quiet: "close_quietly is (srv w) k = k" if "set is \<subseteq> {..<NUM_LISTENERS cfg}" for "is" k
    using that nl by (induction "is") (auto simp: no_listeners_def)
  from remove_all_inv [OF inv] obtain w1 fs1 where
    R: "remove_all cfg cb w = Some w1" "sv_inv_at cfg G others w1 [] fs1 ws" "shell (srv w1) = shell (srv w)" by blast
  have nl1: "no_listeners cfg (srv w1)" and e1: "efd (srv w1) = efd (srv w)"
    using nl R(3) by (auto simp: no_listeners_def shell_def fun_eq_iff)
  have checked: "close_checked is (srv w1) k = Some k" if "set is \<subseteq> {..<NUM_LISTENERS cfg}" for "is" k
    using that nl1 by (induction "is") (auto simp: no_listeners_def)
  have zero: "cl_num (used (srv w1)) = 0" using R(2) by (simp add: sv_inv_at_def conn_rep_def unat_eq_zero_iff)
  have F: "set (open_fds (kern w1)) = others \<union> {efd (srv w)}" "efd (srv w) \<notin> others"
    using R(2) no_listeners_fds [OF nl1] e1 by (auto simp: sv_inv_at_def fds_ok_def conn_fds_def)
  have "poServer_destroy cfg cb w = Some (w1\<lparr>kern := (kern w1)\<lparr>open_fds := removeAll (efd (srv w)) (open_fds (kern w1))\<rparr>\<rparr>)"
    using e quiet [of "[0..<NUM_LISTENERS cfg]"] checked [of "[0..<NUM_LISTENERS cfg]"] R(1) zero F e1
    by (simp add: poServer_destroy_def close_fd_def atLeast0LessThan)
  then show ?thesis using F by auto
qed

end

text \<open>A server whose listeners are still open: they are closed first and closed again at the end.\<close>

lemma listRemove_listener: "listRemove cfg c s = Some s' \<Longrightarrow> listener s' = listener s"
  by (auto simp: listRemove_def Let_def bind_eq_Some_conv)

lemma removeConnection_frame:
  assumes "removeConnection cfg cb c w = Some w'"
  shows "listener (srv w') = listener (srv w) \<and> set (open_fds (kern w')) \<subseteq> set (open_fds (kern w))"
proof -
  from assms obtain s where L: "listRemove cfg c (srv w) = Some s"
    by (auto simp: removeConnection_def Let_def bind_eq_Some_conv)
  note ls = listRemove_listener [OF L]
  show ?thesis
  proof (cases "cleanupCallback (conn s c)")
    case None
    then show ?thesis using assms L ls
      by (auto simp: removeConnection_def Let_def bind_eq_Some_conv close_fd_def)
  next
    case (Some k)
    obtain rt x u where "cb k (cleanupData (conn s c)) (conn s c) (usr w) = (rt, x, u)" by (rule prod_cases3)
    then show ?thesis using assms L ls Some
      by (auto simp: removeConnection_def Let_def bind_eq_Some_conv close_fd_def call_cb_def)
  qed
qed

lemma remove_all_frame:
  assumes "remove_all cfg cb w = Some w'"
  shows "listener (srv w') = listener (srv w) \<and> set (open_fds (kern w')) \<subseteq> set (open_fds (kern w))"
proof (rule remove_all.raw_induct [OF _ assms], goal_cases)
  case (1 rec cfg cb w w')
  then show ?case
    by (fastforce split: option.splits simp: bind_eq_Some_conv dest!: removeConnection_frame)
qed

lemma close_quietly_removes:
  assumes "i \<in> set is" and "0 \<le> l_fd (listener s i)"
  shows "l_fd (listener s i) \<notin> set (open_fds (close_quietly is s k))"
proof -
  have sub: "set (open_fds (close_quietly is s k)) \<subseteq> set (open_fds k)" for "is" k
  proof (induction "is" arbitrary: k)
    case (Cons j "is")
    show ?case using Cons.IH [of "close_any (l_fd (listener s j)) k"] Cons.IH [of k] by (auto simp: close_any_def)
  qed simp
  show ?thesis using assms
  proof (induction "is" arbitrary: k)
    case (Cons j "is")
    then show ?case using sub [of "is" "close_any (l_fd (listener s i)) k"] by (auto simp: close_any_def)
  qed simp
qed

lemma close_checked_fails:
  assumes "i \<in> set is" and "0 \<le> l_fd (listener s i)" and "l_fd (listener s i) \<notin> set (open_fds k)"
  shows "close_checked is s k = None"
  using assms
proof (induction "is" arbitrary: k)
  case (Cons j "is")
  then show ?case by (auto simp: close_fd_def ASSERT_def)
qed simp

lemma destroy_double_close:
  assumes i: "i < NUM_LISTENERS cfg" "0 \<le> l_fd (listener (srv w) i)"
  shows "poServer_destroy cfg cb w = None"
proof -
  let ?k = "close_quietly [0..<NUM_LISTENERS cfg] (srv w) (kern w)"
  have gone: "l_fd (listener (srv w) i) \<notin> set (open_fds ?k)" using close_quietly_removes i by simp
  have "close_checked [0..<NUM_LISTENERS cfg] (srv w1) (kern w1) = None" if "remove_all cfg cb (w\<lparr>kern := ?k\<rparr>) = Some w1" for w1
    using remove_all_frame [OF that] close_checked_fails [of i "[0..<NUM_LISTENERS cfg]" "srv w1" "kern w1"] i gone by auto
  then show ?thesis
    by (auto simp: poServer_destroy_def ASSERT_def split: Option.bind_splits)
qed

end
