(* ===== verification/ServerThreads.thy ===== *)
theory ServerThreads
  imports ServerLife
begin

text \<open>
  The server of src/potato_old/server.c with a thread pool: the protocol by which the master thread
  and the workers share a connection. Each connection has a mutex; the server mutex protects the
  lists. A step is one action of the master with the server mutex held, or one of the sections of
  \<^verbatim>\<open>ServiceConnection\<close>: getting the connection mutex, comparing \<^verbatim>\<open>changeCount\<close>, running the callbacks,
  and the last section with both mutexes. The master may do its actions in any order. A callback is
  one step with the releasing of the connection mutex; what it changes, \<open>server_cb\<close> says.
\<close>

subsection \<open>States and steps\<close>

text \<open>
  A task given to the pool: a \<^verbatim>\<open>struct POServer_worker\<close> with the connection and the \<^verbatim>\<open>changeCount\<close> it was
  made for, and where \<^verbatim>\<open>ServiceConnection\<close> is with it.
\<close>

datatype task_pc =
    TNone
  | TQueued nat int
  | TLocked nat int
  | TServing nat int
  | TUnlocked nat int bool

record 'u tserver =
  world :: "'u world"
  lock :: "nat \<Rightarrow> nat option"
  tasks :: "nat \<Rightarrow> task_pc"

datatype t_event =
    MListen nat
  | MAccept
  | MTryRemove nat
  | MDispatch epoll_event nat nat
  | MWait wake
  | WLock nat
  | WCheck nat
  | WServe nat
  | WEnd nat

definition is_used :: "sv_config \<Rightarrow> nat \<Rightarrow> 'u world \<Rightarrow> bool" where
  "is_used cfg c w \<longleftrightarrow> c < MAX_CONNECTIONS cfg \<and> c_fd (conn (srv w) c) \<noteq> -1"

text \<open>
  \<open>MDispatch ev c t\<close> makes \<open>t\<close> the new task. A \<^verbatim>\<open>mutexLock\<close> that would block is a step that is not
  enabled.
\<close>

fun t_enabled :: "sv_config \<Rightarrow> t_event \<Rightarrow> 'u tserver \<Rightarrow> bool" where
  "t_enabled cfg (MListen l) s = (l < NUM_LISTENERS cfg \<and> 0 \<le> l_fd (listener (srv (world s)) l))"
| "t_enabled cfg MAccept s = (case (wq_first (waitingq (srv (world s))), cq_front (unusedq (srv (world s)))) of
     (Some l, Some c) \<Rightarrow> lock s c = None \<or> backlog (kern (world s)) (l_fd (listener (srv (world s)) l)) = [] | _ \<Rightarrow> False)"
| "t_enabled cfg (MTryRemove c) s = is_used cfg c (world s)"
| "t_enabled cfg (MDispatch ev c t) s = (is_used cfg c (world s) \<and> lock s c = None \<and> tasks s t = TNone
     \<and> (EPOLLIN ev \<or> EPOLLOUT ev))"
| "t_enabled cfg (MWait wk) s = (0 \<le> elapsed wk \<and> (\<forall>p \<in> snd ` set (arrivals wk). p = Pending True True))"
| "t_enabled cfg (WLock t) s = (case tasks s t of TQueued c n \<Rightarrow> lock s c = None | _ \<Rightarrow> False)"
| "t_enabled cfg (WCheck t) s = (case tasks s t of TLocked c n \<Rightarrow> True | _ \<Rightarrow> False)"
| "t_enabled cfg (WServe t) s = (case tasks s t of TServing c n \<Rightarrow> True | _ \<Rightarrow> False)"
| "t_enabled cfg (WEnd t) s = (case tasks s t of TUnlocked c n b \<Rightarrow> lock s c = None | _ \<Rightarrow> False)"

fun t_exec :: "sv_config \<Rightarrow> 'u ucb \<Rightarrow> t_event \<Rightarrow> 'u tserver \<Rightarrow> 'u tserver option" where
  "t_exec cfg cb (MListen l) s = do {
     let w = world s;
     (q, ls) \<leftarrow> queuePush l (waitingq (srv w), listener (srv w));
     Some (s\<lparr>world := w\<lparr>srv := (srv w)\<lparr>waitingq := q, listener := ls\<rparr>\<rparr>\<rparr>) }"
| "t_exec cfg cb MAccept s = map_option (\<lambda>(_, w). s\<lparr>world := w\<rparr>) (poServer_accept cfg (world s))"
| "t_exec cfg cb (MTryRemove c) s =
     map_option (\<lambda>(_, w). s\<lparr>world := w\<rparr>) (checkTryRemoveConnection cfg cb (lock s c \<noteq> None) c (world s))"
| "t_exec cfg cb (MDispatch ev c t) s = (let w = conn_ready ev c (world s) in
     if call_it (conn (srv w) c)
     then Some (s\<lparr>world := w, tasks := (tasks s)(t := TQueued c (changeCount (conn (srv w) c)))\<rparr>)
     else Some (s\<lparr>world := w\<rparr>))"
| "t_exec cfg cb (MWait wk) s = Some (s\<lparr>world := (world s)\<lparr>kern := epoll_wait wk (kern (world s))\<rparr>\<rparr>)"
| "t_exec cfg cb (WLock t) s = (case tasks s t of
       TQueued c n \<Rightarrow> Some (s\<lparr>lock := (lock s)(c := Some t), tasks := (tasks s)(t := TLocked c n)\<rparr>) | _ \<Rightarrow> None)"
| "t_exec cfg cb (WCheck t) s = (case tasks s t of
       TLocked c n \<Rightarrow>
         if n \<noteq> changeCount (conn (srv (world s)) c)
         then Some (s\<lparr>lock := (lock s)(c := None), tasks := (tasks s)(t := TNone)\<rparr>)
         else Some (s\<lparr>tasks := (tasks s)(t := TServing c n)\<rparr>)
     | _ \<Rightarrow> None)"
| "t_exec cfg cb (WServe t) s = (case tasks s t of
       TServing c n \<Rightarrow> do {
         (removeMe, w) \<leftarrow> service cb c (world s);
         Some (s\<lparr>world := w, lock := (lock s)(c := None), tasks := (tasks s)(t := TUnlocked c n removeMe)\<rparr>) }
     | _ \<Rightarrow> None)"
| "t_exec cfg cb (WEnd t) s = (case tasks s t of
       TUnlocked c n removeMe \<Rightarrow> do {
         let x = conn (srv (world s)) c;
         w \<leftarrow> (if changeCount x = n \<and> removeMe \<or> markedForRemoval x
               then removeConnection cfg cb c (world s) else Some (world s));
         Some (s\<lparr>world := w, tasks := (tasks s)(t := TNone)\<rparr>) }
     | _ \<Rightarrow> None)"

inductive t_step :: "sv_config \<Rightarrow> 'u ucb \<Rightarrow> 'u tserver \<Rightarrow> 'u tserver \<Rightarrow> bool" for cfg cb where
  t_stepI: "t_enabled cfg e s \<Longrightarrow> t_exec cfg cb e s = Some s' \<Longrightarrow> t_step cfg cb s s'"

inductive_simps t_step_iff: "t_step cfg cb s s'"

fun t_run :: "sv_config \<Rightarrow> 'u ucb \<Rightarrow> t_event list \<Rightarrow> 'u tserver \<Rightarrow> 'u tserver option" where
  "t_run cfg cb [] s = Some s"
| "t_run cfg cb (e # es) s = (if t_enabled cfg e s then t_exec cfg cb e s \<bind> t_run cfg cb es else None)"

lemma t_run_steps: "t_run cfg cb es s = Some s' \<Longrightarrow> (t_step cfg cb)\<^sup>*\<^sup>* s s'"
proof (induction es arbitrary: s)
  case (Cons e es)
  then obtain s1 where "t_enabled cfg e s" "t_exec cfg cb e s = Some s1" "t_run cfg cb es s1 = Some s'"
    by (auto split: if_splits simp: bind_eq_Some_conv)
  then show ?case using Cons.IH t_stepI converse_rtranclp_into_rtranclp by metis
qed simp

text \<open>The start: a server that satisfies its invariant and has no task yet.\<close>

definition t_init :: "sv_config \<Rightarrow> nat set \<Rightarrow> int set \<Rightarrow> 'u tserver \<Rightarrow> bool" where
  "t_init cfg G others s \<longleftrightarrow> sv_inv cfg G others (world s) \<and> kernel_calm (kern (world s))
     \<and> lock s = (\<lambda>_. None) \<and> tasks s = (\<lambda>_. TNone)"

subsection \<open>The invariant\<close>

text \<open>A task is not ahead of its connection; if it is up to date, the connection is still open.\<close>

definition fits :: "nat list \<Rightarrow> 'u world \<Rightarrow> nat \<Rightarrow> int \<Rightarrow> bool" where
  "fits us w c n \<longleftrightarrow> n \<le> changeCount (conn (srv w) c) \<and> (n = changeCount (conn (srv w) c) \<longrightarrow> c \<in> set us)"

fun task_ok :: "sv_config \<Rightarrow> nat list \<Rightarrow> 'u world \<Rightarrow> task_pc \<Rightarrow> bool" where
  "task_ok cfg us w TNone = True"
| "task_ok cfg us w (TQueued c n) = (c < MAX_CONNECTIONS cfg \<and> fits us w c n)"
| "task_ok cfg us w (TLocked c n) = (c < MAX_CONNECTIONS cfg \<and> fits us w c n)"
| "task_ok cfg us w (TServing c n) = (c \<in> set us \<and> n = changeCount (conn (srv w) c))"
| "task_ok cfg us w (TUnlocked c n b) = (c < MAX_CONNECTIONS cfg \<and> fits us w c n)"

fun holds_lock :: "task_pc \<Rightarrow> nat \<Rightarrow> bool" where
  "holds_lock (TLocked c n) d = (c = d)"
| "holds_lock (TServing c n) d = (c = d)"
| "holds_lock _ d = False"

definition t_inv_at :: "sv_config \<Rightarrow> nat set \<Rightarrow> int set \<Rightarrow> 'u tserver \<Rightarrow> nat list \<Rightarrow> nat list \<Rightarrow> nat list \<Rightarrow> bool" where
  "t_inv_at cfg G others s us fs ws \<longleftrightarrow> sv_inv_at cfg G others (world s) us fs ws
     \<and> kernel_calm (kern (world s))
     \<and> (\<forall>t. task_ok cfg us (world s) (tasks s t))
     \<and> (\<forall>t c. lock s c = Some t \<longleftrightarrow> holds_lock (tasks s t) c)"

definition t_inv :: "sv_config \<Rightarrow> nat set \<Rightarrow> int set \<Rightarrow> 'u tserver \<Rightarrow> bool" where
  "t_inv cfg G others s \<longleftrightarrow> (\<exists>us fs ws. t_inv_at cfg G others s us fs ws)"

lemma t_invI: "t_inv_at cfg G others s us fs ws \<Longrightarrow> t_inv cfg G others s"
  unfolding t_inv_def by blast

lemma used_iff:
  assumes "sv_inv_at cfg G others w us fs ws"
  shows "is_used cfg c w \<longleftrightarrow> c \<in> set us"
proof -
  from assms have "set us \<union> set fs = {..<MAX_CONNECTIONS cfg}" "\<And>i. i \<in> set fs \<Longrightarrow> c_fd (conn (srv w) i) = -1"
    "\<And>i. i \<in> set us \<Longrightarrow> 0 \<le> c_fd (conn (srv w) i)"
    by (auto simp: sv_inv_at_def conn_rep_def conn_clear_def fds_ok_def)
  then show ?thesis by (fastforce simp: is_used_def)
qed

lemma task_ok_step:
  assumes "task_ok cfg us w pc"
    and "\<And>c. changeCount (conn (srv w') c) = changeCount (conn (srv w) c) \<and> (c \<in> set us \<longrightarrow> c \<in> set us')
        \<or> changeCount (conn (srv w') c) > changeCount (conn (srv w) c) \<and> \<not> holds_lock pc c"
  shows "task_ok cfg us' w' pc"
proof -
  have "fits us' w' c n" if "fits us w c n" for c n
    using that assms(2) [of c] by (auto simp: fits_def)
  moreover have "task_ok cfg us' w' (TServing c n)" if "pc = TServing c n" for c n
    using that assms(1) assms(2) [of c] by auto
  ultimately show ?thesis using assms(1) by (cases pc) auto
qed

lemma t_inv_world:
  assumes inv: "t_inv_at cfg G others s us fs ws" and inv': "sv_inv_at cfg G others w' us' fs' ws'" and calm: "kernel_calm (kern w')"
    and cc: "\<And>c. changeCount (conn (srv w') c) = changeCount (conn (srv (world s)) c) \<and> (c \<in> set us \<longrightarrow> c \<in> set us')
        \<or> changeCount (conn (srv w') c) > changeCount (conn (srv (world s)) c) \<and> lock s c = None"
  shows "t_inv_at cfg G others (s\<lparr>world := w'\<rparr>) us' fs' ws'"
proof -
  have "task_ok cfg us' w' (tasks s t)" for t
  proof (rule task_ok_step)
    show "task_ok cfg us (world s) (tasks s t)" using inv by (simp add: t_inv_at_def)
    show "changeCount (conn (srv w') c) = changeCount (conn (srv (world s)) c) \<and> (c \<in> set us \<longrightarrow> c \<in> set us')
        \<or> changeCount (conn (srv w') c) > changeCount (conn (srv (world s)) c) \<and> \<not> holds_lock (tasks s t) c" for c
      using cc [of c] inv unfolding t_inv_at_def by (metis option.distinct(1))
  qed
  then show ?thesis using inv inv' calm by (simp add: t_inv_at_def)
qed

text \<open>A task takes its next state; only it may hold or give up the mutex of its connection.\<close>

lemma t_inv_task:
  assumes inv: "t_inv_at cfg G others s us fs ws" and ok: "task_ok cfg us (world s) pc"
    and lk: "\<And>c u. lk c = Some u \<longleftrightarrow> (if u = t then holds_lock pc c else lock s c = Some u)"
  shows "t_inv_at cfg G others (s\<lparr>lock := lk, tasks := (tasks s)(t := pc)\<rparr>) us fs ws"
  using inv ok lk by (simp add: t_inv_at_def)

lemma t_inv_task_free:
  assumes "t_inv_at cfg G others s us fs ws" and "task_ok cfg us (world s) pc"
    and "\<And>c. \<not> holds_lock (tasks s t) c" and "\<And>c. \<not> holds_lock pc c"
  shows "t_inv_at cfg G others (s\<lparr>tasks := (tasks s)(t := pc)\<rparr>) us fs ws"
  using assms by (auto simp: t_inv_at_def)

lemma touched_changeCount:
  assumes "touched G c w w1"
  shows "changeCount (conn (srv w1) i) = changeCount (conn (srv w) i)"
proof -
  from assms obtain x where x: "srv w1 = (srv w)\<lparr>conn := (conn (srv w))(c := x)\<rparr>" "owned x = owned (conn (srv w) c)"
    by (auto simp: touched_def)
  then show ?thesis using owned_fields(1) [OF x(2)] by simp
qed

lemma t_inv_touched:
  assumes inv: "t_inv_at cfg G others s us fs ws" and c: "c \<in> set us" and t: "touched G c (world s) w1"
  shows "t_inv_at cfg G others (s\<lparr>world := w1\<rparr>) us fs ws"
proof (rule t_inv_world [OF inv])
  from inv have sv: "sv_inv_at cfg G others (world s) us fs ws" and calm: "kernel_calm (kern (world s))"
    by (auto simp: t_inv_at_def)
  show "sv_inv_at cfg G others w1 us fs ws" by (rule touched_inv [OF sv c t])
  show "kernel_calm (kern w1)" using t calm by (auto simp: touched_def)
  show "changeCount (conn (srv w1) i) = changeCount (conn (srv (world s)) i) \<and> (i \<in> set us \<longrightarrow> i \<in> set us)
        \<or> changeCount (conn (srv w1) i) > changeCount (conn (srv (world s)) i) \<and> lock s i = None" for i
    using touched_changeCount [OF t, of i] by simp
qed

context server_cb
begin

lemma remove_t_inv:
  assumes inv: "t_inv_at cfg G others s us fs ws" and c: "c \<in> set us" and free: "lock s c = None"
  shows "\<exists>w'. removeConnection cfg cb c (world s) = Some w'
     \<and> t_inv_at cfg G others (s\<lparr>world := w'\<rparr>) (remove1 c us) (fs @ [c]) ws"
proof -
  from inv have sv: "sv_inv_at cfg G others (world s) us fs ws" and calm: "kernel_calm (kern (world s))"
    by (auto simp: t_inv_at_def)
  from removeConnection_inv [OF sv c] obtain w' where
    R: "removeConnection cfg cb c (world s) = Some w'" "sv_inv_at cfg G others w' (remove1 c us) (fs @ [c]) ws"
       "kern w' = (kern (world s))\<lparr>open_fds := removeAll (c_fd (conn (srv (world s)) c)) (open_fds (kern (world s)))\<rparr>"
       "\<And>i. i \<noteq> c \<Longrightarrow> body (conn (srv w') i) = body (conn (srv (world s)) i)"
       "changeCount (conn (srv w') c) = changeCount (conn (srv (world s)) c) + 1" by blast
  have "t_inv_at cfg G others (s\<lparr>world := w'\<rparr>) (remove1 c us) (fs @ [c]) ws"
  proof (rule t_inv_world [OF inv R(2)])
    show "kernel_calm (kern w')" using calm R(3) by (simp add: kernel_calm_def)
    show "changeCount (conn (srv w') i) = changeCount (conn (srv (world s)) i) \<and> (i \<in> set us \<longrightarrow> i \<in> set (remove1 c us))
        \<or> changeCount (conn (srv w') i) > changeCount (conn (srv (world s)) i) \<and> lock s i = None" for i
      using R(5) free body_fields(1) [OF R(4), of i] set_remove1_sup [of us c] by (cases "i = c") auto
  qed
  then show ?thesis using R(1) by blast
qed

lemma MListen_t_inv:
  assumes inv: "t_inv_at cfg G others s us fs ws" and en: "t_enabled cfg (MListen l) s"
  shows "\<exists>s'. t_exec cfg cb (MListen l) s = Some s' \<and> t_inv cfg G others s'"
proof -
  let ?w = "world s"
  from inv have sv: "sv_inv_at cfg G others ?w us fs ws" by (simp add: t_inv_at_def)
  then have wq: "wq_rep (NUM_LISTENERS cfg) (waitingq (srv ?w), listener (srv ?w)) ws" and F: "fds_ok cfg others (srv ?w) (kern ?w) us"
    by (auto simp: sv_inv_at_def)
  from queuePush_spec [OF wq, of l] en obtain q ls where
    Q: "queuePush l (waitingq (srv ?w), listener (srv ?w)) = Some (q, ls)" "same_listeners (listener (srv ?w)) ls"
       "wq_rep (NUM_LISTENERS cfg) (q, ls) (if l \<in> set ws then ws else ws @ [l])" by auto
  define w1 where "w1 = ?w\<lparr>srv := (srv ?w)\<lparr>waitingq := q, listener := ls\<rparr>\<rparr>"
  have "listen_fds cfg (srv w1) = listen_fds cfg (srv ?w)"
    using Q(2) by (simp add: listen_fds_def w1_def same_listeners_def comp_def)
  then have "fds_ok cfg others (srv w1) (kern w1) us" using F by (simp add: fds_ok_def w1_def conn_fds_def)
  then have "sv_inv_at cfg G others w1 us fs (if l \<in> set ws then ws else ws @ [l])"
    using sv Q(2,3) en by (auto simp: sv_inv_at_def w1_def conn_rep_def same_listeners_def)
  then have "t_inv_at cfg G others (s\<lparr>world := w1\<rparr>) us fs (if l \<in> set ws then ws else ws @ [l])"
    by (rule t_inv_world [OF inv]) (use inv in \<open>auto simp: w1_def t_inv_at_def\<close>)
  moreover have "t_exec cfg cb (MListen l) s = Some (s\<lparr>world := w1\<rparr>)" using Q(1) by (simp add: w1_def Let_def)
  ultimately show ?thesis by (blast intro: t_invI)
qed

lemma MAccept_t_inv:
  assumes inv: "t_inv_at cfg G others s us fs ws" and en: "t_enabled cfg MAccept s"
  shows "\<exists>s'. t_exec cfg cb MAccept s = Some s' \<and> t_inv cfg G others s'"
proof -
  let ?w = "world s"
  from inv have sv: "sv_inv_at cfg G others ?w us fs ws" and calm: "kernel_calm (kern ?w)" by (auto simp: t_inv_at_def)
  then have wq: "wq_rep (NUM_LISTENERS cfg) (waitingq (srv ?w), listener (srv ?w)) ws" and rep: "conn_rep cfg (srv ?w) us fs"
    by (auto simp: sv_inv_at_def)
  from en have "ws \<noteq> []" "fs \<noteq> []"
    using first_waiting [OF wq] rep by (auto split: option.splits simp: conn_rep_def)
  then obtain l ws0 c fs0 where ws: "ws = l # ws0" and fs: "fs = c # fs0" by (meson neq_Nil_conv)
  show ?thesis
  proof (cases "backlog (kern ?w) (l_fd (listener (srv ?w) l))")
    case Nil
    from accept_again [OF sv [unfolded ws fs] Nil] obtain w' where
      A: "poServer_accept cfg ?w = Some (False, w')" "sv_inv_at cfg G others w' us (c # fs0) ws0" "kern w' = kern ?w"
         "conn (srv w') = conn (srv ?w)" by blast
    have "t_inv_at cfg G others (s\<lparr>world := w'\<rparr>) us (c # fs0) ws0"
      by (rule t_inv_world [OF inv A(2)]) (use A calm in auto)
    then show ?thesis using A(1) by (auto intro: t_invI)
  next
    case (Cons p ps)
    then have p: "p = Pending True True" using calm by (metis kernel_calm_def list.set_intros(1))
    from accept_new [OF sv [unfolded ws fs] Cons [unfolded p]] obtain w' where
      A: "poServer_accept cfg ?w = Some (False, w')" "sv_inv_at cfg G others w' (us @ [c]) fs0 (l # ws0)"
         "backlog (kern w') = (backlog (kern ?w))(l_fd (listener (srv ?w) l) := ps)"
         "changeCount (conn (srv w') c) = changeCount (conn (srv ?w) c)"
         "\<And>i. i \<noteq> c \<Longrightarrow> body (conn (srv w') i) = body (conn (srv ?w) i)" by blast
    have "kernel_calm (kern w')" by (rule kernel_calm_pop [OF calm Cons A(3)])
    moreover have "changeCount (conn (srv w') i) = changeCount (conn (srv ?w) i)" for i
      using A(4) body_fields(1) [OF A(5), of i] by (cases "i = c") auto
    ultimately have "t_inv_at cfg G others (s\<lparr>world := w'\<rparr>) (us @ [c]) fs0 (l # ws0)"
      by (intro t_inv_world [OF inv A(2)]) auto
    then show ?thesis using A(1) by (auto intro: t_invI)
  qed
qed

lemma MTryRemove_t_inv:
  assumes inv: "t_inv_at cfg G others s us fs ws" and en: "t_enabled cfg (MTryRemove c) s"
  shows "\<exists>s'. t_exec cfg cb (MTryRemove c) s = Some s' \<and> t_inv cfg G others s'"
proof -
  let ?w = "world s"
  from inv have sv: "sv_inv_at cfg G others ?w us fs ws" and calm: "kernel_calm (kern ?w)" by (auto simp: t_inv_at_def)
  from en used_iff [OF sv] have c: "c \<in> set us" by simp
  show ?thesis
  proof (cases "lock s c = None")
    case True
    with remove_t_inv [OF inv c] show ?thesis by (auto simp: checkTryRemoveConnection_def intro: t_invI)
  next
    case False
    define w1 where "w1 = set_conn c (\<lambda>x. x\<lparr>markedForRemoval := True\<rparr>) ?w"
    have cl: "set_option (cleanupCallback (conn (srv ?w) c)) \<subseteq> G" using sv c by (simp add: sv_inv_at_def)
    have "sv_inv_at cfg G others w1 us fs ws"
      by (rule sv_inv_at_conn [OF sv c, where x = "(conn (srv ?w) c)\<lparr>markedForRemoval := True\<rparr>"])
        (use cl in \<open>simp_all add: w1_def set_conn_def upd_def\<close>)
    then have "t_inv_at cfg G others (s\<lparr>world := w1\<rparr>) us fs ws"
      by (rule t_inv_world [OF inv]) (use calm in \<open>auto simp: w1_def upd_apply\<close>)
    then show ?thesis using False by (auto simp: checkTryRemoveConnection_def w1_def intro: t_invI)
  qed
qed

lemma MDispatch_t_inv:
  assumes inv: "t_inv_at cfg G others s us fs ws" and en: "t_enabled cfg (MDispatch ev c t) s"
  shows "\<exists>s'. t_exec cfg cb (MDispatch ev c t) s = Some s' \<and> t_inv cfg G others s'"
proof -
  let ?w = "world s"
  from inv have sv: "sv_inv_at cfg G others ?w us fs ws" and calm: "kernel_calm (kern ?w)" by (auto simp: t_inv_at_def)
  from en used_iff [OF sv] have c: "c \<in> set us" by simp
  then have cm: "c < MAX_CONNECTIONS cfg" using sv by (auto simp: sv_inv_at_def conn_rep_def)
  define w1 where "w1 = conn_ready ev c ?w"
  have cl: "set_option (cleanupCallback (conn (srv ?w) c)) \<subseteq> G" using sv c by (simp add: sv_inv_at_def)
  have t1: "touched G c ?w w1"
    unfolding w1_def conn_ready_def by (rule touched_set [OF touched_refl [OF cl]]) simp_all
  have "t_inv_at cfg G others (s\<lparr>world := w1\<rparr>) us fs ws" by (rule t_inv_touched [OF inv c t1])
  then have I: "t_inv_at cfg G others (s\<lparr>world := w1\<rparr>) us fs ws" .
  have "t_inv_at cfg G others ((s\<lparr>world := w1\<rparr>)\<lparr>tasks := (tasks (s\<lparr>world := w1\<rparr>))(t := TQueued c (changeCount (conn (srv w1) c)))\<rparr>) us fs ws"
    by (rule t_inv_task_free [OF I]) (use en cm c in \<open>auto simp: fits_def\<close>)
  with I show ?thesis by (auto simp: Let_def w1_def [symmetric] intro: t_invI)
qed

lemma MWait_t_inv:
  assumes inv: "t_inv_at cfg G others s us fs ws" and en: "t_enabled cfg (MWait wk) s"
  shows "\<exists>s'. t_exec cfg cb (MWait wk) s = Some s' \<and> t_inv cfg G others s'"
proof -
  let ?w = "world s"
  define w1 where "w1 = ?w\<lparr>kern := epoll_wait wk (kern ?w)\<rparr>"
  from inv have sv: "sv_inv_at cfg G others ?w us fs ws" and calm: "kernel_calm (kern ?w)" by (auto simp: t_inv_at_def)
  have "sv_inv_at cfg G others w1 us fs ws"
    using sv en unfolding sv_inv_at_def by (fastforce simp: w1_def epoll_wait_def fds_ok_def)
  moreover have "kernel_calm (kern w1)"
    using calm en by (auto simp: kernel_calm_def w1_def epoll_wait_def)
  ultimately have "t_inv_at cfg G others (s\<lparr>world := w1\<rparr>) us fs ws"
    by (rule t_inv_world [OF inv]) (simp add: w1_def)
  then show ?thesis by (auto simp: w1_def intro: t_invI)
qed

lemma WLock_t_inv:
  assumes inv: "t_inv_at cfg G others s us fs ws" and en: "t_enabled cfg (WLock t) s"
  shows "\<exists>s'. t_exec cfg cb (WLock t) s = Some s' \<and> t_inv cfg G others s'"
proof -
  from en obtain c n where t: "tasks s t = TQueued c n" and free: "lock s c = None" by (auto split: task_pc.splits)
  have ok: "task_ok cfg us (world s) (TLocked c n)" using inv t unfolding t_inv_at_def by (metis task_ok.simps(2,3))
  have "lock s d \<noteq> Some t" for d using inv t by (simp add: t_inv_at_def)
  then have "t_inv_at cfg G others (s\<lparr>lock := (lock s)(c := Some t), tasks := (tasks s)(t := TLocked c n)\<rparr>) us fs ws"
    by (intro t_inv_task [OF inv ok]) (use free in auto)
  then show ?thesis using t by (auto intro: t_invI)
qed

lemma WCheck_t_inv:
  assumes inv: "t_inv_at cfg G others s us fs ws" and en: "t_enabled cfg (WCheck t) s"
  shows "\<exists>s'. t_exec cfg cb (WCheck t) s = Some s' \<and> t_inv cfg G others s'"
proof -
  from en obtain c n where t: "tasks s t = TLocked c n" by (auto split: task_pc.splits)
  have ok: "c < MAX_CONNECTIONS cfg" "fits us (world s) c n" using inv t unfolding t_inv_at_def by (metis task_ok.simps(3))+
  have lk: "lock s d = Some t \<longleftrightarrow> d = c" for d using inv t by (auto simp: t_inv_at_def)
  then have lkc: "lock s c = Some t" and lkd: "\<And>d. d \<noteq> c \<Longrightarrow> lock s d \<noteq> Some t" by simp_all
  show ?thesis
  proof (cases "n = changeCount (conn (srv (world s)) c)")
    case True
    have "t_inv_at cfg G others (s\<lparr>lock := lock s, tasks := (tasks s)(t := TServing c n)\<rparr>) us fs ws"
      by (rule t_inv_task [OF inv]) (use True ok lk in \<open>auto simp: fits_def\<close>)
    then show ?thesis using t True by (auto intro: t_invI)
  next
    case False
    have "t_inv_at cfg G others (s\<lparr>lock := (lock s)(c := None), tasks := (tasks s)(t := TNone)\<rparr>) us fs ws"
      by (rule t_inv_task [OF inv]) (use lkd lkc in auto)
    then show ?thesis using t False by (auto intro: t_invI)
  qed
qed

lemma WServe_t_inv:
  assumes inv: "t_inv_at cfg G others s us fs ws" and en: "t_enabled cfg (WServe t) s"
  shows "\<exists>s'. t_exec cfg cb (WServe t) s = Some s' \<and> t_inv cfg G others s'"
proof -
  let ?w = "world s"
  from inv have sv: "sv_inv_at cfg G others ?w us fs ws" by (simp add: t_inv_at_def)
  from en obtain c n where t: "tasks s t = TServing c n" by (auto split: task_pc.splits)
  have c: "c \<in> set us" "n = changeCount (conn (srv ?w) c)" using inv t unfolding t_inv_at_def by (metis task_ok.simps(4))+
  then have cm: "c < MAX_CONNECTIONS cfg" using sv by (auto simp: sv_inv_at_def conn_rep_def)
  from sv c have "0 \<le> c_fd (conn (srv ?w) c)" "set_option (cleanupCallback (conn (srv ?w) c)) \<subseteq> G"
    by (auto simp: sv_inv_at_def fds_ok_def)
  from service_touched [OF this] obtain rm w1 where S: "service cb c ?w = Some (rm, w1)" "touched G c ?w w1" by blast
  have I: "t_inv_at cfg G others (s\<lparr>world := w1\<rparr>) us fs ws" by (rule t_inv_touched [OF inv c(1) S(2)])
  have "changeCount (conn (srv w1) c) = n" using touched_changeCount [OF S(2), of c] c(2) by simp
  then have ok: "task_ok cfg us (world (s\<lparr>world := w1\<rparr>)) (TUnlocked c n rm)" using cm c(1) by (simp add: fits_def)
  have lk: "lock s d = Some t \<longleftrightarrow> d = c" for d using inv t by (auto simp: t_inv_at_def)
  then have lkc: "lock s c = Some t" and lkd: "\<And>d. d \<noteq> c \<Longrightarrow> lock s d \<noteq> Some t" by simp_all
  have "t_inv_at cfg G others ((s\<lparr>world := w1\<rparr>)\<lparr>lock := (lock s)(c := None), tasks := (tasks (s\<lparr>world := w1\<rparr>))(t := TUnlocked c n rm)\<rparr>) us fs ws"
    by (rule t_inv_task [OF I ok]) (use lkd lkc in auto)
  then show ?thesis using t S(1) by (auto intro: t_invI)
qed

lemma WEnd_t_inv:
  assumes inv: "t_inv_at cfg G others s us fs ws" and en: "t_enabled cfg (WEnd t) s"
  shows "\<exists>s'. t_exec cfg cb (WEnd t) s = Some s' \<and> t_inv cfg G others s'"
proof -
  let ?w = "world s"
  from inv have sv: "sv_inv_at cfg G others ?w us fs ws" by (simp add: t_inv_at_def)
  from en obtain c n rm where t: "tasks s t = TUnlocked c n rm" and free: "lock s c = None" by (auto split: task_pc.splits)
  have ok: "c < MAX_CONNECTIONS cfg" "fits us ?w c n" using inv t unfolding t_inv_at_def by (metis task_ok.simps(5))+
  let ?x = "conn (srv ?w) c"
  let ?go = "changeCount ?x = n \<and> rm \<or> markedForRemoval ?x"
  have c: "c \<in> set us" if ?go
  proof (rule ccontr)
    assume "c \<notin> set us"
    then have "c \<in> set fs" using sv ok(1) by (auto simp: sv_inv_at_def conn_rep_def)
    then have "\<not> markedForRemoval ?x" using sv by (auto simp: sv_inv_at_def conn_clear_def)
    with that ok(2) \<open>c \<notin> set us\<close> show False by (auto simp: fits_def)
  qed
  have "\<exists>w' us' fs'. (if ?go then removeConnection cfg cb c ?w else Some ?w) = Some w'
      \<and> t_inv_at cfg G others (s\<lparr>world := w'\<rparr>) us' fs' ws"
  proof (cases ?go)
    case True
    with remove_t_inv [OF inv c [OF True] free] show ?thesis by auto
  next
    case False
    then show ?thesis unfolding if_not_P [OF False] using inv by (intro exI [of _ ?w]) auto
  qed
  then obtain w' us' fs' where E: "(if ?go then removeConnection cfg cb c ?w else Some ?w) = Some w'"
     and I: "t_inv_at cfg G others (s\<lparr>world := w'\<rparr>) us' fs' ws" by blast
  have "t_inv_at cfg G others ((s\<lparr>world := w'\<rparr>)\<lparr>tasks := (tasks (s\<lparr>world := w'\<rparr>))(t := TNone)\<rparr>) us' fs' ws"
    by (rule t_inv_task_free [OF I]) (use t in auto)
  moreover have "t_exec cfg cb (WEnd t) s = Some (s\<lparr>world := w', tasks := (tasks s)(t := TNone)\<rparr>)"
    using t E by (simp add: Let_def)
  ultimately show ?thesis by (auto intro: t_invI)
qed

lemma t_exec_inv:
  assumes "t_inv cfg G others s" and en: "t_enabled cfg e s"
  shows "\<exists>s'. t_exec cfg cb e s = Some s' \<and> t_inv cfg G others s'"
proof -
  from assms(1) obtain us fs ws where inv: "t_inv_at cfg G others s us fs ws" by (auto simp: t_inv_def)
  note E = MListen_t_inv MAccept_t_inv MTryRemove_t_inv MDispatch_t_inv MWait_t_inv WLock_t_inv WCheck_t_inv
    WServe_t_inv WEnd_t_inv
  show ?thesis using en by (cases e) (hypsubst, erule E [OF inv])+
qed

end

subsection \<open>Every interleaving\<close>

lemma t_init_inv: "t_init cfg G others s \<Longrightarrow> t_inv cfg G others s"
  unfolding t_init_def sv_inv_def t_inv_def t_inv_at_def by force

interpretation st: state_machine "\<lambda>s. server_cb cb G \<and> t_init cfg G others s" "t_step cfg cb"
    "\<lambda>s. server_cb cb G \<and> t_inv cfg G others s"
  for cfg :: sv_config and cb :: "'u ucb" and G others
proof (unfold_locales, goal_cases)
  case (1 s)
  then show ?case using t_init_inv by blast
next
  case (2 s s')
  then obtain e where e: "t_enabled cfg e s" "t_exec cfg cb e s = Some s'" by (auto simp: t_step_iff)
  from 2 have "server_cb cb G" "t_inv cfg G others s" by auto
  from server_cb.t_exec_inv [OF this e(1)] e(2) 2 show ?case by simp
qed

abbreviation sv_reachable :: "sv_config \<Rightarrow> 'u ucb \<Rightarrow> nat set \<Rightarrow> int set \<Rightarrow> 'u tserver \<Rightarrow> bool" where
  "sv_reachable cfg cb G others \<equiv> reachable (\<lambda>s. server_cb cb G \<and> t_init cfg G others s) (t_step cfg cb)"

lemma sv_reachable_at:
  assumes "sv_reachable cfg cb G others s"
  obtains us fs ws where "server_cb cb G" "t_inv_at cfg G others s us fs ws"
  using st.inv_reachable [OF assms] by (auto simp: t_inv_def)

lemma t_run_reachable:
  assumes "server_cb cb G" "t_init cfg G others s" and "t_run cfg cb es s = Some s'"
  shows "sv_reachable cfg cb G others s'"
  by (rule reachable_rtranclp [OF t_run_steps [OF assms(3)]]) (rule reachable.start, use assms(1,2) in simp)

end
