(* ===== verification/SysIO.thy ===== *)
theory SysIO
  imports Prelude
begin

text \<open>
  Reading and writing descriptors as src/potato_old/ sees it: each call of \<^verbatim>\<open>read\<close>, \<^verbatim>\<open>write\<close>,
  \<^verbatim>\<open>gnutls_record_recv\<close> or \<^verbatim>\<open>gnutls_record_send\<close> gets an answer of the kernel (of gnutls). The answers to
  come are a list for each descriptor, an argument of every theorem; an empty list answers that
  nothing can be done now. What was written is kept. Also \<^verbatim>\<open>readn\<close> and \<^verbatim>\<open>writen\<close> of util.h.
\<close>

subsection \<open>Answers\<close>

text \<open>
  A call transfers some bytes, a number of 0 is the end of the stream, or it fails:
  \<^verbatim>\<open>EAGAIN\<close> (\<^verbatim>\<open>GNUTLS_E_AGAIN\<close>), \<^verbatim>\<open>EINTR\<close> (\<^verbatim>\<open>GNUTLS_E_INTERRUPTED\<close>), \<^verbatim>\<open>EPIPE\<close> or \<^verbatim>\<open>ECONNRESET\<close>,
  or otherwise.
\<close>

datatype read_answer = RData "byte list" | RAgain | RIntr | RGone | RFault

datatype write_answer = WSome nat | WAgain | WIntr | WGone | WFault

record io =
  rd :: "int \<Rightarrow> read_answer list"
  wr :: "int \<Rightarrow> write_answer list"
  out :: "int \<Rightarrow> byte list"

text \<open>A call that asks for fewer bytes than there are leaves the others for the next call.\<close>

definition k_read :: "int \<Rightarrow> nat \<Rightarrow> io \<Rightarrow> read_answer \<times> io" where
  "k_read fd n s = (case rd s fd of
       [] \<Rightarrow> (RAgain, s)
     | RData bs # as \<Rightarrow> (RData (take n bs),
         s\<lparr>rd := (rd s)(fd := if n < length bs then RData (drop n bs) # as else as)\<rparr>)
     | a # as \<Rightarrow> (a, s\<lparr>rd := (rd s)(fd := as)\<rparr>))"

definition k_write :: "int \<Rightarrow> byte list \<Rightarrow> io \<Rightarrow> write_answer \<times> io" where
  "k_write fd bs s = (case wr s fd of
       [] \<Rightarrow> (WAgain, s)
     | WSome m # as \<Rightarrow> (WSome (min m (length bs)),
         s\<lparr>wr := (wr s)(fd := as), out := (out s)(fd := out s fd @ take m bs)\<rparr>)
     | a # as \<Rightarrow> (a, s\<lparr>wr := (wr s)(fd := as)\<rparr>))"

subsection \<open>What is left to come\<close>

text \<open>The bytes still to be read, and the sizes that loops over the answers decrease.\<close>

definition stream :: "int \<Rightarrow> io \<Rightarrow> byte list" where
  "stream fd s = concat (map (\<lambda>a. case a of RData bs \<Rightarrow> bs | _ \<Rightarrow> []) (rd s fd))"

definition rd_size :: "int \<Rightarrow> io \<Rightarrow> nat" where
  "rd_size fd s = sum_list (map (\<lambda>a. case a of RData bs \<Rightarrow> Suc (length bs) | _ \<Rightarrow> 1) (rd s fd))"

definition wr_size :: "int \<Rightarrow> io \<Rightarrow> nat" where
  "wr_size fd s = length (wr s fd)"

text \<open>The descriptor is in working order: no answer is an error the code has no case for.\<close>

definition calm_fd :: "int \<Rightarrow> io \<Rightarrow> bool" where
  "calm_fd fd s \<longleftrightarrow> RFault \<notin> set (rd s fd) \<and> WFault \<notin> set (wr s fd)"

definition same_io :: "int \<Rightarrow> io \<Rightarrow> io \<Rightarrow> bool" where
  "same_io fd s t \<longleftrightarrow> (\<forall>f. f \<noteq> fd \<longrightarrow> rd t f = rd s f \<and> wr t f = wr s f \<and> out t f = out s f)"

lemma same_io_refl [simp]: "same_io fd s s"
  by (simp add: same_io_def)

lemma same_io_trans: "same_io fd s t \<Longrightarrow> same_io fd t u \<Longrightarrow> same_io fd s u"
  by (simp add: same_io_def)

lemma k_read_cases:
  obtains (quiet) "rd s fd = []" "k_read fd n s = (RAgain, s)"
  | (bytes) bs as where "rd s fd = RData bs # as" "k_read fd n s = (RData (take n bs),
      s\<lparr>rd := (rd s)(fd := if n < length bs then RData (drop n bs) # as else as)\<rparr>)"
  | (other) a as where "rd s fd = a # as" "\<And>bs. a \<noteq> RData bs" "k_read fd n s = (a, s\<lparr>rd := (rd s)(fd := as)\<rparr>)"
proof (cases "rd s fd")
  case (Cons a as)
  with bytes other show thesis by (cases a) (simp_all add: k_read_def)
qed (use quiet in \<open>simp add: k_read_def\<close>)

lemma k_read_props:
  assumes "k_read fd n s = (a, t)"
  shows "wr t = wr s" "out t = out s" "same_io fd s t" "calm_fd fd s \<Longrightarrow> calm_fd fd t \<and> a \<noteq> RFault"
    "stream fd s = (case a of RData bs \<Rightarrow> bs | _ \<Rightarrow> []) @ stream fd t"
    "rd_size fd t \<le> rd_size fd s" "a = RAgain \<or> rd_size fd t < rd_size fd s \<or> n = 0"
    "a = RData bs \<Longrightarrow> length bs \<le> n"
proof -
  show "wr t = wr s" "out t = out s" "same_io fd s t" "calm_fd fd s \<Longrightarrow> calm_fd fd t \<and> a \<noteq> RFault"
    "a = RData bs \<Longrightarrow> length bs \<le> n" "rd_size fd t \<le> rd_size fd s"
    by (cases rule: k_read_cases [of s fd n]; use assms in \<open>force simp: same_io_def calm_fd_def rd_size_def split: if_splits\<close>)+
  show "a = RAgain \<or> rd_size fd t < rd_size fd s \<or> n = 0"
    by (cases rule: k_read_cases [of s fd n]; use assms in \<open>force simp: rd_size_def split: if_splits read_answer.splits\<close>)
  show "stream fd s = (case a of RData bs \<Rightarrow> bs | _ \<Rightarrow> []) @ stream fd t"
    by (cases rule: k_read_cases [of s fd n]) (use assms in \<open>auto simp: stream_def split: read_answer.splits\<close>)
qed

text \<open>An answer other than \<^verbatim>\<open>EAGAIN\<close> that gives a byte or none uses up some of what is to come.\<close>

lemma k_read_cons:
  "k_read fd n s = (RData bs, t) \<Longrightarrow> bs \<noteq> [] \<Longrightarrow> rd_size fd t < rd_size fd s"
  "k_read fd n s = (RIntr, t) \<Longrightarrow> rd_size fd t < rd_size fd s"
  by (cases rule: k_read_cases [of s fd n]; force simp: rd_size_def split: if_splits)+

lemma k_write_cases:
  obtains (quiet) "wr s fd = []" "k_write fd bs s = (WAgain, s)"
  | (some) m as where "wr s fd = WSome m # as" "k_write fd bs s = (WSome (min m (length bs)),
      s\<lparr>wr := (wr s)(fd := as), out := (out s)(fd := out s fd @ take m bs)\<rparr>)"
  | (other) a as where "wr s fd = a # as" "\<And>m. a \<noteq> WSome m" "k_write fd bs s = (a, s\<lparr>wr := (wr s)(fd := as)\<rparr>)"
proof (cases "wr s fd")
  case (Cons a as)
  with some other show thesis by (cases a) (simp_all add: k_write_def)
qed (use quiet in \<open>simp add: k_write_def\<close>)

lemma k_write_props:
  assumes "k_write fd bs s = (a, t)"
  shows "rd t = rd s" "same_io fd s t" "calm_fd fd s \<Longrightarrow> calm_fd fd t \<and> a \<noteq> WFault"
    "out t fd = out s fd @ (case a of WSome m \<Rightarrow> take m bs | _ \<Rightarrow> [])"
    "wr_size fd t \<le> wr_size fd s" "a = WAgain \<or> wr_size fd t < wr_size fd s" "a = WSome m \<Longrightarrow> m \<le> length bs"
proof -
  show "rd t = rd s" "same_io fd s t" "calm_fd fd s \<Longrightarrow> calm_fd fd t \<and> a \<noteq> WFault"
    "wr_size fd t \<le> wr_size fd s" "a = WSome m \<Longrightarrow> m \<le> length bs"
    by (cases rule: k_write_cases [of s fd bs]; use assms in \<open>force simp: same_io_def calm_fd_def wr_size_def\<close>)+
  show "a = WAgain \<or> wr_size fd t < wr_size fd s"
    by (cases rule: k_write_cases [of s fd bs]; use assms in \<open>force simp: wr_size_def split: write_answer.splits\<close>)
  show "out t fd = out s fd @ (case a of WSome m \<Rightarrow> take m bs | _ \<Rightarrow> [])"
    by (cases rule: k_write_cases [of s fd bs]) (use assms in \<open>auto simp: min_def split: write_answer.splits\<close>)
qed

lemma stream_out_other:
  assumes "same_io fd s t" and "f \<noteq> fd"
  shows "stream f t = stream f s" "out t f = out s f"
  using assms by (simp_all add: same_io_def stream_def)

lemma stream_rd_cong: "rd t = rd s \<Longrightarrow> stream f t = stream f s" "rd t = rd s \<Longrightarrow> rd_size f t = rd_size f s"
  by (simp_all add: stream_def rd_size_def)

lemma wr_size_cong: "wr t = wr s \<Longrightarrow> wr_size f t = wr_size f s"
  by (simp add: wr_size_def)

subsection \<open>\<open>readn\<close> and \<open>writen\<close>\<close>

text \<open>
  The result is the returned flag, true for an error. \<open>None\<close>: the assertion that follows a failed
  \<^verbatim>\<open>read\<close> or \<^verbatim>\<open>write\<close>, which also a \<^verbatim>\<open>write\<close> of 0 bytes is.
\<close>

function readn :: "int \<Rightarrow> nat \<Rightarrow> io \<Rightarrow> (bool \<times> byte list \<times> io) option" where
  "readn fd n s = (if n = 0 then Some (False, [], s)
     else case k_read fd n s of
       (RData bs, s') \<Rightarrow> if bs \<noteq> [] then do {
           (e, bs', t) \<leftarrow> readn fd (n - length bs) s';
           Some (e, bs @ bs', t) }
         else Some (True, [], s')
     | _ \<Rightarrow> None)"
  by pat_completeness auto

termination
  by (relation "measure (\<lambda>(fd, n, s). n)") auto

function writen :: "int \<Rightarrow> byte list \<Rightarrow> io \<Rightarrow> (bool \<times> io) option" where
  "writen fd bs s = (if bs = [] then Some (False, s)
     else case k_write fd bs s of
       (WSome m, s') \<Rightarrow> if 0 < m then writen fd (drop m bs) s' else None
     | _ \<Rightarrow> None)"
  by pat_completeness auto

termination
  by (relation "measure (\<lambda>(fd, bs, s). length bs)") auto

declare readn.simps [simp del] writen.simps [simp del]

lemma readn_complete:
  "readn fd n s = Some (False, bs, t) \<Longrightarrow> length bs = n \<and> stream fd s = bs @ stream fd t \<and> same_io fd s t \<and> wr t = wr s \<and> out t = out s"
proof (induction fd n s arbitrary: bs t rule: readn.induct)
  case (1 fd n s)
  show ?case
  proof (cases "n = 0")
    case False
    with "1.prems" obtain cs s' ds where
      R: "k_read fd n s = (RData cs, s')" "cs \<noteq> []" "readn fd (n - length cs) s' = Some (False, ds, t)" "bs = cs @ ds"
      by (subst (asm) readn.simps) (auto split: prod.splits read_answer.splits if_splits simp: bind_eq_Some_conv)
    note P = k_read_props [OF R(1)]
    from "1.IH" [OF False R(1) [symmetric] refl R(2) R(3)] P(1-3,5) P(8) [OF refl] R(4) show ?thesis
      by (auto intro: same_io_trans)
  qed (use "1.prems" in \<open>simp add: readn.simps\<close>)
qed

lemma writen_complete:
  "writen fd bs s = Some (e, t) \<Longrightarrow> \<not> e \<and> out t fd = out s fd @ bs \<and> same_io fd s t \<and> rd t = rd s"
proof (induction fd bs s rule: writen.induct)
  case (1 fd bs s)
  show ?case
  proof (cases "bs = []")
    case False
    with "1.prems" obtain m s' where
      W: "k_write fd bs s = (WSome m, s')" "0 < m" "writen fd (drop m bs) s' = Some (e, t)"
      by (subst (asm) writen.simps) (auto split: prod.splits write_answer.splits if_splits)
    note P = k_write_props [OF W(1)]
    from "1.IH" [OF False W(1) [symmetric] refl W(2) W(3)] P(1,2,4) show ?thesis
      by (auto intro: same_io_trans)
  qed (use "1.prems" in \<open>simp add: writen.simps\<close>)
qed

text \<open>Bytes that come in pieces, none of them empty and with no error, are read in full.\<close>

definition given :: "int \<Rightarrow> io \<Rightarrow> bool" where
  "given fd s \<longleftrightarrow> (\<forall>a \<in> set (rd s fd). \<exists>bs. a = RData bs \<and> bs \<noteq> [])"

lemma k_read_given:
  assumes "given fd s" and "stream fd s \<noteq> []" and "0 < n"
  shows "\<exists>bs t. k_read fd n s = (RData bs, t) \<and> bs \<noteq> [] \<and> given fd t"
proof -
  from assms(1,2) obtain bs as where r: "rd s fd = RData bs # as" "bs \<noteq> []"
    by (cases "rd s fd") (auto simp: given_def stream_def)
  with assms(1,3) show ?thesis by (auto simp: k_read_def given_def)
qed

lemma readn_total:
  "given fd s \<Longrightarrow> n \<le> length (stream fd s) \<Longrightarrow>
     \<exists>t. readn fd n s = Some (False, take n (stream fd s), t) \<and> given fd t \<and> stream fd t = drop n (stream fd s) \<and> same_io fd s t"
proof (induction fd n s rule: readn.induct)
  case (1 fd n s)
  show ?case
  proof (cases "n = 0")
    case True
    then show ?thesis using "1.prems" by (subst readn.simps) simp
  next
    case False
    with "1.prems" have "stream fd s \<noteq> []" "0 < n" by auto
    from k_read_given [OF "1.prems"(1) this] obtain bs s' where
      K: "k_read fd n s = (RData bs, s')" "bs \<noteq> []" "given fd s'" by blast
    have P: "stream fd s = bs @ stream fd s'" "length bs \<le> n" "same_io fd s s'"
      using k_read_props(5) [OF K(1)] k_read_props(8) [OF K(1) refl] k_read_props(3) [OF K(1)] by auto
    with "1.prems"(2) have "n - length bs \<le> length (stream fd s')" by simp
    from "1.IH" [OF False K(1) [symmetric] refl K(2,3) this] obtain t where
      "readn fd (n - length bs) s' = Some (False, take (n - length bs) (stream fd s'), t)" "given fd t"
      "stream fd t = drop (n - length bs) (stream fd s')" "same_io fd s' t" by blast
    then show ?thesis using False K P by (subst readn.simps) (auto intro: same_io_trans)
  qed
qed

end
