(* ===== verification/Callbacks.thy ===== *)
theory Callbacks
  imports Server SysIO
begin

text \<open>
  What the users of the server share: a callback changes only its callbacks and their data, and a
  cleanup callback it sets is its own. The setters of server.c keep that.
\<close>

definition framed :: "nat \<Rightarrow> POServer_connection \<Rightarrow> POServer_connection \<Rightarrow> bool" where
  "framed c x x' \<longleftrightarrow> owned x' = owned x \<and> (cleanupCallback x' = cleanupCallback x \<or> cleanupCallback x' = Some c)"

lemma framed_refl [simp]: "framed c x x"
  by (simp add: framed_def)

lemma framed_trans [trans]: "framed c x y \<Longrightarrow> framed c y z \<Longrightarrow> framed c x z"
  by (auto simp: framed_def)

lemma framed_fields: "framed c x x' \<Longrightarrow> c_fd x' = c_fd x" "framed c x x' \<Longrightarrow> owned x' = owned x"
  by (auto simp: framed_def dest: owned_fields)

lemma framed_cleanup: "framed c x x' \<Longrightarrow> set_option (cleanupCallback x) \<subseteq> {c} \<Longrightarrow> set_option (cleanupCallback x') \<subseteq> {c}"
  by (auto simp: framed_def)

lemma framed_upd [simp]:
  "framed c x (y\<lparr>readCallback := k, readData := d\<rparr>) = framed c x y"
  "framed c x (y\<lparr>writeCallback := k, writeData := d\<rparr>) = framed c x y"
  by (simp_all add: framed_def owned_def)

lemma framed_cleanupCallback [simp]: "framed c x (x\<lparr>cleanupCallback := Some c, cleanupData := d\<rparr>)"
  by (simp add: framed_def owned_def)

lemma framed_setReadCallback:
  assumes "poServer_setReadCallback cb k d x u = Some (rt, x', u')"
    and "\<And>k d x u rt x' u'. cb k d x u = (rt, x', u') \<Longrightarrow> framed c x x'"
  shows "framed c x x'"
  using assms(1) by (auto simp: poServer_setReadCallback_def Let_def bind_eq_Some_conv split: option.splits if_splits dest!: assms(2))
     (simp_all add: framed_def owned_def)

lemma framed_setWriteCallback:
  assumes "poServer_setWriteCallback cb k d x u = Some (rt, x', u')"
    and "\<And>k d x u rt x' u'. cb k d x u = (rt, x', u') \<Longrightarrow> framed c x x'"
  shows "framed c x x'"
  using assms(1) by (auto simp: poServer_setWriteCallback_def Let_def bind_eq_Some_conv split: option.splits if_splits dest!: assms(2))
     (simp_all add: framed_def owned_def)

text \<open>Setting no callback calls none; nor does setting one where there is one already or no event.\<close>

lemma setReadCallback_simps:
  "0 \<le> c_fd x \<Longrightarrow> poServer_setReadCallback cb None d x u = Some (0, x\<lparr>readCallback := None, readData := d\<rparr>, u)"
  "0 \<le> c_fd x \<Longrightarrow> readCallback x \<noteq> None \<or> \<not> readReady x \<Longrightarrow>
     poServer_setReadCallback cb (Some k) d x u = Some (0, x\<lparr>readCallback := Some k, readData := d\<rparr>, u)"
  "0 \<le> c_fd x \<Longrightarrow> readCallback x = None \<Longrightarrow> readReady x \<Longrightarrow>
     poServer_setReadCallback cb (Some k) d x u = Some (cb k d (x\<lparr>readCallback := Some k, readData := d\<rparr>) u)"
  by (auto simp: poServer_setReadCallback_def)

lemma setWriteCallback_simps:
  "0 \<le> c_fd x \<Longrightarrow> poServer_setWriteCallback cb None d x u = Some (0, x\<lparr>writeCallback := None, writeData := d\<rparr>, u)"
  "0 \<le> c_fd x \<Longrightarrow> writeCallback x \<noteq> None \<or> \<not> writeReady x \<Longrightarrow>
     poServer_setWriteCallback cb (Some k) d x u = Some (0, x\<lparr>writeCallback := Some k, writeData := d\<rparr>, u)"
  "0 \<le> c_fd x \<Longrightarrow> writeCallback x = None \<Longrightarrow> writeReady x \<Longrightarrow>
     poServer_setWriteCallback cb (Some k) d x u = Some (cb k d (x\<lparr>writeCallback := Some k, writeData := d\<rparr>) u)"
  by (auto simp: poServer_setWriteCallback_def)

text \<open>
  An assertion that fails in a callback stops the process; \<open>or_abort\<close> keeps that in the state of the
  user.
\<close>

definition or_abort :: "('u \<Rightarrow> 'u) \<Rightarrow> POServer_connection \<Rightarrow> 'u \<Rightarrow> (int \<times> POServer_connection \<times> 'u) option \<Rightarrow>
    int \<times> POServer_connection \<times> 'u" where
  "or_abort stop x u r = (case r of None \<Rightarrow> (0, x, stop u) | Some t \<Rightarrow> t)"

end
