(* ===== verification/Echo.thy ===== *)
theory Echo
  imports Callbacks
begin

text \<open>
  The callbacks of src/potato_old/serverEchoRequest.c: a connection is read once, what was read is
  written back, then it is read again. The two callbacks replace each other and may call each other
  through \<^verbatim>\<open>poServer_setReadCallback\<close> and \<^verbatim>\<open>poServer_setWriteCallback\<close>; the depth of the calls is
  bounded by the answers of the kernel, which is the fuel of \<open>echo\<close>.
\<close>

subsection \<open>State\<close>

record Buf =
  buf :: "byte list"
  b_w :: nat
  b_len :: nat

definition MAX_READ :: nat where "MAX_READ = 1024"

text \<open>
  Buffers are allocated at new addresses; 0 is the NULL pointer. \<open>aborted\<close> tells that an assertion
  failed, after which the process does nothing more.
\<close>

record echo_st =
  eio :: io
  bufs :: "nat \<Rightarrow> Buf option"
  next_buf :: nat
  aborted :: bool

text \<open>The numbers of the callbacks.\<close>

abbreviation ECHO_REQUEST :: nat where "ECHO_REQUEST \<equiv> 1"
abbreviation ECHO_WRITE :: nat where "ECHO_WRITE \<equiv> 2"
abbreviation ECHO_CLEANUP :: nat where "ECHO_CLEANUP \<equiv> 3"

subsection \<open>The callbacks\<close>

definition echoCleanup :: "nat \<Rightarrow> POServer_connection \<Rightarrow> echo_st \<Rightarrow> (int \<times> POServer_connection \<times> echo_st) option" where
  "echoCleanup d x u = do {
     ASSERT (0 \<le> c_fd x);
     ASSERT (d \<noteq> 0);
     ASSERT (bufs u d \<noteq> None);
     Some (0, x, u\<lparr>bufs := (bufs u)(d := None)\<rparr>) }"

text \<open>How the loop of \<^verbatim>\<open>echoWrite\<close> ends: all written, keep the callback, close, or an assertion.\<close>

datatype write_end = WDone | WKeep Buf | WClose | WAbort

function echo_write_loop :: "int \<Rightarrow> Buf \<Rightarrow> io \<Rightarrow> write_end \<times> io" where
  "echo_write_loop fd b s = (if b_len b = 0 then (WKeep b, s)
     else case k_write fd (take (b_len b) (drop (b_w b) (buf b))) s of
       (WSome m, s') \<Rightarrow> if m = 0 then (WClose, s')
          else if m < b_len b then (WKeep (b\<lparr>b_w := b_w b + m, b_len := b_len b - m\<rparr>), s') else (WDone, s')
     | (WAgain, s') \<Rightarrow> (WKeep b, s')
     | (WIntr, s') \<Rightarrow> echo_write_loop fd b s'
     | (WGone, s') \<Rightarrow> (WClose, s')
     | (WFault, s') \<Rightarrow> (WAbort, s'))"
  by pat_completeness auto

termination
  by (relation "measure (\<lambda>(fd, b, s). wr_size fd s)") (auto dest!: k_write_props(6) [OF sym])

definition echoWrite :: "echo_st ucb \<Rightarrow> nat \<Rightarrow> POServer_connection \<Rightarrow> echo_st \<Rightarrow>
    (int \<times> POServer_connection \<times> echo_st) option" where
  "echoWrite cb d x u = do {
     b \<leftarrow> bufs u d;
     ASSERT (0 < b_len b);
     let (r, s) = echo_write_loop (c_fd x) b (eio u);
     let u = u\<lparr>eio := s\<rparr>;
     (case r of
        WKeep b \<Rightarrow> Some (0, x, u\<lparr>bufs := (bufs u)(d \<mapsto> b)\<rparr>)
      | WClose \<Rightarrow> Some (1, x, u)
      | WAbort \<Rightarrow> None
      | WDone \<Rightarrow> do {
          (_, x, u) \<leftarrow> poServer_setWriteCallback cb None 0 x u;
          ASSERT (readCallback x = None);
          poServer_setReadCallback cb (Some ECHO_REQUEST) d x u })
   }"

text \<open>
  How the loop of \<^verbatim>\<open>poServer_echoRequest\<close> ends: the function returns 0 because there is nothing to
  read, or the loop is left with \<^verbatim>\<open>ret\<close> and the bytes, or an assertion fails. After \<^verbatim>\<open>EPIPE\<close> or
  \<^verbatim>\<open>ECONNRESET\<close> the loop reads again, with \<^verbatim>\<open>ret\<close> 1.
\<close>

datatype read_end = RQuiet | RSpew int "byte list" | RAbort

function echo_read_loop :: "int \<Rightarrow> int \<Rightarrow> io \<Rightarrow> read_end \<times> io" where
  "echo_read_loop fd ret s = (case k_read fd MAX_READ s of
       (RData bs, s') \<Rightarrow> (RSpew (if bs = [] then 1 else ret) bs, s')
     | (RAgain, s') \<Rightarrow> (RQuiet, s')
     | (RIntr, s') \<Rightarrow> echo_read_loop fd ret s'
     | (RGone, s') \<Rightarrow> echo_read_loop fd 1 s'
     | (RFault, s') \<Rightarrow> (RAbort, s'))"
  by pat_completeness auto

termination
  by (relation "measure (\<lambda>(fd, r, s). rd_size fd s)") (auto simp: MAX_READ_def dest!: k_read_props(7) [OF sym])

declare echo_write_loop.simps [simp del] echo_read_loop.simps [simp del]

definition echoRequest :: "echo_st ucb \<Rightarrow> nat \<Rightarrow> POServer_connection \<Rightarrow> echo_st \<Rightarrow>
    (int \<times> POServer_connection \<times> echo_st) option" where
  "echoRequest cb d x u = do {
     ASSERT (0 \<le> c_fd x);
     (d, x, u) \<leftarrow> (if d = 0 then do {
          let a = next_buf u;
          x \<leftarrow> poServer_setCleanupCallback (Some ECHO_CLEANUP) a x;
          Some (a, x, u\<lparr>bufs := (bufs u)(a \<mapsto> \<lparr>buf = [], b_w = 0, b_len = 0\<rparr>), next_buf := a + 1\<rparr>) }
        else Some (d, x, u));
     b \<leftarrow> bufs u d;
     let (r, s) = echo_read_loop (c_fd x) 0 (eio u);
     let u = u\<lparr>eio := s\<rparr>;
     (case r of
        RQuiet \<Rightarrow> Some (0, x, u)
      | RAbort \<Rightarrow> None
      | RSpew ret bs \<Rightarrow> (if ret \<noteq> 0 then Some (ret, x, u\<lparr>bufs := (bufs u)(d \<mapsto> b\<lparr>buf := bs\<rparr>)\<rparr>)
          else do {
            let u = u\<lparr>bufs := (bufs u)(d \<mapsto> \<lparr>buf = bs, b_w = 0, b_len = length bs\<rparr>)\<rparr>;
            (_, x, u) \<leftarrow> poServer_setReadCallback cb None 0 x u;
            ASSERT (writeCallback x = None);
            poServer_setWriteCallback cb (Some ECHO_WRITE) d x u }))
   }"

fun echo :: "nat \<Rightarrow> echo_st ucb" where
  "echo 0 k d x u = (0, x, u\<lparr>aborted := True\<rparr>)"
| "echo (Suc n) k d x u = or_abort (\<lambda>u. u\<lparr>aborted := True\<rparr>) x u
     (if k = ECHO_REQUEST then echoRequest (echo n) d x u
      else if k = ECHO_WRITE then echoWrite (echo n) d x u
      else if k = ECHO_CLEANUP then echoCleanup d x u
      else None)"

definition echo_fuel :: "POServer_connection \<Rightarrow> echo_st \<Rightarrow> nat" where
  "echo_fuel x u = rd_size (c_fd x) (eio u) + wr_size (c_fd x) (eio u)"

definition echo_cb :: "echo_st ucb" where
  "echo_cb k d x u = echo (Suc (echo_fuel x u)) k d x u"

subsection \<open>A client of the server\<close>

lemma echo_framed: "echo n k d x u = (rt, x', u') \<Longrightarrow> framed ECHO_CLEANUP x x'"
proof (induction n arbitrary: k d x u rt x' u')
  case (Suc n)
  note R = framed_setReadCallback [where cb = "echo n", OF _ Suc.IH]
  note W = framed_setWriteCallback [where cb = "echo n", OF _ Suc.IH]
  obtain r s where E: "echo_read_loop (c_fd x) 0 (eio u) = (r, s)" by fastforce
  have "echoRequest (echo n) d x u = Some (rt, x', u') \<Longrightarrow> ?case"
    by (cases r) (auto simp: E echoRequest_def poServer_setCleanupCallback_def bind_eq_Some_conv Let_def split: if_splits
        dest!: R W intro: framed_trans framed_trans [OF framed_cleanupCallback])
  moreover have "echoWrite (echo n) d x u = Some (rt, x', u') \<Longrightarrow> ?case"
  proof (cases "bufs u d")
    case (Some b)
    obtain r s where "echo_write_loop (c_fd x) b (eio u) = (r, s)" by fastforce
    with Some show "echoWrite (echo n) d x u = Some (rt, x', u') \<Longrightarrow> framed ECHO_CLEANUP x x'"
      by (cases r) (auto simp: echoWrite_def bind_eq_Some_conv Let_def dest!: R W intro: framed_trans)
  qed (simp add: echoWrite_def)
  moreover have "echoCleanup d x u = Some (rt, x', u') \<Longrightarrow> ?case"
    by (auto simp: echoCleanup_def bind_eq_Some_conv)
  ultimately show ?case using Suc.prems by (auto simp: or_abort_def split: option.splits if_splits)
qed simp

interpretation ec: server_cb echo_cb "{ECHO_CLEANUP}"
proof (unfold_locales, goal_cases)
  case (1 k d x u rt x' u')
  then show ?case using echo_framed framed_fields(2) unfolding echo_cb_def by blast
next
  case (2 k d x u rt x' u')
  then show ?case using echo_framed framed_cleanup unfolding echo_cb_def by blast
next
  case (3 k d x u rt x' u')
  then show ?case by (auto simp: echo_cb_def or_abort_def echoCleanup_def bind_eq_Some_conv split: option.splits)
qed

subsection \<open>What comes in goes out\<close>

definition todo :: "Buf \<Rightarrow> byte list" where
  "todo b = take (b_len b) (drop (b_w b) (buf b))"

definition buf_ok :: "Buf \<Rightarrow> bool" where
  "buf_ok b \<longleftrightarrow> 0 < b_len b \<and> b_w b + b_len b \<le> length (buf b) \<and> length (buf b) \<le> MAX_READ"

lemma length_todo: "buf_ok b \<Longrightarrow> length (todo b) = b_len b"
  by (auto simp: buf_ok_def todo_def)

lemma echo_write_loop_spec:
  "echo_write_loop fd b s = (r, t) \<Longrightarrow> buf_ok b \<Longrightarrow> calm_fd fd s \<Longrightarrow>
     rd t = rd s \<and> calm_fd fd t \<and> same_io fd s t \<and> wr_size fd t \<le> wr_size fd s \<and>
     (case r of WDone \<Rightarrow> out t fd = out s fd @ todo b \<and> wr_size fd t < wr_size fd s
        | WKeep b' \<Rightarrow> buf_ok b' \<and> out t fd @ todo b' = out s fd @ todo b
        | WClose \<Rightarrow> out t fd = out s fd | WAbort \<Rightarrow> False)"
proof (induction fd b s arbitrary: r t rule: echo_write_loop.induct)
  case (1 fd b s)
  obtain a s' where K: "k_write fd (take (b_len b) (drop (b_w b) (buf b))) s = (a, s')" by fastforce
  note P = k_write_props [OF K, folded todo_def]
  have len: "b_len b \<noteq> 0" "length (todo b) = b_len b" using "1.prems"(2) length_todo by (auto simp: buf_ok_def)
  have run: "echo_write_loop fd b s = (case a of
       WSome m \<Rightarrow> if m = 0 then (WClose, s')
          else if m < b_len b then (WKeep (b\<lparr>b_w := b_w b + m, b_len := b_len b - m\<rparr>), s') else (WDone, s')
     | WAgain \<Rightarrow> (WKeep b, s') | WIntr \<Rightarrow> echo_write_loop fd b s' | WGone \<Rightarrow> (WClose, s') | WFault \<Rightarrow> (WAbort, s'))"
    using K len by (subst echo_write_loop.simps) (auto split: write_answer.splits)
  show ?case
  proof (cases a)
    case (WSome m)
    have "take m (todo b) @ todo (b\<lparr>b_w := b_w b + m, b_len := b_len b - m\<rparr>) = todo b" if "m < b_len b"
      using append_take_drop_id [of m "todo b"] by (simp add: todo_def drop_take add.commute)
    moreover have "take m (todo b) = todo b" if "\<not> m < b_len b" using that len by simp
    ultimately show ?thesis
      using "1.prems" P WSome run by (auto simp: buf_ok_def split: if_splits)
  next
    case WIntr
    with "1.prems" P run have "echo_write_loop fd b s' = (r, t)" "calm_fd fd s'" by auto
    from "1.IH" [OF len(1) K [symmetric] WIntr this(1) "1.prems"(2) this(2)] P(1,2,4-6) WIntr show ?thesis
      by (auto intro: same_io_trans split: write_end.splits)
  qed (use "1.prems" P run in auto)
qed

lemma echo_read_loop_spec:
  "echo_read_loop fd ret s = (r, t) \<Longrightarrow> calm_fd fd s \<Longrightarrow>
     wr t = wr s \<and> out t = out s \<and> calm_fd fd t \<and> same_io fd s t \<and> rd_size fd t \<le> rd_size fd s \<and>
     (case r of RQuiet \<Rightarrow> stream fd t = stream fd s
        | RSpew e bs \<Rightarrow> stream fd s = bs @ stream fd t \<and> length bs \<le> MAX_READ \<and> rd_size fd t < rd_size fd s
            \<and> (bs = [] \<longrightarrow> e = 1) \<and> (e = ret \<or> e = 1)
        | RAbort \<Rightarrow> False)"
proof (induction fd ret s arbitrary: r t rule: echo_read_loop.induct)
  case (1 fd ret s)
  obtain a s' where K: "k_read fd MAX_READ s = (a, s')" by fastforce
  note P = k_read_props [OF K]
  have run: "echo_read_loop fd ret s = (case a of
       RData bs \<Rightarrow> (RSpew (if bs = [] then 1 else ret) bs, s') | RAgain \<Rightarrow> (RQuiet, s')
     | RIntr \<Rightarrow> echo_read_loop fd ret s' | RGone \<Rightarrow> echo_read_loop fd 1 s' | RFault \<Rightarrow> (RAbort, s'))"
    using K by (subst echo_read_loop.simps) (auto split: read_answer.splits)
  have MR: "MAX_READ \<noteq> 0" by (simp add: MAX_READ_def)
  show ?case
  proof (cases a)
    case (RData bs)
    then show ?thesis using "1.prems" P MR run by (auto split: if_splits)
  next
    case RIntr
    with "1.prems" P run have "echo_read_loop fd ret s' = (r, t)" "calm_fd fd s'" by auto
    from "1.IH"(1) [OF K [symmetric] RIntr this] P(1-3,5-7) RIntr show ?thesis
      by (auto intro: same_io_trans split: read_end.splits)
  next
    case RGone
    with "1.prems" P run have "echo_read_loop fd 1 s' = (r, t)" "calm_fd fd s'" by auto
    from "1.IH"(2) [OF K [symmetric] RGone this] P(1-3,5-7) RGone show ?thesis
      by (auto intro: same_io_trans split: read_end.splits)
  qed (use "1.prems" P run in auto)
qed

text \<open>
  A connection of the echo server: it is read next (\<^verbatim>\<open>readData\<close> NULL: nothing was read yet), or it has
  bytes to write.
\<close>

definition echo_conn :: "POServer_connection \<Rightarrow> echo_st \<Rightarrow> bool" where
  "echo_conn x u \<longleftrightarrow> 0 \<le> c_fd x \<and> \<not> aborted u \<and> 0 < next_buf u \<and> calm_fd (c_fd x) (eio u)
     \<and> (readCallback x = Some ECHO_REQUEST \<and> writeCallback x = None \<and> (readData x = 0 \<or> bufs u (readData x) \<noteq> None)
        \<or> readCallback x = None \<and> writeCallback x = Some ECHO_WRITE \<and> writeData x \<noteq> 0
          \<and> (\<exists>b. bufs u (writeData x) = Some b \<and> buf_ok b))"

definition pending_bytes :: "POServer_connection \<Rightarrow> echo_st \<Rightarrow> byte list" where
  "pending_bytes x u = (if writeCallback x = None then [] else case bufs u (writeData x) of None \<Rightarrow> [] | Some b \<Rightarrow> todo b)"

definition echo_goal :: "byte list \<Rightarrow> int \<times> POServer_connection \<times> echo_st \<Rightarrow> bool" where
  "echo_goal all r \<longleftrightarrow> (case r of (rt, x, u) \<Rightarrow> \<not> aborted u \<and> (\<exists>rest. all = out (eio u) (c_fd x) @ rest
     \<and> (rt = 0 \<longrightarrow> echo_conn x u \<and> rest = pending_bytes x u @ stream (c_fd x) (eio u))))"

lemma echo_request_ok:
  assumes ok: "echo_conn x u" and rc: "readCallback x = Some ECHO_REQUEST"
    and next_call: "\<And>x u. echo_conn x u \<Longrightarrow> writeCallback x = Some ECHO_WRITE \<Longrightarrow> echo_fuel x u < n \<Longrightarrow>
      echo_goal (out (eio u) (c_fd x) @ pending_bytes x u @ stream (c_fd x) (eio u)) (echo n ECHO_WRITE (writeData x) x u)"
    and n: "echo_fuel x u < Suc n"
  shows "echo_goal (out (eio u) (c_fd x) @ stream (c_fd x) (eio u)) (echo (Suc n) ECHO_REQUEST (readData x) x u)"
proof -
  let ?fd = "c_fd x"
  define d where "d = (if readData x = 0 then next_buf u else readData x)"
  define x1 where "x1 = (if readData x = 0 then x\<lparr>cleanupCallback := Some ECHO_CLEANUP, cleanupData := d\<rparr> else x)"
  define u1 where "u1 = (if readData x = 0 then u\<lparr>bufs := (bufs u)(d \<mapsto> \<lparr>buf = [], b_w = 0, b_len = 0\<rparr>), next_buf := d + 1\<rparr> else u)"
  from ok rc have fd: "0 \<le> ?fd" "\<not> aborted u" "0 < next_buf u" "calm_fd ?fd (eio u)" "writeCallback x = None"
    "readData x = 0 \<or> bufs u (readData x) \<noteq> None" by (auto simp: echo_conn_def)
  obtain b where b: "bufs u1 d = Some b" using fd(6) by (cases "readData x = 0") (auto simp: u1_def d_def)
  have d0: "d \<noteq> 0" using fd(3) by (simp add: d_def)
  have same: "c_fd x1 = ?fd" "eio u1 = eio u" "aborted u1 = aborted u" "0 < next_buf u1" "readCallback x1 = readCallback x"
    "writeCallback x1 = None" "readData x1 = readData x" "readData x = 0 \<or> readData x = d" "writeReady x1 = writeReady x"
    using fd by (auto simp: x1_def u1_def d_def)
  obtain r t where L: "echo_read_loop ?fd 0 (eio u) = (r, t)" by fastforce
  note S = echo_read_loop_spec [OF L fd(4)]
  have run: "echoRequest (echo n) (readData x) x u = (case r of RQuiet \<Rightarrow> Some (0, x1, u1\<lparr>eio := t\<rparr>) | RAbort \<Rightarrow> None
     | RSpew ret bs \<Rightarrow> (if ret \<noteq> 0 then Some (ret, x1, u1\<lparr>eio := t, bufs := (bufs u1)(d \<mapsto> b\<lparr>buf := bs\<rparr>)\<rparr>)
          else poServer_setWriteCallback (echo n) (Some ECHO_WRITE) d (x1\<lparr>readCallback := None, readData := 0\<rparr>)
            (u1\<lparr>eio := t, bufs := (bufs u1)(d \<mapsto> \<lparr>buf = bs, b_w = 0, b_len = length bs\<rparr>)\<rparr>)))"
    using fd b L same
    by (cases "readData x = 0"; cases r)
       (auto simp: echoRequest_def x1_def u1_def d_def poServer_setCleanupCallback_def setReadCallback_simps Let_def)
  show ?thesis
  proof (cases r)
    case RQuiet
    have "echo_conn x1 (u1\<lparr>eio := t\<rparr>)"
      using fd same rc b S by (auto simp: echo_conn_def)
    then show ?thesis using RQuiet run S fd same
      by (auto simp: or_abort_def echo_goal_def pending_bytes_def)
  next
    case (RSpew ret bs)
    show ?thesis
    proof (cases "ret = 0")
      case False
      then show ?thesis using RSpew run S fd same by (auto simp: or_abort_def echo_goal_def)
    next
      case True
      define x2 where "x2 = x1\<lparr>readCallback := None, readData := 0\<rparr>"
      define u2 where "u2 = u1\<lparr>eio := t, bufs := (bufs u1)(d \<mapsto> \<lparr>buf = bs, b_w = 0, b_len = length bs\<rparr>)\<rparr>"
      define x3 where "x3 = x2\<lparr>writeCallback := Some ECHO_WRITE, writeData := d\<rparr>"
      have bs: "bs \<noteq> []" "length bs \<le> MAX_READ" "stream ?fd (eio u) = bs @ stream ?fd t" using S RSpew True by auto
      have c3: "echo_conn x3 u2" using fd same S bs d0 by (simp add: echo_conn_def x3_def x2_def u2_def buf_ok_def)
      have p3: "pending_bytes x3 u2 = bs" by (simp add: pending_bytes_def x3_def u2_def todo_def)
      have fuel: "echo_fuel x3 u2 < n" using n S RSpew same by (auto simp: echo_fuel_def x3_def x2_def u2_def wr_size_def)
      have all: "out (eio u) ?fd @ stream ?fd (eio u) = out (eio u2) (c_fd x3) @ pending_bytes x3 u2 @ stream (c_fd x3) (eio u2)"
        using S bs p3 same by (simp add: x3_def x2_def u2_def)
      have req: "echoRequest (echo n) (readData x) x u = poServer_setWriteCallback (echo n) (Some ECHO_WRITE) d x2 u2"
        using run RSpew True by (simp add: x2_def u2_def)
      show ?thesis
      proof (cases "writeReady x2")
        case True
        have "echoRequest (echo n) (readData x) x u = Some (echo n ECHO_WRITE d x3 u2)"
          unfolding req x3_def by (rule setWriteCallback_simps(3)) (use True fd same in \<open>auto simp: x2_def\<close>)
        with next_call [OF c3 _ fuel] all show ?thesis by (simp add: or_abort_def x3_def)
      next
        case False
        have "echoRequest (echo n) (readData x) x u = Some (0, x3, u2)"
          unfolding req x3_def by (rule setWriteCallback_simps(2)) (use False fd same in \<open>auto simp: x2_def\<close>)
        with c3 all fd same show ?thesis by (auto simp: or_abort_def echo_goal_def u2_def)
      qed
    qed
  qed (use S in auto)
qed

lemma echo_write_ok:
  assumes ok: "echo_conn x u" and wc: "writeCallback x = Some ECHO_WRITE"
    and next_call: "\<And>x u. echo_conn x u \<Longrightarrow> readCallback x = Some ECHO_REQUEST \<Longrightarrow> echo_fuel x u < n \<Longrightarrow>
      echo_goal (out (eio u) (c_fd x) @ stream (c_fd x) (eio u)) (echo n ECHO_REQUEST (readData x) x u)"
    and n: "echo_fuel x u < Suc n"
  shows "echo_goal (out (eio u) (c_fd x) @ pending_bytes x u @ stream (c_fd x) (eio u)) (echo (Suc n) ECHO_WRITE (writeData x) x u)"
proof -
  let ?fd = "c_fd x" and ?d = "writeData x"
  from ok wc obtain b where fd: "0 \<le> ?fd" "\<not> aborted u" "0 < next_buf u" "calm_fd ?fd (eio u)" "readCallback x = None"
    "bufs u ?d = Some b" "buf_ok b" "?d \<noteq> 0" by (auto simp: echo_conn_def)
  have p: "pending_bytes x u = todo b" using fd wc by (simp add: pending_bytes_def)
  obtain r t where L: "echo_write_loop ?fd b (eio u) = (r, t)" by fastforce
  note S = echo_write_loop_spec [OF L fd(7) fd(4)]
  define x2 where "x2 = x\<lparr>writeCallback := None, writeData := 0\<rparr>"
  define u2 where "u2 = u\<lparr>eio := t\<rparr>"
  define x3 where "x3 = x2\<lparr>readCallback := Some ECHO_REQUEST, readData := ?d\<rparr>"
  have run: "echoWrite (echo n) ?d x u = (case r of WKeep b \<Rightarrow> Some (0, x, u\<lparr>eio := t, bufs := (bufs u)(?d \<mapsto> b)\<rparr>)
     | WClose \<Rightarrow> Some (1, x, u\<lparr>eio := t\<rparr>) | WAbort \<Rightarrow> None
     | WDone \<Rightarrow> poServer_setReadCallback (echo n) (Some ECHO_REQUEST) ?d x2 u2)"
    using fd L by (cases r) (auto simp: echoWrite_def setWriteCallback_simps Let_def x2_def u2_def buf_ok_def)
  have st: "stream ?fd t = stream ?fd (eio u)" by (rule stream_rd_cong(1)) (use S in simp)
  show ?thesis
  proof (cases r)
    case (WKeep b')
    have "echo_conn x (u\<lparr>eio := t, bufs := (bufs u)(?d \<mapsto> b')\<rparr>)"
      using fd wc WKeep S by (auto simp: echo_conn_def)
    then show ?thesis using WKeep run S fd wc p st
      by (auto simp: or_abort_def echo_goal_def pending_bytes_def)
  next
    case WClose
    then show ?thesis using run S fd by (auto simp: or_abort_def echo_goal_def)
  next
    case WDone
    have c3: "echo_conn x3 u2" using fd S by (simp add: echo_conn_def x3_def x2_def u2_def)
    have fuel: "echo_fuel x3 u2 < n" using n S WDone by (auto simp: echo_fuel_def x3_def x2_def u2_def rd_size_def)
    have all: "out (eio u) ?fd @ pending_bytes x u @ stream ?fd (eio u) = out (eio u2) (c_fd x3) @ stream (c_fd x3) (eio u2)"
      using S WDone p st by (simp add: x3_def x2_def u2_def)
    have req: "echoWrite (echo n) ?d x u = poServer_setReadCallback (echo n) (Some ECHO_REQUEST) ?d x2 u2"
      using run WDone by simp
    show ?thesis
    proof (cases "readReady x2")
      case True
      have "echoWrite (echo n) ?d x u = Some (echo n ECHO_REQUEST ?d x3 u2)"
        unfolding req x3_def by (rule setReadCallback_simps(3)) (use True fd in \<open>auto simp: x2_def\<close>)
      with next_call [OF c3 _ fuel] all show ?thesis by (simp add: or_abort_def x3_def)
    next
      case False
      have "echoWrite (echo n) ?d x u = Some (0, x3, u2)"
        unfolding req x3_def by (rule setReadCallback_simps(2)) (use False fd in \<open>auto simp: x2_def\<close>)
      with c3 all fd show ?thesis by (auto simp: or_abort_def echo_goal_def u2_def pending_bytes_def x3_def x2_def)
    qed
  qed (use S in auto)
qed

lemma echo_ok:
  assumes "echo_conn x u" and "echo_fuel x u < n"
  shows "(readCallback x = Some ECHO_REQUEST \<longrightarrow>
       echo_goal (out (eio u) (c_fd x) @ stream (c_fd x) (eio u)) (echo n ECHO_REQUEST (readData x) x u))
   \<and> (writeCallback x = Some ECHO_WRITE \<longrightarrow>
       echo_goal (out (eio u) (c_fd x) @ pending_bytes x u @ stream (c_fd x) (eio u)) (echo n ECHO_WRITE (writeData x) x u))"
  using assms
proof (induction n arbitrary: x u)
  case (Suc n)
  show ?case
    using echo_request_ok [OF Suc.prems(1) _ _ Suc.prems(2)] echo_write_ok [OF Suc.prems(1) _ _ Suc.prems(2)] Suc.IH
    by simp
qed simp

end
