(* ===== verification/ServerProperties.thy ===== *)
theory ServerProperties
  imports ServerThreads Echo
begin

text \<open>
  What the theories of the server say together, for the server without and with a thread pool, with
  the echo callbacks as the example of a client; and where the code does less than it means to.
\<close>

subsection \<open>A small server\<close>

text \<open>One listener, one connection, idle connections removed after a second.\<close>

definition sv1 :: sv_config where
  "sv1 = \<lparr>NUM_LISTENERS = 1, MAX_CONNECTIONS = 1, LONG_TIMEOUT = 1000, WAIT_TIMEOUT = -1\<rparr>"

lemma sv1 [simp]: "sv_config_ok sv1" "NUM_LISTENERS sv1 = 1" "MAX_CONNECTIONS sv1 = 1" "LONG_TIMEOUT sv1 = 1000" "WAIT_TIMEOUT sv1 = -1"
  by (simp_all add: sv1_def sv_config_ok_def)

definition calm_answers :: setup_answers where
  "calm_answers = \<lparr>addr_ok = True, found = -1, socket_ok = True, reuse_ok = True, sa_fcntl_ok = True,
     bind_ok = True, listen_ok = True, sa_epoll_ok = True\<rparr>"

definition io0 :: io where
  "io0 = \<lparr>rd = (\<lambda>_. []), wr = (\<lambda>_. []), out = (\<lambda>_. [])\<rparr>"

definition echo0 :: echo_st where
  "echo0 = \<lparr>eio = io0, bufs = Map.empty, next_buf = 1, aborted = False\<rparr>"

definition kern0 :: kernel where
  "kern0 = \<lparr>open_fds = [0, 1, 2], backlog = (\<lambda>_. []), clock = 0\<rparr>"

text \<open>The state after \<^verbatim>\<open>poServer_create\<close> and \<^verbatim>\<open>poServer_listenerSetup\<close>, with the echo callback.\<close>

definition boot :: "'u \<Rightarrow> 'u world" where
  "boot u = (case poServer_create sv1 False True kern0 of Some (Some s, k) \<Rightarrow>
     (case poServer_listenerSetup sv1 calm_answers 7 (Some ECHO_REQUEST) 0 (s, k) of
        Some (_, s, k) \<Rightarrow> \<lparr>srv = s, kern = k, usr = u\<rparr>))"

lemma boot_eq: "boot u = \<lparr>srv = \<lparr>listener = (\<lambda>_. zero_listener)(0 := \<lparr>l_fd = 4, l_addr = 7, l_next = None, waiting = False,
       callback = Some ECHO_REQUEST, l_data = 0\<rparr>), numListeners = 1, waitingq = \<lparr>wq_first = None, wq_last = None\<rparr>,
     efd = 3, conn = (\<lambda>_. zero_conn), used = \<lparr>cl_num = 0, cl_first = None, cl_last = None\<rparr>,
     unusedq = \<lparr>cq_back = Some 0, cq_front = Some 0\<rparr>, isRunning = True, listenersDown = False\<rparr>,
     kern = \<lparr>open_fds = [4, 3, 0, 1, 2], backlog = (\<lambda>_. []), clock = 0\<rparr>, usr = u\<rparr>"
  by (simp add: boot_def poServer_create_def poServer_listenerSetup_def unusedPush_def zero_server_def zero_listener_def
      zero_conn_def kern0_def calm_answers_def new_fd_def upd_def setNonblocking_def numeral_eq_Suc fun_eq_iff)

lemma boot_inv: "sv_inv_at sv1 G {0, 1, 2} (boot u) [] [0] []"
  by (auto simp: sv_inv_at_def boot_eq conn_rep_def wq_rep_def fds_ok_def conn_fds_def listen_fds_def conn_clear_def zero_conn_def
      zero_listener_def slq_def)

lemma boot_kernel: "kernel_calm (kern (boot u))" "listeners_ok sv1 (srv (boot u))" "setup_ok sv1 (srv (boot u))"
  "unat (numListeners (srv (boot u))) = 1" "efd (srv (boot u)) = 3"
  by (auto simp: boot_eq kernel_calm_def listeners_ok_def setup_ok_def)

lemma echo_client: "server_cb echo_cb {ECHO_CLEANUP}"
  by (rule ec.server_cb_axioms)

subsection \<open>Without a thread pool\<close>

text \<open>The descriptors of the server, read off its state.\<close>

definition server_fds :: "sv_config \<Rightarrow> POServer \<Rightarrow> int set" where
  "server_fds cfg s = {c_fd (conn s c) | c. c < MAX_CONNECTIONS cfg \<and> c_fd (conn s c) \<noteq> -1}
     \<union> {l_fd (listener s l) | l. l < NUM_LISTENERS cfg \<and> 0 \<le> l_fd (listener s l)} \<union> {efd s}"

lemma sv_inv_fds:
  assumes inv: "sv_inv_at cfg G others w us fs ws"
  shows "set (open_fds (kern w)) = others \<union> server_fds cfg (srv w)" "others \<inter> server_fds cfg (srv w) = {}"
    "c < MAX_CONNECTIONS cfg \<Longrightarrow> c_fd (conn (srv w) c) \<noteq> -1 \<longleftrightarrow> c \<in> set us"
    "c < MAX_CONNECTIONS cfg \<Longrightarrow> d < MAX_CONNECTIONS cfg \<Longrightarrow> c_fd (conn (srv w) c) = c_fd (conn (srv w) d) \<Longrightarrow>
       c_fd (conn (srv w) c) \<noteq> -1 \<Longrightarrow> c = d"
proof -
  from inv have F: "fds_ok cfg others (srv w) (kern w) us" by (simp add: sv_inv_at_def)
  have used: "c_fd (conn (srv w) c) \<noteq> -1 \<longleftrightarrow> c \<in> set us" if "c < MAX_CONNECTIONS cfg" for c
    using used_iff [OF inv, of c] that by (simp add: is_used_def)
  have sub: "set us \<subseteq> {..<MAX_CONNECTIONS cfg}" using inv by (auto simp: sv_inv_at_def conn_rep_def)
  have "{c. c < MAX_CONNECTIONS cfg \<and> c_fd (conn (srv w) c) \<noteq> -1} = set us" using sub used by blast
  then have "{c_fd (conn (srv w) c) | c. c < MAX_CONNECTIONS cfg \<and> c_fd (conn (srv w) c) \<noteq> -1} = set (conn_fds (srv w) us)"
    by (simp add: setcompr_eq_image conn_fds_def)
  moreover have "{l_fd (listener (srv w) l) | l. l < NUM_LISTENERS cfg \<and> 0 \<le> l_fd (listener (srv w) l)} = set (listen_fds cfg (srv w))"
    by (auto simp: listen_fds_def)
  ultimately have "server_fds cfg (srv w) = set (conn_fds (srv w) us @ listen_fds cfg (srv w) @ [efd (srv w)])"
    by (simp add: server_fds_def Un_assoc)
  with F show "set (open_fds (kern w)) = others \<union> server_fds cfg (srv w)" "others \<inter> server_fds cfg (srv w) = {}"
    by (simp_all add: fds_ok_def)
  show "c < MAX_CONNECTIONS cfg \<Longrightarrow> c_fd (conn (srv w) c) \<noteq> -1 \<longleftrightarrow> c \<in> set us" by (rule used)
  have "inj_on (c_fd \<circ> conn (srv w)) (set us)" using F by (simp add: fds_ok_def conn_fds_def distinct_map)
  then show "c = d" if "c < MAX_CONNECTIONS cfg" "d < MAX_CONNECTIONS cfg" "c_fd (conn (srv w) c) = c_fd (conn (srv w) d)"
       "c_fd (conn (srv w) c) \<noteq> -1"
    using used [OF that(1)] used [OF that(2)] that(3,4) by (simp add: inj_on_def)
qed

text \<open>
  The server is set up from an object of any content: \<^verbatim>\<open>poServer_create\<close> returns it with no
  connection and no listener, and each \<^verbatim>\<open>poServer_listenerSetup\<close> opens the next listener; the server runs
  exactly when the last one is open. A listening socket handed over is taken out of the descriptors of
  the process instead of opening one.
\<close>

theorem server_listener_setup:
  assumes "sv_inv cfg G others w" and "setup_ok cfg (srv w)" and "unat (numListeners (srv w)) < NUM_LISTENERS cfg"
    and "setup_calm a" and "found a = -1 \<or> found a \<in> others" and "\<forall>x \<in> others. 0 \<le> x"
  shows "\<exists>s k. poServer_listenerSetup cfg a addr (Some cbk) d (srv w, kern w) = Some (False, s, k)
     \<and> sv_inv cfg G (others - {found a}) (w\<lparr>srv := s, kern := k\<rparr>) \<and> setup_ok cfg s
     \<and> unat (numListeners s) = Suc (unat (numListeners (srv w)))
     \<and> (isRunning s \<longleftrightarrow> Suc (unat (numListeners (srv w))) = NUM_LISTENERS cfg)"
proof -
  from assms(1) obtain us fs ws where "sv_inv_at cfg G others w us fs ws" by (auto simp: sv_inv_def)
  from listenerSetup_inv [OF this assms(2-6), of addr cbk d] obtain s k where
    "poServer_listenerSetup cfg a addr (Some cbk) d (srv w, kern w) = Some (False, s, k)"
    "sv_inv_at cfg G (others - {found a}) (w\<lparr>srv := s, kern := k\<rparr>) us fs ws" "setup_ok cfg s"
    "unat (numListeners s) = Suc (unat (numListeners (srv w)))" by blast
  then show ?thesis by (auto simp: setup_ok_def intro: sv_invI)
qed

theorem server_listener_setup_witness:
  "\<exists>s k s' k'. poServer_create sv1 False True kern0 = Some (Some s, k)
     \<and> poServer_listenerSetup sv1 calm_answers 7 (Some ECHO_REQUEST) 0 (s, k) = Some (False, s', k') \<and> isRunning s'"
proof -
  from create_inv [of sv1 kern0 "{ECHO_CLEANUP}" echo0] obtain s k where
    C: "poServer_create sv1 False True kern0 = Some (Some s, k)"
       "sv_inv sv1 {ECHO_CLEANUP} {0, 1, 2} \<lparr>srv = s, kern = k, usr = echo0\<rparr>" "setup_ok sv1 s" "numListeners s = 0"
    by (auto simp: kern0_def intro: sv_invI)
  from server_listener_setup [OF C(2), of calm_answers 7 ECHO_REQUEST 0] C show ?thesis
    by (auto simp: calm_answers_def setup_calm_def)
qed

text \<open>
  Property C7. A turn of the event loop keeps the server in order, whatever its client does: it returns,
  no assertion fails, the open descriptors of the process are those it had besides the server's and
  exactly those of the server's open connections, its listeners and epoll, no two connections share
  one, and the listeners stay as they are. The events may be any that belong to open connections, an
  event of a connection that an earlier event of the same batch closed excepted. The kernel does not fail for the clients that wait
  (\<open>kernel_calm\<close>: they can be accepted, made non-blocking and registered), and \<^verbatim>\<open>epoll_wait\<close> fails only for a signal.
\<close>

theorem server_next_event:
  assumes "server_cb cb G" and "sv_inv cfg G others w" and "kernel_calm (kern w)" and "listeners_ok cfg (srv w)"
    and "0 \<le> elapsed wk" and "\<forall>p \<in> snd ` set (arrivals wk). p = Pending True True" and "answer wk \<noteq> WaitFailed"
    and "\<And>evs w1 us fs ws. answer wk = WaitEvents evs \<Longrightarrow> sv_inv_at cfg G others w1 us fs ws \<Longrightarrow>
       ready_for_events cfg cb w = Some w1 \<Longrightarrow> fresh cfg (set us) evs"
  shows "\<exists>w'. poServer_doNextEvent cfg cb wk w = Some w' \<and> sv_inv cfg G others w' \<and> kernel_calm (kern w')
     \<and> listeners_ok cfg (srv w') \<and> set (open_fds (kern w')) = others \<union> server_fds cfg (srv w')
     \<and> others \<inter> server_fds cfg (srv w') = {}"
proof -
  from server_cb.doNextEvent_inv [OF assms(1-5)] assms(6-8) obtain w' where
    E: "poServer_doNextEvent cfg cb wk w = Some w'" "sv_inv cfg G others w'" "shell (srv w') = shell (srv w)"
       "kernel_calm (kern w')" by blast
  from E(2) obtain us fs ws where I: "sv_inv_at cfg G others w' us fs ws" by (auto simp: sv_inv_def)
  have "isRunning (srv w') = isRunning (srv w)"
    using arg_cong [OF E(3), of "fst \<circ> snd \<circ> snd"] by (simp add: shell_def)
  then have "listeners_ok cfg (srv w')" using assms(4) by (simp add: listeners_ok_def shell_fds [OF E(3)])
  then show ?thesis using E sv_inv_fds(1,2) [OF I] by simp
qed

text \<open>A client connects and the listener gets its event.\<close>

definition listen_ev :: epoll_event where
  "listen_ev = \<lparr>ev_ptr = EvListener 0, EPOLLIN = True, EPOLLOUT = False, EPOLLRDHUP = False, EPOLLERR = False\<rparr>"

definition connect_wake :: wake where
  "connect_wake = \<lparr>answer = WaitEvents [listen_ev], elapsed = 1, arrivals = [(4, Pending True True)]\<rparr>"

theorem server_next_event_witness:
  "\<exists>w'. poServer_doNextEvent sv1 echo_cb connect_wake (boot echo0) = Some w'
     \<and> set (open_fds (kern w')) = {0, 1, 2} \<union> server_fds sv1 (srv w')"
proof -
  have f: "fresh sv1 U evs" if "answer connect_wake = WaitEvents evs" for U evs
    using that by (auto simp: connect_wake_def listen_ev_def)
  have "\<exists>w'. poServer_doNextEvent sv1 echo_cb connect_wake (boot echo0) = Some w' \<and> sv_inv sv1 {ECHO_CLEANUP} {0, 1, 2} w'
     \<and> kernel_calm (kern w') \<and> listeners_ok sv1 (srv w') \<and> set (open_fds (kern w')) = {0, 1, 2} \<union> server_fds sv1 (srv w')
     \<and> {0, 1, 2} \<inter> server_fds sv1 (srv w') = {}"
    by (rule server_next_event [OF echo_client sv_invI [OF boot_inv] boot_kernel(1,2)])
       (simp_all add: connect_wake_def f [unfolded connect_wake_def, simplified] listen_ev_def)
  then show ?thesis by blast
qed

text \<open>
  The long timeout: before the server waits, it removes exactly the connections that were
  accepted at least \<^verbatim>\<open>PO_SERVER_CONNECTION_LONG_TIMEOUT\<close> ago; the others keep their descriptor, callbacks
  and data. The loop ends.
\<close>

theorem server_long_timeout:
  assumes "server_cb cb G" and "sv_inv cfg G others w"
  shows "\<exists>w'. remove_old cfg cb t w = Some w' \<and> sv_inv cfg G others w'
     \<and> (\<forall>c < MAX_CONNECTIONS cfg. c_fd (conn (srv w') c) \<noteq> -1 \<longleftrightarrow>
          c_fd (conn (srv w) c) \<noteq> -1 \<and> t - acceptTime (conn (srv w) c) < of_int (LONG_TIMEOUT cfg) / 1000)
     \<and> (\<forall>c < MAX_CONNECTIONS cfg. c_fd (conn (srv w') c) \<noteq> -1 \<longrightarrow> body (conn (srv w') c) = body (conn (srv w) c))"
proof -
  from assms(2) obtain us fs ws where inv: "sv_inv_at cfg G others w us fs ws" by (auto simp: sv_inv_def)
  from server_cb.remove_old_inv [OF assms(1) inv, of t] obtain w' us' fs' where
    R: "remove_old cfg cb t w = Some w'" "sv_inv_at cfg G others w' us' fs' ws"
       "set us' \<subseteq> set us" "\<forall>c \<in> set us'. \<not> older (LONG_TIMEOUT cfg) t c w"
       "\<forall>c \<in> set us. \<not> older (LONG_TIMEOUT cfg) t c w \<longrightarrow> c \<in> set us'"
       "\<forall>c \<in> set us'. body (conn (srv w') c) = body (conn (srv w) c)" by blast
  have "c_fd (conn (srv w') c) \<noteq> -1 \<longleftrightarrow>
      c_fd (conn (srv w) c) \<noteq> -1 \<and> t - acceptTime (conn (srv w) c) < of_int (LONG_TIMEOUT cfg) / 1000"
    if "c < MAX_CONNECTIONS cfg" for c
    unfolding sv_inv_fds(3) [OF inv that] sv_inv_fds(3) [OF R(2) that] using R(3-5) by (auto simp: older_def not_le)
  moreover have "body (conn (srv w') c) = body (conn (srv w) c)" if "c < MAX_CONNECTIONS cfg" "c_fd (conn (srv w') c) \<noteq> -1" for c
    using R(6) that sv_inv_fds(3) [OF R(2)] by blast
  ultimately show ?thesis using R(1,2) sv_invI by blast
qed

theorem server_long_timeout_witness:
  "\<exists>w'. remove_old sv1 echo_cb 5 (boot echo0) = Some w' \<and> c_fd (conn (srv w') 0) = -1"
  using server_long_timeout [OF echo_client sv_invI [OF boot_inv], of 5] by (auto simp: boot_eq zero_conn_def)

text \<open>A server that is full, and waits a tenth of a second before it makes room for a new client.\<close>

definition sv2 :: sv_config where
  "sv2 = sv1\<lparr>LONG_TIMEOUT := -1, WAIT_TIMEOUT := 100\<rparr>"

definition full_world :: "pending list \<Rightarrow> unit world" where
  "full_world ps = (let w = boot () in
     w\<lparr>srv := (srv w)\<lparr>conn := (\<lambda>_. zero_conn\<lparr>c_fd := 5, readCallback := Some 8, readData := 3\<rparr>),
         used := \<lparr>cl_num = 1, cl_first = Some 0, cl_last = Some 0\<rparr>,
         unusedq := \<lparr>cq_back = None, cq_front = None\<rparr>\<rparr>,
       kern := \<lparr>open_fds = [5, 4, 3, 0, 1, 2], backlog = (\<lambda>_. [])(4 := ps), clock = 1\<rparr>\<rparr>)"

definition hangup_ev :: epoll_event where
  "hangup_ev = \<lparr>ev_ptr = EvConn 0, EPOLLIN = False, EPOLLOUT = False, EPOLLRDHUP = True, EPOLLERR = False\<rparr>"

text \<open>A client whose callbacks always ask to close.\<close>

definition hangup_cb :: "unit ucb" where
  "hangup_cb k d x u = (1, x, u)"

lemma hangup_client: "server_cb hangup_cb {}"
  by unfold_locales (auto simp: hangup_cb_def)

lemma full_inv: "sv_inv_at sv2 {} {0, 1, 2} (full_world ps) [0] [] []" "sv_inv_at sv1 {} {0, 1, 2} (full_world ps) [0] [] []"
  by (auto simp: sv_inv_at_def full_world_def boot_eq conn_rep_def wq_rep_def fds_ok_def conn_fds_def listen_fds_def
      conn_clear_def zero_conn_def zero_listener_def slq_def dll_def sv2_def sv_config_ok_def sv1_def)

text \<open>
  Property C12. Shutting down while the clients say nothing more, that is while \<^verbatim>\<open>epoll_wait\<close> only returns with timeouts or for signals, any
  number of them. No assertion fails. Without a long timeout (\<^verbatim>\<open>PO_SERVER_CONNECTION_LONG_TIMEOUT\<close> -1) the loop of \<^verbatim>\<open>poServer_shutdown\<close> goes on
  as long as a connection is open, and it closes none, as the comment above it says. With a long timeout it has ended at the turn after the long
  timeout has passed, at the latest. When it has ended, \<^verbatim>\<open>poServer_destroy\<close> returns, and the open descriptors are those the process had without the server.
\<close>

theorem server_shutdown_destroy:
  assumes "server_cb cb G" and "sv_inv cfg G others w" and "\<And>i. i < NUM_LISTENERS cfg \<Longrightarrow> 0 \<le> l_fd (listener (srv w) i)"
    and "unat (numListeners (srv w)) = NUM_LISTENERS cfg" and "0 \<le> efd (srv w)" and "list_all quiet wks"
  shows "\<exists>b w1. poServer_shutdown cfg cb wks w = Some (b, w1)
     \<and> (LONG_TIMEOUT cfg = -1 \<longrightarrow> (\<forall>c < MAX_CONNECTIONS cfg. is_used cfg c w1 \<longleftrightarrow> is_used cfg c w)
          \<and> (b \<longleftrightarrow> (\<forall>c < MAX_CONNECTIONS cfg. \<not> is_used cfg c w)))
     \<and> (LONG_TIMEOUT cfg \<noteq> -1 \<and> wks \<noteq> [] \<and> of_int (LONG_TIMEOUT cfg) / 1000 \<le> sum_list (map elapsed (butlast wks)) \<longrightarrow> b)
     \<and> (b \<longrightarrow> (\<exists>w2. poServer_destroy cfg cb w1 = Some w2 \<and> set (open_fds (kern w2)) = others))"
proof -
  from assms(2) obtain us fs ws where inv: "sv_inv_at cfg G others w us fs ws" by (auto simp: sv_inv_def)
  from shutdown_closes [OF inv assms(3-5)] obtain w0 where
    S: "shut_listeners cfg w = Some w0" "sv_inv_at cfg G others w0 us fs []"
       "no_listeners cfg (srv w0)" "efd (srv w0) = efd (srv w)" by blast
  from server_cb.drain_quiet [OF assms(1) S(2) assms(6)] obtain b w1 us1 fs1 where
    D: "drain cfg cb wks w0 = Some (b, w1)" "sv_inv_at cfg G others w1 us1 fs1 []" "shell (srv w1) = shell (srv w0)"
      "b \<longleftrightarrow> us1 = []" "LONG_TIMEOUT cfg = -1 \<longrightarrow> set us1 = set us"
      "LONG_TIMEOUT cfg \<noteq> -1 \<and> wks \<noteq> []
         \<and> (\<forall>c \<in> set us. acceptTime (conn (srv w0) c) + of_int (LONG_TIMEOUT cfg) / 1000 \<le> clock (kern w0) + sum_list (map elapsed (butlast wks)))
         \<longrightarrow> us1 = []" by blast
  have run: "poServer_shutdown cfg cb wks w = Some (b, w1)" using S(1) D(1) by (simp add: poServer_shutdown_def)
  have u: "is_used cfg c w \<longleftrightarrow> c \<in> set us" "is_used cfg c w1 \<longleftrightarrow> c \<in> set us1" if "c < MAX_CONNECTIONS cfg" for c
    using used_iff [OF inv, of c] used_iff [OF D(2), of c] by auto
  have lt: "\<forall>c \<in> set us. c < MAX_CONNECTIONS cfg" using inv by (auto simp: sv_inv_at_def conn_rep_def)
  have never: "(\<forall>c < MAX_CONNECTIONS cfg. is_used cfg c w1 \<longleftrightarrow> is_used cfg c w) \<and> (b \<longleftrightarrow> (\<forall>c < MAX_CONNECTIONS cfg. \<not> is_used cfg c w))"
    if "LONG_TIMEOUT cfg = -1"
  proof -
    have "set us1 = set us" using D(5) that by blast
    then show ?thesis using u lt D(4) by (cases us) auto
  qed
  have ends: "b" if long: "LONG_TIMEOUT cfg \<noteq> -1" "wks \<noteq> []" "of_int (LONG_TIMEOUT cfg) / 1000 \<le> sum_list (map elapsed (butlast wks))"
  proof -
    have "acceptTime (conn (srv w0) c) \<le> clock (kern w0)" if "c \<in> set us" for c using S(2) that by (simp add: sv_inv_at_def)
    then have "\<forall>c \<in> set us. acceptTime (conn (srv w0) c) + of_int (LONG_TIMEOUT cfg) / 1000 \<le> clock (kern w0) + sum_list (map elapsed (butlast wks))"
      using long(3) by (fastforce intro: add_mono)
    then show ?thesis using D(4,6) long(1,2) by blast
  qed
  have "no_listeners cfg (srv w1)" using S(3) by (simp add: no_listeners_def shell_fds [OF D(3)])
  moreover have "0 \<le> efd (srv w1)"
    using arg_cong [OF D(3), of "fst \<circ> snd"] S(4) assms(5) by (simp add: shell_def)
  ultimately have "\<exists>w2. poServer_destroy cfg cb w1 = Some w2 \<and> set (open_fds (kern w2)) = others"
    by (rule server_cb.destroy_after_shutdown [OF assms(1) D(2)])
  then show ?thesis using run never ends by blast
qed

definition timeout_wake :: "real \<Rightarrow> wake" where
  "timeout_wake t = \<lparr>answer = WaitTimeout, elapsed = t, arrivals = []\<rparr>"

text \<open>The full server: with the long timeout of a second it gives everything back, without one it never ends.\<close>

theorem server_shutdown_destroy_witness:
  "(\<exists>w1 w2. poServer_shutdown sv1 hangup_cb [timeout_wake 1, timeout_wake 0] (full_world []) = Some (True, w1)
     \<and> poServer_destroy sv1 hangup_cb w1 = Some w2 \<and> set (open_fds (kern w2)) = {0, 1, 2})
   \<and> (\<exists>w1. poServer_shutdown sv2 hangup_cb [timeout_wake 9, timeout_wake 9] (full_world []) = Some (False, w1) \<and> is_used sv2 0 w1)"
proof
  have l: "NUM_LISTENERS sv2 = 1" "LONG_TIMEOUT sv2 = -1" "MAX_CONNECTIONS sv2 = 1" by (simp_all add: sv2_def)
  have w: "l_fd (listener (srv (full_world [])) 0) = 4" "unat (numListeners (srv (full_world []))) = 1" "efd (srv (full_world [])) = 3"
    "is_used sv2 0 (full_world [])"
    by (simp_all add: full_world_def boot_eq is_used_def sv2_def zero_conn_def)
  have q: "list_all quiet [timeout_wake 1, timeout_wake 0]" "list_all quiet [timeout_wake 9, timeout_wake 9]"
    by (simp_all add: quiet_def timeout_wake_def)
  from server_shutdown_destroy [OF hangup_client sv_invI [OF full_inv(2)] _ _ _ q(1), of "[]"] w
  show "\<exists>w1 w2. poServer_shutdown sv1 hangup_cb [timeout_wake 1, timeout_wake 0] (full_world []) = Some (True, w1)
     \<and> poServer_destroy sv1 hangup_cb w1 = Some w2 \<and> set (open_fds (kern w2)) = {0, 1, 2}"
    by (auto simp: timeout_wake_def)
  from server_shutdown_destroy [OF hangup_client sv_invI [OF full_inv(1)] _ _ _ q(2), of "[]"] w
  show "\<exists>w1. poServer_shutdown sv2 hangup_cb [timeout_wake 9, timeout_wake 9] (full_world []) = Some (False, w1) \<and> is_used sv2 0 w1"
    by (auto simp: l)
qed

text \<open>
  Destroying a server with an open listener never returns: \<^verbatim>\<open>poServer_destroy\<close> closes the
  listeners, and closes them again at its end, where the assertion on \<^verbatim>\<open>close\<close> fails. Only after
  \<^verbatim>\<open>poServer_shutdown\<close>, which marks them as closed, it returns.
\<close>

theorem server_destroy_closes_twice:
  assumes "i < NUM_LISTENERS cfg" and "0 \<le> l_fd (listener (srv w) i)"
  shows "poServer_destroy cfg cb w = None"
  using assms by (rule destroy_double_close)

theorem server_destroy_closes_twice_witness: "poServer_destroy sv1 echo_cb (boot echo0) = None"
  by (rule server_destroy_closes_twice [of 0]) (simp_all add: boot_eq)

lemmas sv_eval = doEvent_def listen_event_def queuePush_def queuePull_def upd_def lookForAcceptFromTimedOutConns_def
  older_def checkTryRemoveConnection_def removeConnection_def listRemove_def unusedPush_def set_conn_def Let_def
  close_fd_def poServer_accept_def k_accept_def addConnection_def setNonblocking_def listAddNew_def unusedPop_def new_fd_def
  conn_event_def numeral_eq_Suc zero_conn_def sv2_def sv1_def full_world_def boot_eq

text \<open>The full server after the event of its listener, with the new client in place of the old one.\<close>

definition full_after :: "unit world" where
  "full_after = (let w = full_world [] in w\<lparr>srv := (srv w)\<lparr>
     listener := (listener (srv w))(0 := (listener (srv w) 0)\<lparr>waiting := True\<rparr>),
     waitingq := \<lparr>wq_first = Some 0, wq_last = Some 0\<rparr>,
     conn := (conn (srv w))(0 := zero_conn\<lparr>changeCount := 1, c_fd := 5, acceptTime := 1, readCallback := Some ECHO_REQUEST\<rparr>)\<rparr>\<rparr>)"

lemma full_after: "doEvent sv2 hangup_cb listen_ev (full_world [Pending True True]) = Some full_after"
  apply (simp add: sv_eval listen_ev_def)
  apply (subst timed_out_loop.simps)
  apply (simp add: sv_eval)
  apply (subst timed_out_loop.simps)
  apply (simp add: sv_eval full_after_def)
  done

text \<open>
  Property C15. An event of a connection can hit the client that took its place: if the listener's event
  comes first, it may remove the timed-out connection and give its struct to a new client; the hang-up
  of the old client, later in the same batch, then closes the connection of the new one.
\<close>

theorem server_stale_event_closes_new_client:
  "\<exists>w1 w2. doEvent sv2 hangup_cb listen_ev (full_world [Pending True True]) = Some w1
     \<and> c_fd (conn (srv w1) 0) = 5 \<and> acceptTime (conn (srv w1) 0) = clock (kern w1) \<and> changeCount (conn (srv w1) 0) = 1
     \<and> doEvents sv2 hangup_cb [listen_ev, hangup_ev] (full_world [Pending True True]) = Some w2
     \<and> c_fd (conn (srv w2) 0) = -1 \<and> 5 \<notin> set (open_fds (kern w2))"
proof -
  have "\<exists>w2. doEvent sv2 hangup_cb hangup_ev full_after = Some w2 \<and> c_fd (conn (srv w2) 0) = -1 \<and> 5 \<notin> set (open_fds (kern w2))"
    by (simp add: hangup_ev_def sv_eval full_after_def)
  moreover have "c_fd (conn (srv full_after) 0) = 5" "acceptTime (conn (srv full_after) 0) = clock (kern full_after)"
    "changeCount (conn (srv full_after) 0) = 1" by (simp_all add: full_after_def full_world_def boot_eq)
  ultimately show ?thesis using full_after by auto
qed

text \<open>
  In the build without a thread pool such an event can also stop the server: if the new
  client has gone meanwhile (another server process took it), the struct is unused when its event is
  handled. \<^verbatim>\<open>doEvent\<close> looks for \<^verbatim>\<open>conn->fd == -1\<close> only in the build with a thread pool, and an
  assertion in \<^verbatim>\<open>removeConnection\<close> fails.
\<close>

theorem server_stale_event_aborts:
  "doEvents sv2 hangup_cb [listen_ev, hangup_ev] (full_world []) = None"
  apply (simp add: sv_eval listen_ev_def hangup_ev_def)
  apply (subst timed_out_loop.simps)
  apply (simp add: sv_eval)
  apply (subst timed_out_loop.simps)
  apply (simp add: sv_eval)
  done

text \<open>
  Listeners that wait are served in turn: any sequence of \<^verbatim>\<open>queuePush\<close> and of taking the
  first listener with \<^verbatim>\<open>queuePull\<close> is that of a first-in first-out queue.
\<close>

theorem waiting_listeners_fifo:
  assumes "wq_rep n q xs" and "queue_adm (\<lambda>i ys. i < n \<and> i \<notin> set ys) ops xs"
  shows "\<exists>out q' ys. queue_run queuePush wq_take ops q = Some (out, q') \<and> wq_rep n q' ys \<and> out @ ys = xs @ queue_ins ops"
  using wq.fifo_run assms by blast

theorem waiting_listeners_fifo_witness:
  "\<exists>out q' ys. queue_run queuePush wq_take [Enq 2, Enq 0, Deq, Enq 1, Deq]
       (\<lparr>wq_first = None, wq_last = None\<rparr>, \<lambda>_. zero_listener) = Some (out, q')
     \<and> wq_rep 3 q' ys \<and> out @ ys = [2, 0, 1]"
  using waiting_listeners_fifo [of 3 "(\<lparr>wq_first = None, wq_last = None\<rparr>, \<lambda>_. zero_listener)" "[]" "[Enq 2, Enq 0, Deq, Enq 1, Deq]"]
  by (simp add: wq_rep_def zero_listener_def)

text \<open>
  Property C13. The moves of a connection struct: \<^verbatim>\<open>listAddNew\<close> takes the struct that is unused longest and
  makes it the newest of the used ones, \<^verbatim>\<open>listRemove\<close> takes any used one out and puts it last into the
  queue of unused ones; the array stays partitioned into the two, and nothing but the links changes.
\<close>

theorem connection_moves:
  assumes "sv_config_ok cfg" and "conn_rep cfg s us (c # fs)"
  shows "\<exists>s' s''. listAddNew cfg s = Some (c, s') \<and> conn_rep cfg s' (us @ [c]) fs
     \<and> (\<forall>d \<in> set (us @ [c]). \<exists>s''. listRemove cfg d s' = Some s'' \<and> conn_rep cfg s'' (remove1 d (us @ [c])) (fs @ [d])
          \<and> (\<forall>i. body (conn s'' i) = body (conn s i)))"
proof -
  from listAddNew_spec [OF assms(2,1)] obtain s' where
    A: "listAddNew cfg s = Some (c, s')" "conn_rep cfg s' (us @ [c]) fs" "\<forall>i. body (conn s' i) = body (conn s i)" by blast
  have "\<exists>s''. listRemove cfg d s' = Some s'' \<and> conn_rep cfg s'' (remove1 d (us @ [c])) (fs @ [d])
      \<and> (\<forall>i. body (conn s'' i) = body (conn s i))" if "d \<in> set (us @ [c])" for d
    using listRemove_spec [OF A(2) assms(1) that] A(3) by (metis (full_types))
  with A show ?thesis by blast
qed

theorem connection_moves_witness:
  "\<exists>s' s''. listAddNew sv1 (srv (boot ())) = Some (0, s') \<and> conn_rep sv1 s' [0] []
     \<and> listRemove sv1 0 s' = Some s'' \<and> conn_rep sv1 s'' [] [0]"
proof -
  have "conn_rep sv1 (srv (boot ())) [] [0]" using boot_inv [of "{}" "()"] by (simp add: sv_inv_at_def)
  from connection_moves [OF sv1(1) this] show ?thesis by auto
qed

end
