(* ===== verification/ServerRuns.thy ===== *)
theory ServerRuns
  imports ServerProperties
begin

text \<open>
  What the protocol of the server with a thread pool guarantees in every run, whatever the order in which the main thread does its
  steps (theory ServerMaster has the order of the code), and one run in which a connection that is marked for removal is
  forgotten; and what the echo callbacks do.
\<close>

subsection \<open>Every run\<close>

text \<open>
  With a thread pool no assertion fails, however the master and the workers are
  interleaved: in every reachable state each of their steps that can be taken returns.
\<close>

theorem threads_asserts_hold:
  assumes "sv_reachable cfg cb G others s" and "t_enabled cfg e s"
  shows "\<exists>s'. t_exec cfg cb e s = Some s'"
proof -
  from assms(1) obtain us fs ws where "server_cb cb G" "t_inv cfg G others s"
    by (rule sv_reachable_at) (auto intro: t_invI)
  from server_cb.t_exec_inv [OF this assms(2)] show ?thesis by blast
qed

text \<open>The small server with its first client accepted and two tasks for it.\<close>

definition t_start :: "unit tserver" where
  "t_start = \<lparr>world = boot (), lock = (\<lambda>_. None), tasks = (\<lambda>_. TNone)\<rparr>"

definition read_ev :: epoll_event where
  "read_ev = \<lparr>ev_ptr = EvConn 0, EPOLLIN = True, EPOLLOUT = False, EPOLLRDHUP = False, EPOLLERR = False\<rparr>"

definition two_clients :: wake where
  "two_clients = \<lparr>answer = WaitTimeout, elapsed = 1, arrivals = [(4, Pending True True), (4, Pending True True)]\<rparr>"

lemma t_start_init: "t_init sv1 {} {0, 1, 2} t_start"
  unfolding t_init_def t_start_def using boot_inv [THEN sv_invI, of "{}" "()"] boot_kernel(1) [of "()"] by simp

definition run1 :: "t_event list" where
  "run1 = [MWait two_clients, MListen 0, MAccept, MDispatch read_ev 0 0, MDispatch read_ev 0 1, WLock 0, WCheck 0]"

definition run2 :: "t_event list" where
  "run2 = [WServe 0, WEnd 0, MAccept, WLock 1, MTryRemove 0, WCheck 1]"

definition conn1 :: "int \<Rightarrow> bool \<Rightarrow> bool \<Rightarrow> POServer_connection" where
  "conn1 n r m = zero_conn\<lparr>changeCount := n, c_fd := 5, acceptTime := 1, readCallback := Some ECHO_REQUEST, readReady := r,
     markedForRemoval := m\<rparr>"

definition world1 :: "POServer_connection \<Rightarrow> pending list \<Rightarrow> unit world" where
  "world1 x ps = (let w = boot () in
     w\<lparr>srv := (srv w)\<lparr>listener := (listener (srv w))(0 := (listener (srv w) 0)\<lparr>waiting := True\<rparr>),
         waitingq := \<lparr>wq_first = Some 0, wq_last = Some 0\<rparr>, conn := (\<lambda>_. zero_conn)(0 := x),
         used := \<lparr>cl_num = 1, cl_first = Some 0, cl_last = Some 0\<rparr>, unusedq := \<lparr>cq_back = None, cq_front = None\<rparr>\<rparr>,
       kern := \<lparr>open_fds = [5, 4, 3, 0, 1, 2], backlog = (\<lambda>_. [])(4 := ps), clock = 1\<rparr>\<rparr>)"

definition serving :: "unit tserver" where
  "serving = \<lparr>world = world1 (conn1 0 True False) [Pending True True], lock = (\<lambda>_. None)(0 := Some 0),
     tasks = (\<lambda>_. TNone)(0 := TServing 0 0, 1 := TQueued 0 0)\<rparr>"

definition forgotten :: "unit tserver" where
  "forgotten = \<lparr>world = world1 (conn1 1 False True) [], lock = (\<lambda>_. None), tasks = (\<lambda>_. TNone)\<rparr>"

lemmas t_eval = is_used_def conn_ready_def call_it_def epoll_wait_def sv_eval conn1_def world1_def

lemma run1: "t_run sv1 hangup_cb run1 t_start = Some serving"
  by (simp add: run1_def t_start_def serving_def t_eval two_clients_def read_ev_def fun_eq_iff)

lemma run2: "t_run sv1 hangup_cb run2 serving = Some forgotten"
  by (simp add: run2_def serving_def forgotten_def t_eval service_def service_read_def service_write_def call_cb_def
      hangup_cb_def fun_eq_iff)

lemma serving_reachable: "sv_reachable sv1 hangup_cb {} {0, 1, 2} serving"
  by (rule t_run_reachable [OF hangup_client t_start_init run1])

lemma forgotten_reachable: "sv_reachable sv1 hangup_cb {} {0, 1, 2} forgotten"
  by (rule reachable_rtranclp [OF t_run_steps [OF run2] serving_reachable])

theorem threads_asserts_hold_witness: "\<exists>s'. t_exec sv1 hangup_cb (WServe 0) serving = Some s'"
  by (rule threads_asserts_hold [OF serving_reachable]) (simp add: serving_def)

text \<open>
  With a thread pool, in every reachable state: the callbacks of a connection run for a task
  only while the task holds its mutex, the connection is open, and it is the very connection the
  task was made for; so at most one task runs the callbacks of a connection, and none runs those of
  a client that came later.
\<close>

lemma t_serving:
  assumes inv: "t_inv_at cfg G others s us fs ws" and t: "tasks s t = TServing c n"
  shows "is_used cfg c (world s) \<and> changeCount (conn (srv (world s)) c) = n \<and> lock s c = Some t
     \<and> (\<forall>t' n'. tasks s t' = TServing c n' \<or> tasks s t' = TLocked c n' \<longrightarrow> t' = t)"
proof -
  from inv have sv: "sv_inv_at cfg G others (world s) us fs ws" and lk: "\<And>t c. lock s c = Some t \<longleftrightarrow> holds_lock (tasks s t) c"
    by (simp_all add: t_inv_at_def)
  have "task_ok cfg us (world s) (TServing c n)" using inv t unfolding t_inv_at_def by metis
  then have "is_used cfg c (world s)" "changeCount (conn (srv (world s)) c) = n"
    using used_iff [OF sv] by auto
  moreover have l: "lock s c = Some t" using lk t by simp
  moreover have "t' = t" if "tasks s t' = TServing c n' \<or> tasks s t' = TLocked c n'" for t' n'
  proof -
    have "lock s c = Some t'" using lk that by auto
    with l show ?thesis by simp
  qed
  ultimately show ?thesis by blast
qed

theorem threads_serve_their_client:
  assumes "sv_reachable cfg cb G others s" and "tasks s t = TServing c n"
  shows "is_used cfg c (world s) \<and> changeCount (conn (srv (world s)) c) = n \<and> lock s c = Some t
     \<and> (\<forall>t' n'. tasks s t' = TServing c n' \<or> tasks s t' = TLocked c n' \<longrightarrow> t' = t)"
  using assms by (auto elim!: sv_reachable_at dest: t_serving)

theorem threads_serve_their_client_witness:
  "is_used sv1 0 (world serving) \<and> lock serving 0 = Some 0"
  using threads_serve_their_client [OF serving_reachable, of 0 0 0] by (simp add: serving_def)

text \<open>
  With a thread pool, in every reachable state: the open descriptors of the process are
  those it had besides the server's and exactly those of the server's open connections, its
  listeners and epoll; and two connections have different descriptors.
\<close>

theorem threads_descriptors:
  assumes "sv_reachable cfg cb G others s"
  shows "set (open_fds (kern (world s))) = others \<union> server_fds cfg (srv (world s))
     \<and> others \<inter> server_fds cfg (srv (world s)) = {}
     \<and> (\<forall>c d. is_used cfg c (world s) \<and> is_used cfg d (world s)
          \<and> c_fd (conn (srv (world s)) c) = c_fd (conn (srv (world s)) d) \<longrightarrow> c = d)"
proof -
  from assms obtain us fs ws where "t_inv_at cfg G others s us fs ws" by (rule sv_reachable_at)
  then have sv: "sv_inv_at cfg G others (world s) us fs ws" by (simp add: t_inv_at_def)
  show ?thesis using sv_inv_fds(1,2,4) [OF sv] unfolding is_used_def by blast
qed

theorem threads_descriptors_witness:
  "set (open_fds (kern (world serving))) = {0, 1, 2} \<union> server_fds sv1 (srv (world serving))"
  using threads_descriptors [OF serving_reachable] by blast

text \<open>
  A mark for removal can be forgotten: the master fails to get the mutex of a connection
  because of a worker with a task for an earlier client, and marks the connection; the worker finds
  its task too old and leaves \<^verbatim>\<open>ServiceConnection\<close> without a look at the mark. The comment in
  \<^verbatim>\<open>checkTryRemoveConnection\<close> says that the worker will remove the connection.
\<close>

theorem threads_mark_forgotten:
  "\<exists>s. sv_reachable sv1 hangup_cb {} {0, 1, 2} s \<and> is_used sv1 0 (world s)
     \<and> markedForRemoval (conn (srv (world s)) 0) \<and> (\<forall>t. tasks s t = TNone) \<and> (\<forall>c. lock s c = None)"
  by (rule exI [of _ forgotten]) (simp add: forgotten_reachable, simp add: forgotten_def t_eval)

subsection \<open>The echo server\<close>

text \<open>
  Property C14. The echo callbacks give back what they read: called as the server calls them, for a
  connection whose descriptor makes no error the code has no case for, they return, and what was
  written before, then what was left to write, then what was still to read is what is written
  after it, followed, if the connection is kept, by what is left to write and to read. So no byte is
  lost, repeated or reordered while the connection lives, however short the writes and reads.
\<close>

theorem echo_gives_back:
  assumes "echo_conn x u"
    and "readCallback x = Some k \<and> d = readData x \<or> writeCallback x = Some k \<and> d = writeData x"
    and "echo_cb k d x u = (rt, x', u')"
  shows "\<not> aborted u' \<and> (\<exists>rest. out (eio u) (c_fd x) @ pending_bytes x u @ stream (c_fd x) (eio u) = out (eio u') (c_fd x) @ rest
     \<and> (rt = 0 \<longrightarrow> echo_conn x' u' \<and> rest = pending_bytes x' u' @ stream (c_fd x) (eio u')))"
proof -
  have p: "pending_bytes x u = []" if "writeCallback x = None" using that by (simp add: pending_bytes_def)
  have cases: "readCallback x = Some ECHO_REQUEST \<and> k = ECHO_REQUEST \<and> d = readData x \<and> writeCallback x = None
      \<or> writeCallback x = Some ECHO_WRITE \<and> k = ECHO_WRITE \<and> d = writeData x"
    using assms(1,2) by (auto simp: echo_conn_def)
  have "echo_goal (out (eio u) (c_fd x) @ pending_bytes x u @ stream (c_fd x) (eio u)) (echo_cb k d x u)"
    using cases echo_ok [OF assms(1), of "Suc (echo_fuel x u)"] p unfolding echo_cb_def by auto
  moreover have "c_fd x' = c_fd x" using framed_fields(1) [OF echo_framed] assms(3) unfolding echo_cb_def by blast
  ultimately show ?thesis unfolding echo_goal_def assms(3) by simp
qed

definition echo_x :: POServer_connection where
  "echo_x = zero_conn\<lparr>c_fd := 5, readCallback := Some ECHO_REQUEST, readReady := True, writeReady := True\<rparr>"

definition echo_u :: echo_st where
  "echo_u = echo0\<lparr>eio := io0\<lparr>rd := (\<lambda>_. [])(5 := [RData [104, 105]]), wr := (\<lambda>_. [])(5 := [WIntr, WSome 1])\<rparr>\<rparr>"

theorem echo_gives_back_witness:
  "\<exists>rt x' u' rest. echo_cb ECHO_REQUEST 0 echo_x echo_u = (rt, x', u') \<and> \<not> aborted u'
     \<and> [104, 105] = out (eio u') 5 @ rest"
proof -
  obtain rt x' u' where R: "echo_cb ECHO_REQUEST 0 echo_x echo_u = (rt, x', u')" by (metis prod_cases3)
  have "echo_conn echo_x echo_u"
    by (simp add: echo_conn_def echo_x_def echo_u_def echo0_def io0_def calm_fd_def zero_conn_def)
  from echo_gives_back [OF this _ R] R show ?thesis
    by (auto simp: echo_x_def zero_conn_def echo_u_def echo0_def io0_def pending_bytes_def stream_def)
qed

end
