(* ===== verification/ServerMaster.thy ===== *)
theory ServerMaster
  imports ServerRuns
begin

text \<open>
  The server of src/potato_old/server.c with a thread pool as a program: the main thread runs the loop of
  server\_test.c, http\_test.c and service\_test.c, that is
  \<^verbatim>\<open>while(poServer_isRunning(s)) poServer_doNextEvents(s)\<close>, then \<^verbatim>\<open>poServer_shutdown\<close> and \<^verbatim>\<open>poServer_destroy\<close>, and the
  workers run \<^verbatim>\<open>ServiceConnection\<close>. Theory ServerThreads has what each of them does with a connection; here
  are the order in which the main thread does it, the server mutex, and the signal that ends the loop.

  A step of the main thread goes from one point where it may wait, or where a worker may come between, to the next.
\<close>

subsection \<open>The program of the main thread\<close>

text \<open>
  Where the main thread is. \<open>Some evs\<close> are the events that are still to be handled; \<open>None\<close> that it is going to
  wait for events. It holds the server mutex in all but the first seven.
\<close>

datatype m_pc =
    AtLoop
  | EpollWait
  | Woken "epoll_event list option"
  | RunTask epoll_event nat "epoll_event list"
  | ListenersDown
  | Closed
  | Gone
  | RemoveOld real
  | AcceptLoop real
  | LookFor real "epoll_event list option"
  | TimedOut real "epoll_event list option"
  | TimedAccept real "epoll_event list option"
  | Events "epoll_event list"
  | ListenAccept "epoll_event list"
  | CheckCallbacks epoll_event nat "epoll_event list"
  | ReadyConn epoll_event nat "epoll_event list"
  | Hangup epoll_event nat "epoll_event list"
  | TryRemove nat "epoll_event list"
  | Drain

primrec m_holds :: "m_pc \<Rightarrow> bool" where
  "m_holds AtLoop = False"
| "m_holds EpollWait = False"
| "m_holds (Woken k) = False"
| "m_holds (RunTask ev c evs) = False"
| "m_holds ListenersDown = False"
| "m_holds Closed = False"
| "m_holds Gone = False"
| "m_holds (RemoveOld t) = True"
| "m_holds (AcceptLoop t) = True"
| "m_holds (LookFor t k) = True"
| "m_holds (TimedOut t k) = True"
| "m_holds (TimedAccept t k) = True"
| "m_holds (Events evs) = True"
| "m_holds (ListenAccept evs) = True"
| "m_holds (CheckCallbacks ev c evs) = True"
| "m_holds (ReadyConn ev c evs) = True"
| "m_holds (Hangup ev c evs) = True"
| "m_holds (TryRemove c evs) = True"
| "m_holds Drain = True"

text \<open>
  \<open>down\<close>: the main thread is in \<^verbatim>\<open>poServer_shutdown\<close>, the listeners are closed. \<open>w_server\<close>: the task whose worker holds the
  server mutex.
\<close>

record 'u mserver =
  threads :: "'u tserver"
  pc :: m_pc
  down :: bool
  w_server :: "nat option"

abbreviation wld :: "'u mserver \<Rightarrow> 'u world" where
  "wld s \<equiv> world (threads s)"

definition act :: "sv_config \<Rightarrow> 'u ucb \<Rightarrow> t_event \<Rightarrow> 'u mserver \<Rightarrow> 'u mserver option" where
  "act cfg cb e s = map_option (\<lambda>t. s\<lparr>threads := t\<rparr>) (t_exec cfg cb e (threads s))"

definition after_look :: "epoll_event list option \<Rightarrow> m_pc" where
  "after_look k = (case k of None \<Rightarrow> EpollWait | Some evs \<Rightarrow> Events evs)"

text \<open>The beginning of \<^verbatim>\<open>_poServer_doNextEvent\<close> and its return, to \<^verbatim>\<open>poServer_doNextEvents\<close> or to the loop of \<^verbatim>\<open>poServer_shutdown\<close>.\<close>

definition begin_turn :: "sv_config \<Rightarrow> 'u mserver \<Rightarrow> 'u mserver" where
  "begin_turn cfg s = (let t = clock (kern (wld s)) in
     s\<lparr>pc := if LONG_TIMEOUT cfg \<noteq> -1 then RemoveOld t else AcceptLoop t\<rparr>)"

definition end_turn :: "'u mserver \<Rightarrow> 'u mserver" where
  "end_turn s = s\<lparr>pc := if down s then Drain else AtLoop\<rparr>"

definition loop_turn :: "sv_config \<Rightarrow> 'u mserver \<Rightarrow> 'u mserver option" where
  "loop_turn cfg s =
     (if isRunning (srv (wld s)) then do {
        ASSERT (0 \<le> efd (srv (wld s)));
        ASSERT (unat (numListeners (srv (wld s))) = NUM_LISTENERS cfg);
        Some (begin_turn cfg s) }
      else do {
        w \<leftarrow> shut_listeners cfg (wld s);
        Some (s\<lparr>threads := (threads s)\<lparr>world := w\<rparr>, pc := ListenersDown, down := True\<rparr>) })"

definition drain_turn :: "sv_config \<Rightarrow> 'u mserver \<Rightarrow> 'u mserver" where
  "drain_turn cfg s = (if cl_first (used (srv (wld s))) \<noteq> None then begin_turn cfg s else s\<lparr>pc := Closed\<rparr>)"

definition remove_old_turn :: "sv_config \<Rightarrow> 'u ucb \<Rightarrow> real \<Rightarrow> 'u mserver \<Rightarrow> 'u mserver option" where
  "remove_old_turn cfg cb t s = (case cl_first (used (srv (wld s))) of
       None \<Rightarrow> Some (s\<lparr>pc := AcceptLoop t\<rparr>)
     | Some c \<Rightarrow> if older (LONG_TIMEOUT cfg) t c (wld s) then do {
           ASSERT (cl_num (used (srv (wld s))) > 0);
           act cfg cb (MTryRemove c) s }
         else Some (s\<lparr>pc := AcceptLoop t\<rparr>))"

definition room :: "'u world \<Rightarrow> bool" where
  "room w \<longleftrightarrow> cq_back (unusedq (srv w)) \<noteq> None"

definition waits :: "'u world \<Rightarrow> bool" where
  "waits w \<longleftrightarrow> wq_first (waitingq (srv w)) \<noteq> None"

definition accept_turn :: "sv_config \<Rightarrow> 'u ucb \<Rightarrow> real \<Rightarrow> 'u mserver \<Rightarrow> 'u mserver option" where
  "accept_turn cfg cb t s = (if waits (wld s) \<and> room (wld s) then act cfg cb MAccept s else Some (s\<lparr>pc := LookFor t None\<rparr>))"

definition look_turn :: "sv_config \<Rightarrow> real \<Rightarrow> epoll_event list option \<Rightarrow> 'u mserver \<Rightarrow> 'u mserver option" where
  "look_turn cfg t k s =
     (if WAIT_TIMEOUT cfg \<noteq> -1 \<and> waits (wld s) \<and> cl_first (used (srv (wld s))) \<noteq> None then do {
        ASSERT (unat (cl_num (used (srv (wld s)))) = MAX_CONNECTIONS cfg);
        Some (s\<lparr>pc := TimedOut t k\<rparr>) }
      else Some (s\<lparr>pc := after_look k\<rparr>))"

definition timed_out_turn :: "sv_config \<Rightarrow> 'u ucb \<Rightarrow> real \<Rightarrow> epoll_event list option \<Rightarrow> 'u mserver \<Rightarrow> 'u mserver option" where
  "timed_out_turn cfg cb t k s = (case cl_first (used (srv (wld s))) of
       None \<Rightarrow> Some (s\<lparr>pc := after_look k\<rparr>)
     | Some c \<Rightarrow> if waits (wld s) \<and> older (WAIT_TIMEOUT cfg) t c (wld s) then
           act cfg cb (MTryRemove c) (s\<lparr>pc := if lock (threads s) c = None then TimedAccept t k else after_look k\<rparr>)
         else Some (s\<lparr>pc := after_look k\<rparr>))"

text \<open>An event is taken from the list: that of a listener is handled, that of a connection is looked at further.\<close>

definition listen_turn :: "sv_config \<Rightarrow> 'u ucb \<Rightarrow> nat \<Rightarrow> epoll_event list \<Rightarrow> 'u mserver \<Rightarrow> 'u mserver option" where
  "listen_turn cfg cb l evs s =
     (if \<not> isRunning (srv (wld s)) \<and> l_fd (listener (srv (wld s)) l) = -1 then Some (s\<lparr>pc := Events evs\<rparr>)
      else do {
        ASSERT (0 \<le> l_fd (listener (srv (wld s)) l));
        s \<leftarrow> act cfg cb (MListen l) s;
        Some (s\<lparr>pc := if room (wld s) then ListenAccept evs else LookFor (clock (kern (wld s))) (Some evs)\<rparr>) })"

definition events_turn :: "sv_config \<Rightarrow> 'u ucb \<Rightarrow> epoll_event list \<Rightarrow> 'u mserver \<Rightarrow> 'u mserver option" where
  "events_turn cfg cb evs s = (case evs of
       [] \<Rightarrow> Some (end_turn s)
     | ev # evs \<Rightarrow> (case ev_ptr ev of
           EvListener l \<Rightarrow> do {
             ASSERT (EPOLLIN ev \<and> \<not> EPOLLOUT ev \<and> \<not> EPOLLRDHUP ev \<and> \<not> EPOLLERR ev);
             listen_turn cfg cb l evs s }
         | EvConn c \<Rightarrow> Some (s\<lparr>pc := if c_fd (conn (srv (wld s)) c) = -1 then Events evs else CheckCallbacks ev c evs\<rparr>)))"

text \<open>
  \<^verbatim>\<open>doEvent\<close> reads both callbacks of the connection without its mutex. \<open>none\<close> tells what it reads: if a worker runs
  callbacks of the connection, it may see both as NULL, for a callback takes itself off before it sets another one.
\<close>

definition callbacks_turn :: "bool \<Rightarrow> epoll_event \<Rightarrow> nat \<Rightarrow> epoll_event list \<Rightarrow> 'u mserver \<Rightarrow> 'u mserver" where
  "callbacks_turn none ev c evs s =
     s\<lparr>pc := if none then TryRemove c evs else if EPOLLIN ev \<or> EPOLLOUT ev then ReadyConn ev c evs else Hangup ev c evs\<rparr>"

definition ready_turn :: "sv_config \<Rightarrow> 'u ucb \<Rightarrow> nat \<Rightarrow> epoll_event \<Rightarrow> nat \<Rightarrow> epoll_event list \<Rightarrow> 'u mserver \<Rightarrow> 'u mserver option" where
  "ready_turn cfg cb t ev c evs s = do {
     s \<leftarrow> act cfg cb (MDispatch ev c t) s;
     Some (s\<lparr>pc := if call_it (conn (srv (wld s)) c) then RunTask ev c evs else Hangup ev c evs\<rparr>) }"

definition hangup_turn :: "epoll_event \<Rightarrow> nat \<Rightarrow> epoll_event list \<Rightarrow> 'u mserver \<Rightarrow> 'u mserver" where
  "hangup_turn ev c evs s =
     s\<lparr>pc := if c_fd (conn (srv (wld s)) c) \<noteq> -1 \<and> (EPOLLRDHUP ev \<or> EPOLLERR ev) then TryRemove c evs else Events evs\<rparr>"

text \<open>What \<^verbatim>\<open>epoll_wait\<close> returns; then the main thread needs the server mutex again.\<close>

definition wait_turn :: "sv_config \<Rightarrow> 'u ucb \<Rightarrow> wake \<Rightarrow> 'u mserver \<Rightarrow> 'u mserver option" where
  "wait_turn cfg cb wk s = do {
     s \<leftarrow> act cfg cb (MWait wk) s;
     (case answer wk of
        WaitTimeout \<Rightarrow> Some (s\<lparr>pc := Woken None\<rparr>)
      | WaitInterrupted \<Rightarrow> Some (s\<lparr>pc := Woken None\<rparr>)
      | WaitFailed \<Rightarrow> None
      | WaitEvents evs \<Rightarrow> Some (s\<lparr>pc := Woken (Some evs)\<rparr>)) }"

definition lock_turn :: "'u mserver \<Rightarrow> 'u mserver" where
  "lock_turn s = (case pc s of
       Woken k \<Rightarrow> (case k of None \<Rightarrow> end_turn s | Some evs \<Rightarrow> s\<lparr>pc := Events evs\<rparr>)
     | RunTask ev c evs \<Rightarrow> s\<lparr>pc := Hangup ev c evs\<rparr>
     | ListenersDown \<Rightarrow> s\<lparr>pc := Drain\<rparr>
     | _ \<Rightarrow> s)"

definition destroy_turn :: "sv_config \<Rightarrow> 'u ucb \<Rightarrow> 'u mserver \<Rightarrow> 'u mserver option" where
  "destroy_turn cfg cb s = do {
     w \<leftarrow> poServer_destroy cfg cb (wld s);
     Some (s\<lparr>threads := (threads s)\<lparr>world := w\<rparr>, pc := Gone\<rparr>) }"

subsection \<open>Steps\<close>

text \<open>
  \<open>Main\<close> is a step of the main thread that needs no answer, \<open>Lock\<close> one for which it needs the server mutex, \<open>Join\<close> the end of
  \<^verbatim>\<open>poServer_destroy\<close>, for which the thread pool must have done all tasks. \<open>WServer\<close>: the worker of a task gets the server mutex; \<open>Work\<close> is
  one of its other steps. \<open>Stop\<close> is the signal handler that ends the loop.
\<close>

datatype m_event =
    Main
  | Lock
  | Saw bool
  | Task nat
  | Wake wake
  | Join
  | Work t_event
  | WServer nat
  | Stop

fun m_exec :: "sv_config \<Rightarrow> 'u ucb \<Rightarrow> m_event \<Rightarrow> 'u mserver \<Rightarrow> 'u mserver option" where
  "m_exec cfg cb Main s = (case pc s of
       AtLoop \<Rightarrow> loop_turn cfg s
     | RemoveOld t \<Rightarrow> remove_old_turn cfg cb t s
     | AcceptLoop t \<Rightarrow> accept_turn cfg cb t s
     | LookFor t k \<Rightarrow> look_turn cfg t k s
     | TimedOut t k \<Rightarrow> timed_out_turn cfg cb t k s
     | TimedAccept t k \<Rightarrow> act cfg cb MAccept (s\<lparr>pc := TimedOut t k\<rparr>)
     | Events evs \<Rightarrow> events_turn cfg cb evs s
     | ListenAccept evs \<Rightarrow> act cfg cb MAccept (s\<lparr>pc := Events evs\<rparr>)
     | Hangup ev c evs \<Rightarrow> Some (hangup_turn ev c evs s)
     | TryRemove c evs \<Rightarrow> act cfg cb (MTryRemove c) (s\<lparr>pc := Events evs\<rparr>)
     | Drain \<Rightarrow> Some (drain_turn cfg s)
     | _ \<Rightarrow> None)"
| "m_exec cfg cb Lock s = Some (lock_turn s)"
| "m_exec cfg cb (Saw none) s = (case pc s of CheckCallbacks ev c evs \<Rightarrow> Some (callbacks_turn none ev c evs s) | _ \<Rightarrow> None)"
| "m_exec cfg cb (Task t) s = (case pc s of ReadyConn ev c evs \<Rightarrow> ready_turn cfg cb t ev c evs s | _ \<Rightarrow> None)"
| "m_exec cfg cb (Wake wk) s = wait_turn cfg cb wk s"
| "m_exec cfg cb Join s = destroy_turn cfg cb s"
| "m_exec cfg cb (Work e) s = act cfg cb e (case e of WEnd t \<Rightarrow> s\<lparr>w_server := None\<rparr> | _ \<Rightarrow> s)"
| "m_exec cfg cb (WServer t) s = Some (s\<lparr>w_server := Some t\<rparr>)"
| "m_exec cfg cb Stop s = Some (s\<lparr>threads := (threads s)\<lparr>world := (wld s)\<lparr>srv := (srv (wld s))\<lparr>isRunning := False\<rparr>\<rparr>\<rparr>\<rparr>)"

text \<open>
  What the kernel may answer: events for the listeners and the connections that were registered, in any number and
  however old; a timeout only if \<^verbatim>\<open>PO_SERVER_EPOLL_WAIT_TIME\<close>, here \<open>ms\<close>, is not infinite. \<^verbatim>\<open>epoll_wait\<close> does not fail, except for a
  signal, and reports nothing but \<^verbatim>\<open>EPOLLIN\<close> of a listener: the assertions for these two cases are not exercised.
\<close>

definition event_ok :: "sv_config \<Rightarrow> epoll_event \<Rightarrow> bool" where
  "event_ok cfg ev \<longleftrightarrow> (case ev_ptr ev of
       EvListener l \<Rightarrow> l < NUM_LISTENERS cfg \<and> EPOLLIN ev \<and> \<not> EPOLLOUT ev \<and> \<not> EPOLLRDHUP ev \<and> \<not> EPOLLERR ev
     | EvConn c \<Rightarrow> c < MAX_CONNECTIONS cfg)"

definition answer_ok :: "sv_config \<Rightarrow> int \<Rightarrow> wait_answer \<Rightarrow> bool" where
  "answer_ok cfg ms a \<longleftrightarrow> (case a of WaitTimeout \<Rightarrow> ms \<noteq> -1 | WaitInterrupted \<Rightarrow> True | WaitFailed \<Rightarrow> False
     | WaitEvents evs \<Rightarrow> list_all (event_ok cfg) evs)"

definition being_served :: "'u tserver \<Rightarrow> nat \<Rightarrow> bool" where
  "being_served s c \<longleftrightarrow> (case lock s c of Some t \<Rightarrow> (case tasks s t of TServing _ _ \<Rightarrow> True | _ \<Rightarrow> False) | None \<Rightarrow> False)"

primrec worker_event :: "t_event \<Rightarrow> bool" where
  "worker_event (MListen l) = False"
| "worker_event MAccept = False"
| "worker_event (MTryRemove c) = False"
| "worker_event (MDispatch ev c t) = False"
| "worker_event (MWait wk) = False"
| "worker_event (WLock t) = True"
| "worker_event (WCheck t) = True"
| "worker_event (WServe t) = True"
| "worker_event (WEnd t) = True"

fun m_enabled :: "sv_config \<Rightarrow> int \<Rightarrow> m_event \<Rightarrow> 'u mserver \<Rightarrow> bool" where
  "m_enabled cfg ms Main s = (case pc s of
       AtLoop \<Rightarrow> isRunning (srv (wld s)) \<longrightarrow> w_server s = None
     | AcceptLoop t \<Rightarrow> waits (wld s) \<and> room (wld s) \<longrightarrow> t_enabled cfg MAccept (threads s)
     | TimedAccept t k \<Rightarrow> t_enabled cfg MAccept (threads s)
     | ListenAccept evs \<Rightarrow> t_enabled cfg MAccept (threads s)
     | RemoveOld t \<Rightarrow> True | LookFor t k \<Rightarrow> True | TimedOut t k \<Rightarrow> True | Events evs \<Rightarrow> True | Hangup ev c evs \<Rightarrow> True
     | TryRemove c evs \<Rightarrow> True | Drain \<Rightarrow> True
     | _ \<Rightarrow> False)"
| "m_enabled cfg ms Lock s = (w_server s = None \<and> (case pc s of
       Woken k \<Rightarrow> True | RunTask ev c evs \<Rightarrow> True | ListenersDown \<Rightarrow> True | _ \<Rightarrow> False))"
| "m_enabled cfg ms (Saw none) s = (case pc s of
       CheckCallbacks ev c evs \<Rightarrow> being_served (threads s) c
         \<or> none = (readCallback (conn (srv (wld s)) c) = None \<and> writeCallback (conn (srv (wld s)) c) = None)
     | _ \<Rightarrow> False)"
| "m_enabled cfg ms (Task t) s = (case pc s of ReadyConn ev c evs \<Rightarrow> t_enabled cfg (MDispatch ev c t) (threads s) | _ \<Rightarrow> False)"
| "m_enabled cfg ms (Wake wk) s = (pc s = EpollWait \<and> t_enabled cfg (MWait wk) (threads s) \<and> answer_ok cfg ms (answer wk))"
| "m_enabled cfg ms Join s = (pc s = Closed \<and> (\<forall>t. tasks (threads s) t = TNone))"
| "m_enabled cfg ms (Work e) s = (worker_event e \<and> t_enabled cfg e (threads s) \<and> (case e of WEnd t \<Rightarrow> w_server s = Some t | _ \<Rightarrow> True))"
| "m_enabled cfg ms (WServer t) s = (w_server s = None \<and> \<not> m_holds (pc s)
     \<and> (case tasks (threads s) t of TUnlocked c n b \<Rightarrow> True | _ \<Rightarrow> False))"
| "m_enabled cfg ms Stop s = (pc s \<noteq> Gone)"

inductive m_step :: "sv_config \<Rightarrow> int \<Rightarrow> 'u ucb \<Rightarrow> 'u mserver \<Rightarrow> 'u mserver \<Rightarrow> bool" for cfg ms cb where
  m_stepI: "m_enabled cfg ms e s \<Longrightarrow> m_exec cfg cb e s = Some s' \<Longrightarrow> m_step cfg ms cb s s'"

inductive_simps m_step_iff: "m_step cfg ms cb s s'"

definition srv_ok :: "sv_config \<Rightarrow> bool \<Rightarrow> POServer \<Rightarrow> bool" where
  "srv_ok cfg d s \<longleftrightarrow> 0 \<le> efd s \<and> (if d then no_listeners cfg s \<and> \<not> isRunning s
     else unat (numListeners s) = NUM_LISTENERS cfg \<and> (\<forall>i < NUM_LISTENERS cfg. 0 \<le> l_fd (listener s i)))"

definition m_init :: "sv_config \<Rightarrow> nat set \<Rightarrow> int set \<Rightarrow> 'u mserver \<Rightarrow> bool" where
  "m_init cfg G others s \<longleftrightarrow> t_init cfg G others (threads s) \<and> srv_ok cfg False (srv (wld s))
     \<and> pc s = AtLoop \<and> \<not> down s \<and> w_server s = None"

fun m_run :: "sv_config \<Rightarrow> int \<Rightarrow> 'u ucb \<Rightarrow> m_event list \<Rightarrow> 'u mserver \<Rightarrow> 'u mserver option" where
  "m_run cfg ms cb [] s = Some s"
| "m_run cfg ms cb (e # es) s = (if m_enabled cfg ms e s then m_exec cfg cb e s \<bind> m_run cfg ms cb es else None)"

lemma m_run_steps: "m_run cfg ms cb es s = Some s' \<Longrightarrow> (m_step cfg ms cb)\<^sup>*\<^sup>* s s'"
proof (induction es arbitrary: s)
  case (Cons e es)
  then obtain s1 where "m_enabled cfg ms e s" "m_exec cfg cb e s = Some s1" "m_run cfg ms cb es s1 = Some s'"
    by (auto split: if_splits simp: bind_eq_Some_conv)
  then show ?case using Cons.IH m_stepI converse_rtranclp_into_rtranclp by metis
qed simp

end
