(* ===== verification/MasterInvariant.thy ===== *)
theory MasterInvariant
  imports ServerMaster
begin

text \<open>
  The invariant of the server with a thread pool as a program (theory ServerMaster): that of the threads, the state of the listeners,
  what holds at each place of the main thread, and who has the server mutex. Every step keeps it, so no step fails.
\<close>

subsection \<open>The invariant\<close>

primrec pc_ok :: "sv_config \<Rightarrow> 'u world \<Rightarrow> m_pc \<Rightarrow> bool" where
  "pc_ok cfg w AtLoop = True"
| "pc_ok cfg w EpollWait = True"
| "pc_ok cfg w (Woken k) = pred_option (list_all (event_ok cfg)) k"
| "pc_ok cfg w (RunTask ev c evs) = (c < MAX_CONNECTIONS cfg \<and> list_all (event_ok cfg) evs)"
| "pc_ok cfg w ListenersDown = True"
| "pc_ok cfg w Closed = True"
| "pc_ok cfg w Gone = False"
| "pc_ok cfg w (RemoveOld t) = True"
| "pc_ok cfg w (AcceptLoop t) = True"
| "pc_ok cfg w (LookFor t k) = (\<not> (room w \<and> waits w) \<and> pred_option (list_all (event_ok cfg)) k)"
| "pc_ok cfg w (TimedOut t k) = pred_option (list_all (event_ok cfg)) k"
| "pc_ok cfg w (TimedAccept t k) = (room w \<and> waits w \<and> pred_option (list_all (event_ok cfg)) k)"
| "pc_ok cfg w (Events evs) = list_all (event_ok cfg) evs"
| "pc_ok cfg w (ListenAccept evs) = (room w \<and> waits w \<and> list_all (event_ok cfg) evs)"
| "pc_ok cfg w (CheckCallbacks ev c evs) = (is_used cfg c w \<and> list_all (event_ok cfg) evs)"
| "pc_ok cfg w (ReadyConn ev c evs) = (is_used cfg c w \<and> (EPOLLIN ev \<or> EPOLLOUT ev) \<and> list_all (event_ok cfg) evs)"
| "pc_ok cfg w (Hangup ev c evs) = (c < MAX_CONNECTIONS cfg \<and> list_all (event_ok cfg) evs)"
| "pc_ok cfg w (TryRemove c evs) = (is_used cfg c w \<and> list_all (event_ok cfg) evs)"
| "pc_ok cfg w Drain = True"

definition w_ok :: "'u mserver \<Rightarrow> bool" where
  "w_ok s \<longleftrightarrow> (case w_server s of None \<Rightarrow> True
     | Some t \<Rightarrow> \<not> m_holds (pc s) \<and> (\<exists>c n b. tasks (threads s) t = TUnlocked c n b))"

definition gone :: "int set \<Rightarrow> 'u mserver \<Rightarrow> bool" where
  "gone others s \<longleftrightarrow> pc s = Gone \<and> set (open_fds (kern (wld s))) = others \<and> (\<forall>t. tasks (threads s) t = TNone) \<and> w_server s = None"

definition runs :: "sv_config \<Rightarrow> nat set \<Rightarrow> int set \<Rightarrow> 'u mserver \<Rightarrow> bool" where
  "runs cfg G others s \<longleftrightarrow> t_inv cfg G others (threads s) \<and> srv_ok cfg (down s) (srv (wld s)) \<and> pc_ok cfg (wld s) (pc s) \<and> w_ok s
     \<and> (pc s = ListenersDown \<or> pc s = Closed \<or> pc s = Drain \<longrightarrow> down s) \<and> (pc s = AtLoop \<longrightarrow> \<not> down s)"

definition m_inv :: "sv_config \<Rightarrow> nat set \<Rightarrow> int set \<Rightarrow> 'u mserver \<Rightarrow> bool" where
  "m_inv cfg G others s \<longleftrightarrow> gone others s \<or> runs cfg G others s"

subsection \<open>What no step changes\<close>

lemma listRemove_shell: "listRemove cfg c s = Some s' \<Longrightarrow> shell s' = shell s"
  by (auto simp: listRemove_def Let_def bind_eq_Some_conv shell_def)

lemma call_cb_shell: "call_cb cb k d c w = (rt, w') \<Longrightarrow> shell (srv w') = shell (srv w)"
  by (auto simp: call_cb_def shell_def set_conn_def split: prod.splits)

lemma set_conn_shell [simp]: "shell (srv (set_conn c f w)) = shell (srv w)"
  by (simp add: shell_def set_conn_def)

lemma removeConnection_shell:
  assumes "removeConnection cfg cb c w = Some w'"
  shows "shell (srv w') = shell (srv w)"
proof -
  from assms obtain s where L: "listRemove cfg c (srv w) = Some s"
    by (auto simp: removeConnection_def Let_def bind_eq_Some_conv)
  have "set_conn d f v = v\<lparr>srv := srv (set_conn d f v)\<rparr>" for d f and v :: "'a world" by (simp add: set_conn_def)
  show ?thesis
  proof (cases "cleanupCallback (conn s c)")
    case None
    then show ?thesis using assms L
      by (auto simp: removeConnection_def Let_def bind_eq_Some_conv shell_def set_conn_def dest!: listRemove_shell)
  next
    case (Some k)
    obtain rt v where C: "call_cb cb k (cleanupData (conn s c)) c (w\<lparr>srv := s\<rparr>) = (rt, v)" by fastforce
    then show ?thesis using assms L Some call_cb_shell [OF C]
      by (auto simp: removeConnection_def Let_def bind_eq_Some_conv shell_def set_conn_def dest!: listRemove_shell)
  qed
qed

lemma tryRemove_shell: "checkTryRemoveConnection cfg cb b c w = Some r \<Longrightarrow> shell (srv (snd r)) = shell (srv w)"
  by (auto simp: checkTryRemoveConnection_def bind_eq_Some_conv dest: removeConnection_shell split: if_splits)

lemma queuePush_fds: "queuePush l (q, ls) = Some (q', ls') \<Longrightarrow> l_fd \<circ> ls' = l_fd \<circ> ls"
  by (auto simp: queuePush_def Let_def bind_eq_Some_conv po_heap split: if_splits option.splits)
    (auto simp: fun_eq_iff upd_apply)

lemma service_shell: "service cb c w = Some (b, w') \<Longrightarrow> shell (srv w') = shell (srv w)"
  by (auto simp: service_def service_read_def service_write_def Let_def ASSERT_def dest!: call_cb_shell
      split: option.splits prod.splits if_splits)

lemma t_exec_shell:
  assumes "t_inv cfg G others s" and "t_enabled cfg e s" and "t_exec cfg cb e s = Some s'"
  shows "shell (srv (world s')) = shell (srv (world s))"
proof (cases e)
  case MAccept
  from assms(1) obtain us fs ws where sv: "sv_inv_at cfg G others (world s) us fs ws" and calm: "kernel_calm (kern (world s))"
    by (auto simp: t_inv_def t_inv_at_def)
  then have wq: "wq_rep (NUM_LISTENERS cfg) (waitingq (srv (world s)), listener (srv (world s))) ws"
    and rep: "conn_rep cfg (srv (world s)) us fs" by (auto simp: sv_inv_at_def)
  from assms(2) MAccept have "fs \<noteq> []" "ws \<noteq> []"
    using first_waiting [OF wq] rep by (auto split: option.splits simp: conn_rep_def)
  from accept_inv [OF sv this calm] obtain w' where "poServer_accept cfg (world s) = Some (False, w')" "kept (world s) w'" by blast
  with assms(3) MAccept show ?thesis by (auto simp: kept_def)
next
  case (MListen l)
  then show ?thesis using assms(3) by (auto simp: Let_def bind_eq_Some_conv shell_def dest!: queuePush_fds)
next
  case (MTryRemove c)
  then show ?thesis using assms(3) by (auto dest: tryRemove_shell)
next
  case (WEnd t)
  then show ?thesis using assms(3)
    by (auto simp: Let_def bind_eq_Some_conv dest: removeConnection_shell split: task_pc.splits if_splits)
next
  case (WServe t)
  then show ?thesis using assms(3) by (auto simp: bind_eq_Some_conv dest: service_shell split: task_pc.splits)
qed (use assms(3) in \<open>auto simp: Let_def conn_ready_def bind_eq_Some_conv split: task_pc.splits if_splits\<close>)

lemma service_parts:
  assumes "service cb c w = Some (b, w')" and "server_cb cb G" and "sv_inv_at cfg G others w us fs ws" and "c \<in> set us"
  shows "touched G c w w'"
proof -
  from assms(3,4) have "0 \<le> c_fd (conn (srv w) c)" "set_option (cleanupCallback (conn (srv w) c)) \<subseteq> G"
    by (auto simp: sv_inv_at_def fds_ok_def)
  from server_cb.service_touched [OF assms(2) this] assms(1) show ?thesis by auto
qed

lemma touched_server:
  assumes "touched G c w w'"
  shows "waits w' = waits w" "room w' = room w" "is_used cfg i w' = is_used cfg i w"
proof -
  from assms obtain x where x: "srv w' = (srv w)\<lparr>conn := (conn (srv w))(c := x)\<rparr>" "owned x = owned (conn (srv w) c)"
    by (auto simp: touched_def)
  from owned_fields(3) [OF x(2)] show "waits w' = waits w" "room w' = room w" "is_used cfg i w' = is_used cfg i w"
    by (simp_all add: waits_def room_def is_used_def x(1))
qed

text \<open>One step of the theory before, taken as a step of this program.\<close>

lemma act_inv:
  assumes "server_cb cb G" and "t_inv cfg G others (threads s)" and "t_enabled cfg e (threads s)"
  obtains t where "act cfg cb e s = Some (s\<lparr>threads := t\<rparr>)" "t_exec cfg cb e (threads s) = Some t" "t_inv cfg G others t"
    "shell (srv (world t)) = shell (srv (wld s))"
proof -
  from server_cb.t_exec_inv [OF assms] obtain t where "t_exec cfg cb e (threads s) = Some t" "t_inv cfg G others t" by blast
  with t_exec_shell [OF assms(2,3) this(1)] show ?thesis by (intro that [of t]) (simp_all add: act_def)
qed

subsection \<open>Every step keeps the invariant\<close>

lemma srv_ok_shell: "shell s' = shell s \<Longrightarrow> srv_ok cfg d s' = srv_ok cfg d s"
  by (simp add: srv_ok_def shell_def no_listeners_def fun_eq_iff)

lemma runs_step:
  assumes "runs cfg G others s" and "t_inv cfg G others t" and "shell (srv (world t)) = shell (srv (wld s))"
    and "pc_ok cfg (world t) p" and "w_ok (s\<lparr>threads := t, pc := p\<rparr>)"
    and "p = ListenersDown \<or> p = Closed \<or> p = Drain \<Longrightarrow> down s" and "p = AtLoop \<Longrightarrow> \<not> down s"
  shows "runs cfg G others (s\<lparr>threads := t, pc := p\<rparr>)"
  using assms srv_ok_shell [OF assms(3)] by (simp add: runs_def)

text \<open>A step of the main thread that has the server mutex and keeps it or gives it back.\<close>

lemma runs_main:
  assumes "runs cfg G others s" and "m_holds (pc s)" and "t_inv cfg G others t" and "shell (srv (world t)) = shell (srv (wld s))"
    and "pc_ok cfg (world t) p" and "p = ListenersDown \<or> p = Closed \<or> p = Drain \<Longrightarrow> down s" and "p = AtLoop \<Longrightarrow> \<not> down s"
  shows "runs cfg G others (s\<lparr>threads := t, pc := p\<rparr>)"
proof (rule runs_step [OF assms(1,3-5) _ assms(6,7)])
  have "w_server s = None" using assms(1,2) by (auto simp: runs_def w_ok_def split: option.splits)
  then show "w_ok (s\<lparr>threads := t, pc := p\<rparr>)" by (simp add: w_ok_def)
qed

lemma runs_pc:
  assumes "runs cfg G others s" and "m_holds (pc s) \<or> w_server s = None" and "pc_ok cfg (wld s) p"
    and "p = ListenersDown \<or> p = Closed \<or> p = Drain \<Longrightarrow> down s" and "p = AtLoop \<Longrightarrow> \<not> down s"
  shows "runs cfg G others (s\<lparr>pc := p\<rparr>)"
proof -
  have "w_server s = None" using assms(1,2) by (auto simp: runs_def w_ok_def split: option.splits)
  then show ?thesis using assms by (simp add: runs_def w_ok_def)
qed

lemma runs_at:
  assumes "runs cfg G others s"
  obtains us fs ws where "t_inv_at cfg G others (threads s) us fs ws" "sv_inv_at cfg G others (wld s) us fs ws"
    "conn_rep cfg (srv (wld s)) us fs" "wq_rep (NUM_LISTENERS cfg) (waitingq (srv (wld s)), listener (srv (wld s))) ws"
    "kernel_calm (kern (wld s))"
  using assms by (auto simp: runs_def t_inv_def t_inv_at_def sv_inv_at_def)

lemma room_iff: "conn_rep cfg (srv w) us fs \<Longrightarrow> room w \<longleftrightarrow> fs \<noteq> []"
  using back_unused by (auto simp: room_def)

lemma waits_iff: "wq_rep n (waitingq (srv w), listener (srv w)) ws \<Longrightarrow> waits w \<longleftrightarrow> ws \<noteq> []"
  using first_waiting by (fastforce simp: waits_def)

lemma first_runs:
  assumes "runs cfg G others s" and "cl_first (used (srv (wld s))) = Some c"
  shows "is_used cfg c (wld s)" "cl_num (used (srv (wld s))) > 0"
proof -
  from assms(1) obtain us fs ws where sv: "sv_inv_at cfg G others (wld s) us fs ws" and rep: "conn_rep cfg (srv (wld s)) us fs"
    by (rule runs_at)
  from assms(2) first_used [OF rep] have "c \<in> set us" by (auto split: if_splits)
  then show "is_used cfg c (wld s)" "cl_num (used (srv (wld s))) > 0"
    using used_iff [OF sv] rep by (auto simp: conn_rep_def word_gt_zero_iff)
qed

lemma begin_turn_runs:
  assumes "runs cfg G others s" and "m_holds (pc s) \<or> w_server s = None"
  shows "runs cfg G others (begin_turn cfg s)"
  using assms by (auto simp: begin_turn_def Let_def intro!: runs_pc)

lemma end_turn_runs:
  assumes "runs cfg G others s" and "m_holds (pc s) \<or> w_server s = None"
  shows "runs cfg G others (end_turn s)"
  using assms by (auto simp: end_turn_def intro!: runs_pc)

lemma after_look_ok: "pc_ok cfg w (after_look k) \<longleftrightarrow> pred_option (list_all (event_ok cfg)) k"
  by (simp add: after_look_def split: option.splits)

lemma after_look_pc [simp]: "after_look k \<noteq> ListenersDown" "after_look k \<noteq> Closed" "after_look k \<noteq> Drain" "after_look k \<noteq> AtLoop"
  by (simp_all add: after_look_def split: option.splits)

text \<open>An action of the main thread, then the next place in its program.\<close>

lemma act_main:
  assumes cb: "server_cb cb G" and inv: "runs cfg G others s" and h: "m_holds (pc s)" and en: "t_enabled cfg e (threads s)"
    and p: "\<And>t. t_exec cfg cb e (threads s) = Some t \<Longrightarrow> pc_ok cfg (world t) p"
    and q: "p \<noteq> ListenersDown" "p \<noteq> Closed" "p \<noteq> Drain" "p \<noteq> AtLoop"
  shows "\<exists>s'. act cfg cb e (s\<lparr>pc := p\<rparr>) = Some s' \<and> runs cfg G others s'"
proof -
  from inv have "t_inv cfg G others (threads s)" by (simp add: runs_def)
  with act_inv [OF cb, of cfg others "s\<lparr>pc := p\<rparr>" e] en obtain t where
    A: "act cfg cb e (s\<lparr>pc := p\<rparr>) = Some (s\<lparr>pc := p, threads := t\<rparr>)" "t_exec cfg cb e (threads s) = Some t" "t_inv cfg G others t"
      "shell (srv (world t)) = shell (srv (wld s))" by auto
  have "runs cfg G others (s\<lparr>threads := t, pc := p\<rparr>)"
    by (rule runs_main [OF inv h A(3,4) p [OF A(2)]]) (use q in auto)
  moreover have "s\<lparr>pc := p, threads := t\<rparr> = s\<lparr>threads := t, pc := p\<rparr>" by simp
  ultimately show ?thesis using A(1) by metis
qed

lemma act_stay:
  fixes s :: "'u mserver"
  assumes "server_cb cb G" and "runs cfg G others s" and "m_holds (pc s)" and "t_enabled cfg e (threads s)"
    and "\<And>w :: 'u world. pc_ok cfg w (pc s)" and "pc s \<noteq> Drain"
  shows "\<exists>s'. act cfg cb e s = Some s' \<and> runs cfg G others s'"
proof -
  have "\<exists>s'. act cfg cb e (s\<lparr>pc := pc s\<rparr>) = Some s' \<and> runs cfg G others s'"
    by (rule act_main [OF assms(1-4)]) (use assms in auto)
  then show ?thesis by simp
qed

lemma remove_old_runs:
  assumes cb: "server_cb cb G" and inv: "runs cfg G others s" and pc: "pc s = RemoveOld t"
  shows "\<exists>s'. remove_old_turn cfg cb t s = Some s' \<and> runs cfg G others s'"
proof (cases "cl_first (used (srv (wld s)))")
  case None
  then show ?thesis using runs_pc [OF inv, of "AcceptLoop t"] pc by (simp add: remove_old_turn_def)
next
  case (Some c)
  note F = first_runs [OF inv Some]
  from act_stay [OF cb inv, of "MTryRemove c"] pc F Some runs_pc [OF inv, of "AcceptLoop t"] show ?thesis
    by (simp add: remove_old_turn_def)
qed

lemma accept_runs:
  assumes cb: "server_cb cb G" and inv: "runs cfg G others s" and pc: "pc s = AcceptLoop t"
    and en: "waits (wld s) \<and> room (wld s) \<longrightarrow> t_enabled cfg MAccept (threads s)"
  shows "\<exists>s'. accept_turn cfg cb t s = Some s' \<and> runs cfg G others s'"
proof (cases "waits (wld s) \<and> room (wld s)")
  case True
  with act_stay [OF cb inv, of MAccept] pc en show ?thesis by (simp add: accept_turn_def del: t_enabled.simps)
next
  case False
  then show ?thesis using runs_pc [OF inv, of "LookFor t None"] pc by (auto simp: accept_turn_def)
qed

lemma look_runs:
  assumes inv: "runs cfg G others s" and pc: "pc s = LookFor t k"
  shows "\<exists>s'. look_turn cfg t k s = Some s' \<and> runs cfg G others s'"
proof -
  from inv obtain us fs ws where rep: "conn_rep cfg (srv (wld s)) us fs"
    and wq: "wq_rep (NUM_LISTENERS cfg) (waitingq (srv (wld s)), listener (srv (wld s))) ws" by (rule runs_at)
  from inv pc have k: "\<not> (room (wld s) \<and> waits (wld s))" "pred_option (list_all (event_ok cfg)) k" by (auto simp: runs_def)
  have "unat (cl_num (used (srv (wld s)))) = MAX_CONNECTIONS cfg" if "waits (wld s)"
    using that k(1) room_iff [OF rep] conn_rep_length [OF rep] rep by (auto simp: conn_rep_def)
  then show ?thesis using k runs_pc [OF inv, of "after_look k"] runs_pc [OF inv, of "TimedOut t k"] pc
    by (auto simp: look_turn_def after_look_ok)
qed

lemma timed_out_runs:
  assumes cb: "server_cb cb G" and inv: "runs cfg G others s" and pc: "pc s = TimedOut t k"
  shows "\<exists>s'. timed_out_turn cfg cb t k s = Some s' \<and> runs cfg G others s'"
proof -
  from inv pc have k: "pred_option (list_all (event_ok cfg)) k" by (simp add: runs_def)
  have skip: "runs cfg G others (s\<lparr>pc := after_look k\<rparr>)"
    by (rule runs_pc [OF inv]) (use k pc in \<open>simp_all add: after_look_ok\<close>)
  show ?thesis
  proof (cases "\<exists>c. cl_first (used (srv (wld s))) = Some c \<and> waits (wld s) \<and> older (WAIT_TIMEOUT cfg) t c (wld s)")
    case False
    then show ?thesis using skip by (auto simp: timed_out_turn_def split: option.splits)
  next
    case True
    then obtain c where c: "cl_first (used (srv (wld s))) = Some c" "waits (wld s)" "older (WAIT_TIMEOUT cfg) t c (wld s)" by blast
    note F = first_runs(1) [OF inv c(1)]
    let ?p = "if lock (threads s) c = None then TimedAccept t k else after_look k"
    from inv obtain us fs ws where at: "t_inv_at cfg G others (threads s) us fs ws" and sv: "sv_inv_at cfg G others (wld s) us fs ws"
      and rep: "conn_rep cfg (srv (wld s)) us fs" and wq: "wq_rep (NUM_LISTENERS cfg) (waitingq (srv (wld s)), listener (srv (wld s))) ws"
      by (rule runs_at)
    have "pc_ok cfg (world t') ?p" if "t_exec cfg cb (MTryRemove c) (threads s) = Some t'" for t'
    proof (cases "lock (threads s) c = None")
      case True
      from used_iff [OF sv] F have "c \<in> set us" by simp
      from server_cb.remove_t_inv [OF cb at this True] obtain w' where
        "removeConnection cfg cb c (wld s) = Some w'" "t_inv_at cfg G others ((threads s)\<lparr>world := w'\<rparr>) (remove1 c us) (fs @ [c]) ws" by blast
      with that True have "t_inv_at cfg G others t' (remove1 c us) (fs @ [c]) ws"
        by (auto simp: checkTryRemoveConnection_def)
      then have "conn_rep cfg (srv (world t')) (remove1 c us) (fs @ [c])"
        "wq_rep (NUM_LISTENERS cfg) (waitingq (srv (world t')), listener (srv (world t'))) ws"
        by (auto simp: t_inv_at_def sv_inv_at_def)
      then show ?thesis using True k c(2) waits_iff [OF wq] room_iff waits_iff by fastforce
    qed (use k in \<open>auto simp: after_look_ok\<close>)
    then have "\<exists>s'. act cfg cb (MTryRemove c) (s\<lparr>pc := ?p\<rparr>) = Some s' \<and> runs cfg G others s'"
      by (intro act_main [OF cb inv]) (use pc F in auto)
    then show ?thesis using c by (simp add: timed_out_turn_def)
  qed
qed

lemma listen_room:
  assumes inv: "runs cfg G others s" and l: "l < NUM_LISTENERS cfg" and ex: "t_exec cfg cb (MListen l) (threads s) = Some t"
  shows "waits (world t)" "room (world t) = room (wld s)"
proof -
  from inv obtain us fs ws where wq: "wq_rep (NUM_LISTENERS cfg) (waitingq (srv (wld s)), listener (srv (wld s))) ws"
    by (rule runs_at)
  from queuePush_spec [OF wq l] obtain q ls where
    Q: "queuePush l (waitingq (srv (wld s)), listener (srv (wld s))) = Some (q, ls)"
       "wq_rep (NUM_LISTENERS cfg) (q, ls) (if l \<in> set ws then ws else ws @ [l])" by blast
  from ex Q(1) have t: "t = (threads s)\<lparr>world := (wld s)\<lparr>srv := (srv (wld s))\<lparr>waitingq := q, listener := ls\<rparr>\<rparr>\<rparr>"
    by (simp add: Let_def)
  show "room (world t) = room (wld s)" by (simp add: t room_def)
  from Q(2) have "wq_rep (NUM_LISTENERS cfg) (waitingq (srv (world t)), listener (srv (world t))) (if l \<in> set ws then ws else ws @ [l])"
    by (simp add: t)
  from waits_iff [OF this] show "waits (world t)" by auto
qed

lemma events_runs:
  assumes cb: "server_cb cb G" and inv: "runs cfg G others s" and pc: "pc s = Events evs"
  shows "\<exists>s'. events_turn cfg cb evs s = Some s' \<and> runs cfg G others s'"
proof (cases evs)
  case Nil
  then show ?thesis using end_turn_runs [OF inv] pc by (simp add: events_turn_def)
next
  case (Cons ev evs')
  with inv pc have ok: "event_ok cfg ev" "list_all (event_ok cfg) evs'" by (auto simp: runs_def)
  have skip: "runs cfg G others (s\<lparr>pc := Events evs'\<rparr>)"
    by (rule runs_pc [OF inv]) (use ok pc in simp_all)
  show ?thesis
  proof (cases "ev_ptr ev")
    case (EvConn c)
    with ok have "c_fd (conn (srv (wld s)) c) \<noteq> -1 \<Longrightarrow> is_used cfg c (wld s)" by (auto simp: event_ok_def is_used_def)
    then show ?thesis using runs_pc [OF inv, of "CheckCallbacks ev c evs'"] pc ok skip Cons EvConn
      by (auto simp: events_turn_def)
  next
    case (EvListener l)
    with ok have l: "l < NUM_LISTENERS cfg" and fl: "EPOLLIN ev \<and> \<not> EPOLLOUT ev \<and> \<not> EPOLLRDHUP ev \<and> \<not> EPOLLERR ev"
      by (auto simp: event_ok_def)
    show ?thesis
    proof (cases "\<not> isRunning (srv (wld s)) \<and> l_fd (listener (srv (wld s)) l) = -1")
      case True
      then show ?thesis using skip Cons EvListener fl by (simp add: events_turn_def listen_turn_def)
    next
      case False
      from inv have "srv_ok cfg (down s) (srv (wld s))" and T: "t_inv cfg G others (threads s)" by (simp_all add: runs_def)
      with False l have fd: "0 \<le> l_fd (listener (srv (wld s)) l)" by (auto simp: srv_ok_def no_listeners_def split: if_splits)
      with act_inv [OF cb T, of "MListen l"] l obtain t where
        A: "act cfg cb (MListen l) s = Some (s\<lparr>threads := t\<rparr>)" "t_exec cfg cb (MListen l) (threads s) = Some t" "t_inv cfg G others t"
          "shell (srv (world t)) = shell (srv (wld s))" by (metis t_enabled.simps(1))
      let ?p = "if room (world t) then ListenAccept evs' else LookFor (clock (kern (world t))) (Some evs')"
      have "runs cfg G others (s\<lparr>threads := t, pc := ?p\<rparr>)"
        by (rule runs_main [OF inv _ A(3,4)]) (use pc listen_room [OF inv l A(2)] ok in auto)
      then show ?thesis using Cons EvListener fl A(1) False fd by (auto simp: events_turn_def listen_turn_def)
    qed
  qed
qed

lemma srv_ok_stop: "srv_ok cfg d s \<Longrightarrow> srv_ok cfg d (s\<lparr>isRunning := False\<rparr>)"
  by (auto simp: srv_ok_def no_listeners_def)

lemma sv_inv_stop: "sv_inv_at cfg G others w us fs ws \<Longrightarrow> sv_inv_at cfg G others (w\<lparr>srv := (srv w)\<lparr>isRunning := False\<rparr>\<rparr>) us fs ws"
  by (simp add: sv_inv_at_def conn_rep_def fds_ok_def conn_fds_def listen_fds_def)

lemma loop_runs:
  assumes inv: "runs cfg G others s" and pc: "pc s = AtLoop" and w: "isRunning (srv (wld s)) \<Longrightarrow> w_server s = None"
  shows "\<exists>s'. loop_turn cfg s = Some s' \<and> runs cfg G others s'"
proof (cases "isRunning (srv (wld s))")
  case True
  with inv pc have "srv_ok cfg False (srv (wld s))" by (auto simp: runs_def)
  then show ?thesis using True w begin_turn_runs [OF inv] by (simp add: loop_turn_def srv_ok_def)
next
  case False
  from inv pc have ok: "srv_ok cfg False (srv (wld s))" and nd: "\<not> down s" by (auto simp: runs_def)
  from inv obtain us fs ws where at: "t_inv_at cfg G others (threads s) us fs ws" and sv: "sv_inv_at cfg G others (wld s) us fs ws"
    and calm: "kernel_calm (kern (wld s))" by (rule runs_at)
  from ok have "\<And>i. i < NUM_LISTENERS cfg \<Longrightarrow> 0 \<le> l_fd (listener (srv (wld s)) i)"
    "unat (numListeners (srv (wld s))) = NUM_LISTENERS cfg" "0 \<le> efd (srv (wld s))" by (auto simp: srv_ok_def)
  from shutdown_closes [OF sv this] obtain w1 where
    S: "shut_listeners cfg (wld s) = Some w1" "sv_inv_at cfg G others w1 us fs []" "no_listeners cfg (srv w1)"
       "kern w1 = (kern (wld s))\<lparr>open_fds := open_fds (kern w1)\<rparr>" "conn (srv w1) = conn (srv (wld s))"
       "efd (srv w1) = efd (srv (wld s))" "isRunning (srv w1) = isRunning (srv (wld s))" by blast
  have "backlog (kern w1) = backlog (kern (wld s))" by (subst S(4)) simp
  then have "kernel_calm (kern w1)" using calm by (simp add: kernel_calm_def)
  from t_inv_world [OF at S(2) this] S(5) have "t_inv_at cfg G others ((threads s)\<lparr>world := w1\<rparr>) us fs []" by simp
  then have "runs cfg G others (s\<lparr>threads := (threads s)\<lparr>world := w1\<rparr>, pc := ListenersDown, down := True\<rparr>)"
    using inv False ok S by (auto simp: runs_def srv_ok_def w_ok_def intro: t_invI split: option.splits)
  then show ?thesis using False S(1) by (simp add: loop_turn_def)
qed

lemma ready_runs:
  assumes cb: "server_cb cb G" and inv: "runs cfg G others s" and pc: "pc s = ReadyConn ev c evs"
    and en: "t_enabled cfg (MDispatch ev c t) (threads s)"
  shows "\<exists>s'. ready_turn cfg cb t ev c evs s = Some s' \<and> runs cfg G others s'"
proof -
  from inv have T: "t_inv cfg G others (threads s)" by (simp add: runs_def)
  from act_inv [OF cb T en] obtain t' where
    A: "act cfg cb (MDispatch ev c t) s = Some (s\<lparr>threads := t'\<rparr>)" "t_inv cfg G others t'" "shell (srv (world t')) = shell (srv (wld s))"
    by metis
  from inv pc have ok: "c < MAX_CONNECTIONS cfg" "list_all (event_ok cfg) evs" by (simp_all add: runs_def is_used_def)
  let ?p = "if call_it (conn (srv (world t')) c) then RunTask ev c evs else Hangup ev c evs"
  have "runs cfg G others (s\<lparr>threads := t', pc := ?p\<rparr>)"
    by (rule runs_main [OF inv _ A(2,3)]) (use ok pc in \<open>auto split: if_splits\<close>)
  then show ?thesis using A(1) by (simp add: ready_turn_def)
qed

lemma wait_runs:
  assumes cb: "server_cb cb G" and inv: "runs cfg G others s" and pc: "pc s = EpollWait"
    and en: "t_enabled cfg (MWait wk) (threads s)" and ok: "answer_ok cfg ms (answer wk)"
  shows "\<exists>s'. wait_turn cfg cb wk s = Some s' \<and> runs cfg G others s'"
proof -
  from inv have T: "t_inv cfg G others (threads s)" by (simp add: runs_def)
  from act_inv [OF cb T en] obtain t where
    A: "act cfg cb (MWait wk) s = Some (s\<lparr>threads := t\<rparr>)" "t_exec cfg cb (MWait wk) (threads s) = Some t" "t_inv cfg G others t"
      "shell (srv (world t)) = shell (srv (wld s))" by metis
  have "tasks t = tasks (threads s)" using A(2) by auto
  then have "runs cfg G others (s\<lparr>threads := t, pc := Woken k\<rparr>)" if "pred_option (list_all (event_ok cfg)) k" for k
    using inv that pc by (intro runs_step [OF inv A(3,4)]) (auto simp: runs_def w_ok_def split: option.splits)
  from this [of None] this [of "Some evs" for evs] show ?thesis using A(1) ok
    by (auto simp: wait_turn_def answer_ok_def split: wait_answer.splits)
qed

lemma lock_runs:
  assumes inv: "runs cfg G others s" and w: "w_server s = None"
    and pc: "case pc s of Woken k \<Rightarrow> True | RunTask ev c evs \<Rightarrow> True | ListenersDown \<Rightarrow> True | _ \<Rightarrow> False"
  shows "runs cfg G others (lock_turn s)"
proof (cases "pc s")
  case (Woken k)
  with inv have "pred_option (list_all (event_ok cfg)) k" by (simp add: runs_def)
  then show ?thesis using Woken end_turn_runs [OF inv] runs_pc [OF inv, of "Events (the k)"] w by (cases k) (auto simp: lock_turn_def)
next
  case (RunTask ev c evs)
  with inv have "pc_ok cfg (wld s) (Hangup ev c evs)" by (simp add: runs_def)
  then show ?thesis using RunTask runs_pc [OF inv, of "Hangup ev c evs"] w by (simp add: lock_turn_def)
next
  case ListenersDown
  with inv have "down s" by (simp add: runs_def)
  then show ?thesis using ListenersDown runs_pc [OF inv, of Drain] w by (simp add: lock_turn_def)
qed (use pc in auto)

lemma destroy_runs:
  assumes cb: "server_cb cb G" and inv: "runs cfg G others s" and pc: "pc s = Closed" and no: "\<forall>t. tasks (threads s) t = TNone"
  shows "\<exists>s'. destroy_turn cfg cb s = Some s' \<and> gone others s'"
proof -
  from inv obtain us fs ws where sv: "sv_inv_at cfg G others (wld s) us fs ws" by (rule runs_at)
  from inv pc have "no_listeners cfg (srv (wld s))" "0 \<le> efd (srv (wld s))" by (auto simp: runs_def srv_ok_def)
  from server_cb.destroy_after_shutdown [OF cb sv this] obtain w' where
    "poServer_destroy cfg cb (wld s) = Some w'" "set (open_fds (kern w')) = others" by blast
  moreover have "w_server s = None" using inv no by (auto simp: runs_def w_ok_def split: option.splits)
  ultimately show ?thesis using no by (simp add: destroy_turn_def gone_def)
qed

text \<open>A worker that is not at its end changes at most what its connection owns of the callbacks.\<close>

lemma worker_frame:
  assumes cb: "server_cb cb G" and inv: "t_inv cfg G others s" and en: "t_enabled cfg e s" and ex: "t_exec cfg cb e s = Some t"
    and w: "worker_event e" "\<And>u. e \<noteq> WEnd u"
  shows "waits (world t) = waits (world s)" "room (world t) = room (world s)" "is_used cfg i (world t) = is_used cfg i (world s)"
proof -
  have "world t = world s \<or> (\<exists>c. touched G c (world s) (world t))"
  proof (cases e)
    case (WServe u)
    with en obtain c n where t: "tasks s u = TServing c n" by (auto split: task_pc.splits)
    from inv obtain us fs ws where at: "t_inv_at cfg G others s us fs ws" by (auto simp: t_inv_def)
    then have sv: "sv_inv_at cfg G others (world s) us fs ws" and "\<And>u. task_ok cfg us (world s) (tasks s u)" by (simp_all add: t_inv_at_def)
    from this(2) [of u] t have c: "c \<in> set us" by simp
    from ex WServe t obtain b where "service cb c (world s) = Some (b, world t)" by (auto simp: bind_eq_Some_conv)
    from service_parts [OF this cb sv c] show ?thesis by blast
  qed (use w en ex in \<open>auto split: task_pc.splits if_splits\<close>)
  then show "waits (world t) = waits (world s)" "room (world t) = room (world s)" "is_used cfg i (world t) = is_used cfg i (world s)"
    using touched_server by metis+
qed

lemma worker_pc_ok:
  assumes "pc_ok cfg w p" and "m_holds p \<Longrightarrow> waits w' = waits w" "m_holds p \<Longrightarrow> room w' = room w"
    and "\<And>i. m_holds p \<Longrightarrow> is_used cfg i w' = is_used cfg i w"
  shows "pc_ok cfg w' p"
  using assms by (cases p) auto

lemma worker_others:
  assumes "t_enabled cfg e s" and "t_exec cfg cb e s = Some t" and "worker_event e" "e \<noteq> WEnd u" and "tasks s u = TUnlocked c n b"
  shows "tasks t u = TUnlocked c n b"
  using assms by (cases e) (auto simp: bind_eq_Some_conv Let_def split: task_pc.splits if_splits)

lemma work_runs:
  assumes cb: "server_cb cb G" and inv: "runs cfg G others s" and en: "m_enabled cfg ms (Work e) s"
  shows "\<exists>s'. m_exec cfg cb (Work e) s = Some s' \<and> runs cfg G others s'"
proof -
  from inv have T: "t_inv cfg G others (threads s)" by (simp add: runs_def)
  from en have E: "worker_event e" "t_enabled cfg e (threads s)" by auto
  define s0 where "s0 = (case e of WEnd t \<Rightarrow> s\<lparr>w_server := None\<rparr> | _ \<Rightarrow> s)"
  have s0: "threads s0 = threads s" "pc s0 = pc s" "down s0 = down s" by (simp_all add: s0_def split: t_event.splits)
  from act_inv [OF cb T E(2)] obtain t where
    A: "t_exec cfg cb e (threads s) = Some t" "t_inv cfg G others t" "shell (srv (world t)) = shell (srv (wld s))" by metis
  have inv0: "runs cfg G others s0" using inv s0 by (auto simp: runs_def s0_def w_ok_def split: t_event.splits)
  have "pc_ok cfg (world t) (pc s)"
  proof (rule worker_pc_ok)
    show "pc_ok cfg (wld s) (pc s)" using inv by (simp add: runs_def)
    have ne: "e \<noteq> WEnd u" if "m_holds (pc s)" for u using that inv en by (auto simp: runs_def w_ok_def)
    show "waits (world t) = waits (wld s)" "room (world t) = room (wld s)" "is_used cfg i (world t) = is_used cfg i (wld s)"
      if "m_holds (pc s)" for i using worker_frame [OF cb T E(2) A(1) E(1) ne [OF that]] by blast+
  qed
  moreover have "w_ok (s0\<lparr>threads := t\<rparr>)"
  proof (cases "w_server s0")
    case (Some u)
    then have "w_server s = Some u" "e \<noteq> WEnd u" using en by (auto simp: s0_def split: t_event.splits)
    moreover have "w_ok s" using inv by (simp add: runs_def)
    ultimately obtain c n b where "\<not> m_holds (pc s)" "tasks t u = TUnlocked c n b"
      using worker_others [OF E(2) A(1) E(1)] by (auto simp: w_ok_def)
    then show ?thesis using Some s0 by (simp add: w_ok_def)
  qed (simp add: w_ok_def)
  ultimately have "runs cfg G others (s0\<lparr>threads := t\<rparr>)"
    using inv0 A(2) srv_ok_shell [OF A(3)] s0 by (simp add: runs_def)
  then show ?thesis using A(1) s0 by (auto simp: act_def s0_def)
qed

lemma main_runs:
  assumes cb: "server_cb cb G" and inv: "runs cfg G others s" and en: "m_enabled cfg ms Main s"
  shows "\<exists>s'. m_exec cfg cb Main s = Some s' \<and> runs cfg G others s'"
proof -
  have P: "pc_ok cfg (wld s) (pc s)" using inv by (simp add: runs_def)
  show ?thesis
  proof (cases "pc s")
    case AtLoop
    then show ?thesis using loop_runs [OF inv] en by simp
  next
    case (RemoveOld t)
    then show ?thesis using remove_old_runs [OF cb inv] by simp
  next
    case (AcceptLoop t)
    then show ?thesis using accept_runs [OF cb inv] en by (simp del: t_enabled.simps)
  next
    case (LookFor t k)
    then show ?thesis using look_runs [OF inv] by simp
  next
    case (TimedOut t k)
    then show ?thesis using timed_out_runs [OF cb inv] by simp
  next
    case (TimedAccept t k)
    then show ?thesis using act_main [OF cb inv, of MAccept "TimedOut t k"] en P by (simp del: t_enabled.simps)
  next
    case (Events evs)
    then show ?thesis using events_runs [OF cb inv] by simp
  next
    case (ListenAccept evs)
    then show ?thesis using act_main [OF cb inv, of MAccept "Events evs"] en P by (simp del: t_enabled.simps)
  next
    case (Hangup ev c evs)
    with P have "is_used cfg c (wld s)" if "c_fd (conn (srv (wld s)) c) \<noteq> -1" using that by (simp add: is_used_def)
    then show ?thesis using Hangup P runs_pc [OF inv, of "TryRemove c evs"] runs_pc [OF inv, of "Events evs"]
      by (simp add: hangup_turn_def)
  next
    case (TryRemove c evs)
    then show ?thesis using act_main [OF cb inv, of "MTryRemove c" "Events evs"] P by simp
  next
    case Drain
    then have "down s" using inv by (simp add: runs_def)
    then show ?thesis using Drain begin_turn_runs [OF inv] runs_pc [OF inv, of Closed] by (simp add: drain_turn_def)
  qed (use en in auto)
qed

lemma saw_runs:
  assumes inv: "runs cfg G others s" and pc: "pc s = CheckCallbacks ev c evs"
  shows "runs cfg G others (callbacks_turn none ev c evs s)"
proof -
  from inv pc have "is_used cfg c (wld s)" "c < MAX_CONNECTIONS cfg" "list_all (event_ok cfg) evs" by (auto simp: runs_def is_used_def)
  then show ?thesis unfolding callbacks_turn_def by (intro runs_pc [OF inv]) (use pc in \<open>auto split: if_splits\<close>)
qed

lemma gone_still: "gone others s \<Longrightarrow> \<not> m_enabled cfg ms e s"
proof (cases e)
  case (Work f)
  then show "gone others s \<Longrightarrow> \<not> m_enabled cfg ms e s" by (cases f) (auto simp: gone_def)
qed (auto simp: gone_def)

lemma m_exec_runs:
  assumes cb: "server_cb cb G" and R: "runs cfg G others s" and en: "m_enabled cfg ms e s"
  shows "\<exists>s'. m_exec cfg cb e s = Some s' \<and> (if e = Join then gone others s' else runs cfg G others s')"
proof (cases e)
  case Main
  from main_runs [OF cb R en [unfolded Main]] show ?thesis by (simp add: Main del: m_exec.simps)
next
  case Lock
  then show ?thesis using lock_runs [OF R] en by simp
next
  case (Saw none)
  then show ?thesis using saw_runs [OF R] en by (auto split: m_pc.splits)
next
  case (Task t)
  then show ?thesis using ready_runs [OF cb R] en by (auto split: m_pc.splits simp del: t_enabled.simps)
next
  case (Wake wk)
  then show ?thesis using wait_runs [OF cb R] en by (auto simp del: t_enabled.simps)
next
  case Join
  then show ?thesis using destroy_runs [OF cb R] en by auto
next
  case (Work f)
  from work_runs [OF cb R en [unfolded Work]] show ?thesis by (simp add: Work del: m_exec.simps)
next
  case (WServer t)
  then show ?thesis using R en by (auto simp: runs_def w_ok_def split: task_pc.splits)
next
  case Stop
  from R obtain us fs ws where at: "t_inv_at cfg G others (threads s) us fs ws" and sv: "sv_inv_at cfg G others (wld s) us fs ws"
    and calm: "kernel_calm (kern (wld s))" by (rule runs_at)
  define w1 where "w1 = (wld s)\<lparr>srv := (srv (wld s))\<lparr>isRunning := False\<rparr>\<rparr>"
  have "t_inv_at cfg G others ((threads s)\<lparr>world := w1\<rparr>) us fs ws"
    by (rule t_inv_world [OF at sv_inv_stop [OF sv, folded w1_def]]) (use calm in \<open>simp_all add: w1_def\<close>)
  moreover have "pc_ok cfg w1 p = pc_ok cfg (wld s) p" for p
    by (cases p) (simp_all add: w1_def room_def waits_def is_used_def)
  ultimately have "runs cfg G others (s\<lparr>threads := (threads s)\<lparr>world := w1\<rparr>\<rparr>)"
    using R srv_ok_stop [of cfg "down s" "srv (wld s)"] by (auto simp: runs_def w1_def w_ok_def intro: t_invI split: option.splits)
  then show ?thesis using Stop by (simp add: w1_def)
qed

lemma m_exec_inv:
  assumes "server_cb cb G" and "m_inv cfg G others s" and "m_enabled cfg ms e s"
  shows "\<exists>s'. m_exec cfg cb e s = Some s' \<and> m_inv cfg G others s'"
proof -
  from assms(2,3) gone_still have "runs cfg G others s" unfolding m_inv_def by blast
  from m_exec_runs [OF assms(1) this assms(3)] show ?thesis by (auto simp: m_inv_def split: if_splits)
qed

lemma m_init_inv: "m_init cfg G others s \<Longrightarrow> m_inv cfg G others s"
  using t_init_inv by (auto simp: m_init_def m_inv_def runs_def w_ok_def)

interpretation mm: state_machine "\<lambda>s. server_cb cb G \<and> m_init cfg G others s" "m_step cfg ms cb"
    "\<lambda>s. server_cb cb G \<and> m_inv cfg G others s"
  for cfg :: sv_config and ms :: int and cb :: "'u ucb" and G others
proof (unfold_locales, goal_cases)
  case (1 s)
  then show ?case using m_init_inv by blast
next
  case (2 s s')
  then obtain e where "m_enabled cfg ms e s" "m_exec cfg cb e s = Some s'" by (auto simp: m_step_iff)
  with m_exec_inv [of cb G cfg others s ms e] 2 show ?case by auto
qed

abbreviation m_reachable :: "sv_config \<Rightarrow> int \<Rightarrow> 'u ucb \<Rightarrow> nat set \<Rightarrow> int set \<Rightarrow> 'u mserver \<Rightarrow> bool" where
  "m_reachable cfg ms cb G others \<equiv> reachable (\<lambda>s. server_cb cb G \<and> m_init cfg G others s) (m_step cfg ms cb)"

end
