(* ===== verification/MasterProgress.thy ===== *)
theory MasterProgress
  imports MasterInvariant
begin

text \<open>
  The threads of theory ServerMaster are never stuck: some worker can go on as long as one has a mutex, and without them the main
  thread comes to its next wait, by a measure.
\<close>

subsection \<open>The workers\<close>

text \<open>What the workers still have to do with the tasks in \<open>A\<close>.\<close>

primrec weight :: "task_pc \<Rightarrow> nat" where
  "weight TNone = 0"
| "weight (TQueued c n) = 4"
| "weight (TLocked c n) = 3"
| "weight (TServing c n) = 2"
| "weight (TUnlocked c n b) = 1"

definition todo :: "nat set \<Rightarrow> 'u mserver \<Rightarrow> nat" where
  "todo A s = 2 * (\<Sum>t\<in>A. weight (tasks (threads s) t)) + (if w_server s = None then 1 else 0)"

definition tasks_in :: "nat set \<Rightarrow> 'u mserver \<Rightarrow> bool" where
  "tasks_in A s \<longleftrightarrow> finite A \<and> (\<forall>t. tasks (threads s) t \<noteq> TNone \<longrightarrow> t \<in> A)"

lemma todo_task:
  assumes "tasks_in A s" and "tasks (threads s') = (tasks (threads s))(t := p)" and "weight p < weight (tasks (threads s) t)"
  shows "2 * (\<Sum>t\<in>A. weight (tasks (threads s') t)) + 2 \<le> 2 * (\<Sum>t\<in>A. weight (tasks (threads s) t))" "tasks_in A s'"
proof -
  have t: "t \<in> A" using assms(1,3) by (cases "tasks (threads s) t") (auto simp: tasks_in_def)
  have "(\<Sum>t\<in>A. weight (tasks (threads s') t)) < (\<Sum>t\<in>A. weight (tasks (threads s) t))"
    by (rule sum_strict_mono_ex1) (use assms t in \<open>auto simp: tasks_in_def\<close>)
  then show "2 * (\<Sum>t\<in>A. weight (tasks (threads s') t)) + 2 \<le> 2 * (\<Sum>t\<in>A. weight (tasks (threads s) t))" by simp
  show "tasks_in A s'" using assms(1,2) t by (auto simp: tasks_in_def)
qed

primrec by_worker :: "m_event \<Rightarrow> bool" where
  "by_worker Main = False"
| "by_worker Lock = False"
| "by_worker (Saw b) = False"
| "by_worker (Task t) = False"
| "by_worker (Wake wk) = False"
| "by_worker Join = False"
| "by_worker (Work e) = True"
| "by_worker (WServer t) = True"
| "by_worker Stop = False"

lemma worker_task:
  assumes "t_enabled cfg e s" and "t_exec cfg cb e s = Some t" and "worker_event e"
  shows "\<exists>u p. tasks t = (tasks s)(u := p) \<and> weight p < weight (tasks s u)"
proof (cases e)
  case (WLock u)
  then show ?thesis using assms by (intro exI [of _ u]) (auto split: task_pc.splits)
next
  case (WCheck u)
  then show ?thesis using assms by (intro exI [of _ u]) (auto split: task_pc.splits if_splits)
next
  case (WServe u)
  then show ?thesis using assms by (intro exI [of _ u]) (auto simp: bind_eq_Some_conv split: task_pc.splits)
next
  case (WEnd u)
  then show ?thesis using assms by (intro exI [of _ u]) (auto simp: bind_eq_Some_conv Let_def split: task_pc.splits)
qed (use assms in auto)

text \<open>A step of a worker brings the tasks nearer to their end and leaves the main thread where it is.\<close>

lemma by_worker_step:
  assumes cb: "server_cb cb G" and inv: "runs cfg G others s" and en: "m_enabled cfg ms e s" and w: "by_worker e" and A: "tasks_in A s"
  shows "\<exists>s'. m_step cfg ms cb s s' \<and> runs cfg G others s' \<and> tasks_in A s' \<and> todo A s' < todo A s \<and> pc s' = pc s"
proof (cases e)
  case (WServer t)
  let ?s = "s\<lparr>w_server := Some t\<rparr>"
  have "m_step cfg ms cb s ?s" by (rule m_stepI [OF en]) (simp add: WServer)
  moreover have "runs cfg G others ?s" using inv en WServer by (auto simp: runs_def w_ok_def split: task_pc.splits)
  moreover have "todo A ?s < todo A s" using en WServer by (simp add: todo_def)
  ultimately show ?thesis using A by (intro exI [of _ ?s]) (simp add: tasks_in_def)
next
  case (Work f)
  with en have en': "m_enabled cfg ms (Work f) s" "t_enabled cfg f (threads s)" "worker_event f" by auto
  from work_runs [OF cb inv en'(1)] obtain s' where s': "m_exec cfg cb (Work f) s = Some s'" "runs cfg G others s'" by blast
  then obtain t where t: "t_exec cfg cb f (threads s) = Some t" "threads s' = t" "pc s' = pc s"
    by (auto simp: act_def split: t_event.splits)
  from worker_task [OF en'(2) t(1) en'(3)] obtain u p where
    U: "tasks (threads s') = (tasks (threads s))(u := p)" "weight p < weight (tasks (threads s) u)" using t(2) by blast
  from todo_task [OF A U] have "todo A s' < todo A s" "tasks_in A s'" by (auto simp: todo_def)
  with s' t(3) m_stepI [OF en'(1) s'(1)] show ?thesis by blast
qed (use w in auto)

text \<open>
  If a connection mutex is held, or a worker has the server mutex, or there are tasks and the main thread does not have the
  server mutex, then some worker can go on.
\<close>

lemma worker_next:
  assumes inv: "runs cfg G others s"
    and busy: "lock (threads s) \<noteq> (\<lambda>_. None) \<or> w_server s \<noteq> None \<or> \<not> m_holds (pc s) \<and> (\<exists>t. tasks (threads s) t \<noteq> TNone)"
  shows "\<exists>e. by_worker e \<and> m_enabled cfg ms e s"
proof -
  from inv obtain us fs ws where at: "t_inv_at cfg G others (threads s) us fs ws" by (rule runs_at)
  then have lk: "\<And>t c. lock (threads s) c = Some t \<longleftrightarrow> holds_lock (tasks (threads s) t) c" by (simp add: t_inv_at_def)
  have ok: "w_ok s" using inv by (simp add: runs_def)
  show ?thesis
  proof (cases "lock (threads s) = (\<lambda>_. None)")
    case False
    then obtain c t where "lock (threads s) c = Some t" by (metis not_Some_eq)
    with lk have "holds_lock (tasks (threads s) t) c" by simp
    then consider n where "tasks (threads s) t = TLocked c n" | n where "tasks (threads s) t = TServing c n"
      by (cases "tasks (threads s) t") auto
    then show ?thesis
    proof cases
      case 1
      then show ?thesis by (intro exI [of _ "Work (WCheck t)"]) simp
    next
      case 2
      then show ?thesis by (intro exI [of _ "Work (WServe t)"]) simp
    qed
  next
    case free: True
    show ?thesis
    proof (cases "w_server s")
      case (Some t)
      with ok obtain c n b where "tasks (threads s) t = TUnlocked c n b" by (auto simp: w_ok_def)
      then show ?thesis using free Some by (intro exI [of _ "Work (WEnd t)"]) simp
    next
      case None
      with busy free obtain t where "tasks (threads s) t \<noteq> TNone" "\<not> m_holds (pc s)" by auto
      then show ?thesis using None free lk
      proof (cases "tasks (threads s) t")
        case (TQueued c n)
        then show ?thesis using free by (intro exI [of _ "Work (WLock t)"]) simp
      next
        case (TUnlocked c n b)
        then show ?thesis using None \<open>\<not> m_holds (pc s)\<close> by (intro exI [of _ "WServer t"]) simp
      next
        case (TLocked c n)
        then show ?thesis using lk [of c t] free by simp
      next
        case (TServing c n)
        then show ?thesis using lk [of c t] free by simp
      qed auto
    qed
  qed
qed

lemma workers_finish:
  assumes cb: "server_cb cb G" and inv: "runs cfg G others s" and A: "tasks_in A s"
  shows "\<exists>s'. (m_step cfg ms cb)\<^sup>*\<^sup>* s s' \<and> runs cfg G others s' \<and> tasks_in A s' \<and> pc s' = pc s \<and> w_server s' = None
     \<and> lock (threads s') = (\<lambda>_. None) \<and> (m_holds (pc s) \<or> (\<forall>t. tasks (threads s') t = TNone))"
  using inv A
proof (induction "todo A s" arbitrary: s rule: less_induct)
  case less
  show ?case
  proof (cases "lock (threads s) \<noteq> (\<lambda>_. None) \<or> w_server s \<noteq> None \<or> \<not> m_holds (pc s) \<and> (\<exists>t. tasks (threads s) t \<noteq> TNone)")
    case True
    from worker_next [OF less.prems(1) True] obtain e where e: "by_worker e" "m_enabled cfg ms e s" by blast
    from by_worker_step [OF cb less.prems(1) e(2,1) less.prems(2)] obtain s1 where
      S: "m_step cfg ms cb s s1" "runs cfg G others s1" "tasks_in A s1" "todo A s1 < todo A s" "pc s1 = pc s" by blast
    from less.hyps [OF S(4,2,3)] S(1,5) show ?thesis by (metis converse_rtranclp_into_rtranclp)
  next
    case False
    then show ?thesis using less.prems by (intro exI [of _ s]) auto
  qed
qed

subsection \<open>The main thread\<close>

text \<open>
  The main thread comes to its next wait: fewer events, or a later place in the program for the same events, or in a
  loop fewer connections, waiting listeners and clients.
\<close>

definition usedn :: "'u world \<Rightarrow> nat" where
  "usedn w = unat (cl_num (used (srv w)))"

definition nwait :: "sv_config \<Rightarrow> 'u world \<Rightarrow> nat" where
  "nwait cfg w = card {i. i < NUM_LISTENERS cfg \<and> waiting (listener (srv w) i)}"

primrec events_left :: "m_pc \<Rightarrow> nat" where
  "events_left AtLoop = 0"
| "events_left EpollWait = 0"
| "events_left (Woken k) = (case k of None \<Rightarrow> 1 | Some evs \<Rightarrow> 2 + length evs)"
| "events_left (RunTask ev c evs) = 1 + length evs"
| "events_left ListenersDown = 1"
| "events_left Closed = 0"
| "events_left Gone = 0"
| "events_left (RemoveOld t) = 0"
| "events_left (AcceptLoop t) = 0"
| "events_left (LookFor t k) = (case k of None \<Rightarrow> 0 | Some evs \<Rightarrow> 1 + length evs)"
| "events_left (TimedOut t k) = (case k of None \<Rightarrow> 0 | Some evs \<Rightarrow> 1 + length evs)"
| "events_left (TimedAccept t k) = (case k of None \<Rightarrow> 0 | Some evs \<Rightarrow> 1 + length evs)"
| "events_left (Events evs) = 1 + length evs"
| "events_left (ListenAccept evs) = 1 + length evs"
| "events_left (CheckCallbacks ev c evs) = 1 + length evs"
| "events_left (ReadyConn ev c evs) = 1 + length evs"
| "events_left (Hangup ev c evs) = 1 + length evs"
| "events_left (TryRemove c evs) = 1 + length evs"
| "events_left Drain = 0"

primrec stage :: "m_pc \<Rightarrow> nat" where
  "stage AtLoop = 0"
| "stage EpollWait = 0"
| "stage (Woken k) = 0"
| "stage (RunTask ev c evs) = 3"
| "stage ListenersDown = 0"
| "stage Closed = 0"
| "stage Gone = 0"
| "stage (RemoveOld t) = 4"
| "stage (AcceptLoop t) = 3"
| "stage (LookFor t k) = 2"
| "stage (TimedOut t k) = 1"
| "stage (TimedAccept t k) = 1"
| "stage (Events evs) = 0"
| "stage (ListenAccept evs) = 1"
| "stage (CheckCallbacks ev c evs) = 5"
| "stage (ReadyConn ev c evs) = 4"
| "stage (Hangup ev c evs) = 2"
| "stage (TryRemove c evs) = 1"
| "stage Drain = 5"

definition loop_left :: "sv_config \<Rightarrow> 'u mserver \<Rightarrow> nat" where
  "loop_left cfg s = (case pc s of
       RemoveOld t \<Rightarrow> usedn (wld s)
     | AcceptLoop t \<Rightarrow> pend cfg (wld s) + nwait cfg (wld s)
     | TimedOut t k \<Rightarrow> 2 * (pend cfg (wld s) + usedn (wld s))
     | TimedAccept t k \<Rightarrow> 2 * (pend cfg (wld s) + usedn (wld s)) + 1
     | _ \<Rightarrow> 0)"

definition m_order :: "sv_config \<Rightarrow> ('u mserver \<times> 'u mserver) set" where
  "m_order cfg = measures [\<lambda>s. events_left (pc s), \<lambda>s. stage (pc s), loop_left cfg]"

lemma nwait_eq: "wq_rep (NUM_LISTENERS cfg) (waitingq (srv w), listener (srv w)) ws \<Longrightarrow> nwait cfg w = length ws"
proof -
  assume wq: "wq_rep (NUM_LISTENERS cfg) (waitingq (srv w), listener (srv w)) ws"
  then have "{i. i < NUM_LISTENERS cfg \<and> waiting (listener (srv w) i)} = set ws" "distinct ws"
    by (auto simp: wq_rep_def dest: slq_distinct)
  then show ?thesis by (simp add: nwait_def distinct_card)
qed

lemma usedn_eq: "conn_rep cfg (srv w) us fs \<Longrightarrow> usedn w = length us"
  by (simp add: usedn_def conn_rep_def)

lemma sv_inv_counts:
  assumes "sv_inv_at cfg G others w us fs ws"
  shows "usedn w = length us" "nwait cfg w = length ws"
  using assms usedn_eq nwait_eq by (fastforce simp: sv_inv_at_def)+

lemma remove_counts:
  assumes cb: "server_cb cb G" and inv: "runs cfg G others s" and c: "is_used cfg c (wld s)" and free: "lock (threads s) c = None"
    and ex: "t_exec cfg cb (MTryRemove c) (threads s) = Some t"
  shows "usedn (world t) < usedn (wld s)" "pend cfg (world t) = pend cfg (wld s)"
proof -
  from inv obtain us fs ws where sv: "sv_inv_at cfg G others (wld s) us fs ws" by (rule runs_at)
  from used_iff [OF sv] c have c': "c \<in> set us" by simp
  from server_cb.try_remove_kept [OF cb sv c'] obtain w' where
    R: "checkTryRemoveConnection cfg cb False c (wld s) = Some (True, w')" "sv_inv_at cfg G others w' (remove1 c us) (fs @ [c]) ws"
       "pend cfg w' = pend cfg (wld s)" by blast
  have "world t = w'" using ex free R(1) by auto
  then show "pend cfg (world t) = pend cfg (wld s)" "usedn (world t) < usedn (wld s)"
    using R(3) sv_inv_counts(1) [OF R(2)] sv_inv_counts(1) [OF sv] c' length_pos_if_in_set [OF c'] by (simp_all add: length_remove1)
qed

lemma accept_counts:
  assumes inv: "runs cfg G others s" and rm: "room (wld s)" "waits (wld s)" and ex: "t_exec cfg cb MAccept (threads s) = Some t"
  shows "usedn (world t) = usedn (wld s) \<and> pend cfg (world t) = pend cfg (wld s) \<and> nwait cfg (world t) < nwait cfg (wld s)
     \<or> usedn (world t) = Suc (usedn (wld s)) \<and> pend cfg (world t) < pend cfg (wld s) \<and> nwait cfg (world t) = nwait cfg (wld s)"
proof -
  from inv obtain us fs ws where sv: "sv_inv_at cfg G others (wld s) us fs ws" and rep: "conn_rep cfg (srv (wld s)) us fs"
    and wq: "wq_rep (NUM_LISTENERS cfg) (waitingq (srv (wld s)), listener (srv (wld s))) ws" and calm: "kernel_calm (kern (wld s))"
    by (rule runs_at)
  from rm room_iff [OF rep] waits_iff [OF wq] have "fs \<noteq> []" "ws \<noteq> []" by simp_all
  from accept_inv [OF sv this calm] obtain w' us' fs' ws' where
    A: "poServer_accept cfg (wld s) = Some (False, w')" "sv_inv_at cfg G others w' us' fs' ws'"
       "us' = us \<and> fs' = fs \<and> pend cfg w' = pend cfg (wld s) \<and> length ws' < length ws
        \<or> (\<exists>c. us' = us @ [c] \<and> fs = c # fs') \<and> pend cfg w' < pend cfg (wld s) \<and> ws' = ws" by blast
  have "world t = w'" using ex A(1) by auto
  then show ?thesis using A(3) sv_inv_counts [OF A(2)] sv_inv_counts [OF sv] by auto
qed

text \<open>The main thread changes neither the mutexes of the connections nor the tasks it has not made.\<close>

definition aside :: "'u mserver \<Rightarrow> 'u mserver \<Rightarrow> bool" where
  "aside s s' \<longleftrightarrow> lock (threads s') = lock (threads s) \<and> w_server s' = w_server s
     \<and> (\<exists>x. \<forall>u. u \<noteq> x \<longrightarrow> tasks (threads s') u = tasks (threads s) u)"

lemma aside_simps [simp]:
  "aside s s" "aside s (s'\<lparr>pc := p\<rparr>) = aside s s'" "aside (s\<lparr>pc := p\<rparr>) s' = aside s s'"
  "aside s (s'\<lparr>down := d\<rparr>) = aside s s'" "aside s (begin_turn cfg s') = aside s s'" "aside s (end_turn s') = aside s s'"
  "aside s (s'\<lparr>threads := (threads s)\<lparr>world := w\<rparr>\<rparr>) \<longleftrightarrow> w_server s' = w_server s"
  by (simp_all add: aside_def begin_turn_def end_turn_def Let_def)

lemma aside_act: "act cfg cb e s = Some s' \<Longrightarrow> \<not> worker_event e \<Longrightarrow> aside s s'"
  by (cases e) (auto simp: act_def aside_def Let_def bind_eq_Some_conv split: if_splits)

lemma aside_act_pc: "act cfg cb e (s\<lparr>pc := p\<rparr>) = Some s' \<Longrightarrow> \<not> worker_event e \<Longrightarrow> aside s s'"
  using aside_act [of cfg cb e "s\<lparr>pc := p\<rparr>" s'] by simp

lemma aside_main: "m_exec cfg cb Main s = Some s' \<Longrightarrow> aside s s'"
  by (cases "pc s") (auto simp: loop_turn_def remove_old_turn_def accept_turn_def look_turn_def timed_out_turn_def
      events_turn_def listen_turn_def hangup_turn_def drain_turn_def bind_eq_Some_conv dest: aside_act aside_act_pc
      split: if_splits option.splits list.splits ev_data.splits)

lemma aside_exec:
  assumes "m_exec cfg cb e s = Some s'" and "\<not> by_worker e"
  shows "aside s s'"
proof (cases e)
  case Main
  then show ?thesis using assms(1) aside_main by blast
next
  case Lock
  then show ?thesis using assms(1) by (auto simp: lock_turn_def split: m_pc.splits option.splits)
next
  case (Wake wk)
  then show ?thesis using assms(1) by (cases "answer wk") (auto simp: wait_turn_def bind_eq_Some_conv dest: aside_act)
qed (use assms in \<open>auto simp: callbacks_turn_def ready_turn_def wait_turn_def destroy_turn_def bind_eq_Some_conv dest: aside_act
      split: m_pc.splits wait_answer.splits\<close>)

definition calm :: "sv_config \<Rightarrow> nat set \<Rightarrow> int set \<Rightarrow> 'u mserver \<Rightarrow> bool" where
  "calm cfg G others s \<longleftrightarrow> runs cfg G others s \<and> lock (threads s) = (\<lambda>_. None) \<and> w_server s = None \<and> (\<exists>A. tasks_in A s)"

lemma calm_step:
  assumes cb: "server_cb cb G" and c: "calm cfg G others s" and en: "m_enabled cfg ms e s" and e: "\<not> by_worker e" "e \<noteq> Join"
    and ex: "m_exec cfg cb e s = Some s'"
  shows "m_step cfg ms cb s s'" "calm cfg G others s'"
proof -
  show "m_step cfg ms cb s s'" by (rule m_stepI [OF en ex])
  from c have R: "runs cfg G others s" by (simp add: calm_def)
  from aside_exec [OF ex e(1)] obtain x where
    X: "lock (threads s') = lock (threads s)" "w_server s' = w_server s" "\<And>u. u \<noteq> x \<Longrightarrow> tasks (threads s') u = tasks (threads s) u"
    by (auto simp: aside_def)
  from c obtain A where A: "tasks_in A s" by (auto simp: calm_def)
  then have "tasks_in (insert x A) s'" using X(3) unfolding tasks_in_def by (metis finite_insert insert_iff)
  moreover have "runs cfg G others s'" using m_exec_runs [OF cb R en] e(2) ex by simp
  ultimately show "calm cfg G others s'" using c X(1,2) by (auto simp: calm_def)
qed

lemma fresh_task: "calm cfg G others s \<Longrightarrow> \<exists>t. tasks (threads s) t = TNone"
  unfolding calm_def tasks_in_def using ex_new_if_finite infinite_UNIV_nat by (metis finite_subset subsetI)

text \<open>Every step of the main thread between two waits is progress.\<close>

lemma after_look_left: "events_left (after_look k) = (case k of None \<Rightarrow> 0 | Some evs \<Rightarrow> 1 + length evs)" "stage (after_look k) = 0"
  by (simp_all add: after_look_def split: option.splits)

lemma act_parts: "act cfg cb e s = Some s' \<Longrightarrow> pc s' = pc s \<and> t_exec cfg cb e (threads s) = Some (threads s')"
  by (auto simp: act_def)

lemma main_order:
  assumes cb: "server_cb cb G" and c: "calm cfg G others s" and pc: "pc s \<notin> {AtLoop, EpollWait, Closed}"
    and ex: "m_exec cfg cb Main s = Some s'"
  shows "(s', s) \<in> m_order cfg"
proof -
  from c have R: "runs cfg G others s" and free: "\<And>d. lock (threads s) d = None" by (simp_all add: calm_def)
  have P: "pc_ok cfg (wld s) (pc s)" using R by (simp add: runs_def)
  show ?thesis
  proof (cases "pc s")
    case (RemoveOld t)
    show ?thesis
    proof (cases "\<exists>d. cl_first (used (srv (wld s))) = Some d \<and> older (LONG_TIMEOUT cfg) t d (wld s)")
      case True
      then obtain d where d: "cl_first (used (srv (wld s))) = Some d" "older (LONG_TIMEOUT cfg) t d (wld s)" by blast
      with ex RemoveOld have "act cfg cb (MTryRemove d) s = Some s'" by (auto simp: remove_old_turn_def bind_eq_Some_conv)
      from act_parts [OF this] remove_counts(1) [OF cb R first_runs(1) [OF R d(1)] free, of "threads s'"] RemoveOld
      show ?thesis by (simp add: m_order_def loop_left_def)
    next
      case False
      with ex RemoveOld have "s' = s\<lparr>pc := AcceptLoop t\<rparr>" by (auto simp: remove_old_turn_def split: option.splits)
      with RemoveOld show ?thesis by (simp add: m_order_def)
    qed
  next
    case (AcceptLoop t)
    show ?thesis
    proof (cases "waits (wld s) \<and> room (wld s)")
      case True
      with ex AcceptLoop have "act cfg cb MAccept s = Some s'" by (simp add: accept_turn_def)
      from act_parts [OF this] accept_counts [OF R _ _, of cb "threads s'"] True AcceptLoop
      show ?thesis by (auto simp: m_order_def loop_left_def)
    next
      case False
      with ex AcceptLoop have "s' = s\<lparr>pc := LookFor t None\<rparr>" by (auto simp: accept_turn_def)
      with AcceptLoop show ?thesis by (simp add: m_order_def)
    qed
  next
    case (LookFor t k)
    with ex have "s' = s\<lparr>pc := TimedOut t k\<rparr> \<or> s' = s\<lparr>pc := after_look k\<rparr>"
      by (auto simp: look_turn_def bind_eq_Some_conv split: if_splits)
    with LookFor show ?thesis by (auto simp: m_order_def after_look_left)
  next
    case (TimedOut t k)
    show ?thesis
    proof (cases "\<exists>d. cl_first (used (srv (wld s))) = Some d \<and> waits (wld s) \<and> older (WAIT_TIMEOUT cfg) t d (wld s)")
      case True
      then obtain d where d: "cl_first (used (srv (wld s))) = Some d" "waits (wld s)" "older (WAIT_TIMEOUT cfg) t d (wld s)" by blast
      with ex TimedOut free have A: "act cfg cb (MTryRemove d) (s\<lparr>pc := TimedAccept t k\<rparr>) = Some s'" by (simp add: timed_out_turn_def)
      from act_parts [OF this] remove_counts [OF cb R first_runs(1) [OF R d(1)] free, of "threads s'"] TimedOut
      show ?thesis by (simp add: m_order_def loop_left_def)
    next
      case False
      with ex TimedOut have "s' = s\<lparr>pc := after_look k\<rparr>" by (auto simp: timed_out_turn_def split: option.splits)
      with TimedOut show ?thesis by (simp add: m_order_def after_look_left)
    qed
  next
    case (TimedAccept t k)
    with ex have A: "act cfg cb MAccept (s\<lparr>pc := TimedOut t k\<rparr>) = Some s'" by simp
    from act_parts [OF A] accept_counts [OF R _ _, of cb "threads s'"] P TimedAccept
    show ?thesis by (auto simp: m_order_def loop_left_def)
  next
    case (Events evs)
    with ex show ?thesis
      by (auto simp: events_turn_def listen_turn_def end_turn_def m_order_def bind_eq_Some_conv split: list.splits ev_data.splits if_splits)
  next
    case (ListenAccept evs)
    with ex have A: "act cfg cb MAccept (s\<lparr>pc := Events evs\<rparr>) = Some s'" by simp
    from act_parts [OF A] ListenAccept show ?thesis by (simp add: m_order_def)
  next
    case (Hangup ev d evs)
    with ex show ?thesis by (auto simp: hangup_turn_def m_order_def split: if_splits)
  next
    case (TryRemove d evs)
    with ex have A: "act cfg cb (MTryRemove d) (s\<lparr>pc := Events evs\<rparr>) = Some s'" by simp
    from act_parts [OF A] TryRemove show ?thesis by (simp add: m_order_def)
  next
    case Drain
    with ex show ?thesis by (auto simp: drain_turn_def begin_turn_def Let_def m_order_def split: if_splits)
  qed (use pc ex in auto)
qed

lemma main_calm:
  assumes cb: "server_cb cb G" and c: "calm cfg G others s" and pc: "pc s \<notin> {AtLoop, EpollWait, Closed}"
  shows "\<exists>s'. m_step cfg ms cb s s' \<and> calm cfg G others s' \<and> (s', s) \<in> m_order cfg"
proof -
  from c have R: "runs cfg G others s" and free: "\<And>d. lock (threads s) d = None" and w: "w_server s = None" by (simp_all add: calm_def)
  have P: "pc_ok cfg (wld s) (pc s)" using R by (simp add: runs_def)
  have go: "\<exists>s'. m_step cfg ms cb s s' \<and> calm cfg G others s' \<and> (s', s) \<in> m_order cfg"
    if e: "m_enabled cfg ms e s" "\<not> by_worker e" "e \<noteq> Join" and o: "\<And>s'. m_exec cfg cb e s = Some s' \<Longrightarrow> (s', s) \<in> m_order cfg" for e
  proof -
    from m_exec_runs [OF cb R e(1)] obtain s' where "m_exec cfg cb e s = Some s'" by blast
    with calm_step [OF cb c e(1-3) this] o show ?thesis by blast
  qed
  have front: "t_enabled cfg MAccept (threads s)" if "room (wld s)" "waits (wld s)"
  proof -
    from R obtain us fs ws where "conn_rep cfg (srv (wld s)) us fs" by (rule runs_at)
    then have "cq_front (unusedq (srv (wld s))) \<noteq> None" using that(1) by (auto simp: conn_rep_def slq_def room_def)
    with that(2) free show ?thesis by (auto simp: waits_def)
  qed
  consider (wait) "m_enabled cfg ms Lock s" | (look) ev d evs where "pc s = CheckCallbacks ev d evs"
    | (ready) ev d evs where "pc s = ReadyConn ev d evs" | (main) "m_enabled cfg ms Main s"
    using pc w P front by (cases "pc s") (auto simp del: t_enabled.simps)
  then show ?thesis
  proof cases
    case wait
    then show ?thesis by (intro go [of Lock]) (auto simp: lock_turn_def end_turn_def m_order_def split: m_pc.splits option.splits if_splits)
  next
    case look
    then show ?thesis
      by (intro go [of "Saw (readCallback (conn (srv (wld s)) d) = None \<and> writeCallback (conn (srv (wld s)) d) = None)"])
        (auto simp: callbacks_turn_def m_order_def split: if_splits)
  next
    case ready
    from fresh_task [OF c] obtain t where "tasks (threads s) t = TNone" by blast
    with ready P free show ?thesis
      by (intro go [of "Task t"]) (auto simp: ready_turn_def m_order_def bind_eq_Some_conv split: if_splits)
  next
    case main
    then show ?thesis using main_order [OF cb c pc] by (intro go [of Main]) simp_all
  qed
qed

lemma main_waits:
  assumes cb: "server_cb cb G" and c: "calm cfg G others s"
  shows "\<exists>s'. (m_step cfg ms cb)\<^sup>*\<^sup>* s s' \<and> calm cfg G others s' \<and> pc s' \<in> {AtLoop, EpollWait, Closed}"
  using c
proof (induction s rule: wf_induct_rule [OF wf_measures [of "[\<lambda>s. events_left (pc s), \<lambda>s. stage (pc s), loop_left cfg]", folded m_order_def]])
  case (1 s)
  show ?case
  proof (cases "pc s \<in> {AtLoop, EpollWait, Closed}")
    case True
    then show ?thesis using "1.prems" by blast
  next
    case False
    from main_calm [OF cb "1.prems" False] obtain s1 where "m_step cfg ms cb s s1" "calm cfg G others s1" "(s1, s) \<in> m_order cfg" by blast
    with "1.IH" show ?thesis by (meson converse_rtranclp_into_rtranclp)
  qed
qed

subsection \<open>Together\<close>

lemma tasks_step:
  assumes "m_step cfg ms cb s s'" and "\<exists>A. tasks_in A s"
  shows "\<exists>A. tasks_in A s'"
proof -
  from assms(1) obtain e where e: "m_enabled cfg ms e s" "m_exec cfg cb e s = Some s'" by (auto simp: m_step_iff)
  from assms(2) obtain A where A: "tasks_in A s" by blast
  have "\<exists>x. \<forall>u. u \<noteq> x \<longrightarrow> tasks (threads s') u = tasks (threads s) u"
  proof (cases "by_worker e")
    case False
    then show ?thesis using aside_exec [OF e(2)] by (auto simp: aside_def)
  next
    case True
    then show ?thesis
    proof (cases e)
      case (Work f)
      with e obtain t where "t_enabled cfg f (threads s)" "t_exec cfg cb f (threads s) = Some t" "threads s' = t" "worker_event f"
        by (auto simp: act_def split: t_event.splits)
      with worker_task show ?thesis by (metis fun_upd_other)
    qed (use e True in auto)
  qed
  then obtain x where x: "\<And>u. u \<noteq> x \<Longrightarrow> tasks (threads s') u = tasks (threads s) u" by blast
  have "tasks_in (insert x A) s'" using A x unfolding tasks_in_def by (metis finite_insert insert_iff)
  then show ?thesis by blast
qed

lemma m_reachable_tasks: "m_reachable cfg ms cb G others s \<Longrightarrow> \<exists>A. tasks_in A s"
proof (induction rule: reachable.induct)
  case (start s)
  then have "tasks_in {} s" by (simp add: m_init_def t_init_def tasks_in_def)
  then show ?case by blast
next
  case (next_state s t)
  then show ?case using tasks_step by blast
qed

lemma settle:
  assumes cb: "server_cb cb G" and R: "runs cfg G others s" and A: "tasks_in A s"
  shows "\<exists>s'. (m_step cfg ms cb)\<^sup>*\<^sup>* s s' \<and> pc s' \<in> {AtLoop, EpollWait, Closed} \<and> (\<forall>t. tasks (threads s') t = TNone)
     \<and> (\<forall>c. lock (threads s') c = None) \<and> w_server s' = None"
proof -
  from workers_finish [OF cb R A] obtain s1 where
    S1: "(m_step cfg ms cb)\<^sup>*\<^sup>* s s1" "runs cfg G others s1" "tasks_in A s1" "w_server s1 = None" "lock (threads s1) = (\<lambda>_. None)" by metis
  then have "calm cfg G others s1" by (auto simp: calm_def)
  from main_waits [OF cb this] obtain s2 where
    S2: "(m_step cfg ms cb)\<^sup>*\<^sup>* s1 s2" "calm cfg G others s2" "pc s2 \<in> {AtLoop, EpollWait, Closed}" by metis
  then obtain B where "runs cfg G others s2" "tasks_in B s2" by (auto simp: calm_def)
  from workers_finish [OF cb this] S2(3) obtain s3 where
    S3: "(m_step cfg ms cb)\<^sup>*\<^sup>* s2 s3" "pc s3 = pc s2" "w_server s3 = None" "lock (threads s3) = (\<lambda>_. None)"
       "\<forall>t. tasks (threads s3) t = TNone" by (metis insertE m_holds.simps(1,2,6) singletonD)
  have "(m_step cfg ms cb)\<^sup>*\<^sup>* s s3" using S1(1) S2(1) S3(1) by (meson rtranclp_trans)
  then show ?thesis using S2(3) S3(2-5) by (intro exI [of _ s3]) simp
qed

end
