(* ===== verification/MasterRuns.thy ===== *)
theory MasterRuns
  imports MasterProgress
begin

text \<open>
  What holds in every run of the server with a thread pool, from its start to its end; and two runs of a small server, in which
  \<^verbatim>\<open>poServer_shutdown\<close> sleeps for ever and in which a mark for removal is forgotten.
\<close>

lemma m_reachable_inv: "m_reachable cfg ms cb G others s \<Longrightarrow> server_cb cb G \<and> m_inv cfg G others s"
  by (rule mm.inv_reachable)

lemma m_reachable_runs:
  assumes "m_reachable cfg ms cb G others s" and "pc s \<noteq> Gone"
  shows "server_cb cb G" "runs cfg G others s"
  using m_reachable_inv [OF assms(1)] assms(2) by (auto simp: m_inv_def gone_def)

lemma m_run_reachable:
  assumes "m_reachable cfg ms cb G others s" and "m_run cfg ms cb es s = Some s'"
  shows "m_reachable cfg ms cb G others s'"
  by (rule reachable_rtranclp [OF m_run_steps [OF assms(2)] assms(1)])

subsection \<open>Runs of a small server\<close>

text \<open>A state in which no worker has the server mutex.\<close>

definition m_state :: "unit world \<Rightarrow> (nat \<Rightarrow> nat option) \<Rightarrow> (nat \<Rightarrow> task_pc) \<Rightarrow> m_pc \<Rightarrow> bool \<Rightarrow> unit mserver" where
  "m_state w l ts p d = \<lparr>threads = \<lparr>world = w, lock = l, tasks = ts\<rparr>, pc = p, down = d, w_server = None\<rparr>"

definition free :: "nat \<Rightarrow> nat option" where
  "free = (\<lambda>_. None)"

definition m_start :: "unit mserver" where
  "m_start = m_state (boot ()) free (\<lambda>_. TNone) AtLoop False"

definition first_turn :: "m_event list" where
  "first_turn = [Main, Main, Main, Main, Wake (two_clients\<lparr>answer := WaitEvents [listen_ev]\<rparr>), Lock, Main, Main, Main]"

definition accepted :: "unit mserver" where
  "accepted = m_state (world1 (conn1 0 False False) [Pending True True]) free (\<lambda>_. TNone) AtLoop False"

lemmas m_eval = m_state_def free_def loop_turn_def begin_turn_def end_turn_def remove_old_turn_def accept_turn_def look_turn_def
  events_turn_def listen_turn_def callbacks_turn_def ready_turn_def hangup_turn_def wait_turn_def lock_turn_def act_def room_def waits_def
  after_look_def answer_ok_def event_ok_def drain_turn_def t_eval

lemma first_turn: "m_run sv1 ms hangup_cb first_turn m_start = Some accepted"
  by (simp add: first_turn_def m_start_def accepted_def m_eval two_clients_def listen_ev_def fun_eq_iff)


definition quiet_wake :: "epoll_event \<Rightarrow> wake" where
  "quiet_wake ev = \<lparr>answer = WaitEvents [ev], elapsed = 0, arrivals = []\<rparr>"

text \<open>A turn of the loop that makes a task of a read event.\<close>

definition task_turn :: "nat \<Rightarrow> m_event list" where
  "task_turn t = [Main, Main, Main, Main, Wake (quiet_wake read_ev), Lock, Main, Saw False, Task t, Lock, Main, Main]"

definition one_task :: "unit mserver" where
  "one_task = m_state (world1 (conn1 0 True False) [Pending True True]) free ((\<lambda>_. TNone)(0 := TQueued 0 0)) AtLoop False"

lemma task_turn0: "m_run sv1 ms hangup_cb (task_turn 0) accepted = Some one_task"
  by (simp add: task_turn_def quiet_wake_def one_task_def accepted_def m_eval read_ev_def fun_eq_iff)

lemma m_start_reachable: "m_reachable sv1 ms hangup_cb {} {0, 1, 2} m_start"
proof (rule reachable.start, intro conjI hangup_client)
  have "threads m_start = t_start" by (simp add: m_start_def m_state_def t_start_def free_def)
  then show "m_init sv1 {} {0, 1, 2} m_start"
    using t_start_init by (simp add: m_init_def t_start_def m_start_def m_state_def srv_ok_def boot_eq)
qed

lemma one_task_reachable: "m_reachable sv1 ms hangup_cb {} {0, 1, 2} one_task"
  by (rule m_run_reachable [OF m_run_reachable [OF m_start_reachable first_turn] task_turn0])

definition busy :: "unit mserver" where
  "busy = m_state (world1 (conn1 0 True False) [Pending True True]) (free(0 := Some 0)) ((\<lambda>_. TNone)(0 := TServing 0 0)) AtLoop False"

lemma busy: "m_run sv1 ms hangup_cb [Work (WLock 0), Work (WCheck 0)] one_task = Some busy"
  by (simp add: busy_def one_task_def m_eval fun_eq_iff)

text \<open>The signal comes while the task waits; then the worker closes the last connection while the main thread waits for events.\<close>

lemma pull_all_simps:
  "wq_first (fst q) = None \<Longrightarrow> pull_all q = Some q"
  "wq_first (fst q) = Some l \<Longrightarrow> pull_all q = queuePull q \<bind> pull_all"
  by (subst pull_all.simps, simp)+

definition shutting_down :: "unit mserver" where
  "shutting_down = (let s = m_state (world1 (conn1 0 True False) [Pending True True]) free ((\<lambda>_. TNone)(0 := TQueued 0 0)) EpollWait True;
      w = wld s
    in s\<lparr>threads := (threads s)\<lparr>world := w\<lparr>srv := (srv w)\<lparr>listener := (listener (srv w))(0 := (listener (srv w) 0)\<lparr>l_fd := -1, waiting := False\<rparr>),
       numListeners := 0, waitingq := \<lparr>wq_first = None, wq_last = None\<rparr>, isRunning := False, listenersDown := True\<rparr>,
       kern := (kern w)\<lparr>open_fds := [5, 3, 0, 1, 2]\<rparr>\<rparr>\<rparr>\<rparr>)"

lemma shutting_down: "m_run sv1 ms hangup_cb [Stop, Main, Lock, Main, Main, Main, Main] one_task = Some shutting_down"
  by (simp add: shutting_down_def one_task_def m_eval fun_eq_iff shut_listeners_def pull_all_simps close_any_def)

definition asleep :: "unit mserver" where
  "asleep = (let w = wld shutting_down in m_state (w\<lparr>srv := (srv w)\<lparr>conn := (\<lambda>_. zero_conn)(0 := (zero_conn\<lparr>changeCount := 1, acceptTime := 1\<rparr>)),
       used := \<lparr>cl_num = 0, cl_first = None, cl_last = None\<rparr>, unusedq := \<lparr>cq_back = Some 0, cq_front = Some 0\<rparr>\<rparr>,
       kern := (kern w)\<lparr>open_fds := [3, 0, 1, 2]\<rparr>\<rparr>) free (\<lambda>_. TNone) EpollWait True)"

definition work_through :: "nat \<Rightarrow> m_event list" where
  "work_through t = [Work (WLock t), Work (WCheck t), Work (WServe t), WServer t, Work (WEnd t)]"

lemma asleep: "m_run sv1 ms hangup_cb (work_through 0) shutting_down = Some asleep"
  by (simp add: asleep_def shutting_down_def work_through_def m_eval fun_eq_iff service_def service_read_def service_write_def
      call_cb_def hangup_cb_def)

text \<open>Two tasks for one client; the first closes the connection, and the next client gets the struct.\<close>

definition two_tasks :: "unit mserver" where
  "two_tasks = m_state (world1 (conn1 0 True False) [Pending True True]) free ((\<lambda>_. TNone)(0 := TQueued 0 0, 1 := TQueued 0 0)) AtLoop False"

lemma task_turn1: "m_run sv1 ms hangup_cb (task_turn 1) one_task = Some two_tasks"
  by (simp add: task_turn_def quiet_wake_def one_task_def two_tasks_def m_eval read_ev_def fun_eq_iff)

definition stale_task :: "unit mserver" where
  "stale_task = (let w = world1 (conn1 1 False False) [Pending True True] in m_state
     (w\<lparr>srv := (srv w)\<lparr>conn := (\<lambda>_. zero_conn)(0 := zero_conn\<lparr>changeCount := 1, acceptTime := 1\<rparr>),
       used := \<lparr>cl_num = 0, cl_first = None, cl_last = None\<rparr>, unusedq := \<lparr>cq_back = Some 0, cq_front = Some 0\<rparr>\<rparr>,
       kern := (kern w)\<lparr>open_fds := [4, 3, 0, 1, 2]\<rparr>\<rparr>) free ((\<lambda>_. TNone)(1 := TQueued 0 0)) AtLoop False)"

lemma stale_task: "m_run sv1 ms hangup_cb (work_through 0) two_tasks = Some stale_task"
  by (simp add: stale_task_def two_tasks_def work_through_def m_eval fun_eq_iff service_def service_read_def service_write_def
      call_cb_def hangup_cb_def)

definition mark_turn :: "m_event list" where
  "mark_turn = [Main, Main, Main, Main, Main, Work (WLock 1), Wake (quiet_wake hangup_ev), Lock, Main, Saw False, Main, Main, Work (WCheck 1)]"

definition mark_left :: "unit mserver" where
  "mark_left = m_state (world1 (conn1 1 False True) []) free (\<lambda>_. TNone) (Events []) False"

lemma mark_turn: "m_run sv1 ms hangup_cb mark_turn stale_task = Some mark_left"
  by (simp add: mark_turn_def quiet_wake_def stale_task_def mark_left_def m_eval hangup_ev_def fun_eq_iff)

lemma busy_reachable: "m_reachable sv1 ms hangup_cb {} {0, 1, 2} busy"
  by (rule m_run_reachable [OF one_task_reachable busy])

lemma asleep_reachable: "m_reachable sv1 ms hangup_cb {} {0, 1, 2} asleep"
  by (rule m_run_reachable [OF m_run_reachable [OF one_task_reachable shutting_down] asleep])

lemma mark_left_reachable: "m_reachable sv1 ms hangup_cb {} {0, 1, 2} mark_left"
  by (rule m_run_reachable [OF m_run_reachable [OF m_run_reachable [OF one_task_reachable task_turn1] stale_task] mark_turn])

subsection \<open>Every run\<close>

text \<open>
  Property C8. The server with a thread pool never fails an assertion: in every state that the main thread (the event loop, then
  \<^verbatim>\<open>poServer_shutdown\<close> and \<^verbatim>\<open>poServer_destroy\<close>), the workers and the signal handler can reach in any interleaving, whatever events the kernel
  reports, also old ones, every step that a thread can take returns. The kernel gives the answers the code expects: \<^verbatim>\<open>epoll_wait\<close> fails only for a signal and
  reports only \<^verbatim>\<open>EPOLLIN\<close> of a listener (\<open>answer_ok\<close>), and a client that waits can be accepted, made non-blocking and registered (\<open>kernel_calm\<close>).
\<close>

theorem loop_asserts_hold:
  assumes "m_reachable cfg ms cb G others s" and "m_enabled cfg ms e s"
  shows "\<exists>s'. m_exec cfg cb e s = Some s'"
  using m_exec_inv m_reachable_inv [OF assms(1)] assms(2) by blast

theorem loop_asserts_hold_witness: "\<exists>s'. m_exec sv1 hangup_cb (Work (WServe 0)) busy = Some s'"
  by (rule loop_asserts_hold [OF busy_reachable]) (simp add: busy_def m_state_def)

text \<open>
  Property C10. In every reachable state of the server with a thread pool: the callbacks of a connection run for a task only while the
  task holds its mutex, the connection is open, and it is the very connection the task was made for; so at most one task runs
  the callbacks of a connection, and none runs those of a client that came later.
\<close>

theorem loop_serves_its_client:
  assumes "m_reachable cfg ms cb G others s" and "tasks (threads s) t = TServing c n"
  shows "is_used cfg c (wld s) \<and> changeCount (conn (srv (wld s)) c) = n \<and> lock (threads s) c = Some t
     \<and> (\<forall>t' n'. tasks (threads s) t' = TServing c n' \<or> tasks (threads s) t' = TLocked c n' \<longrightarrow> t' = t)"
proof -
  from m_reachable_inv [OF assms(1)] assms(2) have "runs cfg G others s" by (auto simp: m_inv_def gone_def)
  then obtain us fs ws where at: "t_inv_at cfg G others (threads s) us fs ws" by (rule runs_at)
  from t_serving [OF at assms(2)] show ?thesis .
qed

theorem loop_serves_its_client_witness: "is_used sv1 0 (wld busy) \<and> lock (threads busy) 0 = Some 0"
  using loop_serves_its_client [OF busy_reachable, of 0 0 0] by (simp add: busy_def m_state_def)

text \<open>
  Property C11. In every reachable state of the server with a thread pool the open descriptors of the process are those it had besides
  the server's and exactly those of the server's open connections, its open listeners and epoll, and two connections have
  different descriptors; and when \<^verbatim>\<open>poServer_destroy\<close> has returned, they are those it had besides the server's.
\<close>

theorem loop_descriptors:
  assumes "m_reachable cfg ms cb G others s"
  shows "if pc s = Gone then set (open_fds (kern (wld s))) = others
     else set (open_fds (kern (wld s))) = others \<union> server_fds cfg (srv (wld s)) \<and> others \<inter> server_fds cfg (srv (wld s)) = {}
       \<and> (\<forall>c d. is_used cfg c (wld s) \<and> is_used cfg d (wld s)
            \<and> c_fd (conn (srv (wld s)) c) = c_fd (conn (srv (wld s)) d) \<longrightarrow> c = d)"
proof (cases "pc s = Gone")
  case True
  then show ?thesis using m_reachable_inv [OF assms] by (auto simp: m_inv_def gone_def runs_def)
next
  case False
  from m_reachable_runs(2) [OF assms False] obtain us fs ws where sv: "sv_inv_at cfg G others (wld s) us fs ws" by (rule runs_at)
  show ?thesis using False sv_inv_fds(1,2,4) [OF sv] unfolding is_used_def by auto
qed

theorem loop_descriptors_witness:
  "set (open_fds (kern (wld busy))) = {0, 1, 2} \<union> server_fds sv1 (srv (wld busy))"
  using loop_descriptors [OF busy_reachable] by (simp add: busy_def m_state_def)

text \<open>
  Property C9. The server with a thread pool is never stuck: from every reachable state the threads can go on, without any further
  answer of the kernel, until the main thread is at the head of its loop, waits for events or for \<^verbatim>\<open>poServer_destroy\<close>, every task is done,
  and no mutex is held. So neither the order in which the mutexes are taken nor the loops that try a mutex again can stop it.
\<close>

theorem loop_settles:
  assumes "m_reachable cfg ms cb G others s" and "pc s \<noteq> Gone"
  shows "\<exists>s'. (m_step cfg ms cb)\<^sup>*\<^sup>* s s' \<and> (pc s' = AtLoop \<or> pc s' = EpollWait \<or> pc s' = Closed)
     \<and> (\<forall>t. tasks (threads s') t = TNone) \<and> (\<forall>c. lock (threads s') c = None) \<and> w_server s' = None"
  using settle [OF m_reachable_runs [OF assms]] m_reachable_tasks [OF assms(1)] by (metis insertE singletonD)

theorem loop_settles_witness:
  "\<exists>s'. (m_step sv1 5 hangup_cb)\<^sup>*\<^sup>* busy s' \<and> (\<forall>t. tasks (threads s') t = TNone)"
  using loop_settles [OF busy_reachable, of 5] by (auto simp: busy_def m_state_def)

text \<open>
  Property C16. With a thread pool and \<^verbatim>\<open>PO_SERVER_EPOLL_WAIT_TIME\<close> -1, \<^verbatim>\<open>poServer_shutdown\<close> can wait for ever: a worker closes the last
  connection while the main thread is in \<^verbatim>\<open>epoll_wait\<close> of the loop \<^verbatim>\<open>while(s->used.first)\<close>. No descriptor is left from which an
  event could come, no task is left, and the only steps are the return of \<^verbatim>\<open>epoll_wait\<close> without a timeout and another signal.
\<close>

theorem loop_shutdown_can_hang:
  "\<exists>s. m_reachable sv1 (-1) hangup_cb {} {0, 1, 2} s \<and> pc s = EpollWait \<and> down s \<and> cl_first (used (srv (wld s))) = None
     \<and> (\<forall>c. \<not> is_used sv1 c (wld s)) \<and> (\<forall>l < NUM_LISTENERS sv1. l_fd (listener (srv (wld s)) l) = -1)
     \<and> (\<forall>e. m_enabled sv1 (-1) e s \<longrightarrow> e = Stop \<or> (\<exists>wk. e = Wake wk \<and> answer wk \<noteq> WaitTimeout))"
proof (intro exI [of _ asleep] conjI asleep_reachable allI impI)
  fix e
  assume en: "m_enabled sv1 (-1) e asleep"
  show "e = Stop \<or> (\<exists>wk. e = Wake wk \<and> answer wk \<noteq> WaitTimeout)"
  proof (cases e)
    case (Work f)
    then show ?thesis using en by (cases f) (auto simp: asleep_def m_state_def Let_def)
  qed (use en in \<open>auto simp: asleep_def m_state_def Let_def answer_ok_def\<close>)
qed (auto simp: asleep_def shutting_down_def m_state_def Let_def is_used_def sv1_def zero_conn_def)

theorem loop_shutdown_can_hang_witness:
  "\<exists>s. m_reachable sv1 (-1) hangup_cb {} {0, 1, 2} s \<and> pc s = EpollWait \<and> l_fd (listener (srv (wld s)) 0) = -1
     \<and> \<not> m_enabled sv1 (-1) Main s \<and> \<not> m_enabled sv1 (-1) Join s
     \<and> \<not> m_enabled sv1 (-1) (Wake \<lparr>answer = WaitTimeout, elapsed = 0, arrivals = []\<rparr>) s"
proof -
  obtain s where s: "m_reachable sv1 (-1) hangup_cb {} {0, 1, 2} s" "pc s = EpollWait"
      "\<forall>l < NUM_LISTENERS sv1. l_fd (listener (srv (wld s)) l) = -1"
      "\<forall>e. m_enabled sv1 (-1) e s \<longrightarrow> e = Stop \<or> (\<exists>wk. e = Wake wk \<and> answer wk \<noteq> WaitTimeout)"
    using loop_shutdown_can_hang by blast
  have "l_fd (listener (srv (wld s)) 0) = -1" using s(3) by simp
  moreover have "\<not> m_enabled sv1 (-1) Main s" "\<not> m_enabled sv1 (-1) Join s" using s(4) by blast+
  moreover have "\<not> m_enabled sv1 (-1) (Wake \<lparr>answer = WaitTimeout, elapsed = 0, arrivals = []\<rparr>) s"
    using s(4) [rule_format, of "Wake \<lparr>answer = WaitTimeout, elapsed = 0, arrivals = []\<rparr>"]
    by (simp only: m_event.inject m_event.distinct wake.simps) auto
  ultimately show ?thesis using s(1,2) by (intro exI [of _ s] conjI)
qed

text \<open>
  A mark for removal can be forgotten: the main thread handles the hang-up of a client and fails to get the mutex of its
  connection because of a worker with a task for an earlier client, and marks the connection; the worker finds its task too
  old and leaves \<^verbatim>\<open>ServiceConnection\<close> without a look at the mark. The comment in \<^verbatim>\<open>checkTryRemoveConnection\<close> says that the worker
  will remove the connection.
\<close>

theorem loop_mark_forgotten:
  "\<exists>s. m_reachable sv1 ms hangup_cb {} {0, 1, 2} s \<and> is_used sv1 0 (wld s)
     \<and> markedForRemoval (conn (srv (wld s)) 0) \<and> (\<forall>t. tasks (threads s) t = TNone) \<and> (\<forall>c. lock (threads s) c = None)"
  by (rule exI [of _ mark_left]) (simp add: mark_left_reachable, simp add: mark_left_def m_eval)

end
