(* ===== verification/OutQueue.thy ===== *)
theory OutQueue
  imports Linked
begin

text \<open>
  The queue of output requests of a session, src/potato_old/service.c: \<^verbatim>\<open>struct Out\<close> and the three
  structs that start with it, \<^verbatim>\<open>outQueuePush\<close>, \<^verbatim>\<open>outQueuePop\<close> and \<^verbatim>\<open>freeOut\<close>. The structs are
  allocated; a session has the ones of its queue, and these are all it has.
\<close>

text \<open>
  What is after the header: \<^verbatim>\<open>struct OutBuffer\<close> (bytes and index), \<^verbatim>\<open>struct OutPath\<close>, or
  \<^verbatim>\<open>struct OutPathTls\<close> (descriptor, the filled part of the buffer, \<^verbatim>\<open>i\<close> and \<^verbatim>\<open>fileLeft\<close>). The type tag
  is the constructor; an \<^verbatim>\<open>OUTPATH\<close> of a TLS session is the last one.
\<close>

datatype out_body =
    OutBuffer "byte list" nat
  | OutPath int
  | OutPathTls int "byte list" nat nat

record Out =
  o_body :: out_body
  o_next :: ptr

record outqueue =
  firstOut :: ptr
  lastOut :: ptr
  outs :: "nat \<Rightarrow> Out option"
  next_out :: nat

definition empty_outqueue :: outqueue where
  "empty_outqueue = \<lparr>firstOut = None, lastOut = None, outs = Map.empty, next_out = 0\<rparr>"

definition outQueuePush :: "out_body \<Rightarrow> outqueue \<Rightarrow> (nat \<times> outqueue) option" where
  "outQueuePush b q = (let i = next_out q;
       q = q\<lparr>outs := (outs q)(i \<mapsto> \<lparr>o_body = b, o_next = None\<rparr>), next_out := i + 1\<rparr>
     in (case lastOut q of
         Some l \<Rightarrow> do {
           ASSERT (firstOut q \<noteq> None);
           n \<leftarrow> outs q l;
           Some (i, q\<lparr>outs := (outs q)(l \<mapsto> n\<lparr>o_next := Some i\<rparr>), lastOut := Some i\<rparr>) }
       | None \<Rightarrow> do {
           ASSERT (firstOut q = None);
           Some (i, q\<lparr>firstOut := Some i, lastOut := Some i\<rparr>) }))"

definition outQueuePop :: "outqueue \<Rightarrow> (ptr \<times> outqueue) option" where
  "outQueuePop q = (case firstOut q of
       None \<Rightarrow> Some (None, q)
     | Some f \<Rightarrow> do {
         n \<leftarrow> outs q f;
         let q = q\<lparr>firstOut := o_next n\<rparr>;
         Some (Some f, if firstOut q = None then q\<lparr>lastOut := None\<rparr> else q) })"

text \<open>\<^verbatim>\<open>freeOut\<close> frees the struct and what it holds: the user's buffer, or the descriptor, which is returned.\<close>

definition freeOut :: "nat \<Rightarrow> outqueue \<Rightarrow> (int option \<times> outqueue) option" where
  "freeOut i q = do {
     n \<leftarrow> outs q i;
     let q = q\<lparr>outs := (outs q)(i := None)\<rparr>;
     Some (case o_body n of
         OutBuffer _ _ \<Rightarrow> (None, q)
       | OutPath fd \<Rightarrow> (if fd \<noteq> -1 then Some fd else None, q)
       | OutPathTls fd _ _ _ \<Rightarrow> (if fd \<noteq> -1 then Some fd else None, q)) }"

subsection \<open>The queue as a list\<close>

definition nexts :: "outqueue \<Rightarrow> nat \<Rightarrow> ptr" where
  "nexts q i = (case outs q i of None \<Rightarrow> None | Some n \<Rightarrow> o_next n)"

definition bodies :: "outqueue \<Rightarrow> nat list \<Rightarrow> out_body list" where
  "bodies q ps = map (\<lambda>i. o_body (the (outs q i))) ps"

definition oq_at :: "outqueue \<Rightarrow> nat list \<Rightarrow> bool" where
  "oq_at q ps \<longleftrightarrow> slq (nexts q) (firstOut q) (lastOut q) ps \<and> dom (outs q) = set ps \<and> set ps \<subseteq> {..<next_out q}"

definition oq_rep :: "outqueue \<Rightarrow> out_body list \<Rightarrow> bool" where
  "oq_rep q bs \<longleftrightarrow> (\<exists>ps. oq_at q ps \<and> bodies q ps = bs)"

lemma nexts_upd: "nexts (q\<lparr>outs := (outs q)(i \<mapsto> n)\<rparr>) = (nexts q)(i := o_next n)"
  by (auto simp: nexts_def fun_eq_iff)

lemma nexts_cong: "outs q = outs q' \<Longrightarrow> nexts q = nexts q'"
  by (simp add: nexts_def fun_eq_iff)

lemma oq_empty: "oq_rep empty_outqueue []"
  by (auto simp: oq_rep_def oq_at_def bodies_def empty_outqueue_def)

lemma oq_rep_first: "oq_rep q bs \<Longrightarrow> firstOut q = None \<longleftrightarrow> bs = []"
  by (auto simp: oq_rep_def oq_at_def bodies_def slq_def split: if_splits dest: chain_start)

lemma outQueuePush_spec:
  assumes "oq_rep q bs"
  shows "\<exists>i q'. outQueuePush b q = Some (i, q') \<and> oq_rep q' (bs @ [b]) \<and> (bs = [] \<longrightarrow> firstOut q' = Some i)"
proof -
  from assms obtain ps where s: "slq (nexts q) (firstOut q) (lastOut q) ps" and d: "dom (outs q) = set ps"
    and lt: "set ps \<subseteq> {..<next_out q}" and bs: "bodies q ps = bs" by (auto simp: oq_rep_def oq_at_def)
  let ?i = "next_out q" and ?n = "\<lparr>o_body = b, o_next = None\<rparr>"
  have new: "?i \<notin> set ps" using lt by auto
  show ?thesis
  proof (cases "lastOut q")
    case None
    with s have e: "ps = []" "firstOut q = None" using slq_last_None by metis+
    define q' where "q' = q\<lparr>outs := (outs q)(?i \<mapsto> ?n), next_out := ?i + 1, firstOut := Some ?i, lastOut := Some ?i\<rparr>"
    have "outQueuePush b q = Some (?i, q')" using None e by (simp add: outQueuePush_def q'_def Let_def)
    moreover have "oq_at q' [?i] \<and> bodies q' [?i] = bs @ [b]"
      using d e bs by (auto simp: oq_at_def q'_def slq_def nexts_def bodies_def)
    ultimately show ?thesis using e by (auto simp: oq_rep_def q'_def)
  next
    case (Some l)
    with s have l: "l \<in> set ps" using slq_last_Some by fastforce
    then obtain n where n: "outs q l = Some n" using d by blast
    have fo: "firstOut q \<noteq> None" using s l by (cases ps) (auto simp: slq_def)
    have ne: "l \<noteq> ?i" using l new by auto
    define q' where "q' = q\<lparr>outs := (outs q)(?i \<mapsto> ?n, l \<mapsto> n\<lparr>o_next := Some ?i\<rparr>), next_out := ?i + 1, lastOut := Some ?i\<rparr>"
    have "outQueuePush b q = Some (?i, q')" using Some n ne fo by (simp add: outQueuePush_def q'_def Let_def)
    moreover have "nexts q' = (nexts q)(?i := None, l := Some ?i)"
      using ne by (auto simp: nexts_def q'_def fun_eq_iff)
    with slq_push [OF s [unfolded Some] new] have "oq_at q' (ps @ [?i])"
      using d l lt by (auto simp: oq_at_def q'_def)
    moreover have "bodies q' (ps @ [?i]) = bs @ [b]"
      using bs new n ne by (auto simp: bodies_def q'_def)
    moreover have "bs \<noteq> []" using bs l by (auto simp: bodies_def)
    ultimately show ?thesis by (auto simp: oq_rep_def)
  qed
qed

lemma oq_rep_Cons:
  assumes "oq_rep q (b # bs)"
  obtains i ps n where "slq (nexts q) (firstOut q) (lastOut q) (i # ps)" "dom (outs q) = set (i # ps)"
    "set (i # ps) \<subseteq> {..<next_out q}" "bodies q ps = bs" "outs q i = Some n" "o_body n = b" "firstOut q = Some i"
    "i \<notin> set ps"
proof -
  from assms obtain i ps where P: "slq (nexts q) (firstOut q) (lastOut q) (i # ps)" "dom (outs q) = set (i # ps)"
    "set (i # ps) \<subseteq> {..<next_out q}" "bodies q (i # ps) = b # bs"
    by (auto simp: oq_rep_def oq_at_def bodies_def)
  from P(2) obtain n where n: "outs q i = Some n" by auto
  with P(4) have "o_body n = b" "bodies q ps = bs" by (simp_all add: bodies_def)
  with P n slq_Cons_first [OF P(1)] slq_distinct [OF P(1)] that show thesis by simp
qed

lemma outQueuePop_free:
  assumes "oq_rep q (b # bs)"
  shows "\<exists>i q1 fd q2. outQueuePop q = Some (Some i, q1) \<and> freeOut i q1 = Some (fd, q2) \<and> oq_rep q2 bs
     \<and> fd = (case b of OutBuffer _ _ \<Rightarrow> None | OutPath f \<Rightarrow> if f \<noteq> -1 then Some f else None
         | OutPathTls f _ _ _ \<Rightarrow> if f \<noteq> -1 then Some f else None)"
proof -
  from assms obtain i ps n where s: "slq (nexts q) (firstOut q) (lastOut q) (i # ps)" and d: "dom (outs q) = set (i # ps)"
    and lt: "set (i # ps) \<subseteq> {..<next_out q}" and b: "bodies q ps = bs" and n: "outs q i = Some n" "o_body n = b"
    and fi: "firstOut q = Some i" and i: "i \<notin> set ps" by (rule oq_rep_Cons)
  have nx: "nexts q i = o_next n" using n by (simp add: nexts_def)
  from slq_pop [OF s [unfolded fi]] nx have s': "slq (nexts q) (o_next n) (if o_next n = None then None else lastOut q) ps" by simp
  define q1 where "q1 = q\<lparr>firstOut := o_next n, lastOut := (if o_next n = None then None else lastOut q)\<rparr>"
  define q2 where "q2 = q1\<lparr>outs := (outs q1)(i := None)\<rparr>"
  have "outQueuePop q = Some (Some i, q1)" using fi n by (simp add: outQueuePop_def q1_def Let_def)
  moreover have "freeOut i q1 = Some (case b of OutBuffer _ _ \<Rightarrow> None | OutPath f \<Rightarrow> if f \<noteq> -1 then Some f else None
         | OutPathTls f _ _ _ \<Rightarrow> if f \<noteq> -1 then Some f else None, q2)"
    using n by (cases b) (simp_all add: freeOut_def q1_def q2_def)
  moreover have "nexts q2 = (nexts q)(i := None)" by (auto simp: nexts_def q2_def q1_def fun_eq_iff)
  with slq_frame [OF s' i] have "oq_at q2 ps"
    using d lt i by (auto simp: oq_at_def q2_def q1_def)
  moreover have "bodies q2 ps = bs" using b i by (auto simp: bodies_def q2_def q1_def)
  ultimately show ?thesis by (auto simp: oq_rep_def)
qed

text \<open>Writing to the struct at the head, as the functions that write it out do.\<close>

definition head_body :: "outqueue \<Rightarrow> out_body option" where
  "head_body q = do { i \<leftarrow> firstOut q; n \<leftarrow> outs q i; Some (o_body n) }"

definition set_head :: "out_body \<Rightarrow> outqueue \<Rightarrow> outqueue" where
  "set_head b q = (case firstOut q of None \<Rightarrow> q
     | Some i \<Rightarrow> q\<lparr>outs := (outs q)(i := map_option (\<lambda>n. n\<lparr>o_body := b\<rparr>) (outs q i))\<rparr>)"

lemma head_body: "oq_rep q (b # bs) \<Longrightarrow> head_body q = Some b"
  by (erule oq_rep_Cons) (simp add: head_body_def)

lemma set_head_rep:
  assumes "oq_rep q (b # bs)"
  shows "oq_rep (set_head b' q) (b' # bs)"
proof -
  from assms obtain i ps n where s: "slq (nexts q) (firstOut q) (lastOut q) (i # ps)" and d: "dom (outs q) = set (i # ps)"
    and lt: "set (i # ps) \<subseteq> {..<next_out q}" and b: "bodies q ps = bs" and n: "outs q i = Some n" "o_body n = b"
    and fi: "firstOut q = Some i" and i: "i \<notin> set ps" by (rule oq_rep_Cons)
  have "nexts (set_head b' q) = nexts q" using fi n by (auto simp: nexts_def set_head_def fun_eq_iff)
  then have "oq_at (set_head b' q) (i # ps)" using s d lt fi n by (auto simp: oq_at_def set_head_def)
  moreover have "bodies (set_head b' q) (i # ps) = b' # bs" using b i fi n by (auto simp: bodies_def set_head_def)
  ultimately show ?thesis by (auto simp: oq_rep_def)
qed

text \<open>Pushing a request, and popping and freeing one, is a first-in first-out queue.\<close>

definition oq_put :: "out_body \<Rightarrow> outqueue \<Rightarrow> outqueue option" where
  "oq_put b q = map_option snd (outQueuePush b q)"

definition oq_take :: "outqueue \<Rightarrow> (out_body option \<times> outqueue) option" where
  "oq_take q = (let h = head_body q in do {
     (i, q) \<leftarrow> outQueuePop q;
     (case i of None \<Rightarrow> Some (None, q)
      | Some i \<Rightarrow> do { (fd, q) \<leftarrow> freeOut i q; Some (h, q) }) })"

interpretation oq: fifo oq_rep "\<lambda>_ _. True" oq_put oq_take
proof (unfold_locales, goal_cases)
  case (1 s xs x)
  from outQueuePush_spec [OF 1(1), of x] show ?case by (auto simp: oq_put_def)
next
  case (2 s x xs)
  from outQueuePop_free [OF 2] head_body [OF 2] show ?case by (auto simp: oq_take_def)
next
  case (3 s)
  then have "firstOut s = None" using oq_rep_first by blast
  then show ?case by (simp add: oq_take_def outQueuePop_def)
qed

end
