(* ===== verification/Tls.thy ===== *)
theory Tls
  imports Prelude
begin

text \<open>
  The TLS objects of src/potato_old/tls.c: the shared one, which counts its sessions, and the sessions.
  gnutls is a library; what its calls answer is an argument. All its checks are assertions, so the
  labels \<^verbatim>\<open>fail\<close> are reached only after a failed handshake.
\<close>

record POTls =
  x509_cred :: bool
  priority_cache :: bool
  sessionCount :: uint32

record tls_answers =
  global_init_ok :: bool
  allocate_ok :: bool
  key_file_ok :: bool
  priority_ok :: bool
  dh_init_ok :: bool
  dh_generate_ok :: bool

definition generate_dh_params :: "tls_answers \<Rightarrow> bool option" where
  "generate_dh_params a = do { ASSERT (dh_init_ok a); ASSERT (dh_generate_ok a); Some False }"

text \<open>The first argument of the state is \<^verbatim>\<open>tlsObjCount\<close>, the second tells whether gnutls is initialised.\<close>

definition poTls_create :: "tls_answers \<Rightarrow> uint32 \<times> bool \<Rightarrow> (POTls \<times> uint32 \<times> bool) option" where
  "poTls_create a = (\<lambda>(count, up). do {
     up \<leftarrow> (if count = 0 then do { ASSERT (global_init_ok a); Some True } else Some up);
     let count = count + 1;
     ASSERT (allocate_ok a);
     ASSERT (key_file_ok a);
     ASSERT (priority_ok a);
     bad \<leftarrow> generate_dh_params a;
     ASSERT (\<not> bad);
     Some (\<lparr>x509_cred = True, priority_cache = True, sessionCount = 0\<rparr>, count, up) })"

definition poTls_destroy :: "POTls \<Rightarrow> uint32 \<times> bool \<Rightarrow> (bool \<times> uint32 \<times> bool) option" where
  "poTls_destroy tls = (\<lambda>(count, up). do {
     ASSERT (sessionCount tls = 0);
     ASSERT (x509_cred tls);
     ASSERT (priority_cache tls);
     Some (False, count - 1, if count - 1 = 0 then False else up) })"

subsection \<open>Sessions\<close>

text \<open>What \<^verbatim>\<open>gnutls_handshake\<close> answers; while the error is not fatal it is called again.\<close>

datatype handshake = HsDone | HsNonFatal | HsFatal

fun handshake_loop :: "handshake list \<Rightarrow> (bool \<times> handshake list) option" where
  "handshake_loop [] = None"
| "handshake_loop (HsDone # hs) = Some (True, hs)"
| "handshake_loop (HsFatal # hs) = Some (False, hs)"
| "handshake_loop (HsNonFatal # hs) = handshake_loop hs"

text \<open>\<open>setup\<close>: the answers of the four calls that set the session up. The result is whether there is one.\<close>

definition poTlsSession_create :: "bool list \<Rightarrow> int \<Rightarrow> POTls \<Rightarrow> handshake list \<Rightarrow> (bool \<times> POTls \<times> handshake list) option" where
  "poTlsSession_create setup fd tls hs = do {
     ASSERT (0 \<le> fd);
     ASSERT (x509_cred tls);
     ASSERT (priority_cache tls);
     ASSERT (\<forall>ok \<in> set setup. ok);
     (ok, hs) \<leftarrow> handshake_loop hs;
     Some (if ok then (True, tls\<lparr>sessionCount := sessionCount tls + 1\<rparr>, hs) else (False, tls, hs)) }"

datatype bye = ByeSuccess | ByeInterrupted | ByeAgain | ByeError

text \<open>The loop around \<^verbatim>\<open>gnutls_bye\<close>: the answers that are left.\<close>

fun bye_loop :: "bye list \<Rightarrow> bye list option" where
  "bye_loop [] = None"
| "bye_loop (r # rs) = (if r = ByeSuccess then Some rs
     else if r \<noteq> ByeInterrupted \<or> r \<noteq> ByeAgain then Some rs else bye_loop rs)"

definition poTlsSession_destroy :: "POTls \<Rightarrow> bye list \<Rightarrow> (bool \<times> POTls \<times> bye list) option" where
  "poTlsSession_destroy tls bs = do {
     bs \<leftarrow> bye_loop bs;
     Some (False, tls\<lparr>sessionCount := sessionCount tls - 1\<rparr>, bs) }"

text \<open>The condition holds for every answer: \<^verbatim>\<open>gnutls_bye\<close> is called once.\<close>

lemma bye_once: "bye_loop (r # rs) = Some rs"
  by simp

lemma handshake_loop_run:
  "handshake_loop (replicate n HsNonFatal @ HsDone # hs) = Some (True, hs)"
  "handshake_loop (replicate n HsNonFatal @ HsFatal # hs) = Some (False, hs)"
  by (induction n) simp_all

end
