(* ===== verification/ServiceIO.thy ===== *)
theory ServiceIO
  imports Callbacks OutQueue Tls
begin

text \<open>
  The functions of src/potato_old/service.c that write one output request to a socket and that read a
  request into the buffer of a session, with or without TLS. The model is the code as it is compiled:
  there is no code for \<^verbatim>\<open>POSERVICE_FLOCK\<close>, which no header defines (service.h defines
  \<^verbatim>\<open>PO_SERVICE_FLOCK\<close>).
\<close>

subsection \<open>Writing one request\<close>

text \<open>
  Results: 0 written, 2 the socket takes no more now, 1 close, -1 close with error; and what is left.
  \<^verbatim>\<open>TCPWrite_buffer\<close> and \<^verbatim>\<open>TLSWrite_buffer\<close> return the new index.
\<close>

function TCPWrite_buffer :: "int \<Rightarrow> byte list \<Rightarrow> nat \<Rightarrow> io \<Rightarrow> (int \<times> nat \<times> io) option" where
  "TCPWrite_buffer fd bs i s = (if \<not> i < length bs then None
     else case k_write fd (drop i bs) s of
       (WSome m, s') \<Rightarrow> if m = 0 then Some (1, i, s') else if m = length bs - i then Some (0, i, s') else Some (2, i + m, s')
     | (WAgain, s') \<Rightarrow> Some (2, i, s')
     | (WIntr, s') \<Rightarrow> TCPWrite_buffer fd bs i s'
     | (WGone, s') \<Rightarrow> Some (1, i, s')
     | (WFault, s') \<Rightarrow> None)"
  by pat_completeness auto

termination
  by (relation "measure (\<lambda>(fd, bs, i, s). wr_size fd s)") (auto dest!: k_write_props(6) [OF sym])

text \<open>
  \<^verbatim>\<open>if(rt == b->len - b->index);\<close> has a semicolon: every \<open>rt > 0\<close> returns 0, also when a part was
  written.
\<close>

function TLSWrite_buffer :: "int \<Rightarrow> byte list \<Rightarrow> nat \<Rightarrow> io \<Rightarrow> (int \<times> nat \<times> io) option" where
  "TLSWrite_buffer fd bs i s = (if \<not> i < length bs then None
     else case k_write fd (drop i bs) s of
       (WSome m, s') \<Rightarrow> if m = 0 then Some (1, i, s') else Some (0, i, s')
     | (WAgain, s') \<Rightarrow> Some (2, i, s')
     | (WIntr, s') \<Rightarrow> TLSWrite_buffer fd bs i s'
     | (_, s') \<Rightarrow> Some (-1, i, s'))"
  by pat_completeness auto

termination
  by (relation "measure (\<lambda>(fd, bs, i, s). wr_size fd s)") (auto dest!: k_write_props(6) [OF sym])

text \<open>
  The loop that fills the buffer of \<open>TLS_BUFFER\<close> bytes from the file; \<open>None\<close> is a read error, which is
  also what an early end of the file is taken for (\<^verbatim>\<open>errno\<close> is then not \<^verbatim>\<open>EINTR\<close>).
\<close>

definition TLS_BUFFER :: nat where "TLS_BUFFER = 1024"

function fill_buffer :: "int \<Rightarrow> byte list \<Rightarrow> nat \<Rightarrow> io \<Rightarrow> (byte list \<times> nat) option \<times> io" where
  "fill_buffer pfd b left s = (if length b < TLS_BUFFER \<and> 0 < left then
       (case k_read pfd (min (TLS_BUFFER - length b) left) s of
          (RData cs, s') \<Rightarrow> if cs \<noteq> [] then fill_buffer pfd (b @ cs) (left - length cs) s' else (None, s')
        | (RIntr, s') \<Rightarrow> fill_buffer pfd b left s'
        | (_, s') \<Rightarrow> (None, s'))
     else (Some (b, left), s))"
  by pat_completeness auto

termination
  by (relation "measure (\<lambda>(fd, b, l, s). rd_size fd s)") (auto dest!: k_read_props(7) [OF sym])

declare fill_buffer.simps [simp del]

lemma fill_buffer_frame: "fill_buffer pfd b left s = (r, t) \<Longrightarrow> wr t = wr s \<and> out t = out s \<and> same_io pfd s t"
proof (induction pfd b left s rule: fill_buffer.induct)
  case (1 pfd b left s)
  show ?case
  proof (cases "length b < TLS_BUFFER \<and> 0 < left")
    case True
    obtain a s' where K: "k_read pfd (min (TLS_BUFFER - length b) left) s = (a, s')" by fastforce
    note P = k_read_props(1-3) [OF K]
    show ?thesis
    proof (cases a)
      case (RData cs)
      show ?thesis
      proof (cases "cs = []")
        case False
        with RData True K "1.prems" have "fill_buffer pfd (b @ cs) (left - length cs) s' = (r, t)"
          by (subst (asm) fill_buffer.simps) simp
        from "1.IH"(1) [OF True K [symmetric] RData False this] P show ?thesis by (auto intro: same_io_trans)
      qed (use True K RData P "1.prems" in \<open>subst (asm) fill_buffer.simps, auto\<close>)
    next
      case RIntr
      with True K "1.prems" have "fill_buffer pfd b left s' = (r, t)" by (subst (asm) fill_buffer.simps) simp
      from "1.IH"(2) [OF True K [symmetric] RIntr this] P show ?thesis by (auto intro: same_io_trans)
    qed (use True K P "1.prems" in \<open>subst (asm) fill_buffer.simps, auto\<close>)+
  qed (use "1.prems" in \<open>subst (asm) fill_buffer.simps, auto\<close>)
qed

text \<open>The outer loop: result, buffer, index and what is left of the file.\<close>

function tls_path_loop :: "int \<Rightarrow> int \<Rightarrow> byte list \<Rightarrow> nat \<Rightarrow> nat \<Rightarrow> io \<Rightarrow> (int \<times> (byte list \<times> nat \<times> nat) \<times> io) option" where
  "tls_path_loop fd pfd b i left s = (if 0 < left \<or> i < length b then
       (case fill_buffer pfd b left s of
          (None, s') \<Rightarrow> Some (-1, (b, i, left), s')
        | (Some (b, left), s') \<Rightarrow> if \<not> i < length b then None
            else (case k_write fd (drop i b) s' of
                (WSome m, s'') \<Rightarrow> if m = 0 then Some (1, (b, i, left), s'')
                    else if m = length b - i
                    then (if 0 < left then tls_path_loop fd pfd [] 0 left s'' else Some (0, ([], 0, left), s''))
                    else Some (2, (b, i + m, left), s'')
              | (WAgain, s'') \<Rightarrow> Some (2, (b, i, left), s'')
              | (WIntr, s'') \<Rightarrow> tls_path_loop fd pfd b i left s''
              | (_, s'') \<Rightarrow> Some (-1, (b, i, left), s'')))
     else Some (0, (b, i, left), s))"
  by pat_completeness auto

termination
  by (relation "measure (\<lambda>(fd, pfd, b, i, l, s). wr_size fd s)")
    (auto simp: wr_size_def dest!: fill_buffer_frame [OF sym] dest: k_write_props(6) [OF sym])

declare TCPWrite_buffer.simps [simp del] TLSWrite_buffer.simps [simp del] tls_path_loop.simps [simp del]

text \<open>\<open>st_size\<close> is what \<^verbatim>\<open>fstat\<close> answers; its failure is an assertion.\<close>

definition TLSWrite_path :: "nat option \<Rightarrow> int \<Rightarrow> int \<Rightarrow> byte list \<Rightarrow> nat \<Rightarrow> nat \<Rightarrow> io \<Rightarrow>
    (int \<times> (byte list \<times> nat \<times> nat) \<times> io) option" where
  "TLSWrite_path st_size fd pfd b i left s = do {
     ASSERT (0 \<le> pfd);
     (if left = 0 then do {
        n \<leftarrow> st_size;
        (if n = 0 then Some (-1, (b, i, left), s) else tls_path_loop fd pfd b i n s) }
      else tls_path_loop fd pfd b i left s) }"

text \<open>\<^verbatim>\<open>sendfile\<close> sends from where the file is read next.\<close>

definition k_sendfile :: "int \<Rightarrow> int \<Rightarrow> nat \<Rightarrow> io \<Rightarrow> write_answer \<times> io" where
  "k_sendfile fd pfd n s = (case k_write fd (take n (stream pfd s)) s of
       (WSome m, s') \<Rightarrow> (WSome m, s'\<lparr>rd := (rd s')(pfd := [RData (drop m (stream pfd s))])\<rparr>)
     | (a, s') \<Rightarrow> (a, s'))"

lemma k_sendfile_props:
  assumes "k_sendfile fd pfd n s = (a, t)"
  shows "wr_size fd t \<le> wr_size fd s" "a = WAgain \<or> wr_size fd t < wr_size fd s"
proof -
  obtain b u where K: "k_write fd (take n (stream pfd s)) s = (b, u)" by fastforce
  with assms have "wr t = wr u" "a = b" by (auto simp: k_sendfile_def split: write_answer.splits)
  with k_write_props(5,6) [OF K] show "wr_size fd t \<le> wr_size fd s" "a = WAgain \<or> wr_size fd t < wr_size fd s"
    by (auto simp: wr_size_def)
qed

function TCPWrite_path :: "nat option \<Rightarrow> int \<Rightarrow> int \<Rightarrow> io \<Rightarrow> (int \<times> io) option" where
  "TCPWrite_path st_size fd pfd s = (if \<not> 0 \<le> fd then None else case st_size of
       None \<Rightarrow> None
     | Some 0 \<Rightarrow> Some (-1, s)
     | Some n \<Rightarrow> (case k_sendfile fd pfd n s of
          (WSome m, s') \<Rightarrow> Some (if m = n then 0 else -1, s')
        | (WAgain, s') \<Rightarrow> Some (2, s')
        | (WIntr, s') \<Rightarrow> TCPWrite_path st_size fd pfd s'
        | (WGone, s') \<Rightarrow> Some (1, s')
        | (WFault, s') \<Rightarrow> Some (-1, s')))"
  by pat_completeness auto

termination
  by (relation "measure (\<lambda>(n, fd, pfd, s). wr_size fd s)") (auto dest!: k_sendfile_props(2) [OF sym])

declare TCPWrite_path.simps [simp del]

subsection \<open>Reading\<close>

definition CHUNKLEN :: nat where "CHUNKLEN = 1023"

text \<open>
  The results are \<^verbatim>\<open>inSize\<close>, the buffer's bytes (their number is \<^verbatim>\<open>inLen\<close>) and 2 for more data to work
  on, 1 or -1 to close.
\<close>

function TCPRead :: "nat \<Rightarrow> int \<Rightarrow> nat \<Rightarrow> byte list \<Rightarrow> io \<Rightarrow> (int \<times> nat \<times> byte list \<times> io) option" where
  "TCPRead maxlen fd sz b s = (case k_read fd (sz - length b) s of
       (RData bs, s') \<Rightarrow> if bs = [] then Some (1, sz, b, s')
          else if length (b @ bs) < sz then Some (2, sz, b @ bs, s')
          else if length (b @ bs) \<noteq> sz then None
          else if sz < maxlen then TCPRead maxlen fd (sz + CHUNKLEN) (b @ bs) s'
          else Some (1, sz, b @ bs, s')
     | (RAgain, s') \<Rightarrow> Some (2, sz, b, s')
     | (RIntr, s') \<Rightarrow> TCPRead maxlen fd sz b s'
     | (RGone, s') \<Rightarrow> Some (1, sz, b, s')
     | (RFault, s') \<Rightarrow> None)"
  by pat_completeness auto

termination
  by (relation "measures [\<lambda>(m, fd, sz, b, s). rd_size fd s, \<lambda>(m, fd, sz, b, s). m - sz]") (auto simp: CHUNKLEN_def dest!: k_read_cons [OF sym])

function TLSRead :: "nat \<Rightarrow> int \<Rightarrow> nat \<Rightarrow> byte list \<Rightarrow> io \<Rightarrow> (int \<times> nat \<times> byte list \<times> io) option" where
  "TLSRead maxlen fd sz b s = (case k_read fd (sz - length b) s of
       (RData bs, s') \<Rightarrow> if bs = [] then Some (1, sz, b, s')
          else if length (b @ bs) < sz then Some (2, sz, b @ bs, s')
          else if length (b @ bs) \<noteq> sz then None
          else if sz < maxlen then TLSRead maxlen fd (sz + CHUNKLEN) (b @ bs) s'
          else Some (1, sz, b @ bs, s')
     | (RAgain, s') \<Rightarrow> Some (2, sz, b, s')
     | (RIntr, s') \<Rightarrow> TLSRead maxlen fd sz b s'
     | (_, s') \<Rightarrow> Some (1, sz, b, s'))"
  by pat_completeness auto

termination
  by (relation "measures [\<lambda>(m, fd, sz, b, s). rd_size fd s, \<lambda>(m, fd, sz, b, s). m - sz]") (auto simp: CHUNKLEN_def dest!: k_read_cons [OF sym])

declare TCPRead.simps [simp del] TLSRead.simps [simp del]

end
