(* ===== verification/ServiceRead.thy ===== *)
theory ServiceRead
  imports ServiceIO
begin

text \<open>
  What \<^verbatim>\<open>TCPRead\<close> and \<^verbatim>\<open>TLSRead\<close> of src/potato_old/service.c share: which bytes they take, when they stop and what for, and
  how the buffer grows. The two differ only in their answer to an unexpected error.
\<close>

subsection \<open>When reading stops\<close>

text \<open>
  \<open>as\<close> are the answers to come before, \<open>as'\<close> those after; \<open>l\<close> bytes were in the buffer, which had the size \<open>sz\<close> and has \<open>sz'\<close> now, and
  \<open>new\<close> was read. The result 1 means: the buffer is full and may not grow, or after the bytes came the end of the stream or an error;
  the result 2: after the bytes there was nothing to read, or the last \<^verbatim>\<open>read\<close> gave less than it was asked for.
\<close>

definition bytes :: "read_answer list \<Rightarrow> byte list" where
  "bytes as = concat (map (\<lambda>a. case a of RData bs \<Rightarrow> bs | _ \<Rightarrow> []) as)"

lemma bytes_simps [simp]:
  "bytes [] = []" "bytes (RData bs # as) = bs @ bytes as" "bytes (RIntr # as) = bytes as" "bytes (RAgain # as) = bytes as"
  "bytes (RGone # as) = bytes as" "bytes (RFault # as) = bytes as" "bytes (as @ as') = bytes as @ bytes as'"
  by (simp_all add: bytes_def)

lemma stream_bytes: "stream fd s = bytes (rd s fd)"
  by (simp add: stream_def bytes_def)

definition piece :: "read_answer \<Rightarrow> bool" where
  "piece a \<longleftrightarrow> a = RIntr \<or> (\<exists>bs. bs \<noteq> [] \<and> a = RData bs)"

definition stopped :: "nat \<Rightarrow> read_answer list \<Rightarrow> read_answer list \<Rightarrow> nat \<Rightarrow> nat \<Rightarrow> nat \<Rightarrow> byte list \<Rightarrow> int \<Rightarrow> bool" where
  "stopped maxlen as as' l sz sz' new r \<longleftrightarrow>
     r = 1 \<and> l + length new = sz' \<and> maxlen \<le> sz' \<and> bytes as = new @ bytes as'
     \<or> (\<exists>us. list_all piece us \<and> new = bytes us \<and> l + length new < sz'
          \<and> (r = 1 \<and> (\<exists>a. (a = RData [] \<or> a = RGone \<or> a = RFault) \<and> as = us @ a # as')
             \<or> r = 2 \<and> (as = us @ RAgain # as' \<or> as = us \<and> as' = []
                  \<or> new \<noteq> [] \<and> as = us @ as' \<and> (sz' = sz \<or> sz' < l + length new + CHUNKLEN))))"

lemma stopped_bytes: "stopped maxlen as as' l sz sz' new r \<Longrightarrow> bytes as = new @ bytes as'"
  by (auto simp: stopped_def)

lemma stopped_result: "stopped maxlen as as' l sz sz' new r \<Longrightarrow> r = 1 \<or> r = 2 \<and> l + length new < sz'"
  by (auto simp: stopped_def)

text \<open>The answer \<open>RData (bs @ cs)\<close> gave \<open>bs\<close>, which filled the buffer; the rest of it is the next answer.\<close>

lemma stopped_more:
  assumes "stopped maxlen as1 as' (l + length bs) (l + length bs + CHUNKLEN) sz' new r" and "bs \<noteq> []"
    and "as1 = (if cs = [] then as0 else RData cs # as0)"
  shows "stopped maxlen (RData (bs @ cs) # as0) as' l sz sz' (bs @ new) r"
proof -
  consider "r = 1" "l + length (bs @ new) = sz'" "maxlen \<le> sz'" "bytes as1 = new @ bytes as'"
    | us where "list_all piece us" "new = bytes us" "l + length (bs @ new) < sz'"
        "r = 1 \<and> (\<exists>a. (a = RData [] \<or> a = RGone \<or> a = RFault) \<and> as1 = us @ a # as')
             \<or> r = 2 \<and> (as1 = us @ RAgain # as' \<or> as1 = us \<and> as' = []
                  \<or> new \<noteq> [] \<and> as1 = us @ as' \<and> sz' < l + length (bs @ new) + CHUNKLEN)"
    using assms(1) unfolding stopped_def by (auto simp: add.assoc)
  then show ?thesis
  proof cases
    case 1
    then show ?thesis using assms(3) by (auto simp: stopped_def split: if_splits)
  next
    case 2
    define us' where "us' = (if cs = [] then RData bs # us else RData (bs @ cs) # tl us)"
    have ne: "cs \<noteq> [] \<Longrightarrow> us = RData cs # tl us"
      using 2(2,4) assms(3) by (cases us) auto
    have "list_all piece us'" "bytes us' = bs @ new"
      using 2(1,2) ne assms(2) by (cases us; auto simp: us'_def piece_def)+
    moreover have "as1 = us @ v \<Longrightarrow> RData (bs @ cs) # as0 = us' @ v" for v
      using ne assms(3) by (cases "cs = []"; cases us; auto simp: us'_def)
    moreover have "as1 = us \<Longrightarrow> RData (bs @ cs) # as0 = us'"
      using ne assms(3) by (cases "cs = []"; cases us; auto simp: us'_def)
    ultimately show ?thesis using 2(3,4) assms(2) unfolding stopped_def by (intro disjI2 exI [of _ us']) auto
  qed
qed

lemma stopped_intr:
  assumes "stopped maxlen as1 as' l sz sz' new r"
  shows "stopped maxlen (RIntr # as1) as' l sz sz' new r"
  using assms [unfolded stopped_def]
proof (elim disjE exE)
  fix us assume "list_all piece us \<and> new = bytes us \<and> l + length new < sz'
    \<and> (r = 1 \<and> (\<exists>a. (a = RData [] \<or> a = RGone \<or> a = RFault) \<and> as1 = us @ a # as')
       \<or> r = 2 \<and> (as1 = us @ RAgain # as' \<or> as1 = us \<and> as' = []
            \<or> new \<noteq> [] \<and> as1 = us @ as' \<and> (sz' = sz \<or> sz' < l + length new + CHUNKLEN)))"
  then show ?thesis unfolding stopped_def by (intro disjI2 exI [of _ "RIntr # us"]) (auto simp: piece_def)
qed (auto simp: stopped_def)

subsection \<open>The two functions\<close>

locale reader =
  fixes recv :: "nat \<Rightarrow> int \<Rightarrow> nat \<Rightarrow> byte list \<Rightarrow> io \<Rightarrow> (int \<times> nat \<times> byte list \<times> io) option" and tolerant :: bool
  assumes recv: "recv maxlen fd sz b s = (case k_read fd (sz - length b) s of
       (RData bs, s') \<Rightarrow> if bs = [] then Some (1, sz, b, s')
          else if length (b @ bs) < sz then Some (2, sz, b @ bs, s')
          else if length (b @ bs) \<noteq> sz then None
          else if sz < maxlen then recv maxlen fd (sz + CHUNKLEN) (b @ bs) s'
          else Some (1, sz, b @ bs, s')
     | (RAgain, s') \<Rightarrow> Some (2, sz, b, s')
     | (RIntr, s') \<Rightarrow> recv maxlen fd sz b s'
     | (RGone, s') \<Rightarrow> Some (1, sz, b, s')
     | (RFault, s') \<Rightarrow> if tolerant then Some (1, sz, b, s') else None)"
begin

text \<open>The buffer never gets as large as \<open>maxlen + CHUNKLEN\<close>.\<close>

lemma recv_bound:
  "length b < sz \<Longrightarrow> sz < maxlen + CHUNKLEN \<Longrightarrow> recv maxlen fd sz b s = Some (r, sz', b', t) \<Longrightarrow>
     sz' < maxlen + CHUNKLEN \<and> length b' \<le> sz' \<and> (r = 2 \<longrightarrow> length b' < sz')"
proof (induction maxlen fd sz b s rule: TCPRead.induct)
  case (1 maxlen fd sz b s)
  obtain a s' where K: "k_read fd (sz - length b) s = (a, s')" by fastforce
  note P = k_read_props(8) [OF K] and T = "1.prems"(3) [unfolded recv [of maxlen fd sz b s] K prod.case]
  show ?case
  proof (cases a)
    case (RData bs)
    with P have len: "length (b @ bs) \<le> sz" using "1.prems"(1) by fastforce
    show ?thesis
    proof (cases "bs \<noteq> [] \<and> length (b @ bs) = sz \<and> sz < maxlen")
      case True
      then have "bs \<noteq> []" "\<not> length (b @ bs) < sz" "\<not> length (b @ bs) \<noteq> sz" "sz < maxlen" by auto
      moreover from this T RData have "recv maxlen fd (sz + CHUNKLEN) (b @ bs) s' = Some (r, sz', b', t)" by simp
      moreover have "length (b @ bs) < sz + CHUNKLEN" using True by (simp add: CHUNKLEN_def)
      ultimately show ?thesis using "1.IH"(1) [OF K [symmetric] RData] by simp
    qed (use T RData len "1.prems" in \<open>auto split: if_splits\<close>)
  next
    case RIntr
    with T have "recv maxlen fd sz b s' = Some (r, sz', b', t)" by simp
    from "1.IH"(2) [OF K [symmetric] RIntr "1.prems"(1,2) this] show ?thesis .
  qed (use T "1.prems" in \<open>auto split: if_splits\<close>)
qed

text \<open>Reading ends, and \<open>stopped\<close> says where.\<close>

lemma recv_spec:
  "length b < sz \<Longrightarrow> sz < maxlen + CHUNKLEN \<Longrightarrow> tolerant \<or> calm_fd fd s \<Longrightarrow>
   \<exists>r sz' new t. recv maxlen fd sz b s = Some (r, sz', b @ new, t) \<and> stopped maxlen (rd s fd) (rd t fd) (length b) sz sz' new r
     \<and> wr t = wr s \<and> out t = out s \<and> same_io fd s t \<and> (calm_fd fd s \<longrightarrow> calm_fd fd t) \<and> sz \<le> sz' \<and> sz' < maxlen + CHUNKLEN"
proof (induction maxlen fd sz b s rule: TCPRead.induct)
  case (1 maxlen fd sz b s)
  obtain a s' where K: "k_read fd (sz - length b) s = (a, s')" by fastforce
  note P = k_read_props(1-4) [OF K] and run = recv [of maxlen fd sz b s, unfolded K prod.case]
  have c: "calm_fd fd s \<longrightarrow> calm_fd fd s'" and nf: "a = RFault \<Longrightarrow> tolerant" using P(4) "1.prems"(3) by auto
  have tc: "tolerant \<or> calm_fd fd s'" using c "1.prems"(3) by blast
  show ?case
  proof (cases rule: k_read_cases [of s fd "sz - length b"])
    case quiet
    then have "a = RAgain" "s' = s" using K by simp_all
    then have "recv maxlen fd sz b s = Some (2, sz, b @ [], s)" using run by simp
    moreover have "stopped maxlen (rd s fd) (rd s fd) (length b) sz sz [] 2"
      using quiet(1) "1.prems"(1) by (auto simp: stopped_def intro: exI [of _ "[]"])
    ultimately show ?thesis using "1.prems" by fastforce
  next
    case (bytes bs as)
    let ?bs = "take (sz - length b) bs" and ?cs = "drop (sz - length b) bs"
    have a: "a = RData ?bs" and s': "rd s' fd = (if ?cs = [] then as else RData ?cs # as)" using K bytes(2) by auto
    have rs: "rd s fd = RData (?bs @ ?cs) # as" using bytes(1) by simp
    consider "bs = []" | "bs \<noteq> []" "length bs < sz - length b" | "sz - length b \<le> length bs" by linarith
    then show ?thesis
    proof cases
      case 1
      then have "recv maxlen fd sz b s = Some (1, sz, b @ [], s')" using run a by simp
      moreover have "stopped maxlen (rd s fd) (rd s' fd) (length b) sz sz [] 1"
        using 1 s' bytes(1) "1.prems"(1) by (auto simp: stopped_def intro!: exI [of _ "[]"])
      ultimately show ?thesis using P(1-3) c "1.prems" by fastforce
    next
      case 2
      then have "recv maxlen fd sz b s = Some (2, sz, b @ bs, s')" using run a "1.prems"(1) by auto
      moreover have "stopped maxlen (rd s fd) (rd s' fd) (length b) sz sz bs 2"
        using 2 s' bytes(1) by (auto simp: stopped_def piece_def intro!: exI [of _ "[RData bs]"])
      ultimately show ?thesis using P(1-3) c "1.prems" by fastforce
    next
      case 3
      then have full: "length (b @ ?bs) = sz" "?bs \<noteq> []" using "1.prems"(1) by auto
      then have nl: "\<not> length (b @ ?bs) < sz" "\<not> length (b @ ?bs) \<noteq> sz" by auto
      show ?thesis
      proof (cases "sz < maxlen")
        case False
        then have "recv maxlen fd sz b s = Some (1, sz, b @ ?bs, s')" using run a full by simp
        moreover have "stopped maxlen (rd s fd) (rd s' fd) (length b) sz sz ?bs 1"
          using False full rs s' by (auto simp: stopped_def)
        ultimately show ?thesis using P(1-3) c "1.prems" by fastforce
      next
        case True
        then have more: "recv maxlen fd sz b s = recv maxlen fd (sz + CHUNKLEN) (b @ ?bs) s'" using run a full by simp
        have l: "length (b @ ?bs) < sz + CHUNKLEN" "sz + CHUNKLEN < maxlen + CHUNKLEN"
          using full True by (auto simp: CHUNKLEN_def)
        from "1.IH"(1) [OF K [symmetric] a full(2) nl True l tc] obtain r sz' new t where
          R: "recv maxlen fd (sz + CHUNKLEN) (b @ ?bs) s' = Some (r, sz', (b @ ?bs) @ new, t)"
            "stopped maxlen (rd s' fd) (rd t fd) (length (b @ ?bs)) (sz + CHUNKLEN) sz' new r" "wr t = wr s'" "out t = out s'"
            "same_io fd s' t" "calm_fd fd s' \<longrightarrow> calm_fd fd t" "sz + CHUNKLEN \<le> sz'" "sz' < maxlen + CHUNKLEN" by blast
        have "length b + length ?bs = sz" "length (b @ ?bs) = sz" using full(1) by simp_all
        then have "stopped maxlen (rd s' fd) (rd t fd) (length b + length ?bs) (length b + length ?bs + CHUNKLEN) sz' new r"
          using R(2) by simp
        from stopped_more [OF this full(2) s'] have "stopped maxlen (rd s fd) (rd t fd) (length b) sz sz' (?bs @ new) r"
          unfolding rs .
        then show ?thesis unfolding more using R(1,3-8) P(1-3) c same_io_trans [OF P(3) R(5)]
          by (intro exI [of _ r] exI [of _ sz'] exI [of _ "?bs @ new"] exI [of _ t]) auto
      qed
    qed
  next
    case (other a' as)
    then have a: "a = a'" "rd s' fd = as" using K by auto
    show ?thesis
    proof (cases a)
      case RIntr
      have more: "recv maxlen fd sz b s = recv maxlen fd sz b s'" using run RIntr by simp
      from "1.IH"(2) [OF K [symmetric] RIntr "1.prems"(1,2) tc] obtain r sz' new t where
        R: "recv maxlen fd sz b s' = Some (r, sz', b @ new, t)" "stopped maxlen (rd s' fd) (rd t fd) (length b) sz sz' new r"
          "wr t = wr s'" "out t = out s'" "same_io fd s' t" "calm_fd fd s' \<longrightarrow> calm_fd fd t" "sz \<le> sz'" "sz' < maxlen + CHUNKLEN" by blast
      have "stopped maxlen (rd s fd) (rd t fd) (length b) sz sz' new r"
        using stopped_intr [OF R(2)] a other(1) RIntr by simp
      then show ?thesis unfolding more using R P(1-3) c same_io_trans [OF P(3) R(5)] by fastforce
    next
      case RAgain
      then have "recv maxlen fd sz b s = Some (2, sz, b @ [], s')" using run by simp
      moreover have "stopped maxlen (rd s fd) (rd s' fd) (length b) sz sz [] 2"
        using RAgain a other(1) "1.prems"(1) by (auto simp: stopped_def intro: exI [of _ "[]"])
      ultimately show ?thesis using P(1-3) c "1.prems" by fastforce
    next
      case (RData bs)
      then show ?thesis using a other(2) by blast
    next
      case RGone
      then have "recv maxlen fd sz b s = Some (1, sz, b @ [], s')" using run by simp
      moreover have "stopped maxlen (rd s fd) (rd s' fd) (length b) sz sz [] 1"
        using RGone a other(1) "1.prems"(1) by (auto simp: stopped_def intro: exI [of _ "[]"])
      ultimately show ?thesis using P(1-3) c "1.prems" by fastforce
    next
      case RFault
      then have "recv maxlen fd sz b s = Some (1, sz, b @ [], s')" using run nf by simp
      moreover have "stopped maxlen (rd s fd) (rd s' fd) (length b) sz sz [] 1"
        using RFault a other(1) "1.prems"(1) by (auto simp: stopped_def intro: exI [of _ "[]"])
      ultimately show ?thesis using P(1-3) c "1.prems" by fastforce
    qed
  qed
qed

end

interpretation tcp: reader TCPRead False
  by unfold_locales (subst TCPRead.simps, simp split: prod.splits read_answer.splits)

interpretation tls: reader TLSRead True
  by unfold_locales (subst TLSRead.simps, simp split: prod.splits read_answer.splits)

text \<open>One piece that fits is read whole, and then the kernel has nothing more.\<close>

lemma stopped_one_piece:
  assumes "stopped maxlen [RData bs] as' l sz sz' new r" and "bs \<noteq> []" and "l + length bs < maxlen"
  shows "r = 2 \<and> new = bs \<and> as' = []"
proof -
  have b: "bs = new @ bytes as'" using stopped_bytes [OF assms(1)] by simp
  then have len: "l + length new < maxlen" using assms(3) by (metis le_add1 length_append nat_add_left_cancel_le order_le_less_trans)
  with assms(1) obtain us where us: "new = bytes us" and
    C: "r = 1 \<and> (\<exists>a. (a = RData [] \<or> a = RGone \<or> a = RFault) \<and> [RData bs] = us @ a # as')
      \<or> r = 2 \<and> ([RData bs] = us @ RAgain # as' \<or> [RData bs] = us \<and> as' = [] \<or> new \<noteq> [] \<and> [RData bs] = us @ as')"
    unfolding stopped_def by auto
  from C us assms(2) show ?thesis by (auto simp: Cons_eq_append_conv)
qed

end
