(* ===== verification/Service.thy ===== *)
theory Service
  imports ServiceRead
begin

text \<open>
  Sessions on top of connections, src/potato_old/service.c: a session reads requests into a buffer and
  gives them to the user's callback, which queues output; the output is written when the socket is
  ready. The callbacks of the connection are \<^verbatim>\<open>Setup\<close>, \<^verbatim>\<open>Read\<close>, \<^verbatim>\<open>Write\<close> and \<^verbatim>\<open>Cleanup\<close>. The
  user's part, what it does with a request, is a parameter.
\<close>

subsection \<open>State\<close>

text \<open>
  A service and the TLS object it uses are numbers, and so are the user's callbacks and data; 0 is the
  NULL session. The back pointer to the connection is left out: a session belongs to the connection
  whose \<^verbatim>\<open>cleanupData\<close> it is.
\<close>

record POService =
  maxMessageLength :: nat
  tls :: "nat option"
  s_callback :: nat
  s_callbackData :: nat

record POService_session =
  service_of :: nat
  inSize :: nat
  inBuffer :: "byte list"
  outq :: outqueue
  tlsSession :: bool
  sessionCallback :: nat
  sessionCallbackData :: nat
  cleanup :: "nat option"
  s_cleanupData :: nat

record 'a svc =
  sio :: io
  fstat_size :: "int \<Rightarrow> nat option"
  files :: "int list"
  services :: "nat \<Rightarrow> POService"
  tlss :: "nat \<Rightarrow> POTls"
  tls_setup :: "bool list"
  handshakes :: "int \<Rightarrow> handshake list"
  byes :: "bye list"
  sessions :: "nat \<Rightarrow> POService_session option"
  next_session :: nat
  user :: 'a
  aborted :: bool

abbreviation SETUP :: nat where "SETUP \<equiv> 1"
abbreviation READ :: nat where "READ \<equiv> 2"
abbreviation WRITE :: nat where "WRITE \<equiv> 3"
abbreviation CLEANUP :: nat where "CLEANUP \<equiv> 4"

definition set_session :: "nat \<Rightarrow> POService_session \<Rightarrow> 'a svc \<Rightarrow> 'a svc" where
  "set_session d s u = u\<lparr>sessions := (sessions u)(d \<mapsto> s)\<rparr>"

text \<open>\<^verbatim>\<open>close\<close> of a file that was sent; its answer is ignored.\<close>

definition close_file :: "int option \<Rightarrow> 'a svc \<Rightarrow> 'a svc" where
  "close_file f u = (case f of None \<Rightarrow> u | Some fd \<Rightarrow> u\<lparr>files := removeAll fd (files u)\<rparr>)"

text \<open>A callback that must not be called.\<close>

definition no_cb :: "'a svc ucb" where
  "no_cb k d x u = (0, x, u\<lparr>aborted := True\<rparr>)"

subsection \<open>\<open>Write\<close>\<close>

definition write_head :: "bool \<Rightarrow> int \<Rightarrow> out_body \<Rightarrow> 'a svc \<Rightarrow> (int \<times> out_body \<times> 'a svc) option" where
  "write_head is_tls fd b u = (case b of
       OutBuffer bs i \<Rightarrow> do {
         (r, i, s) \<leftarrow> (if is_tls then TLSWrite_buffer fd bs i (sio u) else TCPWrite_buffer fd bs i (sio u));
         Some (r, OutBuffer bs i, u\<lparr>sio := s\<rparr>) }
     | OutPath f \<Rightarrow> do {
         ASSERT (\<not> is_tls);
         (r, s) \<leftarrow> TCPWrite_path (fstat_size u f) fd f (sio u);
         Some (r, OutPath f, u\<lparr>sio := s\<rparr>) }
     | OutPathTls f bs i left \<Rightarrow> do {
         ASSERT is_tls;
         (r, (bs, i, left), s) \<leftarrow> TLSWrite_path (fstat_size u f) fd f bs i left (sio u);
         Some (r, OutPathTls f bs i left, u\<lparr>sio := s\<rparr>) })"

text \<open>The loop of \<^verbatim>\<open>Write\<close>; the result 0 is the end of the queue.\<close>

partial_function (option) write_loop :: "int \<Rightarrow> POService_session \<Rightarrow> 'a svc \<Rightarrow>
    (int \<times> POService_session \<times> 'a svc) option" where
  "write_loop fd s u = do {
     b \<leftarrow> head_body (outq s);
     r \<leftarrow> write_head (tlsSession s) fd b u;
     let s = s\<lparr>outq := set_head (fst (snd r)) (outq s)\<rparr>;
     let u = snd (snd r);
     (if fst r \<noteq> 0 then Some (fst r, s, u)
      else do {
        p \<leftarrow> outQueuePop (outq s);
        i \<leftarrow> fst p;
        f \<leftarrow> freeOut i (snd p);
        let s = s\<lparr>outq := snd f\<rparr>;
        let u = close_file (fst f) u;
        (if firstOut (outq s) = None then Some (0, s, u) else write_loop fd s u) }) }"

definition Write :: "nat \<Rightarrow> POServer_connection \<Rightarrow> 'a svc \<Rightarrow> (int \<times> POServer_connection \<times> 'a svc) option" where
  "Write d x u = do {
     s \<leftarrow> sessions u d;
     ASSERT (firstOut (outq s) \<noteq> None);
     (ret, s, u) \<leftarrow> write_loop (c_fd x) s u;
     let u = set_session d s u;
     (if ret \<noteq> 0 \<and> ret \<noteq> 2 then Some (ret, x, u)
      else if ret = 2 then Some (0, x, u)
      else do {
        (_, x, u) \<leftarrow> poServer_setWriteCallback no_cb None 0 x u;
        Some (if readCallback x \<noteq> None then 0 else 1, x, u) }) }"

definition stop :: "'a svc \<Rightarrow> 'a svc" where
  "stop u = u\<lparr>aborted := True\<rparr>"

definition write_cb :: "'a svc ucb" where
  "write_cb k d x u = or_abort stop x u (if k = WRITE then Write d x u else None)"

subsection \<open>Sending\<close>

text \<open>What the four functions share at their end: the write callback is set, and may run at once.\<close>

definition request_write :: "nat \<Rightarrow> nat \<Rightarrow> bool \<Rightarrow> POServer_connection \<Rightarrow> 'a svc \<Rightarrow>
    (bool \<times> POServer_connection \<times> 'a svc) option" where
  "request_write d i only x u = (if writeCallback x = None
     then do {
       s \<leftarrow> sessions u d;
       ASSERT (only \<longrightarrow> firstOut (outq s) = Some i);
       (r, x, u) \<leftarrow> poServer_setWriteCallback write_cb (Some WRITE) d x u;
       Some (r \<noteq> 0, x, u) }
     else do { ASSERT (writeCallback x = Some WRITE); Some (False, x, u) })"

definition poService_send :: "nat \<Rightarrow> byte list \<Rightarrow> POServer_connection \<Rightarrow> 'a svc \<Rightarrow>
    (bool \<times> POServer_connection \<times> 'a svc) option" where
  "poService_send d bs x u = do {
     ASSERT (cleanupData x = d \<and> d \<noteq> 0);
     s \<leftarrow> sessions u d;
     (i, q) \<leftarrow> outQueuePush (OutBuffer bs 0) (outq s);
     request_write d i True x (set_session d (s\<lparr>outq := q\<rparr>) u) }"

text \<open>
  The loop around \<^verbatim>\<open>vsnprintf\<close>, which answers the length \<open>n\<close> of the text: the size of the buffer that
  the text is in at the end. The first buffer has \<^verbatim>\<open>PO_SERVICE_CHUNKLEN\<close> bytes, the next one fits.
\<close>

definition sendF_size :: "nat \<Rightarrow> nat" where
  "sendF_size n = (if n \<ge> CHUNKLEN then n + 1 else CHUNKLEN)"

definition poService_sendF :: "nat \<Rightarrow> byte list \<Rightarrow> POServer_connection \<Rightarrow> 'a svc \<Rightarrow>
    (bool \<times> POServer_connection \<times> 'a svc) option" where
  "poService_sendF d txt x u = do {
     ASSERT (cleanupData x = d \<and> d \<noteq> 0);
     ASSERT (length txt < sendF_size (length txt));
     ASSERT (sendF_size (length txt) > 1);
     ASSERT (length txt > 0);
     s \<leftarrow> sessions u d;
     (i, q) \<leftarrow> outQueuePush (OutBuffer txt 0) (outq s);
     request_write d i True x (set_session d (s\<lparr>outq := q\<rparr>) u) }"

definition poService_sendFD :: "nat \<Rightarrow> int \<Rightarrow> POServer_connection \<Rightarrow> 'a svc \<Rightarrow>
    (bool \<times> POServer_connection \<times> 'a svc) option" where
  "poService_sendFD d fd x u = do {
     ASSERT (0 \<le> fd);
     ASSERT (cleanupData x = d \<and> d \<noteq> 0);
     s \<leftarrow> sessions u d;
     (i, q) \<leftarrow> outQueuePush (if tlsSession s then OutPathTls fd [] 0 0 else OutPath fd) (outq s);
     request_write d i False x (set_session d (s\<lparr>outq := q\<rparr>) u) }"

text \<open>\<open>fd\<close> is what \<^verbatim>\<open>open\<close> answers.\<close>

definition poService_sendPath :: "nat \<Rightarrow> int \<Rightarrow> POServer_connection \<Rightarrow> 'a svc \<Rightarrow>
    (bool \<times> POServer_connection \<times> 'a svc) option" where
  "poService_sendPath d fd x u = do {
     ASSERT (cleanupData x = d \<and> d \<noteq> 0);
     (if fd = -1 then Some (True, x, u)
      else do {
        let u = u\<lparr>files := fd # files u\<rparr>;
        s \<leftarrow> sessions u d;
        (i, q) \<leftarrow> outQueuePush (if tlsSession s then OutPathTls fd [] 0 0 else OutPath fd) (outq s);
        request_write d i False x (set_session d (s\<lparr>outq := q\<rparr>) u) }) }"

definition poService_setRead :: "nat \<Rightarrow> nat option \<Rightarrow> nat \<Rightarrow> 'a svc \<Rightarrow> 'a svc option" where
  "poService_setRead d cb data u = do {
     s \<leftarrow> sessions u d;
     (case cb of
        Some k \<Rightarrow> Some (set_session d (s\<lparr>sessionCallback := k, sessionCallbackData := data\<rparr>) u)
      | None \<Rightarrow> do {
          ASSERT (data = 0);
          let v = services u (service_of s);
          Some (set_session d (s\<lparr>sessionCallback := s_callback v, sessionCallbackData := s_callbackData v\<rparr>) u) }) }"

definition poService_setCleanup :: "nat \<Rightarrow> nat option \<Rightarrow> nat \<Rightarrow> 'a svc \<Rightarrow> 'a svc option" where
  "poService_setCleanup d cb data u = do {
     s \<leftarrow> sessions u d;
     Some (set_session d (s\<lparr>cleanup := cb, s_cleanupData := data\<rparr>) u) }"

subsection \<open>The user\<close>

datatype POServiceReturn = POSERVICE_CONTINUE | POSERVICE_WAIT | POSERVICE_CLOSE | POSERVICE_ERROR

text \<open>
  What a user's callback does: calls of the functions above, which may depend on what earlier ones
  return, and its own return value with the user's new state.
\<close>

datatype 'a prog =
    Return POServiceReturn 'a
  | Send "byte list" "bool \<Rightarrow> 'a prog"
  | SendF "byte list" "bool \<Rightarrow> 'a prog"
  | SendFD int "bool \<Rightarrow> 'a prog"
  | SendPath int "bool \<Rightarrow> 'a prog"
  | SetRead "nat option" nat "'a prog"
  | SetCleanup "nat option" nat "'a prog"

primrec run_user :: "'a prog \<Rightarrow> nat \<Rightarrow> POServer_connection \<Rightarrow> 'a svc \<Rightarrow>
    (POServiceReturn \<times> POServer_connection \<times> 'a svc) option" where
  "run_user (Return r a) d x u = Some (r, x, u\<lparr>user := a\<rparr>)"
| "run_user (Send bs k) d x u = poService_send d bs x u \<bind> (\<lambda>(b, x, u). run_user (k b) d x u)"
| "run_user (SendF bs k) d x u = poService_sendF d bs x u \<bind> (\<lambda>(b, x, u). run_user (k b) d x u)"
| "run_user (SendFD fd k) d x u = poService_sendFD d fd x u \<bind> (\<lambda>(b, x, u). run_user (k b) d x u)"
| "run_user (SendPath fd k) d x u = poService_sendPath d fd x u \<bind> (\<lambda>(b, x, u). run_user (k b) d x u)"
| "run_user (SetRead cb data p) d x u = poService_setRead d cb data u \<bind> run_user p d x"
| "run_user (SetCleanup cb data p) d x u = poService_setCleanup d cb data u \<bind> run_user p d x"

text \<open>The user's request callbacks and cleanup callbacks, by number, with their data.\<close>

type_synonym 'a requests = "nat \<Rightarrow> nat \<Rightarrow> byte list \<Rightarrow> 'a \<Rightarrow> 'a prog"
type_synonym 'a cleanups = "nat \<Rightarrow> nat \<Rightarrow> 'a \<Rightarrow> 'a"

subsection \<open>\<open>Read\<close>, \<open>Setup\<close> and \<open>Cleanup\<close>\<close>

definition Read :: "'a requests \<Rightarrow> nat \<Rightarrow> POServer_connection \<Rightarrow> 'a svc \<Rightarrow> (int \<times> POServer_connection \<times> 'a svc) option" where
  "Read req d x u = do {
     s \<leftarrow> sessions u d;
     ASSERT (0 \<le> c_fd x);
     ASSERT (length (inBuffer s) < inSize s);
     let maxlen = maxMessageLength (services u (service_of s));
     (r, sz, b, t) \<leftarrow> (if tlsSession s then TLSRead maxlen (c_fd x) (inSize s) (inBuffer s) (sio u)
                      else TCPRead maxlen (c_fd x) (inSize s) (inBuffer s) (sio u));
     let u = set_session d (s\<lparr>inSize := sz, inBuffer := b\<rparr>) (u\<lparr>sio := t\<rparr>);
     (if r \<noteq> 2 then Some (r, x, u)
      else if length b < 1 then Some (0, x, u)
      else do {
        (rt, x, u) \<leftarrow> run_user (req (sessionCallback s) (sessionCallbackData s) b (user u)) d x u;
        s \<leftarrow> sessions u d;
        (case rt of
           POSERVICE_CONTINUE \<Rightarrow> Some (0, x, set_session d (s\<lparr>inBuffer := []\<rparr>) u)
         | POSERVICE_WAIT \<Rightarrow> Some (0, x, u)
         | POSERVICE_CLOSE \<Rightarrow> (if firstOut (outq s) = None
             then do { ASSERT (writeCallback x = None); Some (1, x, u) }
             else do {
               ASSERT (writeCallback x = Some WRITE);
               (_, x, u) \<leftarrow> poServer_setReadCallback no_cb None 0 x u;
               Some (0, x, u) })
         | POSERVICE_ERROR \<Rightarrow> Some (-1, x, u)) }) }"

text \<open>\<^verbatim>\<open>malloc\<close> gives the session the next address. \<open>v\<close> is the service, the data of the listener.\<close>

definition Setup :: "'a requests \<Rightarrow> nat \<Rightarrow> POServer_connection \<Rightarrow> 'a svc \<Rightarrow> (int \<times> POServer_connection \<times> 'a svc) option" where
  "Setup req v x u = (let d = next_session u;
       s = \<lparr>service_of = v, inSize = CHUNKLEN, inBuffer = [], outq = empty_outqueue, tlsSession = False,
         sessionCallback = s_callback (services u v), sessionCallbackData = s_callbackData (services u v),
         cleanup = None, s_cleanupData = 0\<rparr>;
       u = set_session d s (u\<lparr>next_session := d + 1\<rparr>)
     in do {
       (ok, u) \<leftarrow> (case tls (services u v) of
            None \<Rightarrow> Some (True, u)
          | Some t \<Rightarrow> do {
              (ok, obj, hs) \<leftarrow> poTlsSession_create (tls_setup u) (c_fd x) (tlss u t) (handshakes u (c_fd x));
              Some (ok, set_session d (s\<lparr>tlsSession := ok\<rparr>)
                (u\<lparr>tlss := (tlss u)(t := obj), handshakes := (handshakes u)(c_fd x := hs)\<rparr>)) });
       (if \<not> ok then Some (-1, x, u)
        else do {
          ASSERT (cleanupCallback x = None);
          x \<leftarrow> poServer_setCleanupCallback (Some CLEANUP) d x;
          ASSERT (readCallback x = Some SETUP);
          (_, x, u) \<leftarrow> poServer_setReadCallback no_cb (Some READ) d x u;
          Read req d x u }) })"

partial_function (option) free_all :: "outqueue \<Rightarrow> 'a svc \<Rightarrow> (outqueue \<times> 'a svc) option" where
  "free_all q u = (if firstOut q = None then Some (q, u)
     else do {
       p \<leftarrow> outQueuePop q;
       i \<leftarrow> fst p;
       f \<leftarrow> freeOut i (snd p);
       free_all (snd f) (close_file (fst f) u) })"

definition Cleanup :: "'a cleanups \<Rightarrow> nat \<Rightarrow> POServer_connection \<Rightarrow> 'a svc \<Rightarrow> (int \<times> POServer_connection \<times> 'a svc) option" where
  "Cleanup ucl d x u = do {
     s \<leftarrow> sessions u d;
     ASSERT (0 < inSize s);
     let u = (case cleanup s of None \<Rightarrow> u | Some k \<Rightarrow> u\<lparr>user := ucl k (s_cleanupData s) (user u)\<rparr>);
     (ret, u) \<leftarrow> (if tlsSession s then do {
          t \<leftarrow> tls (services u (service_of s));
          (bad, obj, bs) \<leftarrow> poTlsSession_destroy (tlss u t) (byes u);
          Some (if bad then -1 else 0, u\<lparr>tlss := (tlss u)(t := obj), byes := bs\<rparr>) }
        else Some (0, u));
     (q, u) \<leftarrow> free_all (outq s) u;
     Some (ret, x, u\<lparr>sessions := (sessions u)(d := None)\<rparr>) }"

definition service_cb :: "'a requests \<Rightarrow> 'a cleanups \<Rightarrow> 'a svc ucb" where
  "service_cb req ucl k d x u = or_abort stop x u
     (if k = SETUP then Setup req d x u
      else if k = READ then Read req d x u
      else if k = WRITE then Write d x u
      else if k = CLEANUP then Cleanup ucl d x u
      else None)"

definition poService_create :: "sv_config \<Rightarrow> setup_answers \<Rightarrow> nat \<Rightarrow> nat \<Rightarrow> POService \<Rightarrow> POServer \<times> kernel \<Rightarrow>
    (nat \<Rightarrow> POService) \<Rightarrow> (bool \<times> (POServer \<times> kernel) \<times> (nat \<Rightarrow> POService)) option" where
  "poService_create cfg a addr v svc sk vs = do {
     ASSERT (0 \<le> efd (fst sk));
     ASSERT (2 \<le> maxMessageLength svc);
     r \<leftarrow> poServer_listenerSetup cfg a addr (Some SETUP) v sk;
     Some (fst r, snd r, vs(v := svc)) }"

end
