(* ===== verification/ServiceClient.thy ===== *)
theory ServiceClient
  imports Service
begin

text \<open>
  The service is a client of the server: its callbacks keep what the locale \<open>server_cb\<close> asks for,
  whatever the user's part does. So everything shown for a server and any client holds for a server
  with this service.
\<close>

lemma no_cb_framed: "no_cb k d x u = (rt, x', u') \<Longrightarrow> framed CLEANUP x x'"
  by (simp add: no_cb_def)

lemma setNone_framed:
  "poServer_setWriteCallback cb None d x u = Some (rt, x', u') \<Longrightarrow> framed CLEANUP x x'"
  "poServer_setReadCallback cb None d x u = Some (rt, x', u') \<Longrightarrow> framed CLEANUP x x'"
  by (auto simp: poServer_setWriteCallback_def poServer_setReadCallback_def bind_eq_Some_conv Let_def)

lemma Write_framed: "Write d x u = Some (rt, x', u') \<Longrightarrow> framed CLEANUP x x'"
  by (auto simp: Write_def bind_eq_Some_conv Let_def split: if_splits dest: setNone_framed)

lemma write_cb_framed: "write_cb k d x u = (rt, x', u') \<Longrightarrow> framed CLEANUP x x'"
  by (auto simp: write_cb_def or_abort_def split: option.splits if_splits dest: Write_framed)

lemma request_write_framed: "request_write d i only x u = Some (rt, x', u') \<Longrightarrow> framed CLEANUP x x'"
  by (auto simp: request_write_def bind_eq_Some_conv split: if_splits
      dest: framed_setWriteCallback [OF _ write_cb_framed])

lemma send_framed:
  "poService_send d bs x u = Some (b, x', u') \<Longrightarrow> framed CLEANUP x x'"
  "poService_sendF d bs x u = Some (b, x', u') \<Longrightarrow> framed CLEANUP x x'"
  "poService_sendFD d fd x u = Some (b, x', u') \<Longrightarrow> framed CLEANUP x x'"
  "poService_sendPath d fd x u = Some (b, x', u') \<Longrightarrow> framed CLEANUP x x'"
  by (auto simp: poService_send_def poService_sendF_def poService_sendFD_def poService_sendPath_def bind_eq_Some_conv Let_def
      split: if_splits dest: request_write_framed)

lemma run_user_framed: "run_user p d x u = Some (r, x', u') \<Longrightarrow> framed CLEANUP x x'"
proof (induction p arbitrary: x u)
  case (Return r a)
  then show ?case by simp
next
  case (Send bs k)
  from Send.prems obtain b x1 u1 where "poService_send d bs x u = Some (b, x1, u1)" "run_user (k b) d x1 u1 = Some (r, x', u')"
    by (auto simp: bind_eq_Some_conv)
  with Send.IH [OF rangeI] show ?case by (blast intro: framed_trans dest: send_framed)
next
  case (SendF bs k)
  from SendF.prems obtain b x1 u1 where "poService_sendF d bs x u = Some (b, x1, u1)" "run_user (k b) d x1 u1 = Some (r, x', u')"
    by (auto simp: bind_eq_Some_conv)
  with SendF.IH [OF rangeI] show ?case by (blast intro: framed_trans dest: send_framed)
next
  case (SendFD fd k)
  from SendFD.prems obtain b x1 u1 where "poService_sendFD d fd x u = Some (b, x1, u1)" "run_user (k b) d x1 u1 = Some (r, x', u')"
    by (auto simp: bind_eq_Some_conv)
  with SendFD.IH [OF rangeI] show ?case by (blast intro: framed_trans dest: send_framed)
next
  case (SendPath fd k)
  from SendPath.prems obtain b x1 u1 where "poService_sendPath d fd x u = Some (b, x1, u1)" "run_user (k b) d x1 u1 = Some (r, x', u')"
    by (auto simp: bind_eq_Some_conv)
  with SendPath.IH [OF rangeI] show ?case by (blast intro: framed_trans dest: send_framed)
next
  case (SetRead cb data p)
  then show ?case by (auto simp: bind_eq_Some_conv)
next
  case (SetCleanup cb data p)
  then show ?case by (auto simp: bind_eq_Some_conv)
qed

lemma Read_framed:
  assumes R: "Read req d x u = Some (rt, x', u')"
  shows "framed CLEANUP x x'"
proof -
  from R obtain s where s: "sessions u d = Some s" by (auto simp: Read_def bind_eq_Some_conv)
  let ?m = "maxMessageLength (services u (service_of s))"
  from R s obtain r sz b t where T: "(if tlsSession s then TLSRead ?m (c_fd x) (inSize s) (inBuffer s) (sio u)
      else TCPRead ?m (c_fd x) (inSize s) (inBuffer s) (sio u)) = Some (r, sz, b, t)"
    by (fastforce simp: Read_def bind_eq_Some_conv Let_def)
  note R' = R [unfolded Read_def Let_def s bind.bind_lunit T, simplified]
  show ?thesis
  proof (cases "r = 2 \<and> \<not> length b < 1")
    case False
    with R' show ?thesis by (auto simp: bind_eq_Some_conv split: if_splits)
  next
    case True
    then have "b \<noteq> []" by auto
    with True R' obtain rt1 x1 u1 s1 where U: "run_user (req (sessionCallback s) (sessionCallbackData s) b (user u)) d x
        (set_session d (s\<lparr>inSize := sz, inBuffer := b\<rparr>) (u\<lparr>sio := t\<rparr>)) = Some (rt1, x1, u1)"
      and s1: "sessions u1 d = Some s1"
      by (auto simp: bind_eq_Some_conv set_session_def)
    note R2 = R' [simplified True, simplified, unfolded U, simplified]
    show ?thesis using run_user_framed [OF U] R' U s1 True \<open>b \<noteq> []\<close>
      by (cases rt1) (auto simp: bind_eq_Some_conv set_session_def split: if_splits dest!: setNone_framed intro: framed_trans)
  qed
qed

lemma Setup_framed: "Setup req v x u = Some (rt, x', u') \<Longrightarrow> framed CLEANUP x x'"
  by (auto simp: Setup_def bind_eq_Some_conv Let_def poServer_setCleanupCallback_def split: if_splits
      dest!: framed_setReadCallback [OF _ no_cb_framed] Read_framed
      intro: framed_trans framed_trans [OF framed_cleanupCallback])

lemma Cleanup_zero: "Cleanup ucl d x u = Some (rt, x', u') \<Longrightarrow> x' = x \<and> rt = 0"
  by (auto simp: Cleanup_def poTlsSession_destroy_def bind_eq_Some_conv Let_def split: if_splits)

lemma service_framed: "service_cb req ucl k d x u = (rt, x', u') \<Longrightarrow> framed CLEANUP x x'"
  by (auto simp: service_cb_def or_abort_def split: option.splits if_splits
      dest: Write_framed Read_framed Setup_framed Cleanup_zero)

interpretation sc: server_cb "service_cb req ucl" "{CLEANUP}"
  for req :: "'a requests" and ucl :: "'a cleanups"
proof (unfold_locales, goal_cases)
  case (1 k d x u rt x' u')
  then show ?case using service_framed framed_fields(2) by blast
next
  case (2 k d x u rt x' u')
  then show ?case using service_framed framed_cleanup by blast
next
  case (3 k d x u rt x' u')
  then show ?case by (auto simp: service_cb_def or_abort_def split: option.splits dest: Cleanup_zero)
qed

end
