(* ===== verification/ServiceSession.thy ===== *)
theory ServiceSession
  imports ServiceClient "HOL-Library.Sublist"
begin

text \<open>
  What a session without TLS does with its queue of output: what is owed to the peer is written in
  order, whole, and the loops end. Then the invariant of a session and the connection it is on.
\<close>

subsection \<open>One request\<close>

text \<open>
  \<open>wrote fd w F s t\<close>: from \<open>s\<close> to \<open>t\<close> the bytes \<open>w\<close> were written to \<open>fd\<close>, and only the files \<open>F\<close> were
  read.
\<close>

definition wrote :: "int \<Rightarrow> byte list \<Rightarrow> int set \<Rightarrow> io \<Rightarrow> io \<Rightarrow> bool" where
  "wrote fd w F s t \<longleftrightarrow> out t fd = out s fd @ w \<and> (\<forall>f. f \<noteq> fd \<longrightarrow> wr t f = wr s f \<and> out t f = out s f)
     \<and> (\<forall>f. f \<notin> F \<longrightarrow> rd t f = rd s f) \<and> (calm_fd fd s \<and> fd \<notin> F \<longrightarrow> calm_fd fd t)"

lemma wrote_trans: "wrote fd v F r s \<Longrightarrow> wrote fd w F' s t \<Longrightarrow> fd \<notin> F \<Longrightarrow> wrote fd (v @ w) (F \<union> F') r t"
  by (auto simp: wrote_def)

lemma wrote_refl: "wrote fd [] F s s"
  by (simp add: wrote_def)

lemma wrote_stream: "wrote fd w F s t \<Longrightarrow> f \<notin> F \<Longrightarrow> stream f t = stream f s"
  by (simp add: wrote_def stream_def)

lemma k_write_wrote:
  assumes "k_write fd bs s = (a, t)"
  shows "wrote fd (case a of WSome m \<Rightarrow> take m bs | _ \<Rightarrow> []) {} s t"
  using k_write_props(1-4) [OF assms] by (auto simp: wrote_def same_io_def)

lemma wrote_again: "wrote fd [] {} s u \<Longrightarrow> wrote fd w F u t \<Longrightarrow> wrote fd w F s t"
  using wrote_trans [of fd "[]" "{}" s u w F t] by simp

text \<open>
  What the socket takes of the requests of the queue, each a file or a buffer with what is left of it, when these are its next
  answers: the number of bytes in all, the number of requests that are done, the result (0 done, 2 the socket takes no more now, 1 the
  peer is gone, -1 an error) and the answers left. A buffer that is taken in part waits for the next event; a file taken in part is an error.
\<close>

fun socket_takes :: "(bool \<times> nat) list \<Rightarrow> write_answer list \<Rightarrow> nat \<times> nat \<times> int \<times> write_answer list" where
  "socket_takes [] as = (0, 0, 0, as)"
| "socket_takes (x # xs) [] = (0, 0, 2, [])"
| "socket_takes ((file, n) # xs) (WSome m # as) =
     (if n \<le> m then (let (k, j, r, as) = socket_takes xs as in (n + k, Suc j, r, as))
      else (m, 0, if file then -1 else if m = 0 then 1 else 2, as))"
| "socket_takes (x # xs) (WAgain # as) = (0, 0, 2, as)"
| "socket_takes (x # xs) (WIntr # as) = socket_takes (x # xs) as"
| "socket_takes (x # xs) (WGone # as) = (0, 0, 1, as)"
| "socket_takes (x # xs) (WFault # as) = (0, 0, -1, as)"

lemma socket_takes_first:
  assumes "socket_takes [x] as = (k, j, r, as')"
  shows "socket_takes (x # xs) as = (if r = 0 then (let (k', j', r', as') = socket_takes xs as' in (k + k', Suc j', r', as'))
      else (k, 0, r, as'))" and "r = 0 \<Longrightarrow> k = snd x" and "k \<le> snd x"
proof -
  have "socket_takes (x # xs) as = (if r = 0 then (let (k', j', r', as') = socket_takes xs as' in (k + k', Suc j', r', as'))
      else (k, 0, r, as')) \<and> (r = 0 \<longrightarrow> k = snd x) \<and> k \<le> snd x"
    using assms
  proof (induction as)
    case (Cons a as)
    then show ?case by (cases x; cases a) (auto split: if_splits)
  qed auto
  then show "socket_takes (x # xs) as = (if r = 0 then (let (k', j', r', as') = socket_takes xs as' in (k + k', Suc j', r', as'))
      else (k, 0, r, as'))" "r = 0 \<Longrightarrow> k = snd x" "k \<le> snd x" by auto
qed

lemma k_write_takes:
  assumes "k_write fd bs s = (a, t)"
  shows "wr s fd = [] \<and> a = WAgain \<and> wr t fd = [] \<or> (\<exists>b as. wr s fd = b # as \<and> wr t fd = as
    \<and> a = (case b of WSome m \<Rightarrow> WSome (min m (length bs)) | _ \<Rightarrow> b))"
  by (cases rule: k_write_cases [of s fd bs]; use assms in \<open>auto split: write_answer.splits\<close>)

lemma TCPWrite_buffer_takes:
  "i < length bs \<Longrightarrow> calm_fd fd s \<Longrightarrow> socket_takes [(False, length bs - i)] (wr s fd) = (k, j, r, as) \<Longrightarrow>
   \<exists>t. TCPWrite_buffer fd bs i s = Some (r, if r = 0 then i else i + k, t) \<and> wrote fd (take k (drop i bs)) {} s t \<and> wr t fd = as"
proof (induction fd bs i s rule: TCPWrite_buffer.induct)
  case (1 fd bs i s)
  obtain a s' where K: "k_write fd (drop i bs) s = (a, s')" by fastforce
  note W = k_write_wrote [OF K] and P = k_write_props(3) [OF K] and T = "1.prems"(3)
  have run: "TCPWrite_buffer fd bs i s = (case a of
       WSome m \<Rightarrow> if m = 0 then Some (1, i, s') else if m = length bs - i then Some (0, i, s') else Some (2, i + m, s')
     | WAgain \<Rightarrow> Some (2, i, s') | WIntr \<Rightarrow> TCPWrite_buffer fd bs i s' | WGone \<Rightarrow> Some (1, i, s') | WFault \<Rightarrow> None)"
    using K "1.prems" by (subst TCPWrite_buffer.simps) simp
  from k_write_takes [OF K] show ?case
  proof (elim disjE exE conjE)
    assume "wr s fd = []" "a = WAgain" "wr s' fd = []"
    then show ?thesis using T run W by auto
  next
    fix b cs assume b: "wr s fd = b # cs" "wr s' fd = cs" "a = (case b of WSome m \<Rightarrow> WSome (min m (length (drop i bs))) | _ \<Rightarrow> b)"
    show ?thesis
    proof (cases b)
      case WIntr
      with b have a: "a = WIntr" by simp
      have c: "calm_fd fd s'" using P "1.prems" by blast
      have W': "wrote fd [] {} s s'" using W a by simp
      have "\<not> \<not> i < length bs" "socket_takes [(False, length bs - i)] (wr s' fd) = (k, j, r, as)" using "1.prems" b WIntr by auto
      from "1.IH" [OF this(1) K [symmetric] a "1.prems"(1) c this(2)] show ?thesis
        unfolding run a using wrote_again [OF W'] by fastforce
    next
      case (WSome m)
      then have a: "a = WSome (min m (length bs - i))" using b by simp
      show ?thesis
      proof (cases "length bs - i \<le> m")
        case True
        then have "a = WSome (length bs - i)" "r = 0" "k = length bs - i" "as = cs" using a T b(1) WSome by auto
        then show ?thesis using run W b(2) "1.prems"(1) by auto
      next
        case False
        then have "a = WSome m" "r = (if m = 0 then 1 else 2)" "k = m" "as = cs" using a T b(1) WSome by auto
        then show ?thesis using run W b(2) False by auto
      qed
    qed (use T run W b P "1.prems"(2) in auto)
  qed
qed

text \<open>A file is sent in one go; part of it is an error.\<close>

lemma TCPWrite_path_takes:
  "0 \<le> fd \<Longrightarrow> calm_fd fd s \<Longrightarrow> f \<noteq> fd \<Longrightarrow> st = Some (length (stream f s)) \<Longrightarrow> stream f s \<noteq> [] \<Longrightarrow>
   socket_takes [(True, length (stream f s))] (wr s fd) = (k, j, r, as) \<Longrightarrow>
   \<exists>t. TCPWrite_path st fd f s = Some (r, t) \<and> wrote fd (take k (stream f s)) {f} s t \<and> stream f t = drop k (stream f s) \<and> wr t fd = as"
proof (induction st fd f s rule: TCPWrite_path.induct)
  case (1 st fd f s)
  obtain a s' where K: "k_write fd (stream f s) s = (a, s')" by fastforce
  define t where "t = (case a of WSome m \<Rightarrow> s'\<lparr>rd := (rd s')(f := [RData (drop m (stream f s))])\<rparr> | _ \<Rightarrow> s')"
  have S: "k_sendfile fd f (length (stream f s)) s = (a, t)"
    using K by (simp add: k_sendfile_def t_def split: write_answer.splits)
  note W = k_write_wrote [OF K] and P = k_write_props(3) [OF K] and T = "1.prems"(6)
  have len: "length (stream f s) \<noteq> 0" using "1.prems" by simp
  have run: "TCPWrite_path st fd f s = (case a of
       WSome m \<Rightarrow> Some (if m = length (stream f s) then 0 else -1, t) | WAgain \<Rightarrow> Some (2, t)
     | WIntr \<Rightarrow> TCPWrite_path st fd f t | WGone \<Rightarrow> Some (1, t) | WFault \<Rightarrow> Some (-1, t))"
    using S len "1.prems" by (subst TCPWrite_path.simps) (auto split: nat.splits write_answer.splits)
  have keep: "(\<And>m. a \<noteq> WSome m) \<Longrightarrow> t = s' \<and> wrote fd [] {} s t \<and> stream f t = stream f s"
    using W by (cases a) (auto simp: t_def dest: wrote_stream)
  have wt: "wr t = wr s'" by (simp add: t_def split: write_answer.splits)
  have none: "wrote fd [] {f} s t" if "wrote fd [] {} s t" using that by (auto simp: wrote_def)
  have some: "wrote fd (take m (stream f s)) {f} s t \<and> stream f t = drop m (stream f s)" if "a = WSome m" for m
    using W that "1.prems"(3) by (auto simp: wrote_def calm_fd_def t_def stream_def)
  from k_write_takes [OF K] show ?case
  proof (elim disjE exE conjE)
    assume "wr s fd = []" "a = WAgain" "wr s' fd = []"
    then show ?thesis using T run keep none wt by auto
  next
    fix b cs assume b: "wr s fd = b # cs" "wr s' fd = cs" "a = (case b of WSome m \<Rightarrow> WSome (min m (length (stream f s))) | _ \<Rightarrow> b)"
    show ?thesis
    proof (cases b)
      case WIntr
      with b have a: "a = WIntr" by simp
      with keep have k: "wrote fd [] {} s t" "stream f t = stream f s" "t = s'" by auto
      have c: "calm_fd fd t" using P "1.prems" k by auto
      have n: "\<not> \<not> 0 \<le> fd" using "1.prems" by simp
      have st: "st = Some (Suc (length (stream f s) - 1))" using "1.prems" by simp
      have st': "st = Some (length (stream f t))" and ne: "stream f t \<noteq> []" using k(2) "1.prems" by auto
      have S': "(a, t) = k_sendfile fd f (Suc (length (stream f s) - 1)) s" using S "1.prems"(5) by simp
      have T': "socket_takes [(True, length (stream f t))] (wr t fd) = (k, j, r, as)" using T b WIntr k(2,3) by simp
      from "1.IH" [OF n st refl S' a "1.prems"(1) c "1.prems"(3) st' ne T'] show ?thesis
        unfolding run a using wrote_again [OF k(1)] k(2) by fastforce
    next
      case (WSome m)
      then have a: "a = WSome (min m (length (stream f s)))" using b by simp
      show ?thesis
      proof (cases "length (stream f s) \<le> m")
        case True
        then have "a = WSome (length (stream f s))" "r = 0" "k = length (stream f s)" "as = cs" using a T b(1) WSome by auto
        then show ?thesis using run some wt b(2) by auto
      next
        case False
        then have "a = WSome m" "r = -1" "k = m" "as = cs" using a T b(1) WSome by auto
        then show ?thesis using run some wt b(2) False by auto
      qed
    qed (use T run keep none wt b P "1.prems"(2) in auto)
  qed
qed

subsection \<open>The queue\<close>

text \<open>
  What is left to write of a request, and the file it is from. A request is in order when there is
  something left, and the size of a file is what is left to read of it.
\<close>

fun left_of :: "out_body \<Rightarrow> io \<Rightarrow> byte list" where
  "left_of (OutBuffer bs i) s = drop i bs"
| "left_of (OutPath f) s = stream f s"
| "left_of (OutPathTls f bs i n) s = drop i bs @ stream f s"

fun file_of :: "out_body \<Rightarrow> int list" where
  "file_of (OutBuffer _ _) = []"
| "file_of (OutPath f) = [f]"
| "file_of (OutPathTls f _ _ _) = [f]"

fun out_ok :: "int \<Rightarrow> (int \<Rightarrow> nat option) \<Rightarrow> io \<Rightarrow> out_body \<Rightarrow> bool" where
  "out_ok fd st s (OutBuffer bs i) = (i < length bs)"
| "out_ok fd st s (OutPath f) = (0 \<le> f \<and> f \<noteq> fd \<and> st f = Some (length (stream f s)) \<and> stream f s \<noteq> [])"
| "out_ok fd st s (OutPathTls _ _ _ _) = False"

definition left_all :: "out_body list \<Rightarrow> io \<Rightarrow> byte list" where
  "left_all bs s = concat (map (\<lambda>b. left_of b s) bs)"

definition files_of :: "out_body list \<Rightarrow> int list" where
  "files_of bs = concat (map file_of bs)"

definition queue_ok :: "int \<Rightarrow> (int \<Rightarrow> nat option) \<Rightarrow> io \<Rightarrow> out_body list \<Rightarrow> bool" where
  "queue_ok fd st s bs \<longleftrightarrow> (\<forall>b \<in> set bs. out_ok fd st s b) \<and> distinct (files_of bs)"

lemma queue_simps [simp]:
  "left_all [] s = []" "left_all (b # bs) s = left_of b s @ left_all bs s"
  "files_of [] = []" "files_of (b # bs) = file_of b @ files_of bs"
  "queue_ok fd st s []"
  by (simp_all add: left_all_def files_of_def queue_ok_def)

lemma queue_ok_Cons: "queue_ok fd st s (b # bs) \<longleftrightarrow>
    out_ok fd st s b \<and> queue_ok fd st s bs \<and> distinct (file_of b) \<and> set (file_of b) \<inter> set (files_of bs) = {}"
  by (auto simp: queue_ok_def)

lemma left_all_append [simp]: "left_all (as @ bs) s = left_all as s @ left_all bs s"
  by (induction as) simp_all

lemma files_of_append [simp]: "files_of (as @ bs) = files_of as @ files_of bs"
  by (induction as) simp_all

lemma out_ok_keep:
  assumes "wrote fd w F s t" and "set (file_of b) \<inter> F = {}"
  shows "left_of b t = left_of b s" "out_ok fd st t b = out_ok fd st s b"
  using assms wrote_stream [OF assms(1)] by (cases b; simp)+

lemma queue_ok_keep:
  assumes "wrote fd w F s t" and "set (files_of bs) \<inter> F = {}"
  shows "left_all bs t = left_all bs s \<and> (queue_ok fd st s bs \<longrightarrow> queue_ok fd st t bs)"
  using assms(2) by (induction bs) (auto simp: queue_ok_Cons Int_Un_distrib2 out_ok_keep [OF assms(1)])

lemma removeAll_filter: "removeAll x xs = filter (\<lambda>y. y \<noteq> x) xs"
  by (induction xs) auto

lemma takes_result:
  assumes "socket_takes [(file, n)] as = (k, j, r, as')" and "0 < n"
  shows "(r \<in> {0, 1, 2} \<or> r = -1) \<and> (r = 1 \<or> r = 2 \<longrightarrow> k < n \<and> (file \<longrightarrow> k = 0))
     \<and> (WFault \<notin> set as \<and> \<not> file \<longrightarrow> r \<noteq> -1)"
  using assms(1)
proof (induction as)
  case (Cons a as)
  then show ?case using assms(2) by (cases a) (auto split: if_splits)
qed (use assms(2) in auto)

definition wanted :: "out_body list \<Rightarrow> io \<Rightarrow> (bool \<times> nat) list" where
  "wanted bs s = map (\<lambda>b. (file_of b \<noteq> [], length (left_of b s))) bs"

lemma wanted_simps [simp]: "wanted [] s = []" "wanted (b # bs) s = (file_of b \<noteq> [], length (left_of b s)) # wanted bs s"
  by (simp_all add: wanted_def)

lemma wanted_keep: "wrote fd w F s t \<Longrightarrow> set (files_of bs) \<inter> F = {} \<Longrightarrow> wanted bs t = wanted bs s"
  by (induction bs) (auto simp: out_ok_keep Int_Un_distrib2)

lemma write_head_takes:
  assumes "out_ok fd (fstat_size u) (sio u) b" and "0 \<le> fd" "calm_fd fd (sio u)"
    and "socket_takes (wanted [b] (sio u)) (wr (sio u) fd) = (k, j, r, as)"
  shows "\<exists>c t. write_head False fd b u = Some (r, c, u\<lparr>sio := t\<rparr>) \<and> wrote fd (take k (left_of b (sio u))) (set (file_of b)) (sio u) t
     \<and> wr t fd = as \<and> file_of c = file_of b \<and> (r = 1 \<or> r = 2 \<longrightarrow> left_of c t = drop k (left_of b (sio u)) \<and> out_ok fd (fstat_size u) t c)
     \<and> (r \<in> {0, 1, 2} \<or> r = -1 \<and> file_of b \<noteq> [])"
proof (cases b)
  case (OutBuffer bs i)
  with assms have i: "i < length bs" and T: "socket_takes [(False, length bs - i)] (wr (sio u) fd) = (k, j, r, as)" by auto
  from TCPWrite_buffer_takes [OF i assms(3) T] obtain t where
    R: "TCPWrite_buffer fd bs i (sio u) = Some (r, if r = 0 then i else i + k, t)" "wrote fd (take k (drop i bs)) {} (sio u) t" "wr t fd = as" by blast
  have n: "WFault \<notin> set (wr (sio u) fd)" using assms(3) by (simp add: calm_fd_def)
  have rk: "r \<in> {0, 1, 2} \<and> (r = 1 \<or> r = 2 \<longrightarrow> k < length bs - i)" using takes_result [OF T] n i by auto
  show ?thesis using R rk OutBuffer
    by (intro exI [of _ "OutBuffer bs (if r = 0 then i else i + k)"] exI [of _ t]) (auto simp: write_head_def add.commute)
next
  case (OutPath f)
  with assms(1) have f: "f \<noteq> fd" "fstat_size u f = Some (length (stream f (sio u)))" "stream f (sio u) \<noteq> []" by auto
  have T: "socket_takes [(True, length (stream f (sio u)))] (wr (sio u) fd) = (k, j, r, as)" using assms(4) OutPath by simp
  from TCPWrite_path_takes [OF assms(2,3) f T] obtain t where
    R: "TCPWrite_path (fstat_size u f) fd f (sio u) = Some (r, t)" "wrote fd (take k (stream f (sio u))) {f} (sio u) t"
      "stream f t = drop k (stream f (sio u))" "wr t fd = as" by blast
  have "write_head False fd b u = Some (r, OutPath f, u\<lparr>sio := t\<rparr>)"
    using OutPath R(1) by (simp add: write_head_def)
  then show ?thesis using OutPath R assms(1) takes_result [OF T] f(3)
    by (intro exI [of _ "OutPath f"] exI [of _ t]) auto
qed (use assms in simp)

text \<open>The loop ends, having written what the socket takes.\<close>

lemma write_loop_takes:
  assumes "oq_rep (outq s) bs" and "bs \<noteq> []" and "queue_ok fd (fstat_size u) (sio u) bs" and "0 \<le> fd" "calm_fd fd (sio u)"
    and "\<not> tlsSession s" and "socket_takes (wanted bs (sio u)) (wr (sio u) fd) = (n, j, r, rest)"
  shows "\<exists>q t cs. write_loop fd s u = Some (r, s\<lparr>outq := q\<rparr>,
        u\<lparr>sio := t, files := filter (\<lambda>f. f \<notin> set (files_of (take j bs))) (files u)\<rparr>)
     \<and> wrote fd (take n (left_all bs (sio u))) (set (files_of bs)) (sio u) t \<and> wr t fd = rest \<and> oq_rep q cs
     \<and> map file_of cs = map file_of (drop j bs) \<and> (r = 0 \<longleftrightarrow> cs = [])
     \<and> (r \<noteq> -1 \<longrightarrow> left_all cs t = drop n (left_all bs (sio u)) \<and> queue_ok fd (fstat_size u) t cs)
     \<and> (r \<in> {0, 1, 2} \<or> r = -1 \<and> files_of bs \<noteq> [])"
  using assms
proof (induction bs arbitrary: s u n j r)
  case (Cons b bs)
  let ?fs = "\<lambda>as. filter (\<lambda>f. f \<notin> set (files_of as)) (files u)"
  from Cons.prems(3) have b: "out_ok fd (fstat_size u) (sio u) b" "queue_ok fd (fstat_size u) (sio u) bs"
    "set (file_of b) \<inter> set (files_of bs) = {}" "distinct (file_of b)" by (auto simp: queue_ok_Cons)
  obtain k j1 r1 as where T: "socket_takes (wanted [b] (sio u)) (wr (sio u) fd) = (k, j1, r1, as)" by (metis prod_cases4)
  note F = socket_takes_first(1) [OF T [unfolded wanted_simps], of "wanted bs (sio u)"] socket_takes_first(2,3) [OF T [unfolded wanted_simps]]
  from write_head_takes [OF b(1) Cons.prems(4,5) T] obtain c t where
    H: "write_head False fd b u = Some (r1, c, u\<lparr>sio := t\<rparr>)" "wrote fd (take k (left_of b (sio u))) (set (file_of b)) (sio u) t"
      "wr t fd = as" "file_of c = file_of b" "r1 = 1 \<or> r1 = 2 \<longrightarrow> left_of c t = drop k (left_of b (sio u)) \<and> out_ok fd (fstat_size u) t c"
      "r1 \<in> {0, 1, 2} \<or> r1 = -1 \<and> file_of b \<noteq> []" by blast
  define q1 where "q1 = set_head c (outq s)"
  have q1: "oq_rep q1 (c # bs)" unfolding q1_def by (rule set_head_rep [OF Cons.prems(1)])
  have hb: "head_body (outq s) = Some b" by (rule head_body [OF Cons.prems(1)])
  have dis: "set (files_of bs) \<inter> set (file_of b) = {}" using b(3) by blast
  note keep = queue_ok_keep [OF H(2) dis, of "fstat_size u"] and kept = wanted_keep [OF H(2) dis]
  show ?case
  proof (cases "r1 = 0")
    case False
    with F(1) Cons.prems(7) have N: "n = k" "j = 0" "r = r1" "rest = as" by auto
    have run: "write_loop fd s u = Some (r, s\<lparr>outq := q1\<rparr>, u\<lparr>sio := t, files := ?fs (take j (b # bs))\<rparr>)"
      using hb H(1) Cons.prems(6) False N by (subst write_loop.simps) (simp add: q1_def Let_def)
    have k: "k \<le> length (left_of b (sio u))" using F(3) by simp
    have w: "wrote fd (take n (left_all (b # bs) (sio u))) (set (files_of (b # bs))) (sio u) t"
      using H(2) N(1) k by (auto simp: wrote_def calm_fd_def)
    show ?thesis
      by (rule exI [of _ q1], rule exI [of _ t], rule exI [of _ "c # bs"])
        (use run w q1 False H(3-6) N keep b k in \<open>auto simp: queue_ok_Cons\<close>)
  next
    case True
    have k: "k = length (left_of b (sio u))" using F(2) True by simp
    obtain n2 j2 where T2: "socket_takes (wanted bs (sio u)) as = (n2, j2, r, rest)" "n = k + n2" "j = Suc j2"
      using F(1) True Cons.prems(7) by (auto split: prod.splits)
    from outQueuePop_free [OF q1] obtain i qa fo qb where
      pf: "outQueuePop q1 = Some (Some i, qa)" "freeOut i qa = Some (fo, qb)" "oq_rep qb bs"
        "fo = (case c of OutBuffer _ _ \<Rightarrow> None | OutPath f \<Rightarrow> if f \<noteq> -1 then Some f else None
         | OutPathTls f _ _ _ \<Rightarrow> if f \<noteq> -1 then Some f else None)" by blast
    have cl: "close_file fo (u\<lparr>sio := t\<rparr>) = u\<lparr>sio := t, files := ?fs [b]\<rparr>"
      using pf(4) H(4) b(1) by (cases c; cases b) (auto simp: close_file_def removeAll_filter)
    define s2 where "s2 = s\<lparr>outq := qb\<rparr>"
    define u2 where "u2 = u\<lparr>sio := t, files := ?fs [b]\<rparr>"
    have run: "write_loop fd s u = (if bs = [] then Some (0, s2, u2) else write_loop fd s2 u2)"
      using hb H(1) Cons.prems(6) pf(1,2) cl True oq_rep_first [OF pf(3)]
      by (subst write_loop.simps) (simp add: q1_def Let_def s2_def u2_def)
    show ?thesis
    proof (cases "bs = []")
      case bs: True
      then have "n2 = 0" "j2 = 0" "r = 0" "rest = as" using T2(1) by auto
      then show ?thesis unfolding run using bs H(2-4) k T2(2,3) pf(3)
        by (intro exI [of _ qb] exI [of _ t] exI [of _ "[]"]) (auto simp: s2_def u2_def)
    next
      case ne: False
      have c2: "calm_fd fd (sio u2)" using H(2) Cons.prems(5) b(1) by (cases b) (auto simp: wrote_def u2_def)
      have q2: "oq_rep (outq s2) bs" "queue_ok fd (fstat_size u2) (sio u2) bs" "\<not> tlsSession s2"
        "socket_takes (wanted bs (sio u2)) (wr (sio u2) fd) = (n2, j2, r, rest)"
        using pf(3) keep b(2) Cons.prems(6) T2(1) H(3) kept by (simp_all add: s2_def u2_def)
      from Cons.IH [OF q2(1) ne q2(2) Cons.prems(4) c2 q2(3,4)] obtain q t' cs where
        L: "write_loop fd s2 u2 = Some (r, s2\<lparr>outq := q\<rparr>, u2\<lparr>sio := t', files := filter (\<lambda>f. f \<notin> set (files_of (take j2 bs))) (files u2)\<rparr>)"
          "wrote fd (take n2 (left_all bs (sio u2))) (set (files_of bs)) (sio u2) t'" "wr t' fd = rest" "oq_rep q cs"
          "map file_of cs = map file_of (drop j2 bs)" "r = 0 \<longleftrightarrow> cs = []"
          "r \<noteq> -1 \<longrightarrow> left_all cs t' = drop n2 (left_all bs (sio u2)) \<and> queue_ok fd (fstat_size u2) t' cs"
          "r \<in> {0, 1, 2} \<or> r = -1 \<and> files_of bs \<noteq> []" by blast
      have nf: "fd \<notin> set (file_of b)" using b(1) by (cases b) auto
      have left: "left_all bs (sio u2) = left_all bs (sio u)" using keep by (simp add: u2_def)
      have "take n (left_all (b # bs) (sio u)) = take k (left_of b (sio u)) @ take n2 (left_all bs (sio u2))"
        and d: "drop n (left_all (b # bs) (sio u)) = drop n2 (left_all bs (sio u2))"
        using k T2(2) left by simp_all
      with wrote_trans [OF H(2) _ nf, of _ "set (files_of bs)" t'] L(2)
      have w: "wrote fd (take n (left_all (b # bs) (sio u))) (set (files_of (b # bs))) (sio u) t'" by (simp add: u2_def)
      show ?thesis unfolding run
        by (rule exI [of _ q], rule exI [of _ t'], rule exI [of _ cs])
          (use ne w d L T2(3) in \<open>auto simp: s2_def u2_def intro: filter_cong\<close>)
    qed
  qed
qed simp

subsection \<open>With TLS\<close>

text \<open>
  With TLS what is sent are some of the bytes, in order: \<^verbatim>\<open>TLSWrite_buffer\<close> forgets what gnutls did not take. Here the queue has
  only buffers.
\<close>

lemma TLSWrite_buffer_spec:
  "i < length bs \<Longrightarrow> \<exists>r t w. TLSWrite_buffer fd bs i s = Some (r, i, t) \<and> wrote fd w {} s t
     \<and> (r = 0 \<or> w = []) \<and> r \<in> {-1, 0, 1, 2} \<and> subseq w (drop i bs)"
proof (induction fd bs i s rule: TLSWrite_buffer.induct)
  case (1 fd bs i s)
  obtain a s' where K: "k_write fd (drop i bs) s = (a, s')" by fastforce
  note W = k_write_wrote [OF K]
  have run: "TLSWrite_buffer fd bs i s = (case a of
       WSome m \<Rightarrow> if m = 0 then Some (1, i, s') else Some (0, i, s')
     | WAgain \<Rightarrow> Some (2, i, s') | WIntr \<Rightarrow> TLSWrite_buffer fd bs i s' | _ \<Rightarrow> Some (-1, i, s'))"
    using K "1.prems" by (subst TLSWrite_buffer.simps) (simp split: write_answer.splits)
  show ?case
  proof (cases a)
    case (WSome m)
    have "subseq (take m (drop i bs)) (drop i bs)"
      using subseq_rev_drop_many [OF subseq_order.refl, of "take m (drop i bs)" "drop m (drop i bs)"] by (simp only: append_take_drop_id)
    then show ?thesis using WSome run W by auto
  next
    case WIntr
    have W': "wrote fd [] {} s s'" using W WIntr by simp
    have "\<not> \<not> i < length bs" using "1.prems" by simp
    from "1.IH" [OF this K [symmetric] WIntr "1.prems"] show ?thesis
      unfolding run WIntr using wrote_again [OF W'] by fastforce
  qed (use run W "1.prems" in auto)
qed

lemma write_loop_tls:
  assumes "oq_rep (outq s) bs" and "bs \<noteq> []" and "queue_ok fd (fstat_size u) (sio u) bs" and "files_of bs = []" and "tlsSession s"
  shows "\<exists>r q t w cs. write_loop fd s u = Some (r, s\<lparr>outq := q\<rparr>, u\<lparr>sio := t\<rparr>) \<and> wrote fd w {} (sio u) t \<and> oq_rep q cs
     \<and> files_of cs = [] \<and> queue_ok fd (fstat_size u) t cs \<and> (r = 0 \<longleftrightarrow> cs = []) \<and> r \<in> {-1, 0, 1, 2}
     \<and> subseq (w @ left_all cs t) (left_all bs (sio u))"
  using assms
proof (induction bs arbitrary: s u)
  case (Cons b bs)
  from Cons.prems(3,4) obtain cs i where b: "b = OutBuffer cs i" "i < length cs" "queue_ok fd (fstat_size u) (sio u) bs" "files_of bs = []"
    by (cases b) (auto simp: queue_ok_Cons)
  from TLSWrite_buffer_spec [OF b(2)] obtain r t w where
    W: "TLSWrite_buffer fd cs i (sio u) = Some (r, i, t)" "wrote fd w {} (sio u) t" "r = 0 \<or> w = []" "r \<in> {-1, 0, 1, 2}" "subseq w (drop i cs)"
    by blast
  have H: "write_head True fd b u = Some (r, b, u\<lparr>sio := t\<rparr>)" using W(1) b(1) by (simp add: write_head_def)
  define q1 where "q1 = set_head b (outq s)"
  have q1: "oq_rep q1 (b # bs)" unfolding q1_def by (rule set_head_rep [OF Cons.prems(1)])
  have hb: "head_body (outq s) = Some b" by (rule head_body [OF Cons.prems(1)])
  have keep: "left_all bs t = left_all bs (sio u)" "queue_ok fd (fstat_size u) t bs"
    using queue_ok_keep [OF W(2), of bs "fstat_size u"] b(3) by simp_all
  show ?case
  proof (cases "r = 0")
    case False
    then have "write_loop fd s u = Some (r, s\<lparr>outq := q1\<rparr>, u\<lparr>sio := t\<rparr>)"
      using hb H Cons.prems(5) by (subst write_loop.simps) (simp add: q1_def Let_def)
    then show ?thesis using False W b keep q1
      by (intro exI [of _ r] exI [of _ q1] exI [of _ t] exI [of _ w] exI [of _ "b # bs"]) (auto simp: queue_ok_Cons)
  next
    case True
    from outQueuePop_free [OF q1] b(1) obtain j qa qb where
      pf: "outQueuePop q1 = Some (Some j, qa)" "freeOut j qa = Some (None, qb)" "oq_rep qb bs" by auto
    define s2 where "s2 = s\<lparr>outq := qb\<rparr>"
    define u2 where "u2 = u\<lparr>sio := t\<rparr>"
    have run: "write_loop fd s u = (if bs = [] then Some (0, s2, u2) else write_loop fd s2 u2)"
      using hb H Cons.prems(5) pf(1,2) True oq_rep_first [OF pf(3)]
      by (subst write_loop.simps) (simp add: q1_def Let_def s2_def u2_def close_file_def)
    show ?thesis
    proof (cases "bs = []")
      case bs: True
      show ?thesis unfolding run using bs W(2,5) b(1) pf(3)
        by (intro exI [of _ 0] exI [of _ qb] exI [of _ t] exI [of _ w] exI [of _ "[]"]) (simp add: s2_def u2_def)
    next
      case False
      have q2: "oq_rep (outq s2) bs" "queue_ok fd (fstat_size u2) (sio u2) bs" "tlsSession s2"
        using pf(3) keep Cons.prems(5) by (simp_all add: s2_def u2_def)
      from Cons.IH [OF q2(1) False q2(2) b(4) q2(3)] obtain r' q t' w' ds where
        L: "write_loop fd s2 u2 = Some (r', s2\<lparr>outq := q\<rparr>, u2\<lparr>sio := t'\<rparr>)" "wrote fd w' {} (sio u2) t'" "oq_rep q ds" "files_of ds = []"
          "queue_ok fd (fstat_size u2) t' ds" "r' = 0 \<longleftrightarrow> ds = []" "r' \<in> {-1, 0, 1, 2}" "subseq (w' @ left_all ds t') (left_all bs (sio u2))"
        by blast
      have w: "wrote fd (w @ w') {} (sio u) t'" using wrote_trans [OF W(2), of w' "{}" t'] L(2) by (simp add: u2_def)
      have "subseq (w @ w' @ left_all ds t') (drop i cs @ left_all bs (sio u))"
        using list_emb_append_mono [OF W(5) L(8)] keep(1) by (simp add: u2_def)
      then show ?thesis unfolding run using False L w b(1)
        by (intro exI [of _ r'] exI [of _ q] exI [of _ t'] exI [of _ "w @ w'"] exI [of _ ds]) (simp add: s2_def u2_def)
    qed
  qed
qed simp

end
