(* ===== verification/SessionInvariant.thy ===== *)
theory SessionInvariant
  imports ServiceSession
begin

text \<open>
  The invariant of a session, and what each operation does to it: \<open>Write\<close>, sending, the
  user's callback, \<open>Read\<close>, \<open>Setup\<close> and \<open>Cleanup\<close>.
\<close>

subsection \<open>The invariant of a session\<close>

text \<open>
  The connection \<open>x\<close> carries the session \<open>d\<close>, whose queue has the requests \<open>bs\<close>: the write callback is
  set exactly while there is something to write, and the buffer has room for the next read.
\<close>

definition sess_at :: "nat \<Rightarrow> POServer_connection \<Rightarrow> 'a svc \<Rightarrow> POService_session \<Rightarrow> out_body list \<Rightarrow> bool" where
  "sess_at d x u s bs \<longleftrightarrow> 0 \<le> c_fd x \<and> d \<noteq> 0 \<and> cleanupData x = d \<and> cleanupCallback x = Some CLEANUP
     \<and> sessions u d = Some s \<and> oq_rep (outq s) bs
     \<and> queue_ok (c_fd x) (fstat_size u) (sio u) bs \<and> (tlsSession s \<or> calm_fd (c_fd x) (sio u)) \<and> \<not> aborted u
     \<and> length (inBuffer s) < inSize s \<and> inSize s < maxMessageLength (services u (service_of s)) + CHUNKLEN
     \<and> (if bs = [] then writeCallback x = None else writeCallback x = Some WRITE \<and> writeData x = d)
     \<and> (readCallback x = None \<or> readCallback x = Some READ \<and> readData x = d)"

lemma set_session_simps [simp]:
  "sessions (set_session d s u) = (sessions u)(d \<mapsto> s)" "sio (set_session d s u) = sio u"
  "fstat_size (set_session d s u) = fstat_size u" "services (set_session d s u) = services u"
  "user (set_session d s u) = user u" "aborted (set_session d s u) = aborted u" "files (set_session d s u) = files u"
  by (simp_all add: set_session_def)

lemma Write_takes:
  assumes "sess_at d x u s bs" and "bs \<noteq> []" and "\<not> tlsSession s"
    and "socket_takes (wanted bs (sio u)) (wr (sio u) (c_fd x)) = (n, j, r, rest)"
  shows "\<exists>q t cs x' u'. Write d x u = Some (if r = 0 then if readCallback x = None then 1 else 0 else if r = 2 then 0 else r, x', u')
     \<and> u' = set_session d (s\<lparr>outq := q\<rparr>) (u\<lparr>sio := t, files := filter (\<lambda>f. f \<notin> set (files_of (take j bs))) (files u)\<rparr>)
     \<and> wrote (c_fd x) (take n (left_all bs (sio u))) (set (files_of bs)) (sio u) t \<and> wr t (c_fd x) = rest
     \<and> map file_of cs = map file_of (drop j bs) \<and> (r = 0 \<longleftrightarrow> cs = [])
     \<and> (r \<noteq> -1 \<longrightarrow> left_all cs t = drop n (left_all bs (sio u)) \<and> sess_at d x' u' (s\<lparr>outq := q\<rparr>) cs)
     \<and> (r \<in> {0, 1, 2} \<or> r = -1 \<and> files_of bs \<noteq> [])
     \<and> x' = (if r = 0 then x\<lparr>writeCallback := None, writeData := 0\<rparr> else x)"
proof -
  from assms(1,3) have s: "sessions u d = Some s" "oq_rep (outq s) bs" "0 \<le> c_fd x" "calm_fd (c_fd x) (sio u)"
    "queue_ok (c_fd x) (fstat_size u) (sio u) bs" by (simp_all add: sess_at_def)
  from write_loop_takes [OF s(2) assms(2) s(5,3,4) assms(3,4)] obtain q t cs where
    L: "write_loop (c_fd x) s u = Some (r, s\<lparr>outq := q\<rparr>, u\<lparr>sio := t, files := filter (\<lambda>f. f \<notin> set (files_of (take j bs))) (files u)\<rparr>)"
      (is "_ = Some (_, ?s, ?u)")
      "wrote (c_fd x) (take n (left_all bs (sio u))) (set (files_of bs)) (sio u) t" "wr t (c_fd x) = rest" "oq_rep q cs"
      "map file_of cs = map file_of (drop j bs)" "r = 0 \<longleftrightarrow> cs = []"
      "r \<noteq> -1 \<longrightarrow> left_all cs t = drop n (left_all bs (sio u)) \<and> queue_ok (c_fd x) (fstat_size u) t cs"
      "r \<in> {0, 1, 2} \<or> r = -1 \<and> files_of bs \<noteq> []" by blast
  have nf: "c_fd x \<notin> set (files_of bs)"
    using s(5) by (induction bs) (auto simp: queue_ok_Cons split: out_body.splits elim: out_ok.elims)
  then have calm: "calm_fd (c_fd x) t" using L(2) s(4) by (auto simp: wrote_def)
  have fo: "firstOut (outq s) \<noteq> None" using oq_rep_first [OF s(2)] assms(2) by simp
  define rt where "rt = (if r = 0 then if readCallback x = None then 1 else 0 else if r = 2 then 0 else r)"
  define x' where "x' = (if r = 0 then x\<lparr>writeCallback := None, writeData := 0\<rparr> else x)"
  have run: "Write d x u = Some (rt, x', set_session d ?s ?u)"
    using s(1,3) fo L(1,8) by (auto simp: Write_def setWriteCallback_simps rt_def x'_def Let_def)
  have inv: "r \<noteq> -1 \<Longrightarrow> sess_at d x' (set_session d ?s ?u) ?s cs"
    using assms(1,2) L(4,6,7) calm by (auto simp: sess_at_def x'_def split: if_splits)
  show ?thesis
    by (intro exI conjI, rule run [unfolded rt_def], rule refl) (use L inv in \<open>auto simp: x'_def\<close>)
qed

subsection \<open>Sending\<close>

text \<open>A session, with TLS or without, that has no files to send.\<close>

definition plain_at :: "nat \<Rightarrow> POServer_connection \<Rightarrow> 'a svc \<Rightarrow> POService_session \<Rightarrow> out_body list \<Rightarrow> bool" where
  "plain_at d x u s bs \<longleftrightarrow> sess_at d x u s bs \<and> files_of bs = []"

definition pending :: "out_body list \<Rightarrow> byte list" where
  "pending bs = concat (map (\<lambda>b. case b of OutBuffer cs i \<Rightarrow> drop i cs | _ \<Rightarrow> []) bs)"

lemma pending_left: "files_of bs = [] \<Longrightarrow> left_all bs s = pending bs"
  by (induction bs) (auto simp: pending_def split: out_body.splits elim: file_of.elims)

lemma queue_ok_no_files: "files_of bs = [] \<Longrightarrow> queue_ok fd st s bs \<Longrightarrow> queue_ok fd st t bs"
  by (induction bs) (auto simp: queue_ok_Cons elim!: out_ok.elims)

lemma pending_append [simp]: "pending (as @ bs) = pending as @ pending bs" "pending [] = []"
  "pending [OutBuffer cs i] = drop i cs"
  by (simp_all add: pending_def)

definition sess_kept :: "POService_session \<Rightarrow> POService_session \<Rightarrow> bool" where
  "sess_kept s s' \<longleftrightarrow> service_of s' = service_of s \<and> inSize s' = inSize s \<and> inBuffer s' = inBuffer s \<and> tlsSession s' = tlsSession s"

definition svc_kept :: "nat \<Rightarrow> 'a svc \<Rightarrow> 'a svc \<Rightarrow> bool" where
  "svc_kept d u u' \<longleftrightarrow> services u' = services u \<and> fstat_size u' = fstat_size u \<and> files u' = files u
     \<and> (\<forall>e. e \<noteq> d \<longrightarrow> sessions u' e = sessions u e)"

lemma sess_kept_trans [trans]: "sess_kept s t \<Longrightarrow> sess_kept t r \<Longrightarrow> sess_kept s r"
  by (simp add: sess_kept_def)

lemma svc_kept_trans [trans]: "svc_kept d u v \<Longrightarrow> svc_kept d v w \<Longrightarrow> svc_kept d u w"
  by (simp add: svc_kept_def)

text \<open>
  Of the bytes \<open>bs\<close> were written \<open>w\<close>, and \<open>cs\<close> are still to be written. Without TLS that is all of them; with TLS some may be lost.
\<close>

definition delivered :: "bool \<Rightarrow> byte list \<Rightarrow> byte list \<Rightarrow> byte list \<Rightarrow> bool" where
  "delivered lossy bs w cs \<longleftrightarrow> (if lossy then subseq (w @ cs) bs else bs = w @ cs)"

lemma delivered_none [simp]: "delivered lossy bs [] bs"
  by (simp add: delivered_def)

lemma delivered_trans:
  assumes "delivered lossy (as @ bs) v cs" and "delivered lossy (cs @ ds) w es"
  shows "delivered lossy (as @ bs @ ds) (v @ w) es"
proof (cases lossy)
  case True
  with assms have s: "subseq (v @ cs) (as @ bs)" "subseq (w @ es) (cs @ ds)" by (simp_all add: delivered_def)
  have "subseq ((v @ cs) @ ds) ((as @ bs) @ ds)" by (rule list_emb_append_mono [OF s(1) subseq_order.refl])
  moreover have "subseq (v @ w @ es) (v @ cs @ ds)" using s(2) by (simp add: subseq_append')
  ultimately show ?thesis using True subseq_order.trans by (fastforce simp: delivered_def)
next
  case False
  then show ?thesis using assms by (metis append.assoc delivered_def)
qed

lemma Write_plain:
  assumes "plain_at d x u s bs" and "bs \<noteq> []"
  shows "\<exists>rt x' u' s' cs w. Write d x u = Some (rt, x', u') \<and> plain_at d x' u' s' cs \<and> wrote (c_fd x) w {} (sio u) (sio u')
     \<and> delivered (tlsSession s) (pending bs) w (pending cs) \<and> sess_kept s s' \<and> svc_kept d u u' \<and> user u' = user u
     \<and> readCallback x' = readCallback x \<and> c_fd x' = c_fd x"
proof -
  from assms(1) have S: "sess_at d x u s bs" "files_of bs = []" by (simp_all add: plain_at_def)
  show ?thesis
  proof (cases "tlsSession s")
    case False
    obtain n j r rest where T: "socket_takes (wanted bs (sio u)) (wr (sio u) (c_fd x)) = (n, j, r, rest)" by (metis prod_cases4)
    from Write_takes [OF S(1) assms(2) False T] obtain q t cs x' u' where
      W: "Write d x u = Some (if r = 0 then if readCallback x = None then 1 else 0 else if r = 2 then 0 else r, x', u')"
      "u' = set_session d (s\<lparr>outq := q\<rparr>) (u\<lparr>sio := t, files := filter (\<lambda>f. f \<notin> set (files_of (take j bs))) (files u)\<rparr>)"
      "wrote (c_fd x) (take n (left_all bs (sio u))) (set (files_of bs)) (sio u) t" "map file_of cs = map file_of (drop j bs)"
      "r \<noteq> -1 \<longrightarrow> left_all cs t = drop n (left_all bs (sio u)) \<and> sess_at d x' u' (s\<lparr>outq := q\<rparr>) cs"
      "r \<in> {0, 1, 2} \<or> r = -1 \<and> files_of bs \<noteq> []"
      "x' = (if r = 0 then x\<lparr>writeCallback := None, writeData := 0\<rparr> else x)" by blast
    have "files_of bs = files_of (take j bs) @ files_of (drop j bs)" by (metis append_take_drop_id files_of_append)
    moreover have "files_of cs = files_of (drop j bs)" using W(4) by (simp add: files_of_def)
    ultimately have f: "files_of (take j bs) = []" "files_of cs = []" "r \<noteq> -1" using S(2) W(6) by auto
    have "pending bs = take n (left_all bs (sio u)) @ pending cs"
      using W(5) f(2,3) pending_left [OF S(2)] pending_left [OF f(2)] by (metis append_take_drop_id)
    moreover have "plain_at d x' u' (s\<lparr>outq := q\<rparr>) cs" using W(5) f by (simp add: plain_at_def)
    ultimately show ?thesis using W(1,2,3,7) f S(2) False
      by (intro exI [of _ "if r = 0 then if readCallback x = None then 1 else 0 else if r = 2 then 0 else r"] exI [of _ x'] exI [of _ u']
          exI [of _ "s\<lparr>outq := q\<rparr>"] exI [of _ cs] exI [of _ "take n (left_all bs (sio u))"])
        (simp add: delivered_def sess_kept_def svc_kept_def)
  next
    case True
    from S(1) have s: "sessions u d = Some s" "oq_rep (outq s) bs" "0 \<le> c_fd x" "queue_ok (c_fd x) (fstat_size u) (sio u) bs"
      by (simp_all add: sess_at_def)
    from write_loop_tls [OF s(2) assms(2) s(4) S(2) True] obtain r q t w cs where
      L: "write_loop (c_fd x) s u = Some (r, s\<lparr>outq := q\<rparr>, u\<lparr>sio := t\<rparr>)" (is "_ = Some (_, ?s, ?u)")
        "wrote (c_fd x) w {} (sio u) t" "oq_rep q cs" "files_of cs = []" "queue_ok (c_fd x) (fstat_size u) t cs"
        "r = 0 \<longleftrightarrow> cs = []" "r \<in> {-1, 0, 1, 2}" "subseq (w @ left_all cs t) (left_all bs (sio u))" by blast
    have fo: "firstOut (outq s) \<noteq> None" using oq_rep_first [OF s(2)] assms(2) by simp
    define rt where "rt = (if r = 0 then if readCallback x = None then 1 else 0 else if r = 2 then 0 else r)"
    define x' where "x' = (if r = 0 then x\<lparr>writeCallback := None, writeData := 0\<rparr> else x)"
    have run: "Write d x u = Some (rt, x', set_session d ?s ?u)"
      using s(1,3) fo L(1,7) by (auto simp: Write_def setWriteCallback_simps rt_def x'_def Let_def)
    have "plain_at d x' (set_session d ?s ?u) ?s cs"
      using S(1) assms(2) True L(3-6) by (auto simp: plain_at_def sess_at_def x'_def split: if_splits)
    moreover have "delivered True (pending bs) w (pending cs)"
      using L(8) pending_left [OF S(2)] pending_left [OF L(4)] by (simp add: delivered_def)
    ultimately show ?thesis using run L(2) True
      by (intro exI [of _ rt] exI [of _ x'] exI [of _ "set_session d ?s ?u"] exI [of _ ?s] exI [of _ cs] exI [of _ w])
        (simp add: sess_kept_def svc_kept_def x'_def)
  qed
qed

lemma send_plain:
  assumes "plain_at d x u s bs" and "cs \<noteq> []"
  shows "\<exists>i q e x' u' s' bs' w. outQueuePush (OutBuffer cs 0) (outq s) = Some (i, q)
     \<and> request_write d i True x (set_session d (s\<lparr>outq := q\<rparr>) u) = Some (e, x', u')
     \<and> plain_at d x' u' s' bs' \<and> wrote (c_fd x) w {} (sio u) (sio u') \<and> delivered (tlsSession s) (pending bs @ cs) w (pending bs')
     \<and> sess_kept s s' \<and> svc_kept d u u' \<and> user u' = user u \<and> readCallback x' = readCallback x \<and> c_fd x' = c_fd x"
proof -
  from assms(1) have S: "sess_at d x u s bs" "files_of bs = []" by (simp_all add: plain_at_def)
  then have s: "oq_rep (outq s) bs" "0 \<le> c_fd x" "sessions u d = Some s" by (simp_all add: sess_at_def)
  from outQueuePush_spec [OF s(1), of "OutBuffer cs 0"] obtain i q where
    q: "outQueuePush (OutBuffer cs 0) (outq s) = Some (i, q)" "oq_rep q (bs @ [OutBuffer cs 0])" "bs = [] \<longrightarrow> firstOut q = Some i" by blast
  let ?s = "s\<lparr>outq := q\<rparr>" and ?bs = "bs @ [OutBuffer cs 0]"
  let ?u = "set_session d ?s u"
  let ?x = "x\<lparr>writeCallback := Some WRITE, writeData := d\<rparr>"
  have x: "writeCallback x = None \<longleftrightarrow> bs = []" "bs \<noteq> [] \<longrightarrow> writeCallback x = Some WRITE \<and> ?x = x"
    using S(1) by (auto simp: sess_at_def split: if_splits)
  have S1: "sess_at d ?x ?u ?s ?bs" "files_of ?bs = []"
    using S q(2) assms(2) by (auto simp: sess_at_def queue_ok_def)
  have k: "sess_kept s ?s" "svc_kept d u ?u" by (simp_all add: sess_kept_def svc_kept_def)
  show ?thesis
  proof (cases "bs = [] \<and> writeReady x")
    case False
    have "request_write d i True x ?u = Some (False, ?x, ?u)"
    proof (cases "bs = []")
      case True
      then show ?thesis using x(1) q(3) s(2) False by (simp add: request_write_def setWriteCallback_simps)
    next
      case ne: False
      with x(2) have wx: "writeCallback x = Some WRITE" and xx: "?x = x" by blast+
      show ?thesis unfolding xx by (simp add: request_write_def wx)
    qed
    with q(1) S1 k show ?thesis
      by (intro exI [of _ i] exI [of _ q] exI [of _ False] exI [of _ ?x] exI [of _ ?u] exI [of _ ?s] exI [of _ ?bs] exI [of _ "[]"])
        (simp add: plain_at_def wrote_refl)
  next
    case True
    have pl: "plain_at d ?x ?u ?s ?bs" "?bs \<noteq> []" using S1 by (simp_all add: plain_at_def)
    from Write_plain [OF pl] obtain rt x' u' s' ds w where
      W: "Write d ?x ?u = Some (rt, x', u')" "plain_at d x' u' s' ds" "wrote (c_fd ?x) w {} (sio ?u) (sio u')"
        "delivered (tlsSession ?s) (pending ?bs) w (pending ds)" "sess_kept ?s s'" "svc_kept d ?u u'" "user u' = user ?u"
        "readCallback x' = readCallback ?x" "c_fd x' = c_fd ?x" by blast
    have run: "request_write d i True x ?u = Some (rt \<noteq> 0, x', u')"
      using x q(3) s(2) True W(1) by (simp add: request_write_def setWriteCallback_simps write_cb_def or_abort_def)
    show ?thesis using q(1) run W(2-9) sess_kept_trans [OF k(1)] svc_kept_trans [OF k(2)]
      by (intro exI [of _ i] exI [of _ q] exI [of _ "rt \<noteq> 0"] exI [of _ x'] exI [of _ u'] exI [of _ s'] exI [of _ ds] exI [of _ w]) simp
  qed
qed

lemma poService_send_plain:
  assumes "plain_at d x u s bs" and "cs \<noteq> []"
  shows "\<exists>e x' u' s' bs' w. poService_send d cs x u = Some (e, x', u') \<and> poService_sendF d cs x u = Some (e, x', u')
     \<and> plain_at d x' u' s' bs' \<and> wrote (c_fd x) w {} (sio u) (sio u') \<and> delivered (tlsSession s) (pending bs @ cs) w (pending bs')
     \<and> sess_kept s s' \<and> svc_kept d u u' \<and> user u' = user u \<and> readCallback x' = readCallback x \<and> c_fd x' = c_fd x"
proof -
  from send_plain [OF assms] obtain i q e x' u' s' bs' w where
    S: "outQueuePush (OutBuffer cs 0) (outq s) = Some (i, q)"
      "request_write d i True x (set_session d (s\<lparr>outq := q\<rparr>) u) = Some (e, x', u')" and
    G: "plain_at d x' u' s' bs' \<and> wrote (c_fd x) w {} (sio u) (sio u') \<and> delivered (tlsSession s) (pending bs @ cs) w (pending bs')
     \<and> sess_kept s s' \<and> svc_kept d u u' \<and> user u' = user u \<and> readCallback x' = readCallback x \<and> c_fd x' = c_fd x" by blast
  have "sessions u d = Some s" "cleanupData x = d \<and> d \<noteq> 0" using assms(1) by (simp_all add: plain_at_def sess_at_def)
  moreover have "length cs < sendF_size (length cs)" "1 < sendF_size (length cs)"
    using assms(2) by (auto simp: sendF_size_def CHUNKLEN_def)
  ultimately have "poService_send d cs x u = Some (e, x', u')" "poService_sendF d cs x u = Some (e, x', u')"
    using S assms(2) by (simp_all add: poService_send_def poService_sendF_def)
  with G show ?thesis by blast
qed

subsection \<open>The user\<close>

text \<open>
  \<open>sends p ws r a\<close>: the program may send the texts \<open>ws\<close>, in this order, and end with \<open>r\<close> and \<open>a\<close>. A
  polite one sends no empty text and no file; its \<^verbatim>\<open>open\<close> of a file may fail.
\<close>

inductive sends :: "'a prog \<Rightarrow> byte list list \<Rightarrow> POServiceReturn \<Rightarrow> 'a \<Rightarrow> bool" where
  sends_return: "sends (Return r a) [] r a"
| sends_send: "sends (k b) ws r a \<Longrightarrow> sends (Send cs k) (cs # ws) r a"
| sends_sendF: "sends (k b) ws r a \<Longrightarrow> sends (SendF cs k) (cs # ws) r a"
| sends_path: "sends (k True) ws r a \<Longrightarrow> sends (SendPath (-1) k) ws r a"
| sends_setRead: "sends p ws r a \<Longrightarrow> sends (SetRead cb data p) ws r a"
| sends_setCleanup: "sends p ws r a \<Longrightarrow> sends (SetCleanup cb data p) ws r a"

inductive_cases sends_ReturnE: "sends (Return r a) ws r' a'"
inductive_cases sends_SendFE: "sends (SendF cs k) ws r a"

primrec polite :: "'a prog \<Rightarrow> bool" where
  "polite (Return r a) = True"
| "polite (Send cs k) = (cs \<noteq> [] \<and> polite (k True) \<and> polite (k False))"
| "polite (SendF cs k) = (cs \<noteq> [] \<and> polite (k True) \<and> polite (k False))"
| "polite (SendFD fd k) = False"
| "polite (SendPath fd k) = (fd = -1 \<and> polite (k True))"
| "polite (SetRead cb data p) = ((cb = None \<longrightarrow> data = 0) \<and> polite p)"
| "polite (SetCleanup cb data p) = polite p"

text \<open>What a program that ran leaves behind.\<close>

definition user_ran :: "nat \<Rightarrow> POServer_connection \<Rightarrow> 'a svc \<Rightarrow> POService_session \<Rightarrow> out_body list \<Rightarrow> byte list list \<Rightarrow>
    POServer_connection \<Rightarrow> 'a svc \<Rightarrow> bool" where
  "user_ran d x u s bs ws x' u' \<longleftrightarrow> (\<exists>s' bs' w. plain_at d x' u' s' bs' \<and> wrote (c_fd x) w {} (sio u) (sio u')
     \<and> delivered (tlsSession s) (pending bs @ concat ws) w (pending bs') \<and> sess_kept s s' \<and> svc_kept d u u' \<and> readCallback x' = readCallback x
     \<and> c_fd x' = c_fd x)"

lemma user_ran_send:
  assumes "plain_at d x1 u1 s1 bs1" "wrote (c_fd x) v {} (sio u) (sio u1)" "delivered (tlsSession s) (pending bs @ cs) v (pending bs1)"
    and "sess_kept s s1" "svc_kept d u u1" "readCallback x1 = readCallback x" "c_fd x1 = c_fd x"
    and "user_ran d x1 u1 s1 bs1 ws x' u'"
  shows "user_ran d x u s bs (cs # ws) x' u'"
proof -
  from assms(8) obtain s' bs' w where R: "plain_at d x' u' s' bs'" "wrote (c_fd x1) w {} (sio u1) (sio u')"
    "delivered (tlsSession s1) (pending bs1 @ concat ws) w (pending bs')" "sess_kept s1 s'" "svc_kept d u1 u'" "readCallback x' = readCallback x1"
    "c_fd x' = c_fd x1" unfolding user_ran_def by blast
  have "wrote (c_fd x) (v @ w) {} (sio u) (sio u')" using wrote_trans [OF assms(2), of w "{}" "sio u'"] R(2) assms(7) by simp
  moreover have "tlsSession s1 = tlsSession s" using assms(4) by (simp add: sess_kept_def)
  then have "delivered (tlsSession s) (pending bs @ concat (cs # ws)) (v @ w) (pending bs')"
    using delivered_trans [OF assms(3)] R(3) by simp
  ultimately show ?thesis using R assms sess_kept_trans [OF assms(4) R(4)] svc_kept_trans [OF assms(5) R(5)]
    unfolding user_ran_def by metis
qed

lemma plain_same:
  assumes "plain_at d x u s bs" and "u' = set_session d s' u" "oq_rep (outq s') bs" "sess_kept s s'"
  shows "plain_at d x u' s' bs"
  using assms by (simp add: plain_at_def sess_at_def sess_kept_def)

lemma user_ran_same:
  assumes "sess_kept s s'" "user_ran d x (set_session d s' u) s' bs ws x' u'"
  shows "user_ran d x u s bs ws x' u'"
proof -
  have k: "svc_kept d u (set_session d s' u)" "tlsSession s' = tlsSession s" using assms(1) by (simp_all add: svc_kept_def sess_kept_def)
  from assms(2) obtain s2 bs' w where "plain_at d x' u' s2 bs'" "wrote (c_fd x) w {} (sio u) (sio u')"
    "delivered (tlsSession s) (pending bs @ concat ws) w (pending bs')" "sess_kept s s2" "svc_kept d u u'"
    "readCallback x' = readCallback x" "c_fd x' = c_fd x"
    using sess_kept_trans [OF assms(1)] svc_kept_trans [OF k(1)] unfolding user_ran_def k(2) set_session_simps by blast
  then show ?thesis unfolding user_ran_def by blast
qed

lemma run_user_spec:
  "polite p \<Longrightarrow> plain_at d x u s bs \<Longrightarrow>
     \<exists>r x' u' ws. run_user p d x u = Some (r, x', u') \<and> sends p ws r (user u') \<and> user_ran d x u s bs ws x' u'"
proof (induction p arbitrary: x u s bs)
  case (Return r a)
  have "plain_at d x (u\<lparr>user := a\<rparr>) s bs" using Return.prems(2) by (simp add: plain_at_def sess_at_def)
  then have "user_ran d x u s bs [] x (u\<lparr>user := a\<rparr>)"
    unfolding user_ran_def by (intro exI [of _ s] exI [of _ bs] exI [of _ "[]"]) (simp add: wrote_refl sess_kept_def svc_kept_def)
  then show ?case using sends_return [of r a] by auto
next
  case (Send cs k)
  then have cs: "cs \<noteq> []" and tf: "polite (k True)" "polite (k False)" by simp_all
  have pk: "polite (k b)" for b using tf by (cases b) simp_all
  from poService_send_plain [OF Send.prems(2) cs] obtain e x1 u1 s1 bs1 w where
    S: "poService_send d cs x u = Some (e, x1, u1)" "plain_at d x1 u1 s1 bs1" "wrote (c_fd x) w {} (sio u) (sio u1)"
     "delivered (tlsSession s) (pending bs @ cs) w (pending bs1)" "sess_kept s s1" "svc_kept d u u1" "readCallback x1 = readCallback x" "c_fd x1 = c_fd x" by blast
  from Send.IH [OF rangeI pk S(2)] obtain r x' u' ws where
    R: "run_user (k e) d x1 u1 = Some (r, x', u')" "sends (k e) ws r (user u')" "user_ran d x1 u1 s1 bs1 ws x' u'" by blast
  show ?case using S(1) R(1) sends_send [of k e ws r "user u'" cs, OF R(2)] user_ran_send [OF S(2-8) R(3)] by auto
next
  case (SendF cs k)
  then have cs: "cs \<noteq> []" and tf: "polite (k True)" "polite (k False)" by simp_all
  have pk: "polite (k b)" for b using tf by (cases b) simp_all
  from poService_send_plain [OF SendF.prems(2) cs] obtain e x1 u1 s1 bs1 w where
    S: "poService_sendF d cs x u = Some (e, x1, u1)" "plain_at d x1 u1 s1 bs1" "wrote (c_fd x) w {} (sio u) (sio u1)"
     "delivered (tlsSession s) (pending bs @ cs) w (pending bs1)" "sess_kept s s1" "svc_kept d u u1" "readCallback x1 = readCallback x" "c_fd x1 = c_fd x" by blast
  from SendF.IH [OF rangeI pk S(2)] obtain r x' u' ws where
    R: "run_user (k e) d x1 u1 = Some (r, x', u')" "sends (k e) ws r (user u')" "user_ran d x1 u1 s1 bs1 ws x' u'" by blast
  show ?case using S(1) R(1) sends_sendF [of k e ws r "user u'" cs, OF R(2)] user_ran_send [OF S(2-8) R(3)] by auto
next
  case (SendFD fd k)
  then show ?case by simp
next
  case (SendPath fd k)
  then have fd: "fd = -1" and pk: "polite (k True)" by auto
  have "poService_sendPath d fd x u = Some (True, x, u)"
    using SendPath.prems(2) fd by (simp add: poService_sendPath_def plain_at_def sess_at_def)
  moreover from SendPath.IH [OF rangeI pk SendPath.prems(2)] obtain r x' u' ws where
    R: "run_user (k True) d x u = Some (r, x', u')" "sends (k True) ws r (user u')" "user_ran d x u s bs ws x' u'" by blast
  ultimately show ?case using R(1,3) sends_path [of k, OF R(2)] fd by auto
next
  case (SetRead cb data p)
  have s: "sessions u d = Some s" "oq_rep (outq s) bs" using SetRead.prems(2) by (simp_all add: plain_at_def sess_at_def)
  define s' where "s' = (case cb of Some k \<Rightarrow> s\<lparr>sessionCallback := k, sessionCallbackData := data\<rparr>
     | None \<Rightarrow> s\<lparr>sessionCallback := s_callback (services u (service_of s)), sessionCallbackData := s_callbackData (services u (service_of s))\<rparr>)"
  have k: "sess_kept s s'" "outq s' = outq s" by (simp_all add: s'_def sess_kept_def split: option.splits)
  have run: "poService_setRead d cb data u = Some (set_session d s' u)"
    using s SetRead.prems(1) by (cases cb) (auto simp: poService_setRead_def s'_def Let_def)
  have pl: "plain_at d x (set_session d s' u) s' bs"
    by (rule plain_same [OF SetRead.prems(2) refl _ k(1)]) (use s k in simp)
  have pp: "polite p" using SetRead.prems(1) by simp
  from SetRead.IH [OF pp pl] obtain r x' u' ws where
    R: "run_user p d x (set_session d s' u) = Some (r, x', u')" "sends p ws r (user u')"
      "user_ran d x (set_session d s' u) s' bs ws x' u'" by blast
  show ?case using run R(1) sends_setRead [OF R(2), of cb data] user_ran_same [OF k(1) R(3)] by auto
next
  case (SetCleanup cb data p)
  have s: "sessions u d = Some s" "oq_rep (outq s) bs" using SetCleanup.prems(2) by (simp_all add: plain_at_def sess_at_def)
  define s' where "s' = s\<lparr>cleanup := cb, s_cleanupData := data\<rparr>"
  have k: "sess_kept s s'" "outq s' = outq s" by (simp_all add: s'_def sess_kept_def)
  have run: "poService_setCleanup d cb data u = Some (set_session d s' u)"
    using s by (simp add: poService_setCleanup_def s'_def)
  have pl: "plain_at d x (set_session d s' u) s' bs"
    by (rule plain_same [OF SetCleanup.prems(2) refl _ k(1)]) (use s k in simp)
  have pp: "polite p" using SetCleanup.prems(1) by simp
  from SetCleanup.IH [OF pp pl] obtain r x' u' ws where
    R: "run_user p d x (set_session d s' u) = Some (r, x', u')" "sends p ws r (user u')"
      "user_ran d x (set_session d s' u) s' bs ws x' u'" by blast
  show ?case using run R(1) sends_setCleanup [OF R(2), of cb data] user_ran_same [OF k(1) R(3)] by auto
qed

subsection \<open>Reading\<close>

text \<open>
  What \<open>Read\<close> does with the answer of the user.
\<close>

definition answered :: "POServiceReturn \<Rightarrow> byte list \<Rightarrow> POServer_connection \<Rightarrow> int \<Rightarrow> POServer_connection \<Rightarrow> byte list \<Rightarrow> bool \<Rightarrow> bool" where
  "answered r msg x rt x' b' done \<longleftrightarrow> (case r of
       POSERVICE_CONTINUE \<Rightarrow> rt = 0 \<and> b' = [] \<and> readCallback x' = readCallback x
     | POSERVICE_WAIT \<Rightarrow> rt = 0 \<and> b' = msg \<and> readCallback x' = readCallback x
     | POSERVICE_CLOSE \<Rightarrow> b' = msg \<and> (if done then rt = 1 else rt = 0 \<and> readCallback x' = None)
     | POSERVICE_ERROR \<Rightarrow> rt = -1 \<and> b' = msg)"

text \<open>What is left of a session once its connection is to be closed.\<close>

definition closing_at :: "nat \<Rightarrow> POServer_connection \<Rightarrow> 'a svc \<Rightarrow> POService_session \<Rightarrow> out_body list \<Rightarrow> bool" where
  "closing_at d x u s bs \<longleftrightarrow> cleanupCallback x = Some CLEANUP \<and> cleanupData x = d \<and> \<not> aborted u
     \<and> sessions u d = Some s \<and> oq_rep (outq s) bs \<and> 0 < inSize s
     \<and> inSize s < maxMessageLength (services u (service_of s)) + CHUNKLEN"

lemma sess_closing: "sess_at d x u s bs \<Longrightarrow> closing_at d x u s bs"
  by (auto simp: sess_at_def closing_at_def)

lemma plain_closing: "plain_at d x u s bs \<Longrightarrow> closing_at d x u s bs"
  by (simp add: plain_at_def sess_closing)

definition read_done :: "'a requests \<Rightarrow> nat \<Rightarrow> POServer_connection \<Rightarrow> 'a svc \<Rightarrow> POService_session \<Rightarrow> out_body list \<Rightarrow>
    int \<Rightarrow> POServer_connection \<Rightarrow> 'a svc \<Rightarrow> bool" where
  "read_done req d x u s bs rt x' u' \<longleftrightarrow> (\<exists>s' bs' new w ws r. closing_at d x' u' s' bs' \<and> (rt = 0 \<longrightarrow> plain_at d x' u' s' bs')
     \<and> stopped (maxMessageLength (services u (service_of s))) (rd (sio u) (c_fd x)) (rd (sio u') (c_fd x))
          (length (inBuffer s)) (inSize s) (inSize s') new r
     \<and> out (sio u') (c_fd x) = out (sio u) (c_fd x) @ w \<and> delivered (tlsSession s) (pending bs @ concat ws) w (pending bs')
     \<and> svc_kept d u u' \<and> c_fd x' = c_fd x \<and> tlsSession s' = tlsSession s
     \<and> (if r = 2 \<and> inBuffer s @ new \<noteq> []
        then \<exists>a. sends (req (sessionCallback s) (sessionCallbackData s) (inBuffer s @ new) (user u)) ws a (user u')
               \<and> answered a (inBuffer s @ new) x rt x' (inBuffer s') (bs' = [])
        else rt = (if r = 2 then 0 else r) \<and> ws = [] \<and> w = [] \<and> x' = x \<and> user u' = user u \<and> inBuffer s' = inBuffer s @ new))"

lemma Read_spec:
  assumes P: "plain_at d x u s bs" and polite: "\<And>k a b v. polite (req k a b v)"
  shows "\<exists>rt x' u'. Read req d x u = Some (rt, x', u') \<and> read_done req d x u s bs rt x' u'"
proof -
  from P have S: "0 \<le> c_fd x" "sessions u d = Some s" "length (inBuffer s) < inSize s"
    "inSize s < maxMessageLength (services u (service_of s)) + CHUNKLEN" "tlsSession s \<or> calm_fd (c_fd x) (sio u)" "files_of bs = []"
    by (simp_all add: plain_at_def sess_at_def)
  let ?max = "maxMessageLength (services u (service_of s))" and ?fd = "c_fd x"
  define recv where "recv = (if tlsSession s then TLSRead ?max ?fd (inSize s) (inBuffer s) (sio u)
     else TCPRead ?max ?fd (inSize s) (inBuffer s) (sio u))"
  have "\<exists>r sz' new t. recv = Some (r, sz', inBuffer s @ new, t)
     \<and> stopped ?max (rd (sio u) ?fd) (rd t ?fd) (length (inBuffer s)) (inSize s) sz' new r
     \<and> wr t = wr (sio u) \<and> out t = out (sio u) \<and> same_io ?fd (sio u) t \<and> (calm_fd ?fd (sio u) \<longrightarrow> calm_fd ?fd t)
     \<and> inSize s \<le> sz' \<and> sz' < ?max + CHUNKLEN"
    using tcp.recv_spec [OF S(3,4), of ?fd "sio u"] tls.recv_spec [OF S(3,4), of ?fd "sio u"] S(5)
    unfolding recv_def by (cases "tlsSession s") simp_all
  then obtain r sz new t where
    T: "recv = Some (r, sz, inBuffer s @ new, t)"
     "stopped ?max (rd (sio u) ?fd) (rd t ?fd) (length (inBuffer s)) (inSize s) sz new r" "out t = out (sio u)"
     "calm_fd ?fd (sio u) \<longrightarrow> calm_fd ?fd t" "inSize s \<le> sz" "sz < ?max + CHUNKLEN" by blast
  have r: "r = 1 \<or> r = 2 \<and> length (inBuffer s @ new) < sz" using stopped_result [OF T(2)] by simp
  let ?b = "inBuffer s @ new"
  define s1 where "s1 = s\<lparr>inSize := sz, inBuffer := ?b\<rparr>"
  define u1 where "u1 = set_session d s1 (u\<lparr>sio := t\<rparr>)"
  have u1: "sio u1 = t" "user u1 = user u" "svc_kept d u u1" "inSize s1 = sz" "inBuffer s1 = ?b" "tlsSession s1 = tlsSession s"
    by (simp_all add: u1_def svc_kept_def s1_def)
  have c1: "closing_at d x u1 s1 bs" using plain_closing [OF P] S(3) T(5,6) by (simp add: closing_at_def u1_def s1_def)
  have q1: "queue_ok (c_fd x) (fstat_size u) t bs"
    using P queue_ok_no_files [OF S(6)] by (auto simp: plain_at_def sess_at_def)
  have p1: "plain_at d x u1 s1 bs" if "r = 2"
    using that P T(4,6) r q1 by (auto simp: plain_at_def sess_at_def u1_def s1_def)
  have run: "Read req d x u = (if r \<noteq> 2 then Some (r, x, u1) else if ?b = [] then Some (0, x, u1) else do {
        (rt, x, u) \<leftarrow> run_user (req (sessionCallback s) (sessionCallbackData s) ?b (user u)) d x u1;
        s \<leftarrow> sessions u d;
        (case rt of
           POSERVICE_CONTINUE \<Rightarrow> Some (0, x, set_session d (s\<lparr>inBuffer := []\<rparr>) u)
         | POSERVICE_WAIT \<Rightarrow> Some (0, x, u)
         | POSERVICE_CLOSE \<Rightarrow> (if firstOut (outq s) = None
             then do { ASSERT (writeCallback x = None); Some (1, x, u) }
             else do {
               ASSERT (writeCallback x = Some WRITE);
               (_, x, u) \<leftarrow> poServer_setReadCallback no_cb None 0 x u;
               Some (0, x, u) })
         | POSERVICE_ERROR \<Rightarrow> Some (-1, x, u)) })"
    using S(1-3) T(1) by (simp add: Read_def Let_def s1_def u1_def recv_def less_eq_Suc_le flip: length_0_conv)
  show ?thesis
  proof (cases "r = 2 \<and> ?b \<noteq> []")
    case False
    define rt where "rt = (if r \<noteq> 2 then r else 0)"
    have "Read req d x u = Some (rt, x, u1)" unfolding run rt_def using False by simp
    moreover have "read_done req d x u s bs rt x u1"
      unfolding read_done_def
      by (rule exI [of _ s1], rule exI [of _ bs], rule exI [of _ new], rule exI [of _ "[]"], rule exI [of _ "[]"], rule exI [of _ r])
        (use c1 p1 T u1 False r in \<open>auto simp: rt_def\<close>)
    ultimately show ?thesis by blast
  next
    case True
    then have b: "?b \<noteq> []" by blast
    from run_user_spec [OF polite p1] True obtain a x2 u2 ws where
      U: "run_user (req (sessionCallback s) (sessionCallbackData s) ?b (user u)) d x u1 = Some (a, x2, u2)"
        "sends (req (sessionCallback s) (sessionCallbackData s) ?b (user u)) ws a (user u2)" "user_ran d x u1 s1 bs ws x2 u2" by blast
    from U(3) obtain s2 bs2 w where R: "plain_at d x2 u2 s2 bs2" "wrote (c_fd x) w {} t (sio u2)"
      "delivered (tlsSession s) (pending bs @ concat ws) w (pending bs2)" "sess_kept s1 s2" "svc_kept d u1 u2"
      "readCallback x2 = readCallback x" "c_fd x2 = c_fd x"
      unfolding user_ran_def u1 by blast
    have s2: "sessions u2 d = Some s2" "0 \<le> c_fd x2" "firstOut (outq s2) = None \<longleftrightarrow> bs2 = []"
      "if bs2 = [] then writeCallback x2 = None else writeCallback x2 = Some WRITE \<and> writeData x2 = d"
      using R(1) oq_rep_first by (auto simp: plain_at_def sess_at_def)
    have io: "rd (sio u2) ?fd = rd t ?fd" "out (sio u2) (c_fd x) = out (sio u) (c_fd x) @ w"
      using R(2) T(3) by (auto simp: wrote_def)
    have k: "svc_kept d u u2" "inSize s2 = sz" "inBuffer s2 = ?b" "tlsSession s2 = tlsSession s"
      using svc_kept_trans [OF u1(3) R(5)] R(4) u1 by (auto simp: sess_kept_def)
    define s' where "s' = (if a = POSERVICE_CONTINUE then s2\<lparr>inBuffer := []\<rparr> else s2)"
    define u' where "u' = (if a = POSERVICE_CONTINUE then set_session d s' u2 else u2)"
    define x' where "x' = (if a = POSERVICE_CLOSE \<and> bs2 \<noteq> [] then x2\<lparr>readCallback := None, readData := 0\<rparr> else x2)"
    define rt :: int where "rt = (if a = POSERVICE_ERROR then -1 else if a = POSERVICE_CLOSE \<and> bs2 = [] then 1 else 0)"
    have "Read req d x u = Some (rt, x', u')"
      using True U(1) s2 unfolding run rt_def x'_def u'_def s'_def
      by (cases a) (auto simp: setReadCallback_simps split: if_splits)
    moreover have pl: "plain_at d x' u' s' bs2"
      using R(1) by (auto simp: plain_at_def sess_at_def x'_def u'_def s'_def)
    have ans: "answered a ?b x rt x' (inBuffer s') (bs2 = [])"
      using k(3) R(6) by (cases a) (auto simp: answered_def rt_def x'_def s'_def)
    have same: "sio u' = sio u2" "user u' = user u2" "svc_kept d u u'" "inSize s' = sz" "c_fd x' = c_fd x" "tlsSession s' = tlsSession s"
      using k R(7) by (auto simp: u'_def s'_def x'_def svc_kept_def)
    have "read_done req d x u s bs rt x' u'"
      unfolding read_done_def
      by (rule exI [of _ s'], rule exI [of _ bs2], rule exI [of _ new], rule exI [of _ w], rule exI [of _ ws], rule exI [of _ r])
        (use plain_closing [OF pl] pl io same T(2) R(3) U(2) b ans True in auto)
    ultimately show ?thesis by blast
  qed
qed

subsection \<open>Setting up and cleaning up\<close>

definition new_session :: "nat \<Rightarrow> 'a svc \<Rightarrow> POService_session" where
  "new_session v u = \<lparr>service_of = v, inSize = CHUNKLEN, inBuffer = [], outq = empty_outqueue, tlsSession = (tls (services u v) \<noteq> None),
     sessionCallback = s_callback (services u v), sessionCallbackData = s_callbackData (services u v),
     cleanup = None, s_cleanupData = 0\<rparr>"

text \<open>A connection as the server gives it to \<open>Setup\<close>.\<close>

definition fresh_conn :: "nat \<Rightarrow> POServer_connection \<Rightarrow> 'a svc \<Rightarrow> bool" where
  "fresh_conn v x u \<longleftrightarrow> 0 \<le> c_fd x \<and> readCallback x = Some SETUP \<and> writeCallback x = None \<and> cleanupCallback x = None
     \<and> (tls (services u v) \<noteq> None \<or> calm_fd (c_fd x) (sio u)) \<and> \<not> aborted u \<and> next_session u \<noteq> 0
     \<and> 2 \<le> maxMessageLength (services u v)"

text \<open>
  A service with TLS makes a TLS session of the connection: the calls that set it up succeed, and the handshake ends, after any number
  of errors that are not fatal, with a connection (\<open>ok\<close>) or with a fatal error. A service without TLS has nothing to do.
\<close>

definition handshake_ends :: "nat \<Rightarrow> int \<Rightarrow> 'a svc \<Rightarrow> bool \<Rightarrow> bool" where
  "handshake_ends v fd u ok \<longleftrightarrow> (case tls (services u v) of None \<Rightarrow> ok
     | Some t \<Rightarrow> x509_cred (tlss u t) \<and> priority_cache (tlss u t) \<and> list_all (\<lambda>b. b) (tls_setup u)
         \<and> (\<exists>n hs. handshakes u fd = replicate n HsNonFatal @ (if ok then HsDone else HsFatal) # hs))"

lemma create_ends:
  assumes "handshake_ends v fd u ok" and "tls (services u v) = Some t" and "0 \<le> fd"
  shows "\<exists>obj hs. poTlsSession_create (tls_setup u) fd (tlss u t) (handshakes u fd) = Some (ok, obj, hs)
     \<and> sessionCount obj = sessionCount (tlss u t) + (if ok then 1 else 0)"
  using assms by (cases ok) (auto simp: handshake_ends_def poTlsSession_create_def handshake_loop_run ASSERT_def list_all_iff)

text \<open>What \<open>Setup\<close> leaves alone, and the new session.\<close>

definition set_up :: "'a svc \<Rightarrow> 'a svc \<Rightarrow> bool" where
  "set_up u u' \<longleftrightarrow> sio u' = sio u \<and> user u' = user u \<and> services u' = services u \<and> files u' = files u \<and> fstat_size u' = fstat_size u
     \<and> (\<forall>e. e \<noteq> next_session u \<longrightarrow> sessions u' e = sessions u e) \<and> next_session u' = next_session u + 1"

definition with_session :: "nat \<Rightarrow> POServer_connection \<Rightarrow> POServer_connection" where
  "with_session d x = x\<lparr>cleanupCallback := Some CLEANUP, cleanupData := d, readCallback := Some READ, readData := d\<rparr>"

lemma Setup_spec:
  assumes "fresh_conn v x u" and "handshake_ends v (c_fd x) u True"
  shows "\<exists>u1. Setup req v x u = Read req (next_session u) (with_session (next_session u) x) u1
     \<and> plain_at (next_session u) (with_session (next_session u) x) u1 (new_session v u) [] \<and> set_up u u1
     \<and> (\<forall>t. tls (services u v) = Some t \<longrightarrow> sessionCount (tlss u1 t) = sessionCount (tlss u t) + 1)"
proof -
  let ?d = "next_session u" and ?s = "new_session v u"
  let ?x = "with_session ?d x"
  from assms(1) have F: "0 \<le> c_fd x" "readCallback x = Some SETUP" "cleanupCallback x = None" by (simp_all add: fresh_conn_def)
  have pl: "plain_at ?d ?x u1 ?s []" if "sessions u1 ?d = Some ?s" "set_up u u1" "aborted u1 = aborted u" for u1
    using assms(1) that by (simp add: plain_at_def sess_at_def fresh_conn_def with_session_def new_session_def oq_empty CHUNKLEN_def set_up_def)
  show ?thesis
  proof (cases "tls (services u v)")
    case None
    let ?u = "set_session ?d ?s (u\<lparr>next_session := ?d + 1\<rparr>)"
    have "Setup req v x u = Read req ?d ?x ?u"
      using F None by (simp add: Setup_def with_session_def new_session_def poServer_setCleanupCallback_def setReadCallback_simps Let_def)
    moreover have "set_up u ?u" by (simp add: set_up_def set_session_def)
    ultimately show ?thesis using pl [of ?u] None by (intro exI [of _ ?u]) simp
  next
    case (Some t)
    from create_ends [OF assms(2) Some F(1)] obtain obj hs where
      C: "poTlsSession_create (tls_setup u) (c_fd x) (tlss u t) (handshakes u (c_fd x)) = Some (True, obj, hs)"
        "sessionCount obj = sessionCount (tlss u t) + 1" by auto
    let ?u = "set_session ?d ?s ((set_session ?d (?s\<lparr>tlsSession := False\<rparr>) (u\<lparr>next_session := ?d + 1\<rparr>))\<lparr>tlss := (tlss u)(t := obj),
      handshakes := (handshakes u)(c_fd x := hs)\<rparr>)"
    have "Setup req v x u = Read req ?d ?x ?u"
      using F Some C(1) by (simp add: Setup_def with_session_def new_session_def poServer_setCleanupCallback_def setReadCallback_simps
          Let_def set_session_def)
    moreover have "set_up u ?u" by (simp add: set_up_def set_session_def)
    ultimately show ?thesis using pl [of ?u] Some C(2) by (intro exI [of _ ?u]) (simp add: set_session_def)
  qed
qed

lemma Setup_fails:
  assumes "0 \<le> c_fd x" and "handshake_ends v (c_fd x) u False"
  shows "\<exists>u'. Setup req v x u = Some (-1, x, u') \<and> set_up u u' \<and> sessions u' (next_session u) \<noteq> None"
proof -
  from assms(2) obtain t where t: "tls (services u v) = Some t" by (auto simp: handshake_ends_def split: option.splits)
  from create_ends [OF assms(2) t assms(1)] obtain obj hs where
    "poTlsSession_create (tls_setup u) (c_fd x) (tlss u t) (handshakes u (c_fd x)) = Some (False, obj, hs)" by auto
  with t show ?thesis by (simp add: Setup_def set_session_def set_up_def Let_def)
qed

lemma free_all_spec:
  "oq_rep q bs \<Longrightarrow> \<forall>f \<in> set (files_of bs). f \<noteq> -1 \<Longrightarrow>
     \<exists>q'. free_all q u = Some (q', u\<lparr>files := filter (\<lambda>f. f \<notin> set (files_of bs)) (files u)\<rparr>) \<and> oq_rep q' []"
proof (induction bs arbitrary: q u)
  case Nil
  then have "firstOut q = None" using oq_rep_first by blast
  then show ?case using Nil by (subst free_all.simps) simp
next
  case (Cons b bs)
  then have fo: "firstOut q \<noteq> None" using oq_rep_first by blast
  from outQueuePop_free [OF Cons.prems(1)] obtain i q1 fd q2 where
    P: "outQueuePop q = Some (Some i, q1)" "freeOut i q1 = Some (fd, q2)" "oq_rep q2 bs"
      "fd = (case b of OutBuffer _ _ \<Rightarrow> None | OutPath f \<Rightarrow> if f \<noteq> -1 then Some f else None
         | OutPathTls f _ _ _ \<Rightarrow> if f \<noteq> -1 then Some f else None)" by blast
  have cl: "close_file fd u = u\<lparr>files := filter (\<lambda>f. f \<notin> set (file_of b)) (files u)\<rparr>"
    using P(4) Cons.prems(2) by (cases b) (auto simp: close_file_def removeAll_filter)
  have "free_all q u = free_all q2 (u\<lparr>files := filter (\<lambda>f. f \<notin> set (file_of b)) (files u)\<rparr>)"
    using fo P(1,2) cl by (subst free_all.simps) auto
  moreover from Cons.IH [OF P(3), of "u\<lparr>files := filter (\<lambda>f. f \<notin> set (file_of b)) (files u)\<rparr>"] Cons.prems(2)
  obtain q' where "free_all q2 (u\<lparr>files := filter (\<lambda>f. f \<notin> set (file_of b)) (files u)\<rparr>)
      = Some (q', u\<lparr>files := filter (\<lambda>f. f \<notin> set (files_of bs)) (filter (\<lambda>f. f \<notin> set (file_of b)) (files u))\<rparr>)" "oq_rep q' []"
    by auto
  ultimately show ?case by (auto intro: filter_cong)
qed

lemma Cleanup_spec:
  assumes "closing_at d x u s bs" and "\<not> tlsSession s" and "\<forall>f \<in> set (files_of bs). f \<noteq> -1"
  shows "Cleanup ucl d x u = Some (0, x, u\<lparr>
     user := (case cleanup s of None \<Rightarrow> user u | Some k \<Rightarrow> ucl k (s_cleanupData s) (user u)),
     files := filter (\<lambda>f. f \<notin> set (files_of bs)) (files u), sessions := (sessions u)(d := None)\<rparr>)"
proof -
  from assms(1,2) have s: "sessions u d = Some s" "\<not> tlsSession s" "oq_rep (outq s) bs" "0 < inSize s"
    by (simp_all add: closing_at_def)
  define u0 where "u0 = (case cleanup s of None \<Rightarrow> u | Some k \<Rightarrow> u\<lparr>user := ucl k (s_cleanupData s) (user u)\<rparr>)"
  from free_all_spec [OF s(3) assms(3), of u0] obtain q' where
    "free_all (outq s) u0 = Some (q', u0\<lparr>files := filter (\<lambda>f. f \<notin> set (files_of bs)) (files u0)\<rparr>)" by blast
  with s show ?thesis by (simp add: Cleanup_def u0_def Let_def split: option.splits)
qed

end
