(* ===== verification/ServiceProperties.thy ===== *)
theory ServiceProperties
  imports SessionInvariant
begin

text \<open>
  The callbacks of src/potato_old/http.c, and the properties of the service.
\<close>

subsection \<open>http.c\<close>

text \<open>
  \<open>location\<close> is the text of the redirection, fixed by the macros of http.h. \<^verbatim>\<open>poHttp_read\<close> ends the
  request with a 0 and prints it with \<^verbatim>\<open>%s\<close>: what it sends ends before the first 0.
\<close>

definition poHttp_redirectToHttps :: "byte list \<Rightarrow> bool \<Rightarrow> byte list \<Rightarrow> unit \<Rightarrow> unit prog option" where
  "poHttp_redirectToHttps location isTLS msg a = do {
     ASSERT (0 < length msg);
     ASSERT (\<not> isTLS);
     Some (SendF location (\<lambda>_. Return POSERVICE_CLOSE a)) }"

definition poHttp_read :: "byte list \<Rightarrow> unit \<Rightarrow> unit prog option" where
  "poHttp_read msg a = do {
     ASSERT (0 < length msg);
     Some (SendF (takeWhile (\<lambda>c. c \<noteq> 0) (msg @ [0])) (\<lambda>_. Return POSERVICE_CONTINUE a)) }"

text \<open>The service with \<^verbatim>\<open>poHttp_redirectToHttps\<close>.\<close>

definition redirect :: "byte list \<Rightarrow> unit requests" where
  "redirect location k d msg a = (case poHttp_redirectToHttps location False msg a of
       Some p \<Rightarrow> p | None \<Rightarrow> Return POSERVICE_ERROR a)"

lemma redirect_polite: "location \<noteq> [] \<Longrightarrow> polite (redirect location k d msg a)"
  by (cases "msg = []") (simp_all add: redirect_def poHttp_redirectToHttps_def)

subsection \<open>A session for the witnesses\<close>

definition io1 :: io where
  "io1 = \<lparr>rd = (\<lambda>_. [])(5 := [RData [71, 69, 84]]), wr = (\<lambda>_. [])(5 := [WSome 2]), out = (\<lambda>_. [])\<rparr>"

definition svc0 :: "unit svc" where
  "svc0 = \<lparr>sio = io1, fstat_size = (\<lambda>_. None), files = [],
     services = (\<lambda>_. \<lparr>maxMessageLength = 100, tls = None, s_callback = 0, s_callbackData = 0\<rparr>),
     tlss = (\<lambda>_. \<lparr>x509_cred = True, priority_cache = True, sessionCount = 0\<rparr>), tls_setup = [], handshakes = (\<lambda>_. []),
     byes = [], sessions = Map.empty, next_session = 1, user = (), aborted = False\<rparr>"

definition x_new :: POServer_connection where
  "x_new = zero_conn\<lparr>c_fd := 5, readCallback := Some SETUP, readReady := True, writeReady := True\<rparr>"

lemma fresh_new: "fresh_conn 0 x_new svc0" "handshake_ends 0 (c_fd x_new) svc0 True"
  by (simp_all add: fresh_conn_def x_new_def svc0_def zero_conn_def calm_fd_def io1_def handshake_ends_def)

definition x_old :: POServer_connection where
  "x_old = x_new\<lparr>cleanupCallback := Some CLEANUP, cleanupData := 1, readCallback := Some READ, readData := 1\<rparr>"

definition svc1 :: "unit svc" where
  "svc1 = set_session 1 (new_session 0 svc0) (svc0\<lparr>next_session := 2\<rparr>)"

lemma plain_old: "plain_at 1 x_old svc1 (new_session 0 svc0) []"
  by (simp add: plain_at_def sess_at_def x_old_def x_new_def svc1_def svc0_def new_session_def zero_conn_def oq_empty calm_fd_def io1_def
      CHUNKLEN_def)

text \<open>A session with a request and a file to write.\<close>

definition q2 :: outqueue where
  "q2 = \<lparr>firstOut = Some 0, lastOut = Some 1, outs = [0 \<mapsto> \<lparr>o_body = OutBuffer [1, 2, 3] 1, o_next = Some 1\<rparr>,
     1 \<mapsto> \<lparr>o_body = OutPath 7, o_next = None\<rparr>], next_out = 2\<rparr>"

lemma q2: "oq_rep q2 [OutBuffer [1, 2, 3] 1, OutPath 7]"
  unfolding oq_rep_def
  by (rule exI [of _ "[0, 1]"]) (auto simp: oq_at_def slq_def q2_def nexts_def bodies_def)

definition sess2 :: POService_session where
  "sess2 = (new_session 0 svc0)\<lparr>outq := q2\<rparr>"

definition svc2 :: "unit svc" where
  "svc2 = set_session 1 sess2 (svc1\<lparr>files := [7], fstat_size := [7 \<mapsto> 2],
     sio := io1\<lparr>rd := (\<lambda>_. [])(7 := [RData [8, 9]]), wr := (\<lambda>_. [])(5 := [WSome 9, WSome 9])\<rparr>\<rparr>)"

definition x2 :: POServer_connection where
  "x2 = x_old\<lparr>writeCallback := Some WRITE, writeData := 1\<rparr>"

lemma sess2_ok: "sess_at 1 x2 svc2 sess2 [OutBuffer [1, 2, 3] 1, OutPath 7]"
  using q2 by (simp add: sess_at_def x2_def x_old_def x_new_def zero_conn_def svc2_def svc1_def svc0_def sess2_def
      new_session_def queue_ok_def files_of_def calm_fd_def io1_def stream_def CHUNKLEN_def)

subsection \<open>Properties\<close>

text \<open>
  Property C17. Without TLS \<open>Write\<close> does with the queue exactly what the answers of the socket allow, as \<open>socket_takes\<close> says: it writes the
  first \<open>n\<close> bytes of what the queue has left, no byte twice and none left out, finishes and closes the first \<open>j\<close> requests, and uses up the
  answers it got. It goes on until the queue is empty (\<open>r\<close> is 0: the write callback is taken away and the connection closed if it has no read
  callback), the socket takes no more (\<open>r\<close> is 2: the rest stays in the queue, a buffer continued where it was left, and the callback stays
  set), the peer is gone (\<open>r\<close> is 1), or \<^verbatim>\<open>sendfile\<close> sent a file in part (\<open>r\<close> is -1: the connection is closed with an error, the rest of the file is not sent). The
  answers of the kernel have no error the code has no case for.
\<close>

theorem service_write_delivers:
  assumes "sess_at d x u s bs" and "bs \<noteq> []" and "\<not> tlsSession s"
    and "socket_takes (wanted bs (sio u)) (wr (sio u) (c_fd x)) = (n, j, r, rest)"
  shows "\<exists>x' u'. Write d x u = Some (if r = 0 then if readCallback x = None then 1 else 0 else if r = 2 then 0 else r, x', u')
     \<and> out (sio u') (c_fd x) = out (sio u) (c_fd x) @ take n (left_all bs (sio u)) \<and> wr (sio u') (c_fd x) = rest
     \<and> (\<forall>f. f \<noteq> c_fd x \<longrightarrow> out (sio u') f = out (sio u) f)
     \<and> files u' = filter (\<lambda>f. f \<notin> set (files_of (take j bs))) (files u) \<and> (r = -1 \<longrightarrow> files_of bs \<noteq> [])
     \<and> writeCallback x' = (if r = 0 then None else writeCallback x)
     \<and> (r \<noteq> -1 \<longrightarrow> (\<exists>s' cs. sess_at d x' u' s' cs \<and> left_all cs (sio u') = drop n (left_all bs (sio u))
          \<and> map file_of cs = map file_of (drop j bs) \<and> (cs = [] \<longleftrightarrow> r = 0)))"
proof -
  from Write_takes [OF assms] obtain q t cs x' u' where
    W: "Write d x u = Some (if r = 0 then if readCallback x = None then 1 else 0 else if r = 2 then 0 else r, x', u')"
    "u' = set_session d (s\<lparr>outq := q\<rparr>) (u\<lparr>sio := t, files := filter (\<lambda>f. f \<notin> set (files_of (take j bs))) (files u)\<rparr>)"
    "wrote (c_fd x) (take n (left_all bs (sio u))) (set (files_of bs)) (sio u) t" "wr t (c_fd x) = rest"
    "map file_of cs = map file_of (drop j bs)" "r = 0 \<longleftrightarrow> cs = []"
    "r \<noteq> -1 \<longrightarrow> left_all cs t = drop n (left_all bs (sio u)) \<and> sess_at d x' u' (s\<lparr>outq := q\<rparr>) cs"
    "r \<in> {0, 1, 2} \<or> r = -1 \<and> files_of bs \<noteq> []" "x' = (if r = 0 then x\<lparr>writeCallback := None, writeData := 0\<rparr> else x)" by blast
  have t: "sio u' = t" "files u' = filter (\<lambda>f. f \<notin> set (files_of (take j bs))) (files u)" using W(2) by simp_all
  have rest: "r \<noteq> -1 \<longrightarrow> (\<exists>s' cs. sess_at d x' u' s' cs \<and> left_all cs (sio u') = drop n (left_all bs (sio u))
          \<and> map file_of cs = map file_of (drop j bs) \<and> (cs = [] \<longleftrightarrow> r = 0))" using W(5-7) t(1) by blast
  show ?thesis using W(1,3,4,8,9) t rest by (intro exI [of _ x'] exI [of _ u']) (auto simp: wrote_def)
qed

theorem service_write_delivers_witness:
  "\<exists>x' u'. Write 1 x2 svc2 = Some (0, x', u') \<and> out (sio u') 5 = [2, 3, 8, 9] \<and> files u' = [] \<and> writeCallback x' = None"
proof -
  let ?bs = "[OutBuffer [1, 2, 3] 1, OutPath 7]"
  have e: "left_all ?bs (sio svc2) = [2, 3, 8, 9]" "out (sio svc2) 5 = []" "c_fd x2 = 5" "readCallback x2 = Some READ" "files svc2 = [7]"
    "\<not> tlsSession sess2" "wr (sio svc2) 5 = [WSome 9, WSome 9]" "wanted ?bs (sio svc2) = [(False, 2), (True, 2)]"
    by (simp_all add: svc2_def svc1_def stream_def io1_def x2_def x_old_def x_new_def svc0_def sess2_def new_session_def)
  have "socket_takes (wanted ?bs (sio svc2)) (wr (sio svc2) (c_fd x2)) = (4, 2, 0, [])"
    unfolding e by simp
  from service_write_delivers [OF sess2_ok _ e(6) this] show ?thesis unfolding e by auto
qed

text \<open>
  Property C18. \<open>Read\<close> returns and fails no assertion, whatever a polite user does in its callback, on a connection with or without TLS
  that has no file to send. It reads until there is nothing more to read, the end of the stream or an error comes, or the request has
  \<^verbatim>\<open>maxMessageLength\<close> bytes and fills the buffer (\<open>stopped\<close>). In the last two cases the connection is closed, and the user is not called. Otherwise
  the user gets what was left of the last request and all bytes read, and its answer is carried out: a complete request is
  forgotten, an incomplete one is kept, the connection is closed now or, if there is something to write, after that, with the read callback taken
  away. What the user sends is written or queued, in order; with TLS some of its bytes may be lost. A polite user sends no empty text and no file.
\<close>

theorem service_read_serves:
  assumes "plain_at d x u s bs" and "\<forall>k a b v. polite (req k a b v)"
  shows "\<exists>rt x' u'. Read req d x u = Some (rt, x', u') \<and> read_done req d x u s bs rt x' u'"
  using Read_spec assms by blast

text \<open>The user of the witnesses answers a request that came in one piece.\<close>

lemma redirect_read:
  assumes "read_done (redirect loc) d x u s [] rt x' u'" and "loc \<noteq> []" and "rd (sio u) (c_fd x) = [RData msg]" "msg \<noteq> []"
    and "inBuffer s = []" "length msg < maxMessageLength (services u (service_of s))" "\<not> tlsSession s"
  shows "\<exists>s' bs'. sessions u' d = Some s' \<and> inBuffer s' = msg \<and> out (sio u') (c_fd x) @ pending bs' = out (sio u) (c_fd x) @ loc
     \<and> (if bs' = [] then rt = 1 else rt = 0 \<and> readCallback x' = None)"
proof -
  from assms(1) obtain s' bs' new w ws r where
    D: "closing_at d x' u' s' bs'" "stopped (maxMessageLength (services u (service_of s))) (rd (sio u) (c_fd x)) (rd (sio u') (c_fd x))
          (length (inBuffer s)) (inSize s) (inSize s') new r"
      "out (sio u') (c_fd x) = out (sio u) (c_fd x) @ w" "delivered (tlsSession s) (pending [] @ concat ws) w (pending bs')"
      "if r = 2 \<and> inBuffer s @ new \<noteq> []
        then \<exists>a. sends (redirect loc (sessionCallback s) (sessionCallbackData s) (inBuffer s @ new) (user u)) ws a (user u')
               \<and> answered a (inBuffer s @ new) x rt x' (inBuffer s') (bs' = [])
        else rt = (if r = 2 then 0 else r) \<and> ws = [] \<and> w = [] \<and> x' = x \<and> user u' = user u \<and> inBuffer s' = inBuffer s @ new"
    unfolding read_done_def by blast
  have m: "r = 2" "new = msg" using stopped_one_piece [OF D(2) [unfolded assms(3)] assms(4)] assms(5,6) by simp_all
  have b: "inBuffer s @ new = msg" "r = 2 \<and> msg \<noteq> []" using m assms(4,5) by simp_all
  from D(5) obtain a where
    a: "sends (redirect loc (sessionCallback s) (sessionCallbackData s) msg (user u)) ws a (user u')" "answered a msg x rt x' (inBuffer s') (bs' = [])"
    unfolding b(1) if_P [OF b(2)] by blast
  have R: "redirect loc k e msg v = SendF loc (\<lambda>_. Return POSERVICE_CLOSE v)" for k e v
    using assms(4) by (simp add: redirect_def poHttp_redirectToHttps_def ASSERT_def)
  have "ws = [loc] \<and> a = POSERVICE_CLOSE" using a(1) unfolding R by (auto elim!: sends_SendFE sends_ReturnE)
  then have A: "ws = [loc]" "a = POSERVICE_CLOSE" by simp_all
  then have "out (sio u') (c_fd x) @ pending bs' = out (sio u) (c_fd x) @ loc" using D(3,4) assms(7) by (simp add: delivered_def)
  moreover have "sessions u' d = Some s'" using D(1) by (simp only: closing_at_def)
  moreover have "inBuffer s' = msg \<and> (if bs' = [] then rt = 1 else rt = 0 \<and> readCallback x' = None)"
    using a(2) unfolding A(2) answered_def POServiceReturn.case .
  ultimately show ?thesis by blast
qed

theorem service_read_serves_witness:
  "\<exists>rt x' u' s' bs'. Read (redirect [72, 73]) 1 x_old svc1 = Some (rt, x', u') \<and> sessions u' 1 = Some s' \<and> inBuffer s' = [71, 69, 84]
     \<and> out (sio u') 5 @ pending bs' = [72, 73]"
proof -
  from service_read_serves [OF plain_old, of "redirect [72, 73]"] obtain rt x' u' where
    R: "Read (redirect [72, 73]) 1 x_old svc1 = Some (rt, x', u')" "read_done (redirect [72, 73]) 1 x_old svc1 (new_session 0 svc0) [] rt x' u'"
    using redirect_polite [of "[72, 73]"] by blast
  have e: "rd (sio svc1) (c_fd x_old) = [RData [71, 69, 84]]" "out (sio svc1) (c_fd x_old) = []" "c_fd x_old = 5" "inBuffer (new_session 0 svc0) = []"
    "\<not> tlsSession (new_session 0 svc0)" "3 < maxMessageLength (services svc1 (service_of (new_session 0 svc0)))"
    by (simp_all add: svc1_def svc0_def io1_def x_old_def x_new_def new_session_def)
  have l: "[72, 73] \<noteq> ([] :: byte list)" "[71, 69, 84] \<noteq> ([] :: byte list)"
    "length [71, 69, 84 :: byte] < maxMessageLength (services svc1 (service_of (new_session 0 svc0)))" using e(6) by simp_all
  from redirect_read [OF R(2) l(1) e(1) l(2) e(4) l(3) e(5)] show ?thesis using R(1) by (simp only: e(2) [unfolded e(3)] e(3) append_Nil) blast
qed

text \<open>
  Property C19. \<open>Setup\<close> gives a new connection a session of its own and reads the first request, as \<open>Read\<close> does: it is the same as \<open>Read\<close>
  with a session with nothing to write, whose callbacks are set; a service with TLS makes a TLS session first and counts it. When its
  handshake fails (\<open>ok\<close> is false) the connection is left as it was and closed with an error, and the session stays allocated for ever, since no callback
  for it was set.
\<close>

theorem service_setup:
  assumes "fresh_conn v x u" and "\<forall>k a b w. polite (req k a b w)" and "handshake_ends v (c_fd x) u ok"
  shows "if ok
    then \<exists>u1 rt x' u'. Setup req v x u = Some (rt, x', u') \<and> set_up u u1
       \<and> plain_at (next_session u) (with_session (next_session u) x) u1 (new_session v u) []
       \<and> read_done req (next_session u) (with_session (next_session u) x) u1 (new_session v u) [] rt x' u'
       \<and> (\<forall>t. tls (services u v) = Some t \<longrightarrow> sessionCount (tlss u1 t) = sessionCount (tlss u t) + 1)
    else \<exists>u'. Setup req v x u = Some (-1, x, u') \<and> set_up u u' \<and> sessions u' (next_session u) \<noteq> None"
proof (cases ok)
  case True
  from Setup_spec [OF assms(1), of req] assms(3) True obtain u1 where
    S: "Setup req v x u = Read req (next_session u) (with_session (next_session u) x) u1"
      "plain_at (next_session u) (with_session (next_session u) x) u1 (new_session v u) []" "set_up u u1"
      "\<forall>t. tls (services u v) = Some t \<longrightarrow> sessionCount (tlss u1 t) = sessionCount (tlss u t) + 1" by auto
  from Read_spec [OF S(2)] assms(2) S True show ?thesis by (simp only: if_True) blast
next
  case False
  then show ?thesis using Setup_fails [of x v u req] assms(1,3) by (simp add: fresh_conn_def)
qed

text \<open>The service with TLS, and a client whose handshake fails after one error that is not fatal.\<close>

definition svc_tls :: "unit svc" where
  "svc_tls = svc0\<lparr>services := (\<lambda>_. (services svc0 0)\<lparr>tls := Some 0\<rparr>), handshakes := (\<lambda>_. [HsNonFatal, HsFatal])\<rparr>"

lemma fresh_tls: "fresh_conn 0 x_new svc_tls" "handshake_ends 0 (c_fd x_new) svc_tls False"
  by (auto simp: fresh_conn_def x_new_def svc_tls_def svc0_def zero_conn_def handshake_ends_def intro: exI [of _ 1])

theorem service_setup_witness:
  "(\<exists>rt x' u' s' bs'. Setup (redirect [72, 73]) 0 x_new svc0 = Some (rt, x', u') \<and> sessions u' 1 = Some s' \<and> inBuffer s' = [71, 69, 84]
     \<and> out (sio u') 5 @ pending bs' = [72, 73])
   \<and> (\<exists>u'. Setup (redirect [72, 73]) 0 x_new svc_tls = Some (-1, x_new, u') \<and> sessions u' 1 \<noteq> None)"
proof
  have p: "\<forall>k a b w. polite (redirect [72, 73] k a b w)" using redirect_polite [of "[72, 73]"] by blast
  have n: "next_session svc0 = 1" "next_session svc_tls = 1" by (simp_all add: svc0_def svc_tls_def)
  from service_setup [OF fresh_new(1) p fresh_new(2), simplified n if_True] obtain u1 rt x' u' where
    S: "Setup (redirect [72, 73]) 0 x_new svc0 = Some (rt, x', u')" "set_up svc0 u1"
      "read_done (redirect [72, 73]) 1 (with_session 1 x_new) u1 (new_session 0 svc0) [] rt x' u'" by blast
  have e: "rd (sio u1) (c_fd (with_session 1 x_new)) = [RData [71, 69, 84]]" "out (sio u1) (c_fd (with_session 1 x_new)) = []"
    "c_fd (with_session 1 x_new) = 5" "inBuffer (new_session 0 svc0) = []"
    "\<not> tlsSession (new_session 0 svc0)" "3 < maxMessageLength (services u1 (service_of (new_session 0 svc0)))"
    using S(2) by (simp_all add: set_up_def svc0_def io1_def with_session_def x_new_def new_session_def)
  have l: "[72, 73] \<noteq> ([] :: byte list)" "[71, 69, 84] \<noteq> ([] :: byte list)"
    "length [71, 69, 84 :: byte] < maxMessageLength (services u1 (service_of (new_session 0 svc0)))" using e(6) by simp_all
  show "\<exists>rt x' u' s' bs'. Setup (redirect [72, 73]) 0 x_new svc0 = Some (rt, x', u') \<and> sessions u' 1 = Some s' \<and> inBuffer s' = [71, 69, 84]
     \<and> out (sio u') 5 @ pending bs' = [72, 73]"
    using redirect_read [OF S(3) l(1) e(1) l(2) e(4) l(3) e(5)] S(1) by (simp only: e(2) [unfolded e(3)] e(3) append_Nil) blast
  show "\<exists>u'. Setup (redirect [72, 73]) 0 x_new svc_tls = Some (-1, x_new, u') \<and> sessions u' 1 \<noteq> None"
    using service_setup [OF fresh_tls(1) p fresh_tls(2)] n by auto
qed

text \<open>
  Without TLS \<open>Cleanup\<close> returns 0, calls the user's cleanup callback once, frees the session and closes
  every file that was still to be sent.
\<close>

theorem service_cleanup_frees:
  assumes "closing_at d x u s bs" and "\<not> tlsSession s" and "\<forall>f \<in> set (files_of bs). f \<noteq> -1"
  shows "\<exists>u'. Cleanup ucl d x u = Some (0, x, u') \<and> sessions u' = (sessions u)(d := None)
     \<and> files u' = filter (\<lambda>f. f \<notin> set (files_of bs)) (files u)
     \<and> user u' = (case cleanup s of None \<Rightarrow> user u | Some k \<Rightarrow> ucl k (s_cleanupData s) (user u))"
  using Cleanup_spec [OF assms] by simp

theorem service_cleanup_frees_witness:
  "\<exists>u'. Cleanup (\<lambda>k d a. a) 1 x2 svc2 = Some (0, x2, u') \<and> files u' = []"
  using service_cleanup_frees [OF sess_closing [OF sess2_ok], of "\<lambda>k d a. a"] by (auto simp: svc2_def sess2_def new_session_def svc0_def)

text \<open>
  Property C20. However the peer sends its bytes and whatever the answers of the kernel or of gnutls, the
  buffer of a session stays below \<^verbatim>\<open>maxMessageLength + PO_SERVICE_CHUNKLEN\<close> bytes, and a request that
  is given to the user is shorter than the buffer.
\<close>

theorem service_request_bounded:
  assumes "length b < sz" and "sz < maxlen + CHUNKLEN"
    and "TCPRead maxlen fd sz b s = Some (r, sz', b', t) \<or> TLSRead maxlen fd sz b s = Some (r, sz', b', t)"
  shows "sz' < maxlen + CHUNKLEN \<and> length b' \<le> sz' \<and> (r = 2 \<longrightarrow> length b' < sz')"
  using assms(3) by (rule disjE) (rule tcp.recv_bound [OF assms(1,2)], assumption, rule tls.recv_bound [OF assms(1,2)], assumption)

theorem service_request_bounded_witness:
  "\<exists>r sz' b' t. TCPRead 2 5 4 [1, 2] io1 = Some (r, sz', b', t) \<and> sz' < 2 + CHUNKLEN"
proof -
  have "\<exists>r sz' b' t. TCPRead 2 5 4 [1, 2] io1 = Some (r, sz', b', t)"
    by (subst TCPRead.simps) (simp add: k_read_def io1_def)
  then obtain r sz' b' t where "TCPRead 2 5 4 [1, 2] io1 = Some (r, sz', b', t)" by blast
  with service_request_bounded [of "[1, 2]" 4 2 5 io1 r sz' b' t] show ?thesis by (auto simp: CHUNKLEN_def)
qed

text \<open>
  Property C21. With TLS the rest of a buffer is lost when gnutls takes only a part of it: \<open>Write\<close> takes
  the request off the queue as written and the write callback off the connection. The comment above
  \<^verbatim>\<open>TLSWrite_buffer\<close> says 2 is returned.
\<close>

theorem service_tls_partial_write_loses:
  assumes "sessions u d = Some s" and "tlsSession s" and "oq_rep (outq s) [OutBuffer bs i]" and "0 \<le> c_fd x"
    and "wr (sio u) (c_fd x) = WSome m # rest" and "0 < m" and "m < length bs - i" and "readCallback x \<noteq> None"
  shows "\<exists>x' u' s'. Write d x u = Some (0, x', u') \<and> writeCallback x' = None \<and> sessions u' d = Some s' \<and> oq_rep (outq s') []
     \<and> out (sio u') (c_fd x) = out (sio u) (c_fd x) @ take m (drop i bs)"
proof -
  let ?t = "(sio u)\<lparr>wr := (wr (sio u))(c_fd x := rest), out := (out (sio u))(c_fd x := out (sio u) (c_fd x) @ take m (drop i bs))\<rparr>"
  have W: "TLSWrite_buffer (c_fd x) bs i (sio u) = Some (0, i, ?t)"
    using assms(5-7) by (subst TLSWrite_buffer.simps) (simp add: k_write_def)
  have q1: "oq_rep (set_head (OutBuffer bs i) (outq s)) [OutBuffer bs i]" by (rule set_head_rep [OF assms(3)])
  from outQueuePop_free [OF q1] obtain j q2 q3 where P: "outQueuePop (set_head (OutBuffer bs i) (outq s)) = Some (Some j, q2)"
    "freeOut j q2 = Some (None, q3)" "oq_rep q3 []" by auto
  have f: "firstOut (outq s) \<noteq> None" "firstOut q3 = None" using oq_rep_first [OF assms(3)] oq_rep_first [OF P(3)] by auto
  have L: "write_loop (c_fd x) s u = Some (0, s\<lparr>outq := q3\<rparr>, u\<lparr>sio := ?t\<rparr>)"
    using head_body [OF assms(3)] assms(2) W P f(2)
    by (subst write_loop.simps) (simp add: write_head_def close_file_def Let_def)
  then show ?thesis using assms(1,4,8) f(1) P(3)
    by (simp add: Write_def setWriteCallback_simps Let_def)
qed

definition q3 :: outqueue where
  "q3 = \<lparr>firstOut = Some 0, lastOut = Some 0, outs = [0 \<mapsto> \<lparr>o_body = OutBuffer [1, 2, 3] 0, o_next = None\<rparr>], next_out = 1\<rparr>"

lemma q3: "oq_rep q3 [OutBuffer [1, 2, 3] 0]"
  unfolding oq_rep_def
  by (rule exI [of _ "[0]"]) (auto simp: oq_at_def slq_def q3_def nexts_def bodies_def)

theorem service_tls_partial_write_loses_witness:
  "\<exists>x' u' s'. Write 1 x2 (set_session 1 (sess2\<lparr>outq := q3, tlsSession := True\<rparr>) svc1) = Some (0, x', u')
     \<and> writeCallback x' = None \<and> sessions u' 1 = Some s' \<and> oq_rep (outq s') [] \<and> out (sio u') 5 = [1, 2]"
proof -
  have f: "c_fd x2 = 5" "readCallback x2 \<noteq> None" by (simp_all add: x2_def x_old_def x_new_def)
  have w: "wr (sio (set_session 1 (sess2\<lparr>outq := q3, tlsSession := True\<rparr>) svc1)) (c_fd x2) = WSome 2 # []"
    "out (sio svc1) 5 = []"
    by (simp_all add: f svc1_def svc0_def io1_def)
  show ?thesis
    using service_tls_partial_write_loses [of "set_session 1 (sess2\<lparr>outq := q3, tlsSession := True\<rparr>) svc1" 1
        "sess2\<lparr>outq := q3, tlsSession := True\<rparr>" "[1, 2, 3]" 0 x2 2 "[]", OF _ _ _ _ w(1)] q3 f w(2) by simp
qed

text \<open>
  With TLS a file whose end is in the buffer and was sent only in part is not finished:
  \<^verbatim>\<open>TLSWrite_path\<close> takes \<^verbatim>\<open>fileLeft\<close> 0 for a file it has not begun, wants to read the file again, and
  closes the connection with an error, the rest of the buffer unsent.
\<close>

theorem service_tls_file_end_lost:
  assumes "0 \<le> pfd" and "0 < n" and "i < length b" and "length b < TLS_BUFFER" and "rd s pfd = RData [] # rest"
  shows "\<exists>t. TLSWrite_path (Some n) fd pfd b i 0 s = Some (-1, (b, i, n), t) \<and> out t = out s"
  using assms
  by (auto simp: TLSWrite_path_def tls_path_loop.simps [of fd pfd b i n s] fill_buffer.simps [of pfd b n s] k_read_def)

theorem service_tls_file_end_lost_witness:
  "\<exists>t. TLSWrite_path (Some 2) 5 7 [8, 9] 1 0 (io1\<lparr>rd := (\<lambda>_. [RData []])\<rparr>) = Some (-1, ([8, 9], 1, 2), t) \<and> out t = out io1"
  using service_tls_file_end_lost [of 7 2 1 "[8, 9]" "io1\<lparr>rd := (\<lambda>_. [RData []])\<rparr>" "[]" 5] by (simp add: TLS_BUFFER_def)

text \<open>
  When the TLS handshake fails the session that \<open>Setup\<close> allocated is not freed: the cleanup
  callback is not set yet.
\<close>

theorem service_handshake_failure_leaks:
  assumes "tls (services u v) = Some t" and "x509_cred (tlss u t)" and "priority_cache (tlss u t)" and "0 \<le> c_fd x"
    and "\<forall>ok \<in> set (tls_setup u). ok" and "handshakes u (c_fd x) = replicate n HsNonFatal @ HsFatal # hs"
  shows "\<exists>u'. Setup req v x u = Some (-1, x, u') \<and> sessions u' (next_session u) \<noteq> None"
proof -
  have "poTlsSession_create (tls_setup u) (c_fd x) (tlss u t) (handshakes u (c_fd x)) = Some (False, tlss u t, hs)"
    using assms by (auto simp: poTlsSession_create_def handshake_loop_run ASSERT_def)
  with assms(1) show ?thesis by (simp add: Setup_def set_session_def Let_def)
qed

theorem service_handshake_failure_leaks_witness:
  "\<exists>u'. Setup (redirect [72]) 0 x_new (svc0\<lparr>services := (\<lambda>_. (services svc0 0)\<lparr>tls := Some 0\<rparr>), handshakes := (\<lambda>_. [HsFatal])\<rparr>)
     = Some (-1, x_new, u') \<and> sessions u' 1 \<noteq> None"
  using service_handshake_failure_leaks [of "svc0\<lparr>services := (\<lambda>_. (services svc0 0)\<lparr>tls := Some 0\<rparr>), handshakes := (\<lambda>_. [HsFatal])\<rparr>"
      0 0 x_new 0 "[]" "redirect [72]"] by (simp add: svc0_def x_new_def)

text \<open>
  A request that begins with a zero byte stops a server that answers with \<^verbatim>\<open>poHttp_read\<close>, in
  the build with \<^verbatim>\<open>PO_DEBUG\<close>: the text it sends is empty and an assertion of \<^verbatim>\<open>poService_sendF\<close> fails.
\<close>

theorem http_read_nul_aborts:
  "\<exists>p. poHttp_read (0 # msg) a = Some p \<and> run_user p d x u = None"
  by (simp add: poHttp_read_def poService_sendF_def)

end
