(* ===== verification/Strtol.thy ===== *)
theory Strtol
  imports Prelude
begin

text \<open>
  \<^verbatim>\<open>strtol\<close> and \<^verbatim>\<open>strtoul\<close> of the C library with base 10, as potato.c (src/potato\_old) and getTunViaUSocket.cpp
  (src/lanceman2\_crts) use them: spaces, a sign, digits; what follows is left. The flag tells whether \<^verbatim>\<open>errno\<close> is set, because the
  value is not in the range of the type. Also the decimal text of a number.
\<close>

definition digits_value :: "string \<Rightarrow> int" where
  "digits_value cs = foldl (\<lambda>n c. 10 * n + (int (of_char c) - 48)) 0 cs"

definition is_digit :: "char \<Rightarrow> bool" where
  "is_digit c \<longleftrightarrow> 48 \<le> (of_char c :: nat) \<and> (of_char c :: nat) \<le> 57"

definition is_space :: "char \<Rightarrow> bool" where
  "is_space c \<longleftrightarrow> (of_char c :: nat) = 32 \<or> 9 \<le> (of_char c :: nat) \<and> (of_char c :: nat) \<le> 13"

definition strtol :: "string \<Rightarrow> int \<times> bool" where
  "strtol cs = (let cs = dropWhile is_space cs;
       (neg, cs) = (case cs of c # cs' \<Rightarrow> if c = CHR ''-'' then (True, cs') else if c = CHR ''+'' then (False, cs') else (False, cs)
         | [] \<Rightarrow> (False, cs));
       n = digits_value (takeWhile is_digit cs);
       n = (if neg then - n else n)
     in if n > 2 ^ 63 - 1 then (2 ^ 63 - 1, True) else if n < - (2 ^ 63) then (- (2 ^ 63), True) else (n, False))"

text \<open>\<^verbatim>\<open>strtoul\<close> takes a sign too: the value of the digits is negated in the type.\<close>

definition strtoul :: "string \<Rightarrow> int \<times> bool" where
  "strtoul cs = (let cs = dropWhile is_space cs;
       (neg, cs) = (case cs of c # cs' \<Rightarrow> if c = CHR ''-'' then (True, cs') else if c = CHR ''+'' then (False, cs') else (False, cs)
         | [] \<Rightarrow> (False, cs));
       n = digits_value (takeWhile is_digit cs)
     in if n > 2 ^ 64 - 1 then (2 ^ 64 - 1, True) else if neg then ((- n) mod 2 ^ 64, False) else (n, False))"

subsection \<open>Decimal text\<close>

definition digit_char :: "nat \<Rightarrow> char" where
  "digit_char n = char_of (48 + n)"

fun decimal :: "nat \<Rightarrow> string" where
  "decimal n = (if n < 10 then [digit_char n] else decimal (n div 10) @ [digit_char (n mod 10)])"

declare decimal.simps [simp del]

lemma digit_char_code: "n < 10 \<Longrightarrow> of_char (digit_char n) = 48 + n"
  by (simp add: digit_char_def)

lemma digit_char_props: "n < 10 \<Longrightarrow> is_digit (digit_char n)" "n < 10 \<Longrightarrow> int (of_char (digit_char n)) - 48 = int n"
  by (simp_all add: is_digit_def digit_char_code)

lemma digits_value_snoc: "digits_value (cs @ [c]) = 10 * digits_value cs + (int (of_char c) - 48)"
  by (simp add: digits_value_def)

lemma decimal_props:
  "digits_value (decimal n) = int n" "\<forall>c \<in> set (decimal n). is_digit c" "decimal n \<noteq> []"
proof (induction n rule: decimal.induct)
  case (1 n)
  { case 1
    have "10 * int (n div 10) + int (n mod 10) = int n" by (metis mult_div_mod_eq of_nat_add of_nat_mult of_nat_numeral)
    then show ?case using "1.IH"(1)
      by (subst decimal.simps) (simp add: digits_value_snoc digit_char_props, simp add: digits_value_def digit_char_props) }
  { case 2
    show ?case using "1.IH"(2) by (subst decimal.simps) (auto simp: digit_char_props) }
  { case 3
    show ?case by (subst decimal.simps) simp }
qed

lemma digit_not_space: "is_digit c \<Longrightarrow> \<not> is_space c \<and> c \<noteq> CHR ''-'' \<and> c \<noteq> CHR ''+''"
  by (auto simp: is_digit_def is_space_def)

text \<open>The number that a text begins with, up to what is not a digit.\<close>

lemma strtoul_decimal:
  assumes "rest = [] \<or> \<not> is_digit (hd rest)" and "n < 2 ^ 64"
  shows "strtoul (decimal n @ rest) = (int n, False)"
proof -
  obtain c cs where d: "decimal n = c # cs" using decimal_props(3) by (cases "decimal n") auto
  have c: "\<not> is_space c" "c \<noteq> CHR ''-''" "c \<noteq> CHR ''+''" using decimal_props(2) [of n] d digit_not_space by simp_all
  have t: "takeWhile is_digit (decimal n @ rest) = decimal n"
    using assms(1) decimal_props(2) [of n] by (cases rest) (simp_all add: takeWhile_append)
  have "int n < 2 ^ 64" using assms(2) by (metis of_nat_less_iff of_nat_numeral of_nat_power)
  then show ?thesis using c t decimal_props(1) [of n] by (simp add: strtoul_def Let_def d)
qed

text \<open>A text that does not begin like a number gives 0.\<close>

definition no_number :: "string \<Rightarrow> bool" where
  "no_number s \<longleftrightarrow> s \<noteq> [] \<and> \<not> is_digit (hd s) \<and> \<not> is_space (hd s) \<and> hd s \<noteq> CHR ''-'' \<and> hd s \<noteq> CHR ''+''"

lemma strtoul_no_number: "no_number s \<Longrightarrow> strtoul (s @ rest) = (0, False)"
  by (cases s) (simp_all add: no_number_def strtoul_def digits_value_def)

end
