(* ===== verification/Potato.thy ===== *)
theory Potato
  imports Server SysIO Strtol
begin

text \<open>
  The process of a potato server, src/potato_old/potato.c: the list of its servers, listening sockets
  that are handed over from an old server to a new one through a UNIX socket, signals, and child
  processes.
\<close>

subsection \<open>State\<close>

text \<open>A socket address is its 16 bytes; \<^verbatim>\<open>l_addr\<close> of a listener is the number they are the digits of.\<close>

record POTato_handoffSockets =
  h_addr :: "byte list"
  h_fd :: int

text \<open>
  \<open>handedOver\<close> is \<^verbatim>\<open>po.numListeners\<close>, \<open>childPids\<close> the array of \<^verbatim>\<open>numChildren\<close> process ids; a NULL
  array is empty.
\<close>

record POTato =
  isInit :: bool
  terminating :: bool
  doOptionsFlag :: uint32
  numForks :: int
  handedOver :: uint32
  po_servers :: ptr
  handoffSockets :: "POTato_handoffSockets list"
  shutdownFd :: int
  exitStatus :: int
  childPids :: "int list"
  masterTid :: int

datatype handler = SigDefault | SigIgnore | PassListeners | Segv | Term | SigChild

text \<open>
  The process: \<open>descrs\<close> is its table of descriptors, each with the open file it stands for;
  \<open>in_flight fd\<close> are the open files that come or were sent through the UNIX socket \<open>fd\<close>;
  \<open>watch e\<close> is what the epoll descriptor \<open>e\<close> watches.
\<close>

record process =
  po :: POTato
  sv :: "nat \<Rightarrow> POServer"
  sv_next :: "nat \<Rightarrow> ptr"
  sv_prev :: "nat \<Rightarrow> ptr"
  pio :: io
  descrs :: "(int \<times> nat) list"
  in_flight :: "int \<Rightarrow> nat list"
  watch :: "int \<Rightarrow> int list"
  handlers :: "int \<Rightarrow> handler"

definition END_CHAR :: byte where "END_CHAR = 101"
definition SIGUSR1 :: int where "SIGUSR1 = 10"
definition SIGUSR2 :: int where "SIGUSR2 = 12"
definition SIGINT :: int where "SIGINT = 2"
definition SIGSEGV :: int where "SIGSEGV = 11"
definition SIGPIPE :: int where "SIGPIPE = 13"
definition SIGCHLD :: int where "SIGCHLD = 17"

abbreviation upd_po :: "(POTato \<Rightarrow> POTato) \<Rightarrow> process \<Rightarrow> process" where
  "upd_po f p \<equiv> p\<lparr>po := f (po p)\<rparr>"

abbreviation upd_sv :: "nat \<Rightarrow> (POServer \<Rightarrow> POServer) \<Rightarrow> process \<Rightarrow> process" where
  "upd_sv i f p \<equiv> p\<lparr>sv := upd (sv p) i f\<rparr>"

definition close_descr :: "int \<Rightarrow> process \<Rightarrow> process" where
  "close_descr fd p = p\<lparr>descrs := filter (\<lambda>d. fst d \<noteq> fd) (descrs p)\<rparr>"

subsection \<open>The list of servers\<close>

definition addServer :: "nat \<Rightarrow> process \<Rightarrow> process" where
  "addServer s p = (let
       p = p\<lparr>sv_next := (sv_next p)(s := po_servers (po p))\<rparr>;
       p = p\<lparr>sv_prev := (sv_prev p)(s := None)\<rparr>;
       p = (case po_servers (po p) of None \<Rightarrow> p | Some h \<Rightarrow> p\<lparr>sv_prev := (sv_prev p)(h := Some s)\<rparr>)
     in upd_po (\<lambda>q. q\<lparr>po_servers := Some s\<rparr>) p)"

definition removeServer :: "nat \<Rightarrow> process \<Rightarrow> process option" where
  "removeServer s p = (let
       p = (case sv_next p s of None \<Rightarrow> p | Some n \<Rightarrow> p\<lparr>sv_prev := (sv_prev p)(n := sv_prev p s)\<rparr>)
     in (case sv_prev p s of
         Some q \<Rightarrow> Some (p\<lparr>sv_next := (sv_next p)(q := sv_next p s)\<rparr>)
       | None \<Rightarrow> do {
           ASSERT (po_servers (po p) = Some s);
           Some (upd_po (\<lambda>q. q\<lparr>po_servers := sv_next p s\<rparr>) p) }))"

text \<open>The loops \<^verbatim>\<open>for(s = po.servers; s; s = s->next)\<close>.\<close>

partial_function (option) each_server :: "(nat \<Rightarrow> 's \<Rightarrow> 's option) \<Rightarrow> (nat \<Rightarrow> ptr) \<Rightarrow> ptr \<Rightarrow> 's \<Rightarrow> 's option" where
  "each_server f nx s st = (case s of None \<Rightarrow> Some st | Some i \<Rightarrow> do { st \<leftarrow> f i st; each_server f nx (nx i) st })"

subsection \<open>Bytes of numbers\<close>

definition nat_bytes :: "nat \<Rightarrow> nat \<Rightarrow> byte list" where
  "nat_bytes k n = map (\<lambda>i. of_nat (n div 256 ^ i)) [0..<k]"

definition bytes_nat :: "byte list \<Rightarrow> nat" where
  "bytes_nat bs = foldr (\<lambda>b n. unat b + 256 * n) bs 0"

subsection \<open>Passing descriptors\<close>

text \<open>
  \<^verbatim>\<open>sendFd\<close> sends one byte with the descriptor; the byte is the first of the control message, its
  length 20. \<^verbatim>\<open>recvFd\<close> gets a byte and a new descriptor for the open file.
\<close>

definition sendFd :: "int \<Rightarrow> int \<Rightarrow> process \<Rightarrow> (bool \<times> process) option" where
  "sendFd fd sfd p = do {
     d \<leftarrow> map_of (descrs p) sfd;
     let (a, t) = k_write fd [20] (pio p);
     ASSERT (a = WSome 1);
     Some (False, p\<lparr>pio := t, in_flight := (in_flight p)(fd := in_flight p fd @ [d])\<rparr>) }"

definition recvFd :: "int \<Rightarrow> process \<Rightarrow> (int \<times> process) option" where
  "recvFd fd p = do {
     let (a, t) = k_read fd 1 (pio p);
     ASSERT (case a of RData bs \<Rightarrow> length bs = 1 | _ \<Rightarrow> False);
     (case in_flight p fd of
        [] \<Rightarrow> None
      | d # ds \<Rightarrow> (let n = new_fd (map fst (descrs p))
          in Some (n, p\<lparr>pio := t, in_flight := (in_flight p)(fd := ds), descrs := (n, d) # descrs p\<rparr>))) }"

subsection \<open>Signals\<close>

text \<open>\<open>ok\<close> is the answer of \<^verbatim>\<open>sigaction\<close>.\<close>

definition setSignal :: "bool \<Rightarrow> int \<Rightarrow> handler \<Rightarrow> process \<Rightarrow> (bool \<times> process) option" where
  "setSignal ok sig h p = do { ASSERT ok; Some (False, p\<lparr>handlers := (handlers p)(sig := h)\<rparr>) }"

definition poTato_init :: "bool \<Rightarrow> int \<Rightarrow> process \<Rightarrow> (bool \<times> process) option" where
  "poTato_init ok tid p = (if isInit (po p) then Some (False, p) else do {
     (e, p) \<leftarrow> setSignal ok SIGPIPE SigIgnore p;
     (if e then Some (True, p) else do {
       (e, p) \<leftarrow> setSignal ok SIGUSR1 PassListeners p;
       (if e then Some (True, p) else do {
         (e, p) \<leftarrow> setSignal ok SIGUSR2 PassListeners p;
         (if e then Some (True, p) else do {
           (e, p) \<leftarrow> setSignal ok SIGSEGV Segv p;
           (if e then Some (True, p) else do {
             (e, p) \<leftarrow> setSignal ok SIGINT Term p;
             (if e then Some (True, p)
              else Some (False, upd_po (\<lambda>q. q\<lparr>masterTid := tid, isInit := True\<rparr>) p)) }) }) }) }) })"

text \<open>The old server's side. A failure is kept in the flag; the label \<^verbatim>\<open>fail\<close> closes the socket.\<close>

definition pass_one :: "int \<Rightarrow> nat \<Rightarrow> nat \<Rightarrow> bool \<times> process \<Rightarrow> (bool \<times> process) option" where
  "pass_one fd i j = (\<lambda>(bad, p). if bad then Some (bad, p) else do {
     (e, t) \<leftarrow> writen fd (nat_bytes 16 (l_addr (listener (sv p i) j))) (pio p);
     let p = p\<lparr>pio := t\<rparr>;
     (if e then Some (True, p) else sendFd fd (l_fd (listener (sv p i) j)) p) })"

primrec pass_all :: "int \<Rightarrow> nat \<Rightarrow> nat list \<Rightarrow> bool \<times> process \<Rightarrow> (bool \<times> process) option" where
  "pass_all fd i [] st = Some st"
| "pass_all fd i (j # js) st = do { st \<leftarrow> pass_one fd i j st; pass_all fd i js st }"

definition pass_server :: "int \<Rightarrow> nat \<Rightarrow> bool \<times> process \<Rightarrow> (bool \<times> process) option" where
  "pass_server fd i st = pass_all fd i (rev [0..<unat (numListeners (sv (snd st) i))]) st"

definition pass_failed :: "int \<Rightarrow> process \<Rightarrow> process" where
  "pass_failed fd p = (let p = upd_po (\<lambda>q. q\<lparr>shutdownFd := -1\<rparr>) p in if 0 \<le> fd then close_descr fd p else p)"

definition passListeners :: "int \<Rightarrow> int \<Rightarrow> bool \<Rightarrow> process \<Rightarrow> process option" where
  "passListeners sig fd connect_ok p = do {
     ASSERT (sig = SIGUSR1 \<or> sig = SIGUSR2);
     n \<leftarrow> each_server (\<lambda>i n. Some (n + numListeners (sv p i))) (sv_next p) (po_servers (po p)) 0;
     ASSERT (0 \<le> fd);
     ASSERT connect_ok;
     (e, t) \<leftarrow> writen fd (nat_bytes 4 (unat n)) (pio p);
     let p = p\<lparr>pio := t\<rparr>;
     (if e then Some (pass_failed fd p) else do {
       (e, p) \<leftarrow> each_server (pass_server fd) (sv_next p) (po_servers (po p)) (False, p);
       (if e then Some (pass_failed fd p)
        else if sig = SIGUSR2 then Some (close_descr fd p)
        else do {
          (_, p) \<leftarrow> setSignal True SIGUSR1 SigIgnore p;
          (_, p) \<leftarrow> setSignal True SIGUSR2 SigIgnore p;
          let p = upd_po (\<lambda>q. q\<lparr>shutdownFd := fd\<rparr>) p;
          each_server (\<lambda>i p. Some (upd_sv i (\<lambda>s. s\<lparr>isRunning := False\<rparr>) p)) (sv_next p) (po_servers (po p)) p }) }) }"

text \<open>\<^verbatim>\<open>for(s=po.servers; s; s=s->next) if(!s->listenersDown) break;\<close>: whether \<^verbatim>\<open>s\<close> is NULL at the end.\<close>

definition all_down :: "process \<Rightarrow> bool option" where
  "all_down p = each_server (\<lambda>i b. Some (b \<and> listenersDown (sv p i))) (sv_next p) (po_servers (po p)) True"

definition checkSignalNewServerContinue :: "process \<Rightarrow> process option" where
  "checkSignalNewServerContinue p = (if shutdownFd (po p) = -1 then Some p else do {
     b \<leftarrow> all_down p;
     (if b then do {
        (_, t) \<leftarrow> writen (shutdownFd (po p)) [END_CHAR] (pio p);
        Some (upd_po (\<lambda>q. q\<lparr>shutdownFd := -1\<rparr>) (close_descr (shutdownFd (po p)) (p\<lparr>pio := t\<rparr>))) }
      else Some p) })"

text \<open>The beginning of \<^verbatim>\<open>poServer_shutdown\<close> of server.c, up to the call of the function above.\<close>

definition shutdown_begin :: "sv_config \<Rightarrow> nat \<Rightarrow> process \<Rightarrow> process option" where
  "shutdown_begin cfg i p = do {
     ASSERT (0 \<le> efd (sv p i));
     ASSERT (unat (numListeners (sv p i)) = NUM_LISTENERS cfg);
     checkSignalNewServerContinue (upd_sv i (\<lambda>s. s\<lparr>listenersDown := True\<rparr>) p) }"

text \<open>\<open>Inl\<close>: \<^verbatim>\<open>exit\<close> with this status.\<close>

definition terminate :: "process \<Rightarrow> (int + process) option" where
  "terminate p = (if terminating (po p) then Some (Inr p) else
     let p = upd_po (\<lambda>q. q\<lparr>terminating := True\<rparr>) p in
     each_server (\<lambda>i r. Some (case r of Inl c \<Rightarrow> Inl c
         | Inr p \<Rightarrow> if \<not> isRunning (sv p i) then Inl 1 else Inr (upd_sv i (\<lambda>s. s\<lparr>isRunning := False\<rparr>) p)))
       (sv_next p) (po_servers (po p)) (Inr p))"

definition termHandler :: "process \<Rightarrow> (int + process) option" where
  "termHandler p = (if terminating (po p) then Some (Inl 1) else terminate p)"

subsection \<open>Taking over listening sockets\<close>

text \<open>A \<^verbatim>\<open>long\<close> stored in an \<^verbatim>\<open>int\<close>.\<close>

definition to_int :: "int \<Rightarrow> int" where
  "to_int n = (n + 2 ^ 31) mod 2 ^ 32 - 2 ^ 31"

text \<open>The fields of one handed over socket, one after the other.\<close>

definition receive_one :: "int \<Rightarrow> nat \<Rightarrow> bool \<times> process \<Rightarrow> (bool \<times> process) option" where
  "receive_one fd i = (\<lambda>(bad, p). if bad then Some (bad, p) else do {
     (e, bs, t) \<leftarrow> readn fd 16 (pio p);
     let p = p\<lparr>pio := t\<rparr>;
     (if e then Some (True, p) else do {
        ASSERT (i < length (handoffSockets (po p)));
        let p = upd_po (\<lambda>q. q\<lparr>handoffSockets := (handoffSockets q)[i := (handoffSockets q ! i)\<lparr>h_addr := bs\<rparr>]\<rparr>) p;
        (n, p) \<leftarrow> recvFd fd p;
        ASSERT (0 \<le> n);
        Some (False, upd_po (\<lambda>q. q\<lparr>handoffSockets := (handoffSockets q)[i := (handoffSockets q ! i)\<lparr>h_fd := n\<rparr>]\<rparr>) p) }) })"

primrec receive_all :: "int \<Rightarrow> nat list \<Rightarrow> bool \<times> process \<Rightarrow> (bool \<times> process) option" where
  "receive_all fd [] st = Some st"
| "receive_all fd (i # is) st = do { st \<leftarrow> receive_one fd i st; receive_all fd is st }"

text \<open>The label \<^verbatim>\<open>fail\<close>, with the listening socket closed already.\<close>

definition handoff_failed :: "int \<Rightarrow> uint32 \<Rightarrow> process \<Rightarrow> process" where
  "handoff_failed fd n p = (let p = (if 0 \<le> fd then close_descr fd p else p)
     in if n \<noteq> 0 \<and> handedOver (po p) = 0 then upd_po (\<lambda>q. q\<lparr>handoffSockets := []\<rparr>) p else p)"

text \<open>
  \<open>setup\<close> are the answers of \<^verbatim>\<open>socket\<close>, \<^verbatim>\<open>bind\<close>, \<^verbatim>\<open>listen\<close> and \<^verbatim>\<open>kill\<close>, \<open>fd\<close> that of \<^verbatim>\<open>accept\<close>. The
  result is true for an error.
\<close>

definition signalHandOff :: "bool list \<Rightarrow> int \<Rightarrow> string \<Rightarrow> bool \<Rightarrow> process \<Rightarrow> (bool \<times> process) option" where
  "signalHandOff setup fd pidstr shutdownOldServer p = do {
     ASSERT (pidstr \<noteq> []);
     ASSERT (\<not> snd (strtol pidstr));
     ASSERT (to_int (fst (strtol pidstr)) \<noteq> 0);
     ASSERT (\<forall>ok \<in> set setup. ok);
     ASSERT (0 \<le> fd);
     (e, bs, t) \<leftarrow> readn fd 4 (pio p);
     let p = p\<lparr>pio := t\<rparr>;
     (if e then Some (True, handoff_failed fd 0 p) else do {
       let n = of_nat (bytes_nat bs);
       let total = n + handedOver (po p);
       let new = [unat (handedOver (po p))..<unat total];
       let p = upd_po (\<lambda>q. q\<lparr>handoffSockets := take (unat total) (take (unat (handedOver q)) (handoffSockets q)
           @ map (\<lambda>_. \<lparr>h_addr = [], h_fd = -1\<rparr>) new)\<rparr>) p;
       (e, p) \<leftarrow> receive_all fd new (False, p);
       (if e then Some (True, handoff_failed fd n p) else do {
         let p = upd_po (\<lambda>q. q\<lparr>handedOver := handedOver q + n\<rparr>) p;
         (if \<not> shutdownOldServer then Some (False, close_descr fd p)
          else do {
            (e, c, t) \<leftarrow> readn fd 1 (pio p);
            let p = p\<lparr>pio := t\<rparr>;
            (if e \<or> c \<noteq> [END_CHAR] then Some (True, handoff_failed fd n p)
             else Some (False, close_descr fd p)) }) }) }) }"

definition handoffCleanup :: "process \<Rightarrow> process option" where
  "handoffCleanup p = (if handoffSockets (po p) = [] then Some p else do {
     ASSERT (unat (handedOver (po p)) \<le> length (handoffSockets (po p)));
     let p = foldl (\<lambda>p h. if 0 \<le> h_fd h then close_descr (h_fd h) p else p) p
       (take (unat (handedOver (po p))) (handoffSockets (po p)));
     Some (upd_po (\<lambda>q. q\<lparr>handoffSockets := [], handedOver := 0\<rparr>) p) })"

text \<open>\<^verbatim>\<open>AF_INET\<close> is 2, \<^verbatim>\<open>AF_INET6\<close> 10; in both structs the port is at the third byte.\<close>

definition getPort :: "byte list \<Rightarrow> byte list option" where
  "getPort addr = do { ASSERT (take 2 addr = [2, 0] \<or> take 2 addr = [10, 0]); Some (take 2 (drop 2 addr)) }"

primrec find_socket :: "byte list \<Rightarrow> nat list \<Rightarrow> process \<Rightarrow> (int \<times> process) option" where
  "find_socket addr [] p = Some (-1, p)"
| "find_socket addr (i # is) p = do {
     ASSERT (i < length (handoffSockets (po p)));
     let h = handoffSockets (po p) ! i;
     (if h_fd h = -1 then find_socket addr is p else do {
       a \<leftarrow> getPort (h_addr h);
       b \<leftarrow> getPort addr;
       (if a = b then do {
          let (fd, p) = (if h_addr h = addr then (h_fd h, p) else (-1, close_descr (h_fd h) p));
          Some (fd, upd_po (\<lambda>q. q\<lparr>handoffSockets := (handoffSockets q)[i := h\<lparr>h_fd := -1\<rparr>]\<rparr>) p) }
        else find_socket addr is p) }) }"

definition findListenerFd :: "int \<Rightarrow> byte list \<Rightarrow> process \<Rightarrow> (int \<times> process) option" where
  "findListenerFd tid addr p = do {
     ASSERT (isInit (po p));
     ASSERT (masterTid (po p) = tid);
     find_socket addr [0..<unat (handedOver (po p))] p }"

subsection \<open>Children\<close>

datatype si_code = CLD_KILLED | CLD_DUMPED | CLD_TRAPPED | CLD_EXITED | CLD_STOPPED | CLD_CONTINUED

record siginfo =
  si_pid :: int
  si_code :: si_code

primrec remove_pid :: "int \<Rightarrow> int list \<Rightarrow> int list" where
  "remove_pid pid [] = []"
| "remove_pid pid (c # cs) = (if c = pid then -1 # cs else c # remove_pid pid cs)"

definition removePidFromChildList :: "int \<Rightarrow> process \<Rightarrow> process" where
  "removePidFromChildList pid = upd_po (\<lambda>q. q\<lparr>childPids := remove_pid pid (childPids q)\<rparr>)"

definition sigChildHandler :: "int \<Rightarrow> siginfo \<Rightarrow> process \<Rightarrow> process option" where
  "sigChildHandler sig si p = do {
     ASSERT (si_pid si \<noteq> 0);
     ASSERT (sig = SIGCHLD);
     Some (if si_code si \<in> {CLD_KILLED, CLD_DUMPED, CLD_TRAPPED} then
         (let p = upd_po (\<lambda>q. q\<lparr>exitStatus := exitStatus q + 1\<rparr>) p;
              p = (if exitStatus (po p) > 255 then upd_po (\<lambda>q. q\<lparr>exitStatus := 255\<rparr>) p else p)
          in removePidFromChildList (si_pid si) p)
       else if si_code si = CLD_EXITED then removePidFromChildList (si_pid si) p
       else p) }"

primrec handle_children :: "siginfo list \<Rightarrow> process \<Rightarrow> process option" where
  "handle_children [] p = Some p"
| "handle_children (si # sis) p = do { p \<leftarrow> sigChildHandler SIGCHLD si p; handle_children sis p }"

text \<open>
  What \<^verbatim>\<open>waitpid\<close> answers: a signal came, the child ended (by \<^verbatim>\<open>exit\<close>, or by a signal, when the exit
  status reads as 0), or it failed. No more answers: it waits for ever.
\<close>

datatype wait_answer = WaitIntr | WaitExited nat | WaitKilled | WaitFails

fun wait_loop :: "wait_answer list \<Rightarrow> wait_answer option" where
  "wait_loop [] = None"
| "wait_loop (WaitIntr # as) = wait_loop as"
| "wait_loop (a # as) = Some a"

text \<open>
  While one child is signalled and waited for: the children's signals that are handled before the
  second look at its process id and during \<^verbatim>\<open>waitpid\<close>, and the answers of \<^verbatim>\<open>waitpid\<close>. That \<^verbatim>\<open>kill\<close>
  fails changes nothing.
\<close>

record child_run =
  early :: "siginfo list"
  waits :: "wait_answer list"
  late :: "siginfo list"

definition remove_child :: "child_run \<Rightarrow> nat \<Rightarrow> process \<Rightarrow> process option" where
  "remove_child r i p = do {
     ASSERT (i < length (childPids (po p)));
     (if childPids (po p) ! i < 1 then Some p else do {
       p \<leftarrow> handle_children (early r) p;
       (if childPids (po p) ! i < 1 then Some p else do {
         a \<leftarrow> wait_loop (waits r);
         p \<leftarrow> handle_children (late r) p;
         let p = (case a of WaitExited n \<Rightarrow> if n \<noteq> 0 \<and> childPids (po p) ! i > 0
             then upd_po (\<lambda>q. q\<lparr>exitStatus := (if exitStatus q + int n > 255 then 255 else exitStatus q + int n)\<rparr>) p else p
           | _ \<Rightarrow> p);
         Some (upd_po (\<lambda>q. q\<lparr>childPids := (childPids q)[i := -1]\<rparr>) p) }) }) }"

primrec remove_loop :: "(nat \<Rightarrow> child_run) \<Rightarrow> nat list \<Rightarrow> process \<Rightarrow> process option" where
  "remove_loop r [] p = Some p"
| "remove_loop r (i # is) p = do { p \<leftarrow> remove_child (r i) i p; remove_loop r is p }"

definition removeChildren :: "int \<Rightarrow> (nat \<Rightarrow> child_run) \<Rightarrow> process \<Rightarrow> (int \<times> process) option" where
  "removeChildren tid r p = do {
     ASSERT (isInit (po p));
     ASSERT (masterTid (po p) = tid);
     (if childPids (po p) = [] then Some (0, p) else do {
       p \<leftarrow> remove_loop r (rev [0..<length (childPids (po p))]) p;
       let p = upd_po (\<lambda>q. q\<lparr>childPids := []\<rparr>) p;
       Some (exitStatus (po p), p) }) }"

subsection \<open>Forking\<close>

definition fork_checks :: "int \<Rightarrow> bool \<Rightarrow> process \<Rightarrow> process option" where
  "fork_checks tid ok p = do {
     ASSERT (shutdownFd (po p) = -1);
     ASSERT (isInit (po p));
     ASSERT (masterTid (po p) = tid);
     (_, p) \<leftarrow> setSignal ok SIGCHLD SigChild p;
     Some p }"

text \<open>The parent, whose pipe gives the byte \<open>c\<close>; the descriptors of the pipe are closed again.\<close>

definition fork_parent :: "int \<Rightarrow> byte \<Rightarrow> process \<Rightarrow> (int \<times> process) option" where
  "fork_parent pid c p = do {
     ASSERT (c = 99);
     Some (pid, upd_po (\<lambda>q. q\<lparr>childPids := childPids q @ [pid]\<rparr>) p) }"

text \<open>
  The child; \<open>e\<close> are the open files that \<^verbatim>\<open>epoll_create1\<close> makes. The calls on the pipe and of \<^verbatim>\<open>epoll_ctl\<close> are assertions that hold here: the exits at the
  labels \<^verbatim>\<open>childFail1\<close> and \<^verbatim>\<open>childFail2\<close> come after a failed assertion only.
\<close>

definition fork_server :: "sv_config \<Rightarrow> (nat \<Rightarrow> nat) \<Rightarrow> nat \<Rightarrow> process \<Rightarrow> process option" where
  "fork_server cfg e i p = do {
     let s = sv p i;
     ASSERT (-1 \<le> efd s);
     ASSERT (unat (numListeners s) = NUM_LISTENERS cfg);
     ASSERT (wq_first (waitingq s) = None);
     ASSERT (cl_first (used s) = None);
     ASSERT (efd s \<in> set (map fst (descrs p)));
     let p = close_descr (efd s) p;
     let n = new_fd (map fst (descrs p));
     let p = p\<lparr>descrs := (n, e i) # descrs p, watch := (watch p)(n := [])\<rparr>;
     let p = upd_sv i (\<lambda>s. s\<lparr>efd := n\<rparr>) p;
     ASSERT (\<forall>j < NUM_LISTENERS cfg. 0 \<le> l_fd (listener s j));
     Some (p\<lparr>watch := (watch p)(n := map (\<lambda>j. l_fd (listener s j)) (rev [0..<NUM_LISTENERS cfg]))\<rparr>) }"

definition fork_child :: "sv_config \<Rightarrow> (nat \<Rightarrow> nat) \<Rightarrow> int \<Rightarrow> process \<Rightarrow> (int \<times> process) option" where
  "fork_child cfg e tid p = do {
     ASSERT (po_servers (po p) \<noteq> None);
     p \<leftarrow> each_server (fork_server cfg e) (sv_next p) (po_servers (po p)) p;
     Some (0, upd_po (\<lambda>q. q\<lparr>masterTid := tid, childPids := [], exitStatus := 0\<rparr>) p) }"

subsection \<open>Options\<close>

definition PO_OPTION_COPY_LISTENERS :: uint32 where "PO_OPTION_COPY_LISTENERS = 1"
definition PO_OPTION_REPLACE_LISTENERS :: uint32 where "PO_OPTION_REPLACE_LISTENERS = 2"
definition PO_OPTION_FORK :: uint32 where "PO_OPTION_FORK = 4"

text \<open>What \<^verbatim>\<open>poTato_printOptionUsage\<close> and \<^verbatim>\<open>poTato_printOptionHelp\<close> print.\<close>

definition printOptionUsage :: "process \<Rightarrow> string" where
  "printOptionUsage p = (let f = doOptionsFlag (po p);
       c = (f OR PO_OPTION_COPY_LISTENERS \<noteq> 0); r = (f OR PO_OPTION_REPLACE_LISTENERS \<noteq> 0); k = (f OR PO_OPTION_FORK \<noteq> 0)
     in (if c then ''[--copy PID]'' else [])
        @ (if r then (if c then ''|'' else []) @ ''[--replace PID]'' else [])
        @ (if k then (if c \<or> r then ''|'' else []) @ ''[--fork NUM]'' else []))"

definition NL :: string where "NL = [CHR 0x0A]"

definition printOptionHelp :: "process \<Rightarrow> string" where
  "printOptionHelp p = (let f = doOptionsFlag (po p)
     in (if f OR PO_OPTION_COPY_LISTENERS \<noteq> 0 then NL
          @ ''  --copy PID     get a copy of listening sockets from server with PID.'' @ NL
          @ ''                 This option may be used any number of times'' @ NL else [])
        @ (if f OR PO_OPTION_REPLACE_LISTENERS \<noteq> 0 then NL
          @ ''  --fork NUM     fork NUM additional potato servers'' @ NL else [])
        @ (if f OR PO_OPTION_FORK \<noteq> 0 then NL
          @ ''  --replace PID  get a copy of listening sockets from server with PID'' @ NL
          @ ''                 and tell server with PID to exit.  This option may be'' @ NL
          @ ''                 used any number of times'' @ NL else []))"

text \<open>\<^verbatim>\<open>_poTato_getOptString\<close>: the value of the option, and \<^verbatim>\<open>argv\<close>, moved to the value where it is a word of its own.\<close>

definition getOptString :: "string \<Rightarrow> string list \<Rightarrow> (string \<times> string list) option" where
  "getOptString opt argv = (case argv of [] \<Rightarrow> None
     | a # rest \<Rightarrow>
         if a = opt \<and> rest \<noteq> [] then Some (hd rest, rest)
         else if take (length opt) a = opt \<and> Suc (length opt) < length a \<and> a ! length opt = CHR ''=''
         then Some (drop (Suc (length opt)) a, argv)
         else None)"

lemma getOptString_shorter: "getOptString opt (a # rest) = Some (s, argv') \<Longrightarrow> length (tl argv') < length (a # rest)"
  by (auto simp: getOptString_def split: if_splits)

text \<open>
  \<open>handoff\<close> is \<open>signalHandOff\<close> with what it gets from the kernel, \<open>other\<close> the user's function, with the
  next word if there is one and a state of its own.
\<close>

function option_loop :: "uint32 \<Rightarrow> (string \<Rightarrow> bool \<Rightarrow> process \<Rightarrow> (bool \<times> process) option) \<Rightarrow>
    (string \<Rightarrow> string option \<Rightarrow> 'w \<Rightarrow> bool \<times> 'w) option \<Rightarrow> string list \<Rightarrow> process \<times> 'w \<Rightarrow> (bool \<times> process \<times> 'w) option" where
  "option_loop flags handoff other argv (p, w) = (case argv of
       [] \<Rightarrow> Some (False, p, w)
     | a # rest \<Rightarrow>
         (case (if flags AND PO_OPTION_FORK \<noteq> 0 then getOptString ''--fork'' argv else None) of
           Some (s, argv') \<Rightarrow> option_loop flags handoff other (tl argv') (upd_po (\<lambda>q. q\<lparr>numForks := to_int (fst (strtol s))\<rparr>) p, w)
         | None \<Rightarrow>
         (case (if flags AND PO_OPTION_COPY_LISTENERS \<noteq> 0 then getOptString ''--copy'' argv else None) of
           Some (s, argv') \<Rightarrow> do { (e, p) \<leftarrow> handoff s False p; if e then Some (True, p, w) else option_loop flags handoff other (tl argv') (p, w) }
         | None \<Rightarrow>
         (case (if flags AND PO_OPTION_REPLACE_LISTENERS \<noteq> 0 then getOptString ''--replace'' argv else None) of
           Some (s, argv') \<Rightarrow> do { (e, p) \<leftarrow> handoff s True p; if e then Some (True, p, w) else option_loop flags handoff other (tl argv') (p, w) }
         | None \<Rightarrow>
         (case other of
           Some f \<Rightarrow> (let (e, w) = f a (case rest of [] \<Rightarrow> None | b # _ \<Rightarrow> Some b) w
              in if e then Some (True, p, w) else option_loop flags handoff other rest (p, w))
         | None \<Rightarrow> Some (True, p, w))))))"
  by pat_completeness auto

termination
  by (relation "measure (\<lambda>(fl, h, f, argv, s). length argv)") (auto dest!: getOptString_shorter split: if_splits)

declare option_loop.simps [simp del]

definition doOptions :: "uint32 \<Rightarrow> (string \<Rightarrow> bool \<Rightarrow> process \<Rightarrow> (bool \<times> process) option) \<Rightarrow>
    (string \<Rightarrow> string option \<Rightarrow> 'w \<Rightarrow> bool \<times> 'w) option \<Rightarrow> string list \<Rightarrow> process \<times> 'w \<Rightarrow> (bool \<times> process \<times> 'w) option" where
  "doOptions flags handoff other argv st = do {
     (e, p, w) \<leftarrow> option_loop flags handoff other argv st;
     (if e then Some (True, p, w)
      else Some (False, if numForks (po p) < 0 then upd_po (\<lambda>q. q\<lparr>numForks := 0\<rparr>) p else p, w)) }"

text \<open>
  \<open>fork\<close> is \<^verbatim>\<open>poTato_fork\<close> with what it gets from the kernel. \<^verbatim>\<open>numForks\<close> is 0 or what \<open>doOptions\<close> left in it
  when it succeeded, so not below 0.
\<close>

primrec fork_loop :: "(process \<Rightarrow> (int \<times> process) option) \<Rightarrow> nat \<Rightarrow> process \<Rightarrow> (bool \<times> process) option" where
  "fork_loop fork 0 p = Some (False, p)"
| "fork_loop fork (Suc n) p = do {
     (pid, p) \<leftarrow> fork p;
     (if pid = -1 then Some (True, p) else if pid = 0 then Some (False, p) else fork_loop fork n p) }"

definition doOptionsFork :: "(process \<Rightarrow> (int \<times> process) option) \<Rightarrow> process \<Rightarrow> (bool \<times> process) option" where
  "doOptionsFork fork p = fork_loop fork (nat (numForks (po p))) p"

end
