(* ===== verification/Handoff.thy ===== *)
theory Handoff
  imports Potato
begin

text \<open>
  Laws of the process of a potato server: the list of servers as a list, numbers as bytes, and what
  the two sides of a hand-off write and read.
\<close>

subsection \<open>Servers\<close>

definition servers_at :: "process \<Rightarrow> nat list \<Rightarrow> bool" where
  "servers_at p xs \<longleftrightarrow> (\<exists>bt. dll (sv_next p) (sv_prev p) (po_servers (po p)) bt xs)"

lemma addServer_at:
  assumes "servers_at p xs" and "s \<notin> set xs"
  shows "servers_at (addServer s p) (s # xs)"
proof -
  from assms(1) obtain bt where d: "dll (sv_next p) (sv_prev p) (po_servers (po p)) bt xs" by (auto simp: servers_at_def)
  show ?thesis
  proof (cases "po_servers (po p)")
    case None
    with d dll_None_iff have "xs = []" by blast
    then show ?thesis using None dll_single [of "sv_next p" s "sv_prev p"] by (auto simp: servers_at_def addServer_def Let_def)
  next
    case (Some h)
    with d dll_top_Some have h: "h \<in> set xs" by fastforce
    with assms(2) have "s \<noteq> h" by auto
    then have "(sv_prev p)(s := None, h := Some s) = ((sv_prev p)(h := Some s))(s := None)" by auto
    then show ?thesis using Some dll_push_top [OF d [unfolded Some] assms(2)] by (auto simp: servers_at_def addServer_def Let_def)
  qed
qed

lemma removeServer_at:
  assumes "servers_at p xs" and "s \<in> set xs"
  shows "\<exists>p'. removeServer s p = Some p' \<and> servers_at p' (remove1 s xs)"
proof -
  from assms(1) obtain bt where d: "dll (sv_next p) (sv_prev p) (po_servers (po p)) bt xs" by (auto simp: servers_at_def)
  from assms(2) obtain as bs where xs: "xs = as @ s # bs" "s \<notin> set as" by (meson split_list_first)
  note U = dll_unlink [OF d [unfolded xs(1)]]
  have rm: "remove1 s xs = as @ bs" using xs by (simp add: remove1_append)
  have pv: "sv_prev p s = (if as = [] then None else Some (last as))" by (rule dll_prev_elem [OF d [unfolded xs(1)]])
  have nx: "sv_next p s = (if bs = [] then None else Some (hd bs))" by (rule dll_next_elem [OF d [unfolded xs(1)]])
  have dist: "distinct (as @ s # bs)" using dll_distinct [OF d] xs by simp
  then have ns: "sv_next p s \<noteq> Some s" using nx hd_in_set by (auto split: if_splits)
  show ?thesis
  proof (cases "sv_prev p s")
    case None
    then have tp: "po_servers (po p) = Some s" using pv xs dll_top [OF d] by (auto split: if_splits)
    then show ?thesis using U None ns unfolding rm
      by (cases "sv_next p s") (auto simp: removeServer_def Let_def servers_at_def unlink_next_def unlink_end_def)
  next
    case (Some q)
    then show ?thesis using U ns unfolding rm
      by (cases "sv_next p s") (auto simp: removeServer_def Let_def servers_at_def unlink_next_def unlink_end_def)
  qed
qed

primrec fold_opt :: "(nat \<Rightarrow> 's \<Rightarrow> 's option) \<Rightarrow> nat list \<Rightarrow> 's \<Rightarrow> 's option" where
  "fold_opt f [] st = Some st"
| "fold_opt f (x # xs) st = do { st \<leftarrow> f x st; fold_opt f xs st }"

lemma each_server_chain: "chain nx s xs None \<Longrightarrow> each_server f nx s st = fold_opt f xs st"
proof (induction xs arbitrary: s st)
  case Nil
  then show ?case by (subst each_server.simps) simp
next
  case (Cons x xs)
  then show ?case by (subst each_server.simps) (cases "f x st"; auto)
qed

lemma each_server_at: "servers_at p xs \<Longrightarrow> each_server f (sv_next p) (po_servers (po p)) st = fold_opt f xs st"
  by (auto simp: servers_at_def dll_def intro: each_server_chain)

lemma all_down_at: "servers_at p xs \<Longrightarrow> all_down p = Some (\<forall>i \<in> set xs. listenersDown (sv p i))"
proof -
  have "fold_opt (\<lambda>i b. Some (b \<and> listenersDown (sv p i))) xs b = Some (b \<and> (\<forall>i \<in> set xs. listenersDown (sv p i)))" for b
    by (induction xs arbitrary: b) auto
  then show "servers_at p xs \<Longrightarrow> ?thesis" by (simp add: all_down_def each_server_at)
qed

subsection \<open>Numbers as bytes\<close>

lemma length_nat_bytes [simp]: "length (nat_bytes k n) = k"
  by (simp add: nat_bytes_def)

lemma nat_bytes_Suc: "nat_bytes (Suc k) n = of_nat n # nat_bytes k (n div 256)"
  by (simp add: nat_bytes_def map_upt_Suc div_mult2_eq mult.commute del: upt_Suc)

lemma bytes_nat_bytes: "bytes_nat (nat_bytes k n) = n mod 256 ^ k"
proof (induction k arbitrary: n)
  case (Suc k)
  have "unat (of_nat n :: byte) = n mod 256" by (simp add: unat_of_nat)
  moreover have "bytes_nat (b # bs) = unat b + 256 * bytes_nat bs" for b bs by (simp add: bytes_nat_def)
  ultimately show ?case using Suc by (simp add: nat_bytes_Suc mod_mult2_eq)
qed (simp add: nat_bytes_def bytes_nat_def)

subsection \<open>The old server\<close>

text \<open>
  What is passed for a listener: its address and its open file; for a server, its listeners from the
  last to the first; for all, one server after the other.
\<close>

definition passed_listener :: "process \<Rightarrow> nat \<Rightarrow> nat \<Rightarrow> nat \<times> nat" where
  "passed_listener p i j = (l_addr (listener (sv p i) j), the (map_of (descrs p) (l_fd (listener (sv p i) j))))"

definition passed_server :: "process \<Rightarrow> nat \<Rightarrow> (nat \<times> nat) list" where
  "passed_server p i = map (passed_listener p i) (rev [0..<unat (numListeners (sv p i))])"

definition passed :: "process \<Rightarrow> nat list \<Rightarrow> (nat \<times> nat) list" where
  "passed p xs = concat (map (passed_server p) xs)"

definition coded :: "(nat \<times> nat) list \<Rightarrow> byte list" where
  "coded L = concat (map (\<lambda>(a, d). nat_bytes 16 a @ [20]) L)"

lemma coded_simps [simp]: "coded [] = []" "coded ((a, d) # L) = nat_bytes 16 a @ 20 # coded L" "coded (L @ M) = coded L @ coded M"
  by (simp_all add: coded_def)

text \<open>\<open>sent fd L p q\<close>: from \<open>p\<close> to \<open>q\<close> the listeners \<open>L\<close> were written to \<open>fd\<close>, and nothing else changed.\<close>

definition sent :: "int \<Rightarrow> (nat \<times> nat) list \<Rightarrow> process \<Rightarrow> process \<Rightarrow> bool" where
  "sent fd L p q \<longleftrightarrow> out (pio q) fd = out (pio p) fd @ coded L \<and> in_flight q fd = in_flight p fd @ map snd L
     \<and> po q = po p \<and> sv q = sv p \<and> sv_next q = sv_next p \<and> sv_prev q = sv_prev p \<and> descrs q = descrs p"

lemma sent_trans: "sent fd L p q \<Longrightarrow> sent fd M q r \<Longrightarrow> sent fd (L @ M) p r"
  by (simp add: sent_def)

lemma sent_passed: "sent fd L p q \<Longrightarrow> passed_server q i = passed_server p i"
  by (simp add: sent_def passed_server_def passed_listener_def [abs_def])

lemma pass_one_sent:
  assumes "pass_one fd i j (False, p) = Some (b, q)"
  shows "\<not> b \<and> sent fd [passed_listener p i j] p q"
proof -
  from assms obtain e t where W: "writen fd (nat_bytes 16 (l_addr (listener (sv p i) j))) (pio p) = Some (e, t)"
    by (auto simp: pass_one_def bind_eq_Some_conv)
  have e: "\<not> e" and C: "out t fd = out (pio p) fd @ nat_bytes 16 (l_addr (listener (sv p i) j))"
    using writen_complete [OF W] by simp_all
  have S: "sendFd fd (l_fd (listener (sv p i) j)) (p\<lparr>pio := t\<rparr>) = Some (b, q)"
    using assms e unfolding pass_one_def prod.case W bind.bind_lunit Let_def by simp
  obtain a t' where K: "k_write fd [20] t = (a, t')" by fastforce
  from S obtain d where D: "map_of (descrs p) (l_fd (listener (sv p i) j)) = Some d" "a = WSome 1"
    "\<not> b" "q = p\<lparr>pio := t', in_flight := (in_flight p)(fd := in_flight p fd @ [d])\<rparr>"
    by (auto simp: sendFd_def bind_eq_Some_conv Let_def K)
  have "out t' fd = out t fd @ [20]" using k_write_props(4) [OF K] D(2) by simp
  then have "out t' fd = out (pio p) fd @ nat_bytes 16 (l_addr (listener (sv p i) j)) @ [20]" using C by (metis append.assoc)
  then show ?thesis unfolding D(4) sent_def passed_listener_def using D(1,3) by simp
qed

lemma pass_all_sent:
  "pass_all fd i js (False, p) = Some (b, q) \<Longrightarrow> \<not> b \<and> sent fd (map (passed_listener p i) js) p q"
proof (induction js arbitrary: p)
  case (Cons j js)
  then obtain b1 p1 where P: "pass_one fd i j (False, p) = Some (b1, p1)" "pass_all fd i js (b1, p1) = Some (b, q)"
    by (auto simp: bind_eq_Some_conv)
  from pass_one_sent [OF P(1)] have S: "\<not> b1" "sent fd [passed_listener p i j] p p1" by auto
  with Cons.IH [of p1] P(2) have "\<not> b \<and> sent fd (map (passed_listener p1 i) js) p1 q" by simp
  moreover have "passed_listener p1 i = passed_listener p i" using S(2) by (simp add: sent_def passed_listener_def [abs_def])
  ultimately show ?case using sent_trans [OF S(2)] by fastforce
qed (simp add: sent_def)

lemma pass_servers_sent:
  "fold_opt (pass_server fd) xs (False, p) = Some (b, q) \<Longrightarrow> \<not> b \<and> sent fd (passed p xs) p q"
proof (induction xs arbitrary: p)
  case (Cons x xs)
  then obtain b1 p1 where P: "pass_server fd x (False, p) = Some (b1, p1)" "fold_opt (pass_server fd) xs (b1, p1) = Some (b, q)"
    by (auto simp: bind_eq_Some_conv)
  from pass_all_sent [OF P(1) [unfolded pass_server_def]] have S: "\<not> b1" "sent fd (passed_server p x) p p1"
    by (simp_all add: passed_server_def)
  with Cons.IH [of p1] P(2) have "\<not> b \<and> sent fd (passed p1 xs) p1 q" by simp
  moreover have "passed_server p1 = passed_server p" using sent_passed [OF S(2)] by (rule ext)
  then have "passed p1 xs = passed p xs" by (simp add: passed_def)
  ultimately show ?case using sent_trans [OF S(2)] by (fastforce simp: passed_def)
qed (simp add: sent_def passed_def)

lemma numListeners_sum:
  "fold_opt (\<lambda>i n. Some (n + numListeners (sv p i))) xs n = Some (n + of_nat (length (passed p xs)))"
  by (induction xs arbitrary: n) (simp_all add: passed_def passed_server_def add.assoc)

text \<open>All that is written, and what becomes of the old server.\<close>

lemma passListeners_sent:
  assumes "servers_at p xs" and "passListeners sig fd c p = Some q"
  shows "out (pio q) fd = out (pio p) fd @ nat_bytes 4 (unat (of_nat (length (passed p xs)) :: uint32)) @ coded (passed p xs)
     \<and> in_flight q fd = in_flight p fd @ map snd (passed p xs)"
    and "sig = SIGUSR1 \<Longrightarrow> shutdownFd (po q) = fd \<and> descrs q = descrs p \<and> (\<forall>i \<in> set xs. \<not> isRunning (sv q i))"
    and "sig = SIGUSR2 \<Longrightarrow> shutdownFd (po q) = shutdownFd (po p) \<and> sv q = sv p \<and> descrs q = filter (\<lambda>d. fst d \<noteq> fd) (descrs p)"
proof -
  note E = each_server_at [OF assms(1)]
  from assms(2) obtain e t where W: "writen fd (nat_bytes 4 (unat (of_nat (length (passed p xs)) :: uint32))) (pio p) = Some (e, t)"
    and sig: "sig = SIGUSR1 \<or> sig = SIGUSR2"
    by (auto simp: passListeners_def E numListeners_sum bind_eq_Some_conv Let_def)
  note C = writen_complete [OF W]
  let ?p = "p\<lparr>pio := t\<rparr>"
  have at: "servers_at ?p xs" using assms(1) by (simp add: servers_at_def)
  note E2 = each_server_at [OF at, simplified]
  from assms(2) W C obtain b p1 where F: "fold_opt (pass_server fd) xs (False, ?p) = Some (b, p1)"
    by (auto simp: passListeners_def E E2 numListeners_sum bind_eq_Some_conv Let_def)
  from pass_servers_sent [OF F] have S: "\<not> b" "sent fd (passed ?p xs) ?p p1" by auto
  have pp: "passed ?p xs = passed p xs" by (simp add: passed_def passed_server_def [abs_def] passed_listener_def [abs_def])
  define stop where "stop = (\<lambda>i q. Some (upd_sv i (\<lambda>s. s\<lparr>isRunning := False\<rparr>) q))"
  define p2 where "p2 = upd_po (\<lambda>q. q\<lparr>shutdownFd := fd\<rparr>) (p1\<lparr>handlers := (handlers p1)(SIGUSR1 := SigIgnore, SIGUSR2 := SigIgnore)\<rparr>)"
  have p2: "servers_at p2 xs" using S(2) at by (simp add: sent_def servers_at_def p2_def)
  have R: "Some q = (if sig = SIGUSR2 then Some (close_descr fd p1) else fold_opt stop xs p2)"
    using assms(2) W C F S(1) each_server_at [OF p2, of stop]
    by (simp add: passListeners_def E E2 numListeners_sum Let_def setSignal_def p2_def stop_def ASSERT_bind_Some split: if_splits)
  have ne: "SIGUSR1 \<noteq> SIGUSR2" by (simp add: SIGUSR1_def SIGUSR2_def)
  have st: "fold_opt stop ys r = Some (r\<lparr>sv := (\<lambda>i. if i \<in> set ys then (sv r i)\<lparr>isRunning := False\<rparr> else sv r i)\<rparr>)" for ys r
  proof (induction ys arbitrary: r)
    case (Cons y ys)
    then show ?case by (auto simp: stop_def upd_def fun_eq_iff intro!: arg_cong [where f = "\<lambda>v. r\<lparr>sv := v\<rparr>"])
  qed simp
  show "out (pio q) fd = out (pio p) fd @ nat_bytes 4 (unat (of_nat (length (passed p xs)) :: uint32)) @ coded (passed p xs)
     \<and> in_flight q fd = in_flight p fd @ map snd (passed p xs)"
    using R S(2) C pp by (auto simp: st sent_def p2_def close_descr_def split: if_splits)
  show "sig = SIGUSR1 \<Longrightarrow> shutdownFd (po q) = fd \<and> descrs q = descrs p \<and> (\<forall>i \<in> set xs. \<not> isRunning (sv q i))"
    using R S(2) ne by (auto simp: st sent_def p2_def)
  show "sig = SIGUSR2 \<Longrightarrow> shutdownFd (po q) = shutdownFd (po p) \<and> sv q = sv p \<and> descrs q = filter (\<lambda>d. fst d \<noteq> fd) (descrs p)"
    using R S(2) by (auto simp: sent_def close_descr_def)
qed

subsection \<open>The new server\<close>

definition socket_of :: "nat \<times> nat \<Rightarrow> int \<Rightarrow> POTato_handoffSockets" where
  "socket_of l n = \<lparr>h_addr = nat_bytes 16 (fst l), h_fd = n\<rparr>"

lemma socket_set: "h\<lparr>h_addr := a, h_fd := n\<rparr> = \<lparr>h_addr = a, h_fd = n\<rparr>" for h :: POTato_handoffSockets
  by (cases h) simp

lemma receive_one_spec:
  assumes "given fd (pio q)" and "stream fd (pio q) = nat_bytes 16 (fst l) @ 20 # rest" and "in_flight q fd = snd l # ds"
    and "i < length (handoffSockets (po q))"
  shows "\<exists>n q'. receive_one fd i (False, q) = Some (False, q') \<and> n \<notin> fst ` set (descrs q)
     \<and> po q' = (po q)\<lparr>handoffSockets := (handoffSockets (po q))[i := socket_of l n]\<rparr> \<and> descrs q' = (n, snd l) # descrs q
     \<and> given fd (pio q') \<and> stream fd (pio q') = rest \<and> in_flight q' fd = ds"
proof -
  from readn_total [OF assms(1), of 16] assms(2) obtain t where
    R: "readn fd 16 (pio q) = Some (False, nat_bytes 16 (fst l), t)" "given fd t" "stream fd t = 20 # rest" by auto
  from k_read_given [OF R(2), of 1] R(3) obtain bs t' where K: "k_read fd 1 t = (RData bs, t')" "bs \<noteq> []" "given fd t'" by auto
  have "length bs \<le> 1" using k_read_props(8) [OF K(1) refl] .
  then have len: "length bs = 1" using K(2) by (cases bs) auto
  moreover have "stream fd t = bs @ stream fd t'" using k_read_props(5) [OF K(1)] by simp
  ultimately have rest: "stream fd t' = rest" using R(3) by (cases bs) auto
  let ?n = "new_fd (map fst (descrs q))"
  have n: "?n \<notin> fst ` set (descrs q)" "0 \<le> ?n" using new_fd [of "map fst (descrs q)"] by auto
  show ?thesis using R(1) K len rest n assms(3,4)
    by (intro exI [of _ ?n]) (auto simp: receive_one_def recvFd_def Let_def socket_of_def socket_set)
qed

lemma receive_all_spec:
  assumes "given fd (pio q)" and "stream fd (pio q) = coded L @ rest" and "in_flight q fd = map snd L @ ds"
    and "k + length L \<le> length (handoffSockets (po q))"
  shows "\<exists>ns q'. receive_all fd [k..<k + length L] (False, q) = Some (False, q') \<and> length ns = length L \<and> distinct ns
     \<and> set ns \<inter> fst ` set (descrs q) = {} \<and> descrs q' = rev (zip ns (map snd L)) @ descrs q
     \<and> po q' = (po q)\<lparr>handoffSockets := take k (handoffSockets (po q)) @ map2 socket_of L ns @ drop (k + length L) (handoffSockets (po q))\<rparr>
     \<and> given fd (pio q') \<and> stream fd (pio q') = rest \<and> in_flight q' fd = ds"
  using assms
proof (induction L arbitrary: k q)
  case Nil
  then show ?case by (intro exI [of _ "[]"] exI [of _ q]) simp
next
  case (Cons l L)
  let ?h = "handoffSockets (po q)"
  have st: "stream fd (pio q) = nat_bytes 16 (fst l) @ 20 # (coded L @ rest)" using Cons.prems(2) by (cases l) simp
  have fl: "in_flight q fd = snd l # (map snd L @ ds)" using Cons.prems(3) by simp
  have k: "k < length ?h" using Cons.prems(4) by simp
  from receive_one_spec [OF Cons.prems(1) st fl k] obtain n q1 where
    O: "receive_one fd k (False, q) = Some (False, q1)" "n \<notin> fst ` set (descrs q)"
      "po q1 = (po q)\<lparr>handoffSockets := ?h[k := socket_of l n]\<rparr>" "descrs q1 = (n, snd l) # descrs q"
      "given fd (pio q1)" "stream fd (pio q1) = coded L @ rest" "in_flight q1 fd = map snd L @ ds" by blast
  have k1: "Suc k + length L \<le> length (handoffSockets (po q1))" using O(3) Cons.prems(4) by simp
  from Cons.IH [OF O(5,6,7) k1] obtain ns q' where
    I: "receive_all fd [Suc k..<Suc k + length L] (False, q1) = Some (False, q')" "length ns = length L" "distinct ns"
      "set ns \<inter> fst ` set (descrs q1) = {}" "descrs q' = rev (zip ns (map snd L)) @ descrs q1"
      "po q' = (po q1)\<lparr>handoffSockets := take (Suc k) (handoffSockets (po q1)) @ map2 socket_of L ns
         @ drop (Suc k + length L) (handoffSockets (po q1))\<rparr>"
      "given fd (pio q')" "stream fd (pio q') = rest" "in_flight q' fd = ds" by blast
  have up: "[k..<k + length (l # L)] = k # [Suc k..<Suc k + length L]"
    using upt_conv_Cons [of k "k + length (l # L)"] by simp
  have "take (Suc k) (?h[k := socket_of l n]) = take k ?h @ [socket_of l n]" using k by (simp add: take_Suc_conv_app_nth)
  moreover have "drop (Suc k + length L) (?h[k := socket_of l n]) = drop (k + length (l # L)) ?h" by simp
  ultimately have po: "po q' = (po q)\<lparr>handoffSockets := take k ?h @ map2 socket_of (l # L) (n # ns) @ drop (k + length (l # L)) ?h\<rparr>"
    using I(6) O(3) by simp
  show ?case unfolding up
    by (intro exI [of _ "n # ns"] exI [of _ q']) (use O(1,2,4) I po in auto)
qed

lemma strtol_self: "\<not> snd (strtol s) \<and> to_int (fst (strtol s)) \<noteq> 0 \<Longrightarrow> s \<noteq> []"
  by (auto simp: strtol_def digits_value_def to_int_def)

text \<open>Reading what an old server wrote gives its listeners.\<close>

lemma signalHandOff_reads:
  assumes "given fd (pio q)" and "stream fd (pio q) = nat_bytes 4 (length L) @ coded L @ (if down then [END_CHAR] else []) @ rest"
    and "in_flight q fd = map snd L @ ds" and "length (handoffSockets (po q)) = unat (handedOver (po q))"
    and "length L + unat (handedOver (po q)) < 2 ^ 32" and "0 \<le> fd" and "\<forall>ok \<in> set setup. ok"
    and "\<not> snd (strtol pid)" "to_int (fst (strtol pid)) \<noteq> 0"
  shows "\<exists>q' ns. signalHandOff setup fd pid down q = Some (False, q') \<and> length ns = length L \<and> distinct ns
     \<and> set ns \<inter> fst ` set (descrs q) = {}
     \<and> handoffSockets (po q') = handoffSockets (po q) @ map2 socket_of L ns
     \<and> unat (handedOver (po q')) = unat (handedOver (po q)) + length L
     \<and> descrs q' = filter (\<lambda>d. fst d \<noteq> fd) (rev (zip ns (map snd L)) @ descrs q)"
proof -
  have lL: "length L < 2 ^ 32" using assms(5) by simp
  from readn_total [OF assms(1), of 4] assms(2) obtain t where
    R: "readn fd 4 (pio q) = Some (False, nat_bytes 4 (length L), t)" "given fd t"
      "stream fd t = coded L @ (if down then [END_CHAR] else []) @ rest" by auto
  have n: "bytes_nat (nat_bytes 4 (length L)) = length L" using lL by (simp add: bytes_nat_bytes)
  let ?n = "of_nat (length L) :: uint32"
  have un: "unat ?n = length L" using lL by (simp add: unat_of_nat)
  have tot: "unat (?n + handedOver (po q)) = unat (handedOver (po q)) + length L"
    using assms(5) un by (subst unat_plus_simple [THEN iffD1]) (auto simp: no_olen_add_nat)
  let ?k = "unat (handedOver (po q))"
  let ?new = "map (\<lambda>_. \<lparr>h_addr = [], h_fd = -1\<rparr>) [?k..<?k + length L]"
  define q1 where "q1 = upd_po (\<lambda>r. r\<lparr>handoffSockets := handoffSockets r @ ?new\<rparr>) (q\<lparr>pio := t\<rparr>)"
  have h1: "take (unat (?n + handedOver (po q))) (take ?k (handoffSockets (po q)) @ ?new) = handoffSockets (po q) @ ?new"
    using assms(4) by (simp add: tot)
  have q1: "given fd (pio q1)" "stream fd (pio q1) = coded L @ (if down then [END_CHAR] else []) @ rest"
    "in_flight q1 fd = map snd L @ ds" "?k + length L \<le> length (handoffSockets (po q1))"
    using R assms(3,4) by (simp_all add: q1_def)
  from receive_all_spec [OF q1] obtain ns q2 where
    A: "receive_all fd [?k..<?k + length L] (False, q1) = Some (False, q2)" "length ns = length L" "distinct ns"
      "set ns \<inter> fst ` set (descrs q1) = {}" "descrs q2 = rev (zip ns (map snd L)) @ descrs q1"
      "po q2 = (po q1)\<lparr>handoffSockets := take ?k (handoffSockets (po q1)) @ map2 socket_of L ns
         @ drop (?k + length L) (handoffSockets (po q1))\<rparr>"
      "given fd (pio q2)" "stream fd (pio q2) = (if down then [END_CHAR] else []) @ rest" by blast
  have hs: "handoffSockets (po q2) = handoffSockets (po q) @ map2 socket_of L ns" using A(6) assms(4) by (simp add: q1_def)
  define q3 where "q3 = upd_po (\<lambda>r. r\<lparr>handedOver := handedOver r + ?n\<rparr>) q2"
  have ho: "unat (handedOver (po q3)) = ?k + length L" using A(6) tot by (simp add: q3_def q1_def add.commute)
  have as: "ASSERT (\<forall>ok \<in> set setup. ok) = Some ()" using assms(7) by (simp add: ASSERT_def)
  note pid = strtol_self [of pid] assms(8,9)
  have run: "signalHandOff setup fd pid down q = (if \<not> down then Some (False, close_descr fd q3) else do {
            (e, c, t) \<leftarrow> readn fd 1 (pio q3);
            (if e \<or> c \<noteq> [END_CHAR] then Some (True, handoff_failed fd ?n (q3\<lparr>pio := t\<rparr>))
             else Some (False, close_descr fd (q3\<lparr>pio := t\<rparr>))) })"
    using pid assms(6) R(1) A(1) h1 tot unfolding signalHandOff_def q3_def q1_def
    by (simp add: Let_def as n cong: if_cong)
  show ?thesis
  proof (cases down)
    case False
    then have "signalHandOff setup fd pid down q = Some (False, close_descr fd q3)" using run by simp
    then show ?thesis using A(2-5) hs ho
      by (intro exI [of _ "close_descr fd q3"] exI [of _ ns]) (simp add: close_descr_def q3_def q1_def)
  next
    case True
    from readn_total [OF A(7), of 1] A(8) True obtain t' where "readn fd 1 (pio q2) = Some (False, [END_CHAR], t')" by auto
    then have "signalHandOff setup fd pid down q = Some (False, close_descr fd (q3\<lparr>pio := t'\<rparr>))"
      using run True by (simp add: q3_def)
    then show ?thesis using A(2-5) hs ho
      by (intro exI [of _ "close_descr fd (q3\<lparr>pio := t'\<rparr>)"] exI [of _ ns]) (simp add: close_descr_def q3_def q1_def)
  qed
qed

end
