(* ===== verification/PotatoProperties.thy ===== *)
theory PotatoProperties
  imports Handoff
begin

text \<open>
  The properties of the process of a potato server.
\<close>

subsection \<open>The list of servers\<close>

text \<open>
  Property C23. \<^verbatim>\<open>_poTato_addServer\<close> and \<^verbatim>\<open>_poTato_removeServer\<close> keep a well-formed doubly linked list and
  implement putting a server in front of a list and taking one out of it, wherever it is.
\<close>

theorem server_list:
  assumes "servers_at p xs"
  shows "(s \<notin> set xs \<longrightarrow> servers_at (addServer s p) (s # xs))
     \<and> (s \<in> set xs \<longrightarrow> (\<exists>p'. removeServer s p = Some p' \<and> servers_at p' (remove1 s xs)))"
  using addServer_at [OF assms] removeServer_at [OF assms] by blast

definition po0 :: POTato where
  "po0 = \<lparr>isInit = True, terminating = False, doOptionsFlag = 0, numForks = 0, handedOver = 0, po_servers = None,
     handoffSockets = [], shutdownFd = -1, exitStatus = 0, childPids = [], masterTid = 100\<rparr>"

definition no_io :: io where
  "no_io = \<lparr>rd = (\<lambda>_. []), wr = (\<lambda>_. []), out = (\<lambda>_. [])\<rparr>"

definition proc0 :: process where
  "proc0 = \<lparr>po = po0, sv = (\<lambda>_. zero_server), sv_next = (\<lambda>_. None), sv_prev = (\<lambda>_. None), pio = no_io, descrs = [],
     in_flight = (\<lambda>_. []), watch = (\<lambda>_. []), handlers = (\<lambda>_. SigDefault)\<rparr>"

lemma proc0_servers: "servers_at proc0 []"
  by (simp add: servers_at_def proc0_def po0_def)

theorem server_list_witness: "servers_at (addServer 3 proc0) [3]"
  using server_list [OF proc0_servers, of 3] by simp

subsection \<open>Handing over listening sockets\<close>

lemma map_of_received:
  assumes "length ns = length ds" and "distinct ns" and "set ns \<inter> fst ` set D = {}" and "fd \<in> fst ` set D" and "k < length ns"
  shows "map_of (filter (\<lambda>d. fst d \<noteq> fd) (rev (zip ns ds) @ D)) (ns ! k) = Some (ds ! k)"
proof -
  let ?Z = "rev (zip ns ds)"
  have "fd \<notin> set ns" using assms(3,4) by auto
  then have f: "filter (\<lambda>d. fst d \<noteq> fd) ?Z = ?Z" by (auto simp: filter_id_conv dest: set_zip_leftD)
  have "distinct (map fst ?Z)" using assms(1,2) by (simp add: rev_map [symmetric])
  moreover have "(ns ! k, ds ! k) \<in> set ?Z" using assms(1,5) by (auto simp: set_zip)
  ultimately have "map_of ?Z (ns ! k) = Some (ds ! k)" by simp
  then show ?thesis by (simp add: f map_add_dom_app_simps(1) domI)
qed

text \<open>
  Property C22. The hand-off is a round trip: a new server that reads what an old one wrote, in whatever
  pieces, has the address of every listener of every server of the old one, each with a descriptor
  of its own for the same open socket, after those it had already. When the old server was told to
  go, the new one waits for the end character.
\<close>

theorem handoff_roundtrip:
  assumes "servers_at p xs" and "passListeners sig fd ok p = Some p'" and "out (pio p) fd = []" and "in_flight p fd = []"
    and "given rfd (pio q)" and "stream rfd (pio q) = out (pio p') fd @ (if sig = SIGUSR1 then [END_CHAR] else [])"
    and "in_flight q rfd = in_flight p' fd" and "rfd \<in> fst ` set (descrs q)" and "0 \<le> rfd"
    and "length (handoffSockets (po q)) = unat (handedOver (po q))" and "length (passed p xs) + unat (handedOver (po q)) < 2 ^ 32"
    and "\<forall>ok \<in> set setup. ok" and "\<not> snd (strtol pid)" and "to_int (fst (strtol pid)) \<noteq> 0"
  shows "\<exists>q' ns. signalHandOff setup rfd pid (sig = SIGUSR1) q = Some (False, q') \<and> length ns = length (passed p xs)
     \<and> distinct ns \<and> set ns \<inter> fst ` set (descrs q) = {}
     \<and> handoffSockets (po q') = handoffSockets (po q) @ map2 socket_of (passed p xs) ns
     \<and> (\<forall>k < length ns. map_of (descrs q') (ns ! k) = Some (snd (passed p xs ! k)))"
proof -
  let ?L = "passed p xs"
  have lL: "length ?L < 2 ^ 32" using assms(11) by simp
  then have un: "unat (of_nat (length ?L) :: uint32) = length ?L" by (simp add: unat_of_nat)
  note S = passListeners_sent(1) [OF assms(1,2), unfolded un assms(3,4)]
  have st: "stream rfd (pio q) = nat_bytes 4 (length ?L) @ coded ?L @ (if sig = SIGUSR1 then [END_CHAR] else []) @ []"
    and fl: "in_flight q rfd = map snd ?L @ []" using S assms(6,7) by simp_all
  from signalHandOff_reads [OF assms(5) st fl assms(10,11,9,12-14)] obtain q' ns where
    Q: "signalHandOff setup rfd pid (sig = SIGUSR1) q = Some (False, q')" "length ns = length ?L" "distinct ns"
      "set ns \<inter> fst ` set (descrs q) = {}" "handoffSockets (po q') = handoffSockets (po q) @ map2 socket_of ?L ns"
      "descrs q' = filter (\<lambda>d. fst d \<noteq> rfd) (rev (zip ns (map snd ?L)) @ descrs q)" by blast
  have "map_of (descrs q') (ns ! k) = Some (snd (?L ! k))" if "k < length ns" for k
    using map_of_received [of ns "map snd ?L" "descrs q" rfd k] Q that assms(8) by simp
  with Q show ?thesis by blast
qed

text \<open>One server with one listener, whose socket is the open file 7.\<close>

definition old_server :: process where
  "old_server = addServer 0 (proc0\<lparr>sv := (\<lambda>_. zero_server\<lparr>numListeners := 1,
       listener := (\<lambda>_. zero_listener\<lparr>l_fd := 4, l_addr := 2\<rparr>)\<rparr>),
     pio := no_io\<lparr>wr := (\<lambda>_. [WSome 4, WSome 16, WSome 1])\<rparr>, descrs := [(4, 7)]\<rparr>)"

lemma old_server_at: "servers_at old_server [0]"
  using addServer_at [of _ "[]" 0] by (simp add: old_server_def servers_at_def proc0_def po0_def)

definition new_server :: process where
  "new_server = proc0\<lparr>descrs := [(3, 1)], in_flight := (\<lambda>_. [7]),
     pio := no_io\<lparr>rd := (\<lambda>_. [RData [1], RData ([0, 0, 0] @ nat_bytes 16 2 @ [20])])\<rparr>\<rparr>"

lemma writen_whole:
  assumes "wr s fd = WSome (length bs) # as" and "bs \<noteq> []"
  shows "writen fd bs s = Some (False, s\<lparr>wr := (wr s)(fd := as), out := (out s)(fd := out s fd @ bs)\<rparr>)"
  using assms by (subst writen.simps) (simp add: k_write_def writen.simps [of _ "[]"])

lemma old_server_simps:
  "po old_server = po0\<lparr>po_servers := Some 0\<rparr>" "numListeners (sv old_server 0) = 1" "l_fd (listener (sv old_server 0) 0) = 4"
  "l_addr (listener (sv old_server 0) 0) = 2" "descrs old_server = [(4, 7)]" "in_flight old_server 9 = []"
  "out (pio old_server) 9 = []" "wr (pio old_server) 9 = [WSome 4, WSome 16, WSome 1]" "sv_next old_server 0 = None"
  by (simp_all add: old_server_def addServer_def Let_def proc0_def po0_def no_io_def zero_server_def zero_listener_def)

lemma old_server_passed: "passed old_server [0] = [(2, 7)]"
  by (simp add: passed_def passed_server_def passed_listener_def old_server_simps)

lemma old_server_passes: "\<exists>p'. passListeners SIGUSR2 9 True old_server = Some p'"
proof -
  let ?s = "pio old_server"
  let ?t = "?s\<lparr>wr := (wr ?s)(9 := [WSome 16, WSome 1]), out := (out ?s)(9 := nat_bytes 4 1)\<rparr>"
  let ?u = "?t\<lparr>wr := (wr ?t)(9 := [WSome 1]), out := (out ?t)(9 := out ?t 9 @ nat_bytes 16 2)\<rparr>"
  have ne: "nat_bytes (Suc k) n \<noteq> []" for k n by (simp add: nat_bytes_Suc)
  have w: "writen 9 (nat_bytes 4 1) ?s = Some (False, ?t)" "writen 9 (nat_bytes 16 2) ?t = Some (False, ?u)"
    using writen_whole [of ?s 9 "nat_bytes 4 1"] writen_whole [of ?t 9 "nat_bytes 16 2"] ne [of 3 1] ne [of 15 2]
    by (simp_all add: old_server_simps)
  have one: "\<exists>r. pass_server 9 0 (False, old_server\<lparr>pio := ?t\<rparr>) = Some (False, r)"
    using w(2) by (simp add: pass_server_def pass_one_def sendFd_def k_write_def old_server_simps)
  then obtain r where r: "pass_server 9 0 (False, old_server\<lparr>pio := ?t\<rparr>) = Some (False, r)" by blast
  have nx: "po_servers (po old_server) = Some 0" "sv_next old_server 0 = None" by (simp_all add: old_server_simps)
  show ?thesis
    by (simp add: passListeners_def each_server.simps [of _ _ "Some 0"] each_server.simps [of _ _ None] nx old_server_simps(2) w(1) r
        SIGUSR2_def Let_def del: One_nat_def)
qed

theorem handoff_roundtrip_witness:
  "\<exists>q' n. signalHandOff [] 3 ''42'' False new_server = Some (False, q')
     \<and> handoffSockets (po q') = [\<lparr>h_addr = nat_bytes 16 2, h_fd = n\<rparr>] \<and> map_of (descrs q') n = Some 7"
proof -
  from old_server_passes obtain p' where P: "passListeners SIGUSR2 9 True old_server = Some p'" by blast
  have S: "out (pio p') 9 = nat_bytes 4 1 @ coded [(2, 7)]" "in_flight p' 9 = [7]"
    using passListeners_sent(1) [OF old_server_at P] by (simp_all add: old_server_passed old_server_simps)
  have ne: "(SIGUSR2 = SIGUSR1) = False" by (simp add: SIGUSR1_def SIGUSR2_def)
  have n4: "nat_bytes 4 1 = [1, 0, 0, 0]" by (simp add: nat_bytes_def upt_rec)
  have n: "given 3 (pio new_server)" "stream 3 (pio new_server) = out (pio p') 9 @ (if SIGUSR2 = SIGUSR1 then [END_CHAR] else [])"
    "in_flight new_server 3 = in_flight p' 9" "3 \<in> fst ` set (descrs new_server)" "handoffSockets (po new_server) = []"
    "handedOver (po new_server) = 0"
    unfolding S ne n4 by (simp_all add: new_server_def given_def stream_def no_io_def proc0_def po0_def)
  have pid: "strtol ''42'' = (42, False)"
    by (simp add: strtol_def digits_value_def is_digit_def is_space_def)
  have H: "length (handoffSockets (po new_server)) = unat (handedOver (po new_server))"
    "length (passed old_server [0]) + unat (handedOver (po new_server)) < 2 ^ 32"
    "\<forall>ok \<in> set []. ok" "\<not> snd (strtol ''42'')" "to_int (fst (strtol ''42'')) \<noteq> 0"
    by (simp_all add: n old_server_passed pid to_int_def)
  from handoff_roundtrip [OF old_server_at P old_server_simps(7,6) n(1-4) _ H]
  obtain q' ns where Q: "signalHandOff [] 3 ''42'' False new_server = Some (False, q')" "length ns = 1"
    "handoffSockets (po q') = map2 socket_of [(2, 7)] ns" "\<forall>k < length ns. map_of (descrs q') (ns ! k) = Some (snd ([(2, 7)] ! k))"
    unfolding ne old_server_passed n(5) by fastforce
  then obtain m where "ns = [m]" by (cases ns) auto
  with Q show ?thesis by (intro exI [of _ q'] exI [of _ m]) (simp add: socket_of_def)
qed

text \<open>
  When an old server handed over two open sockets with the same port, the one for the wanted
  address after one for another address, \<^verbatim>\<open>_poTato_findListenerFd\<close> closes the first, finds nothing,
  and leaves the one that was wanted unused.
\<close>

theorem handoff_same_port_lost:
  assumes "isInit (po p)" and "masterTid (po p) = tid" and "handedOver (po p) = 2" and "handoffSockets (po p) = [h1, h2]"
    and "h_fd h1 \<noteq> -1" and "getPort (h_addr h1) = Some port" and "getPort addr = Some port" and "h_addr h1 \<noteq> addr"
    and "h_addr h2 = addr"
  shows "\<exists>p'. findListenerFd tid addr p = Some (-1, p') \<and> handoffSockets (po p') = [h1\<lparr>h_fd := -1\<rparr>, h2]
     \<and> descrs p' = filter (\<lambda>d. fst d \<noteq> h_fd h1) (descrs p)"
  using assms by (simp add: findListenerFd_def upt_rec close_descr_def)

definition addr_a :: "byte list" where "addr_a = [2, 0, 13, 5, 127, 0, 0, 1] @ replicate 8 0"
definition addr_b :: "byte list" where "addr_b = [2, 0, 13, 5, 10, 0, 0, 1] @ replicate 8 0"

theorem handoff_same_port_lost_witness:
  "\<exists>p'. findListenerFd 100 addr_b (upd_po (\<lambda>q. q\<lparr>handedOver := 2,
       handoffSockets := [\<lparr>h_addr = addr_a, h_fd = 5\<rparr>, \<lparr>h_addr = addr_b, h_fd = 6\<rparr>]\<rparr>) proc0) = Some (-1, p')"
  using handoff_same_port_lost [of "upd_po (\<lambda>q. q\<lparr>handedOver := 2,
       handoffSockets := [\<lparr>h_addr = addr_a, h_fd = 5\<rparr>, \<lparr>h_addr = addr_b, h_fd = 6\<rparr>]\<rparr>) proc0" 100
      "\<lparr>h_addr = addr_a, h_fd = 5\<rparr>" "\<lparr>h_addr = addr_b, h_fd = 6\<rparr>" "[13, 5]" addr_b]
  by (auto simp: proc0_def po0_def getPort_def addr_a_def addr_b_def)

text \<open>
  The new server is told to go on before the old one has closed its listeners:
  \<^verbatim>\<open>poServer_shutdown\<close> of the last server sends the end character first. The comments in potato.c say
  that all listeners must be closed before.
\<close>

theorem handoff_signals_before_closing:
  assumes "servers_at p xs" and "\<forall>k \<in> set xs. k \<noteq> i \<longrightarrow> listenersDown (sv p k)" and "shutdownFd (po p) \<noteq> -1"
    and "shutdown_begin cfg i p = Some p'"
  shows "out (pio p') (shutdownFd (po p)) = out (pio p) (shutdownFd (po p)) @ [END_CHAR]
     \<and> shutdownFd (po p') = -1 \<and> listener (sv p' i) = listener (sv p i)
     \<and> (\<forall>fd \<in> fst ` set (descrs p). fd \<noteq> shutdownFd (po p) \<longrightarrow> fd \<in> fst ` set (descrs p'))"
proof -
  let ?p = "upd_sv i (\<lambda>s. s\<lparr>listenersDown := True\<rparr>) p"
  have at: "servers_at ?p xs" using assms(1) by (simp add: servers_at_def)
  have "\<forall>k \<in> set xs. listenersDown (sv ?p k)" using assms(2) by (auto simp: upd_apply)
  then have down: "all_down ?p = Some True" using all_down_at [OF at] by simp
  from assms(4) have "checkSignalNewServerContinue ?p = Some p'" by (simp add: shutdown_begin_def ASSERT_bind_Some)
  with assms(3) down obtain e t where W: "writen (shutdownFd (po p)) [END_CHAR] (pio p) = Some (e, t)"
    and p': "p' = upd_po (\<lambda>q. q\<lparr>shutdownFd := -1\<rparr>) (close_descr (shutdownFd (po p)) (?p\<lparr>pio := t\<rparr>))"
    by (auto simp: checkSignalNewServerContinue_def bind_eq_Some_conv)
  show ?thesis unfolding p' using writen_complete [OF W] by (auto simp: close_descr_def)
qed

definition last_server :: process where
  "last_server = addServer 0 (upd_po (\<lambda>q. q\<lparr>shutdownFd := 9\<rparr>) (proc0\<lparr>sv := (\<lambda>_. zero_server\<lparr>numListeners := 1, efd := 3,
       listener := (\<lambda>_. zero_listener\<lparr>l_fd := 4, l_addr := 2\<rparr>)\<rparr>),
     pio := no_io\<lparr>wr := (\<lambda>_. [WSome 1])\<rparr>, descrs := [(4, 7), (9, 1)]\<rparr>))"

definition one_listener :: sv_config where
  "one_listener = \<lparr>NUM_LISTENERS = 1, MAX_CONNECTIONS = 1, LONG_TIMEOUT = -1, WAIT_TIMEOUT = -1\<rparr>"

theorem handoff_signals_before_closing_witness:
  "\<exists>p'. shutdown_begin one_listener 0 last_server = Some p' \<and> out (pio p') 9 = [END_CHAR] \<and> 4 \<in> fst ` set (descrs p')"
proof -
  have at: "servers_at last_server [0]"
    using addServer_at [of _ "[]" 0] by (simp add: last_server_def servers_at_def proc0_def po0_def)
  have f: "shutdownFd (po last_server) = 9" "out (pio last_server) 9 = []" "descrs last_server = [(4, 7), (9, 1)]"
    "efd (sv last_server 0) = 3" "numListeners (sv last_server 0) = 1" "wr (pio last_server) 9 = [WSome 1]"
    by (simp_all add: last_server_def addServer_def Let_def proc0_def po0_def no_io_def)
  let ?p = "upd_sv 0 (\<lambda>s. s\<lparr>listenersDown := True\<rparr>) last_server"
  have "servers_at ?p [0]" using at by (simp add: servers_at_def)
  then have down: "all_down ?p = Some True" using all_down_at by fastforce
  have w: "\<exists>t. writen 9 [END_CHAR] (pio last_server) = Some (False, t)"
    using writen_whole [of "pio last_server" 9 "[END_CHAR]"] f by simp
  then obtain p' where P: "shutdown_begin one_listener 0 last_server = Some p'"
    using down f by (auto simp: shutdown_begin_def checkSignalNewServerContinue_def one_listener_def)
  from handoff_signals_before_closing [OF at _ _ P] f P show ?thesis by simp
qed

subsection \<open>Children\<close>

lemma wait_loop_intr: "wait_loop (replicate k WaitIntr @ a # as) = wait_loop (a # as)"
  by (induction k) simp_all

definition quiet_run :: "(nat \<Rightarrow> nat) \<Rightarrow> (nat \<Rightarrow> nat) \<Rightarrow> nat \<Rightarrow> child_run" where
  "quiet_run k n i = \<lparr>early = [], waits = replicate (k i) WaitIntr @ [WaitExited (n i)], late = []\<rparr>"

lemma remove_child_quiet:
  assumes "i < length (childPids (po p))" and "0 < childPids (po p) ! i" and "exitStatus (po p) \<le> 255"
  shows "remove_child (quiet_run k n i) i p = Some (upd_po (\<lambda>q. q\<lparr>exitStatus := min 255 (exitStatus q + int (n i)),
     childPids := (childPids q)[i := -1]\<rparr>) p)"
  using assms by (auto simp: remove_child_def quiet_run_def wait_loop_intr Let_def min_def)

lemma remove_loop_quiet:
  "distinct js \<Longrightarrow> \<forall>j \<in> set js. j < length (childPids (po p)) \<and> 0 < childPids (po p) ! j \<Longrightarrow> exitStatus (po p) \<le> 255 \<Longrightarrow>
     \<exists>cs. remove_loop (quiet_run k n) js p = Some (upd_po (\<lambda>q. q\<lparr>exitStatus := min 255 (exitStatus q + (\<Sum>j\<leftarrow>js. int (n j))), childPids := cs\<rparr>) p)"
proof (induction js arbitrary: p)
  case Nil
  then show ?case by (intro exI [of _ "childPids (po p)"]) (simp add: min_def)
next
  case (Cons j js)
  let ?p = "upd_po (\<lambda>q. q\<lparr>exitStatus := min 255 (exitStatus q + int (n j)), childPids := (childPids q)[j := -1]\<rparr>) p"
  have "\<exists>cs. remove_loop (quiet_run k n) js ?p = Some (upd_po (\<lambda>q. q\<lparr>exitStatus := min 255 (exitStatus q + (\<Sum>j\<leftarrow>js. int (n j))), childPids := cs\<rparr>) ?p)"
    by (rule Cons.IH) (use Cons.prems in \<open>auto simp: nth_list_update\<close>)
  moreover have nn: "0 \<le> (\<Sum>j\<leftarrow>js. int (n j))" by (rule sum_list_nonneg) auto
  have "min 255 (min 255 (e + int (n j)) + (\<Sum>j\<leftarrow>js. int (n j))) = min 255 (e + (\<Sum>j\<leftarrow>j # js. int (n j)))" for e
    using nn by (auto simp: min_def)
  ultimately show ?case using remove_child_quiet [of j p k n] Cons.prems by auto
qed

text \<open>
  If no child's signal is handled meanwhile, \<^verbatim>\<open>poTato_removeChildren\<close> waits for every child,
  however often it is interrupted, and returns the sum of the exit statuses, 255 at most.
\<close>

theorem children_status_sum:
  assumes "isInit (po p)" and "masterTid (po p) = tid" and "childPids (po p) \<noteq> []" and "\<forall>pid \<in> set (childPids (po p)). 0 < pid"
    and "exitStatus (po p) \<le> 255"
  shows "\<exists>p'. removeChildren tid (quiet_run k n) p
     = Some (min 255 (exitStatus (po p) + (\<Sum>i\<leftarrow>[0..<length (childPids (po p))]. int (n i))), p') \<and> childPids (po p') = []"
proof -
  have "\<exists>cs. remove_loop (quiet_run k n) (rev [0..<length (childPids (po p))]) p = Some (upd_po (\<lambda>q. q\<lparr>exitStatus :=
      min 255 (exitStatus q + (\<Sum>j\<leftarrow>rev [0..<length (childPids (po p))]. int (n j))), childPids := cs\<rparr>) p)"
    by (rule remove_loop_quiet) (use assms(4,5) in auto)
  then show ?thesis using assms(1-3) by (auto simp: removeChildren_def rev_map [symmetric] sum_list_rev)
qed

definition parent :: process where
  "parent = upd_po (\<lambda>q. q\<lparr>childPids := [200, 201]\<rparr>) proc0"

theorem children_status_sum_witness:
  "\<exists>p'. removeChildren 100 (quiet_run (\<lambda>_. 3) (\<lambda>i. i + 2)) parent = Some (5, p')"
  using children_status_sum [of parent 100 "\<lambda>_. 3" "\<lambda>i. i + 2"] by (auto simp: parent_def proc0_def po0_def upt_rec)

text \<open>
  The exit status of a child is lost when the handler of its signal runs while the parent
  waits: the handler takes the process id out of the array, and does not add the status itself.
  potato.h says the result is the sum of the return codes.
\<close>

theorem child_status_lost:
  assumes "isInit (po p)" and "masterTid (po p) = tid" and "childPids (po p) = [pid]" and "0 < pid"
  shows "\<exists>p'. removeChildren tid (\<lambda>_. \<lparr>early = [], waits = [WaitExited n], late = [\<lparr>si_pid = pid, si_code = CLD_EXITED\<rparr>]\<rparr>) p
     = Some (exitStatus (po p), p')"
  using assms by (simp add: removeChildren_def remove_child_def sigChildHandler_def removePidFromChildList_def)

theorem child_status_lost_witness:
  "\<exists>p'. removeChildren 100 (\<lambda>_. \<lparr>early = [], waits = [WaitExited 3], late = [\<lparr>si_pid = 200, si_code = CLD_EXITED\<rparr>]\<rparr>)
     (upd_po (\<lambda>q. q\<lparr>childPids := [200]\<rparr>) proc0) = Some (0, p')"
  using child_status_lost [of "upd_po (\<lambda>q. q\<lparr>childPids := [200]\<rparr>) proc0" 100 200 3] by (simp add: proc0_def po0_def)

subsection \<open>Options\<close>

definition known_options :: "(string \<times> uint32) list" where
  "known_options = [(''--fork'', PO_OPTION_FORK), (''--copy'', PO_OPTION_COPY_LISTENERS), (''--replace'', PO_OPTION_REPLACE_LISTENERS)]"

text \<open>
  Property C25. The two ways to write an option with its value, \<^verbatim>\<open>--opt VALUE\<close> and \<^verbatim>\<open>--opt=VALUE\<close>, mean the
  same, whatever is before and after them.
\<close>

theorem option_forms:
  assumes "(opt, flag) \<in> set known_options" and "flags AND flag \<noteq> 0" and "v \<noteq> []"
  shows "option_loop flags handoff other ((opt @ CHR ''='' # v) # rest) st = option_loop flags handoff other (opt # v # rest) st"
proof (cases st)
  case (Pair p w)
  note L = option_loop.simps [of flags handoff other "(opt @ CHR ''='' # v) # rest" p w] option_loop.simps [of flags handoff other "opt # v # rest" p w]
  have own: "getOptString opt ((opt @ CHR ''='' # v) # rest) = Some (v, (opt @ CHR ''='' # v) # rest)"
    "getOptString opt (opt # v # rest) = Some (v, v # rest)" using assms(3) by (simp_all add: getOptString_def)
  consider "opt = ''--fork''" "flag = PO_OPTION_FORK" | "opt = ''--copy''" "flag = PO_OPTION_COPY_LISTENERS"
    | "opt = ''--replace''" "flag = PO_OPTION_REPLACE_LISTENERS" using assms(1) by (auto simp: known_options_def)
  then show ?thesis
  proof cases
    case 1
    show ?thesis unfolding Pair L using own assms(2) 1 by (simp cong: if_cong)
  next
    case 2
    have "getOptString ''--fork'' ((opt @ CHR ''='' # v) # rest) = None" "getOptString ''--fork'' (opt # v # rest) = None"
      using 2 by (simp_all add: getOptString_def)
    then show ?thesis unfolding Pair L using own assms(2) 2 by (simp cong: if_cong)
  next
    case 3
    have "getOptString ''--fork'' ((opt @ CHR ''='' # v) # rest) = None" "getOptString ''--fork'' (opt # v # rest) = None"
      "getOptString ''--copy'' ((opt @ CHR ''='' # v) # rest) = None" "getOptString ''--copy'' (opt # v # rest) = None"
      using 3 by (simp_all add: getOptString_def)
    then show ?thesis unfolding Pair L using own assms(2) 3 by (simp cong: if_cong)
  qed
qed

theorem option_forms_witness:
  "option_loop PO_OPTION_FORK (\<lambda>_ _ _. None) None [''--fork=2''] (proc0, ()) = option_loop PO_OPTION_FORK (\<lambda>_ _ _. None) None [''--fork'', ''2''] (proc0, ())"
  using option_forms [of "''--fork''" PO_OPTION_FORK PO_OPTION_FORK "''2''" "\<lambda>_ _ _. None" None "[]" "(proc0, ())"]
  by (simp add: known_options_def PO_OPTION_FORK_def)

end
