(* ===== verification/Hash.thy ===== *)
theory Hash
  imports Prelude
begin

text \<open>
  Hashing in src/potato_old: murmurHash.c, the random numbers of random.h made from it, the hash
  table lookups of hashTable.h and the random strings of randSequence.c.
\<close>

subsection \<open>\<open>poMurmurHash\<close>\<close>

definition C1 :: uint32 where "C1 = 0xcc9e2d51"
definition C2 :: uint32 where "C2 = 0x1b873593"

text \<open>\<^verbatim>\<open>(k << r) | (k >> (32 - r))\<close>, a 32 bit word in memory, and one read from memory, lowest byte first.\<close>

definition rotl32 :: "nat \<Rightarrow> uint32 \<Rightarrow> uint32" where
  "rotl32 r k = push_bit r k OR drop_bit (32 - r) k"

definition le_bytes :: "nat \<Rightarrow> 'a::len word \<Rightarrow> byte list" where
  "le_bytes n w = map (\<lambda>i. ucast (drop_bit (8 * i) w)) [0..<n]"

definition le_word :: "byte \<Rightarrow> byte \<Rightarrow> byte \<Rightarrow> byte \<Rightarrow> uint32" where
  "le_word a b c d = ucast a OR push_bit 8 (ucast b) OR push_bit 16 (ucast c) OR push_bit 24 (ucast d)"

definition mix_block :: "uint32 \<Rightarrow> uint32" where
  "mix_block k = rotl32 15 (k * C1) * C2"

definition mix_hash :: "uint32 \<Rightarrow> uint32 \<Rightarrow> uint32" where
  "mix_hash k hash = rotl32 13 (hash XOR mix_block k) * 5 + 0xe6546b64"

text \<open>The loop over the whole blocks leaves the last bytes, fewer than four.\<close>

fun murmur_blocks :: "byte list \<Rightarrow> uint32 \<Rightarrow> uint32 \<times> byte list" where
  "murmur_blocks (a # b # c # d # key) hash = murmur_blocks key (mix_hash (le_word a b c d) hash)"
| "murmur_blocks tail hash = (hash, tail)"

fun murmur_tail :: "byte list \<Rightarrow> uint32 \<Rightarrow> uint32" where
  "murmur_tail [] hash = hash"
| "murmur_tail [a] hash = hash XOR mix_block (ucast a)"
| "murmur_tail [a, b] hash = hash XOR mix_block (push_bit 8 (ucast b) XOR ucast a)"
| "murmur_tail (a # b # c # key) hash = hash XOR mix_block (push_bit 16 (ucast c) XOR push_bit 8 (ucast b) XOR ucast a)"

definition fmix :: "uint32 \<Rightarrow> uint32" where
  "fmix hash = (let hash = hash XOR drop_bit 16 hash;
       hash = hash * 0x85ebca6b;
       hash = hash XOR drop_bit 13 hash;
       hash = hash * 0xc2b2ae35
     in hash XOR drop_bit 16 hash)"

definition poMurmurHash :: "byte list \<Rightarrow> uint32 \<Rightarrow> uint32" where
  "poMurmurHash key hash = (let (hash, tail) = murmur_blocks key hash
     in fmix (murmur_tail tail hash XOR of_nat (length key)))"

subsection \<open>Random numbers\<close>

record PORandom =
  seed :: uint32
  counter :: uint32

definition poRandom_init :: "uint32 \<Rightarrow> PORandom" where
  "poRandom_init s = \<lparr>seed = s, counter = 0\<rparr>"

definition poRandom_get :: "PORandom \<Rightarrow> uint32 \<times> PORandom" where
  "poRandom_get r = (let r = r\<lparr>counter := counter r + 1\<rparr> in (poMurmurHash (le_bytes 4 (counter r)) (seed r), r))"

primrec draws :: "nat \<Rightarrow> PORandom \<Rightarrow> uint32 list" where
  "draws 0 r = []"
| "draws (Suc n) r = (let (x, r) = poRandom_get r in x # draws n r)"

text \<open>Each step of the hash can be undone.\<close>

lemma rotl32_rotl:
  assumes "0 < r" "r < 32"
  shows "rotl32 r w = word_rotl r w"
proof (rule bit_word_eqI)
  fix n assume "n < LENGTH(32)"
  then have n: "n < 32" by simp
  have "(n + (32 - r)) mod 32 = (if n < r then n + 32 - r else n - r)"
  proof (cases "n < r")
    case False
    then have "n + (32 - r) = 32 + (n - r)" using assms by simp
    then have "(n + (32 - r)) mod 32 = (32 + (n - r)) mod 32" by (rule arg_cong)
    also have "\<dots> = n - r" using n by (subst mod_add_self1) simp
    finally show ?thesis using False by simp
  qed (use assms in simp)
  moreover have L: "LENGTH(32) = 32" "r mod 32 = r" using assms by simp_all
  then have "bit (word_rotl r w) n \<longleftrightarrow> bit w ((n + (32 - r)) mod 32)"
    using bit_word_rotl_iff [of r w n] n unfolding L by simp
  ultimately have R: "bit (word_rotl r w) n \<longleftrightarrow> bit w (if n < r then n + 32 - r else n - r)" by simp
  have big: "bit w m \<Longrightarrow> m < 32" for m using bit_imp_le_length [of w m] by simp
  have "bit (rotl32 r w) n \<longleftrightarrow> (r \<le> n \<and> bit w (n - r)) \<or> bit w ((32 - r) + n)"
    using n by (simp add: rotl32_def bit_or_iff bit_push_bit_iff bit_drop_bit_eq)
  also have "\<dots> \<longleftrightarrow> bit w (if n < r then n + 32 - r else n - r)"
  proof (cases "n < r")
    case True
    then have "(32 - r) + n = n + 32 - r" using assms by simp
    then show ?thesis using True by simp
  next
    case False
    then have "\<not> (32 - r) + n < 32" using assms by simp
    then show ?thesis using False big by auto
  qed
  finally show "bit (rotl32 r w) n = bit (word_rotl r w) n" using R by simp
qed

lemma inj_rotl32: "0 < r \<Longrightarrow> r < 32 \<Longrightarrow> rotl32 r v = rotl32 r w \<Longrightarrow> v = w"
  using rotl32_rotl [of r v] rotl32_rotl [of r w] word_rot_lr [of r v] word_rot_lr [of r w] by metis

lemma inj_mult:
  "(c :: uint32) * d = 1 \<Longrightarrow> v * c = w * c \<Longrightarrow> v = w"
proof -
  assume cd: "c * d = 1" and e: "v * c = w * c"
  have "v = v * c * d" by (simp only: mult.assoc cd mult_1_right)
  also have "\<dots> = w * c * d" by (simp only: e)
  also have "\<dots> = w" by (simp only: mult.assoc cd mult_1_right)
  finally show ?thesis .
qed

lemma xor_swap:
  assumes "a XOR b = c XOR (d :: uint32)"
  shows "a XOR c = b XOR d"
proof (rule bit_word_eqI)
  fix n
  from assms have "bit (a XOR b) n \<longleftrightarrow> bit (c XOR d) n" by simp
  then show "bit (a XOR c) n \<longleftrightarrow> bit (b XOR d) n" by (auto simp: bit_xor_iff)
qed

lemma xor_zero:
  assumes "v XOR w = (0 :: uint32)"
  shows "v = w"
proof -
  from assms have "v XOR 0 = w XOR 0" using xor_swap [of v w 0 0] by simp
  then show ?thesis by simp
qed

lemma inj_shift:
  assumes "0 < r" and "v XOR drop_bit r v = w XOR drop_bit r (w :: uint32)"
  shows "v = w"
proof -
  let ?z = "v XOR w"
  have "?z = drop_bit r ?z"
    unfolding drop_bit_xor by (rule xor_swap [OF assms(2)])
  then have "unat ?z = unat ?z div 2 ^ r" by (metis unat_drop_bit_eq drop_bit_eq_div)
  moreover have "(1 :: nat) < 2 ^ r" using assms(1) by (intro one_less_power) auto
  then have "unat ?z div 2 ^ r < unat ?z" if "unat ?z \<noteq> 0" using that by (intro div_less_dividend) auto
  ultimately have "?z = 0" by (metis less_irrefl unat_eq_zero)
  then show ?thesis by (rule xor_zero)
qed

lemma inj_xor: "k XOR v = k XOR (w :: uint32) \<Longrightarrow> v = w"
  using xor_swap [of k v k w] by (auto dest: xor_zero sym)

lemma inj_fmix:
  assumes "fmix v = fmix w"
  shows "v = w"
proof -
  let ?f = "\<lambda>v. (v XOR drop_bit 16 v) * 0x85ebca6b" and ?g = "\<lambda>v. (v XOR drop_bit 13 v) * 0xc2b2ae35"
  have "?g (?f v) XOR drop_bit 16 (?g (?f v)) = ?g (?f w) XOR drop_bit 16 (?g (?f w))" using assms by (simp add: fmix_def Let_def)
  then have "?g (?f v) = ?g (?f w)" by (rule inj_shift [rotated]) simp
  then have "?f v XOR drop_bit 13 (?f v) = ?f w XOR drop_bit 13 (?f w)" by (rule inj_mult [of _ "0x7ed1b41d", rotated]) simp
  then have "?f v = ?f w" by (rule inj_shift [rotated]) simp
  then have "v XOR drop_bit 16 v = w XOR drop_bit 16 w" by (rule inj_mult [of _ "0xa5cb9243", rotated]) simp
  then show ?thesis by (rule inj_shift [rotated]) simp
qed

lemma inj_mix_block:
  assumes "mix_block v = mix_block w"
  shows "v = w"
proof -
  have "rotl32 15 (v * C1) = rotl32 15 (w * C1)"
    using assms unfolding mix_block_def by (rule inj_mult [of _ "0x56ed309b", rotated]) (simp add: C2_def)
  then have "v * C1 = w * C1" by (rule inj_rotl32 [rotated 2]) simp_all
  then show ?thesis by (rule inj_mult [of _ "0xdee13bb1", rotated]) (simp add: C1_def)
qed

lemma inj_mix_hash:
  assumes "mix_hash v h = mix_hash w h"
  shows "v = w"
proof -
  have "rotl32 13 (h XOR mix_block v) * 5 = rotl32 13 (h XOR mix_block w) * 5" using assms by (simp add: mix_hash_def)
  then have "rotl32 13 (h XOR mix_block v) = rotl32 13 (h XOR mix_block w)" by (rule inj_mult [of _ "0xcccccccd", rotated]) simp
  then have "h XOR mix_block v = h XOR mix_block w" by (rule inj_rotl32 [rotated 2]) simp_all
  then show ?thesis by (rule inj_mix_block [OF inj_xor])
qed

subsection \<open>No number comes twice\<close>

lemma length_le_bytes [simp]: "length (le_bytes n w) = n"
  by (simp add: le_bytes_def)

lemma le_bytes_4: "le_bytes 4 w = [ucast w, ucast (drop_bit 8 w), ucast (drop_bit 16 w), ucast (drop_bit 24 w)]"
  by (simp add: le_bytes_def upt_conv_Cons)

lemma le_word_bytes: "le_word (ucast w) (ucast (drop_bit 8 w)) (ucast (drop_bit 16 w)) (ucast (drop_bit 24 w)) = w"
proof (rule bit_word_eqI)
  fix n assume "n < LENGTH(32)"
  then have n: "n < 32" by simp
  then consider "n < 8" | "8 \<le> n" "n < 16" | "16 \<le> n" "n < 24" | "24 \<le> n" by linarith
  then show "bit (le_word (ucast w) (ucast (drop_bit 8 w)) (ucast (drop_bit 16 w)) (ucast (drop_bit 24 w))) n = bit w n"
    using n by cases (auto simp: le_word_def bit_simps bit_unsigned_iff)
qed

lemma poMurmurHash_word:
  "poMurmurHash (le_bytes 4 w) s = fmix (mix_hash w s XOR 4)"
  by (simp add: poMurmurHash_def le_bytes_4 le_word_bytes)

lemma inj_poMurmurHash_word:
  fixes v w :: uint32
  assumes "poMurmurHash (le_bytes 4 v) s = poMurmurHash (le_bytes 4 w) s"
  shows "v = w"
proof -
  have "4 XOR mix_hash v s = 4 XOR mix_hash w s" using inj_fmix assms by (simp add: poMurmurHash_word xor.commute)
  then show ?thesis by (rule inj_mix_hash [OF inj_xor])
qed

lemma draws_eq:
  "draws n r = map (\<lambda>k. poMurmurHash (le_bytes 4 (counter r + 1 + word_of_nat k)) (seed r)) [0..<n]"
proof (induction n arbitrary: r)
  case (Suc n)
  have "draws n (r\<lparr>counter := counter r + 1\<rparr>) = map (\<lambda>k. poMurmurHash (le_bytes 4 (counter r + 1 + word_of_nat (Suc k))) (seed r)) [0..<n]"
    by (simp add: Suc.IH ac_simps)
  also have "\<dots> = map (\<lambda>k. poMurmurHash (le_bytes 4 (counter r + 1 + word_of_nat k)) (seed r)) (map Suc [0..<n])"
    by simp
  finally show ?case unfolding map_Suc_upt by (simp add: poRandom_get_def Let_def upt_conv_Cons del: upt_Suc)
qed simp

text \<open>Property C26. The random numbers made from one seed do not repeat before 2 to the 32 have been drawn.\<close>

theorem random_no_repeat:
  assumes "n \<le> 2 ^ 32"
  shows "distinct (draws n r)"
proof -
  have "word_of_nat k = (word_of_nat l :: uint32) \<Longrightarrow> k < n \<Longrightarrow> l < n \<Longrightarrow> k = l" for k l
    using assms by (simp add: word_of_nat_eq_iff take_bit_nat_eq_self)
  then have "inj_on (\<lambda>k. poMurmurHash (le_bytes 4 (counter r + 1 + word_of_nat k)) (seed r)) {0..<n}"
    by (intro inj_onI) (auto dest: inj_poMurmurHash_word)
  then show ?thesis by (simp add: draws_eq distinct_map)
qed

theorem random_no_repeat_witness:
  "distinct (draws 4294967296 (poRandom_init 1)) \<and> draws (Suc (Suc 0)) (poRandom_init 0) = [4226891818, 1085422463]"
proof (rule conjI)
  show "distinct (draws 4294967296 (poRandom_init 1))" by (rule random_no_repeat) simp
qed (simp add: poRandom_init_def poRandom_get_def poMurmurHash_word mix_hash_def mix_block_def rotl32_def C1_def C2_def fmix_def Let_def)

end
