(* ===== verification/HashTable.thy ===== *)
theory HashTable
  imports Hash
begin

text \<open>
  The hash table functions of src/potato_old/hashTable.h. A table is an array of \<open>len\<close> elements of \<open>es\<close> bytes, each of which
  begins with its key, an \<^verbatim>\<open>int\<close>; \<open>data\<close> gives the key at a byte offset. The offset \<^verbatim>\<open>i\<close> is a \<^verbatim>\<open>uint32_t\<close>, the
  end of the table is computed as a \<^verbatim>\<open>size_t\<close>. An element has room for its key (4 bytes or more), so that keys do not overlap.
\<close>

type_synonym uint64 = "64 word"
type_synonym table = "nat \<Rightarrow> uint32"

definition ht_start :: "byte list \<Rightarrow> nat \<Rightarrow> uint32 \<Rightarrow> uint32" where
  "ht_start key es len = word_of_nat (unat (poMurmurHash key 0 mod len) * es)"

definition ht_end :: "nat \<Rightarrow> uint32 \<Rightarrow> nat" where
  "ht_end es len = unat len * es mod 2 ^ 64"

text \<open>The \<^verbatim>\<open>while\<close> loop. \<open>None\<close>: the assertion on the number of laps, or a loop that does not end.\<close>

partial_function (option) ht_probe :: "(nat \<Rightarrow> bool) \<Rightarrow> nat \<Rightarrow> uint32 \<Rightarrow> nat \<Rightarrow> uint32 \<Rightarrow> uint32 option" where
  "ht_probe hit es len lap i = (if hit (unat i) then Some i
     else let i = i + word_of_nat es in
       if unat i = ht_end es len
       then (let lap = lap + 1 in if lap < 2 then ht_probe hit es len lap 0 else None)
       else ht_probe hit es len lap i)"

definition poHT_findInt :: "table \<Rightarrow> nat \<Rightarrow> uint32 \<Rightarrow> uint32 \<Rightarrow> uint32 \<Rightarrow> (uint32 \<times> table) option" where
  "poHT_findInt data es hkey ekey len = do {
     ASSERT (0 \<le> sint hkey);
     ASSERT (- 1 \<le> sint ekey);
     i \<leftarrow> ht_probe (\<lambda>p. data p = ekey) es len 0 (ht_start (le_bytes 4 hkey) es len);
     if hkey \<noteq> ekey then do { ASSERT (ekey = - 1); Some (i, data(unat i := hkey)) } else Some (i, data) }"

text \<open>
  With \<^verbatim>\<open>uint64_t\<close> keys the elements still hold an \<^verbatim>\<open>int\<close>: it is widened, with its sign, for the comparison and cut to
  32 bits when it is stored.
\<close>

definition poHT_findUInt64 :: "table \<Rightarrow> nat \<Rightarrow> uint64 \<Rightarrow> uint64 \<Rightarrow> uint32 \<Rightarrow> (uint32 \<times> table) option" where
  "poHT_findUInt64 data es hkey ekey len = do {
     i \<leftarrow> ht_probe (\<lambda>p. scast (data p) = ekey) es len 0 (ht_start (le_bytes 8 hkey) es len);
     if hkey \<noteq> ekey then do { ASSERT (ekey = - 1); Some (i, data(unat i := ucast hkey)) } else Some (i, data) }"

subsection \<open>The loop visits the elements from the hash to the end, then all\<close>

definition table_ok :: "nat \<Rightarrow> uint32 \<Rightarrow> bool" where
  "table_ok es len \<longleftrightarrow> 0 < es \<and> 0 < unat len \<and> unat len * es < 2 ^ 32"

definition home :: "byte list \<Rightarrow> uint32 \<Rightarrow> nat" where
  "home key len = unat (poMurmurHash key 0 mod len)"

definition slots :: "nat \<Rightarrow> nat \<Rightarrow> nat list" where
  "slots h n = [h..<n] @ [0..<n]"

lemma set_slots [simp]: "set (slots h n) = {..<n}"
  by (auto simp: slots_def)

lemma home_less: "table_ok es len \<Longrightarrow> home key len < unat len"
  unfolding home_def table_ok_def by (simp add: unat_mod)

lemma slot_offset:
  assumes "table_ok es len" and "k \<le> unat len"
  shows "unat (word_of_nat (k * es) :: uint32) = k * es"
proof -
  have "k * es < 2 ^ 32" using assms le_less_trans [OF mult_le_mono1 [OF assms(2), of es]] by (simp add: table_ok_def)
  then show ?thesis by (simp add: unsigned_of_nat take_bit_nat_eq_self del: of_nat_mult)
qed

lemma ht_end_eq: "table_ok es len \<Longrightarrow> ht_end es len = unat len * es"
  by (simp add: ht_end_def table_ok_def)

lemma ht_probe_slots:
  assumes T: "table_ok es len" and "k < unat len" and "lap < 2"
  shows "ht_probe hit es len lap (word_of_nat (k * es)) =
    map_option (\<lambda>k. word_of_nat (k * es)) (List.find (\<lambda>k. hit (k * es)) ([k..<unat len] @ (if lap = 0 then [0..<unat len] else [])))"
  using assms(2,3)
proof (induction "(2 - lap) * unat len - k" arbitrary: lap k rule: less_induct)
  case less
  let ?n = "unat len"
  have off: "unat (word_of_nat (k * es) :: uint32) = k * es" using slot_offset [OF T] less.prems by simp
  have nxt: "(word_of_nat (k * es) :: uint32) + word_of_nat es = word_of_nat (Suc k * es)" by (simp add: algebra_simps)
  have offn: "unat (word_of_nat (Suc k * es) :: uint32) = Suc k * es" using less.prems by (intro slot_offset [OF T]) simp
  have at_end: "unat (word_of_nat (Suc k * es) :: uint32) = ht_end es len \<longleftrightarrow> Suc k = ?n"
    using T unfolding offn ht_end_eq [OF T] by (simp only: mult_cancel2 table_ok_def) simp
  have upt: "[k..<?n] = k # [Suc k..<?n]" using less.prems by (simp add: upt_conv_Cons)
  show ?case
  proof (cases "hit (k * es)")
    case False
    consider (on) "Suc k < ?n" | (wrap) "Suc k = ?n" "lap = 0" | (stop) "Suc k = ?n" "lap = 1" using less.prems by linarith
    then show ?thesis
    proof cases
      case on
      have "(2 - lap) * ?n - Suc k < (2 - lap) * ?n - k"
        using less.prems by (intro diff_less_mono2) (auto simp: less_Suc_eq_le intro: less_le_trans [of _ ?n])
      from less.hyps [OF this on less.prems(2)] on False show ?thesis
        by (subst ht_probe.simps) (simp add: off nxt at_end upt Let_def del: of_nat_mult mult_Suc)
    next
      case wrap
      have n: "0 < ?n" using less.prems by simp
      have "(2 - (1 :: nat)) * ?n - 0 < (2 - lap) * ?n - k" using less.prems wrap by simp
      have "unat (word_of_nat (?n * es) :: uint32) = ht_end es len" using at_end wrap by simp
      with less.hyps [OF _ n] wrap False less.prems show ?thesis
        by (subst ht_probe.simps) (simp add: off nxt upt Let_def del: of_nat_mult mult_Suc)
    next
      case stop
      have "unat (word_of_nat (?n * es) :: uint32) = ht_end es len" using at_end stop by simp
      with stop False show ?thesis
        by (subst ht_probe.simps) (simp add: off nxt upt Let_def del: of_nat_mult mult_Suc)
    qed
  qed (subst ht_probe.simps, simp add: off upt del: of_nat_mult)
qed

lemma ht_probe_find:
  assumes "table_ok es len"
  shows "ht_probe hit es len 0 (ht_start key es len) =
    map_option (\<lambda>k. word_of_nat (k * es)) (List.find (\<lambda>k. hit (k * es)) (slots (home key len) (unat len)))"
  using ht_probe_slots [OF assms home_less [OF assms], of 0] by (simp add: ht_start_def home_def slots_def)

subsection \<open>Keys that are there\<close>

lemma find_in: "List.find P xs = Some k \<Longrightarrow> k \<in> set xs \<and> P k"
  by (induction xs) (auto split: if_splits)

lemma find_slot:
  "List.find P (slots h n) = None \<longleftrightarrow> (\<forall>k < n. \<not> P k)"
  "List.find P (slots h n) = Some k \<Longrightarrow> k < n \<and> P k"
  using find_in [of P "slots h n" k] by (auto simp: find_None_iff)

lemma poHT_findInt_eq:
  assumes "table_ok es len"
  shows "poHT_findInt data es hkey ekey len = (if 0 \<le> sint hkey \<and> - 1 \<le> sint ekey \<and> (hkey = ekey \<or> ekey = - 1)
    then map_option (\<lambda>k. (word_of_nat (k * es), if hkey = ekey then data else data(k * es := hkey)))
      (List.find (\<lambda>k. data (k * es) = ekey) (slots (home (le_bytes 4 hkey) len) (unat len)))
    else None)"
proof -
  let ?f = "List.find (\<lambda>k. data (k * es) = ekey) (slots (home (le_bytes 4 hkey) len) (unat len))"
  have "unat (word_of_nat (k * es) :: uint32) = k * es" if "?f = Some k" for k
  proof -
    from find_slot(2) [OF that] slot_offset [OF assms, of k] show ?thesis by simp
  qed
  then show ?thesis by (cases ?f) (auto simp: poHT_findInt_def ht_probe_find [OF assms] ASSERT_def)
qed

text \<open>The slot of a key that only one slot holds is that slot, wherever the search begins.\<close>

lemma find_unique:
  assumes "k < n" and "P k" and "\<And>l. l < n \<Longrightarrow> P l \<Longrightarrow> l = k"
  shows "List.find P (slots h n) = Some k"
proof (cases "List.find P (slots h n)")
  case None
  with assms(1,2) show ?thesis by (auto simp: find_slot(1))
next
  case (Some l)
  with assms(3) [of l] find_slot(2) [OF Some] show ?thesis by blast
qed

text \<open>\<open>keys_ok\<close>: every element is empty or has a key that no other has.\<close>

definition keys_ok :: "table \<Rightarrow> nat \<Rightarrow> uint32 \<Rightarrow> bool" where
  "keys_ok data es len \<longleftrightarrow> (\<forall>k < unat len. data (k * es) = - 1 \<or> 0 \<le> sint (data (k * es)))
    \<and> (\<forall>k < unat len. \<forall>l < unat len. data (k * es) = data (l * es) \<longrightarrow> data (k * es) = - 1 \<or> k = l)"

lemma findInt_there:
  assumes "table_ok es len" "keys_ok data es len" "0 \<le> sint x" "k < unat len" "data (k * es) = x"
  shows "poHT_findInt data es x x len = Some (word_of_nat (k * es), data)"
proof -
  have "x \<noteq> - 1" using assms(3) by auto
  then have "List.find (\<lambda>k. data (k * es) = x) (slots h (unat len)) = Some k" for h
    using assms by (intro find_unique) (auto simp: keys_ok_def)
  then show ?thesis using assms(3) by (simp add: poHT_findInt_eq [OF assms(1)])
qed

lemma findInt_not_there:
  assumes "table_ok es len" and "\<forall>k < unat len. data (k * es) \<noteq> ekey"
  shows "poHT_findInt data es hkey ekey len = None"
proof -
  have "List.find (\<lambda>k. data (k * es) = ekey) (slots h (unat len)) = None" for h using assms(2) by (simp add: find_slot)
  then show ?thesis by (simp add: poHT_findInt_eq [OF assms(1)])
qed

lemma insert_slot:
  assumes T: "table_ok es len" and K: "keys_ok data es len" and x: "0 \<le> sint x" "\<forall>k < unat len. data (k * es) \<noteq> x"
    and free: "k < unat len" "data (k * es) = - 1"
  obtains k where "k < unat len" "data (k * es) = - 1"
    "poHT_findInt data es x (- 1) len = Some (word_of_nat (k * es), data(k * es := x))" "keys_ok (data(k * es := x)) es len"
proof -
  let ?f = "List.find (\<lambda>k. data (k * es) = - 1) (slots (home (le_bytes 4 x) len) (unat len))"
  have "?f \<noteq> None" using free by (auto simp: find_slot)
  then obtain l where l: "?f = Some l" by auto
  note L = find_slot(2) [OF l]
  have ne: "x \<noteq> - 1" using x(1) by auto
  have es: "0 < es" using T by (simp add: table_ok_def)
  have "keys_ok (data(l * es := x)) es len"
    using K x es L unfolding keys_ok_def by (auto simp: fun_upd_def)
  moreover have "poHT_findInt data es x (- 1) len = Some (word_of_nat (l * es), data(l * es := x))"
    using l x(1) ne by (simp add: poHT_findInt_eq [OF T])
  ultimately show thesis using that L by blast
qed

text \<open>Property C27. A new key put into a table with a free element goes into a free element; from then on it is found there, and
  every key that was in the table is found where it was before.\<close>

theorem ht_insert_find:
  assumes "table_ok es len" and "keys_ok data es len" and "0 \<le> sint x" and "\<forall>k < unat len. data (k * es) \<noteq> x"
    and "\<exists>k < unat len. data (k * es) = - 1"
  shows "\<exists>i data'. poHT_findInt data es x (- 1) len = Some (i, data') \<and> data (unat i) = - 1 \<and> keys_ok data' es len
    \<and> poHT_findInt data' es x x len = Some (i, data')
    \<and> (\<forall>k < unat len. 0 \<le> sint (data (k * es)) \<longrightarrow>
        poHT_findInt data' es (data (k * es)) (data (k * es)) len = Some (word_of_nat (k * es), data'))"
proof -
  from assms(5) obtain f where "f < unat len" "data (f * es) = - 1" by blast
  with insert_slot [OF assms(1-4)] obtain k where
    k: "k < unat len" "data (k * es) = - 1" and I: "poHT_findInt data es x (- 1) len = Some (word_of_nat (k * es), data(k * es := x))"
    and K: "keys_ok (data(k * es := x)) es len" by blast
  let ?d = "data(k * es := x)"
  have "data (unat (word_of_nat (k * es) :: uint32)) = - 1" using slot_offset [OF assms(1), of k] k by simp
  moreover have "poHT_findInt ?d es x x len = Some (word_of_nat (k * es), ?d)"
    by (rule findInt_there [OF assms(1) K assms(3) k(1)]) simp
  moreover have "poHT_findInt ?d es (data (l * es)) (data (l * es)) len = Some (word_of_nat (l * es), ?d)"
    if "l < unat len" "0 \<le> sint (data (l * es))" for l
    by (rule findInt_there [OF assms(1) K that(2,1)]) (use that k(2) in auto)
  ultimately show ?thesis using I K by blast
qed

text \<open>The table with \<^verbatim>\<open>uint64_t\<close> keys cannot hold all of them: a key from 2 to the 31 up to the ones an
  \<^verbatim>\<open>int\<close> below zero widens to is never found, whatever is in the table; looking for it right after it was put in fails
  the assertion.\<close>

theorem ht_uint64_lost:
  assumes "table_ok es len" and "2 ^ 31 \<le> uint x" and "uint x < 2 ^ 64 - 2 ^ 31"
  shows "poHT_findUInt64 data es x x len = None"
proof -
  have "scast w \<noteq> x" for w :: uint32
  proof
    assume e: "scast w = x"
    have r: "- (2 ^ 31) \<le> sint w" "sint w < 2 ^ 31" using sint_greater_eq [of w] sint_lt [of w] by simp_all
    have "uint x = uint (word_of_int (sint w) :: uint64)" using e unfolding scast_eq by (rule arg_cong [OF sym])
    also have "\<dots> = sint w mod 2 ^ LENGTH(64)" by (rule uint_word_of_int)
    finally have "uint x = sint w mod 2 ^ 64" by simp
    moreover have "sint w mod 2 ^ 64 = (if 0 \<le> sint w then sint w else sint w + 2 ^ 64)"
    proof (cases "0 \<le> sint w")
      case False
      then have "(sint w + 2 ^ 64) mod 2 ^ 64 = sint w + 2 ^ 64" using r by (intro mod_pos_pos_trivial) auto
      then show ?thesis using False by simp
    qed (use r in \<open>simp add: mod_pos_pos_trivial\<close>)
    ultimately show False using assms(2,3) r by (auto split: if_splits)
  qed
  then have "List.find (\<lambda>k. scast (data (k * es)) = x) (slots h (unat len)) = None" for h by (simp add: find_slot)
  then show ?thesis by (simp add: poHT_findUInt64_def ht_probe_find [OF assms(1)])
qed

text \<open>A table of two free elements of eight bytes.\<close>

theorem ht_insert_find_witness:
  "\<exists>i data'. poHT_findInt (\<lambda>_. - 1) 8 5 (- 1) 2 = Some (i, data') \<and> poHT_findInt data' 8 5 5 2 = Some (i, data')"
proof -
  have "table_ok 8 2" "keys_ok (\<lambda>_. - 1) 8 2" "0 \<le> sint (5 :: uint32)" by (simp_all add: table_ok_def keys_ok_def)
  moreover have "\<exists>k < unat (2 :: uint32). (\<lambda>_. - 1 :: uint32) (k * 8) = - 1" by (intro exI [of _ 0]) simp
  ultimately show ?thesis using ht_insert_find [of 8 2 "\<lambda>_. - 1" 5] by simp blast
qed

theorem ht_uint64_lost_witness:
  "poHT_findUInt64 (\<lambda>_. - 1) 8 0x80000000 (- 1) 1 = Some (0, \<lambda>p. if p = 0 then 0x80000000 else - 1)
    \<and> poHT_findUInt64 (\<lambda>p. if p = 0 then 0x80000000 else - 1) 8 0x80000000 0x80000000 1 = None"
proof (rule conjI)
  have T: "table_ok 8 1" by (simp add: table_ok_def)
  then show "poHT_findUInt64 (\<lambda>p. if p = 0 then 0x80000000 else - 1) 8 0x80000000 0x80000000 1 = None"
    by (rule ht_uint64_lost) simp_all
  show "poHT_findUInt64 (\<lambda>_. - 1) 8 0x80000000 (- 1) 1 = Some (0, \<lambda>p. if p = 0 then 0x80000000 else - 1)"
    unfolding poHT_findUInt64_def ht_probe_find [OF T] by (simp add: home_def slots_def fun_eq_iff)
qed

end
