(* ===== verification/SClient.thy ===== *)
theory SClient
  imports SysIO Tls
begin

text \<open>
  The blocking client of src/potato_old/sClient.c. Kernel and gnutls are libraries: what they answer to the calls that make
  and end a connection is an argument, reading and writing is that of SysIO. An \<^verbatim>\<open>ASSERT\<close> or \<^verbatim>\<open>GNUTLS_ASSERT\<close>
  that fails does not come back, so the label \<^verbatim>\<open>fail\<close> of \<^verbatim>\<open>poSClient_create\<close> is reached from the failed handshake only.
\<close>

subsection \<open>State\<close>

record POTlsC =
  xcred :: bool
  numClients :: uint32

record POSClient =
  sc_fd :: int
  ibuf :: "byte list"
  obuf :: "byte list"
  c_tls :: bool

text \<open>
  What the process holds: open descriptors, gnutls sessions, priority caches and credentials, and the mutex
  around \<^verbatim>\<open>bind\<close> and \<^verbatim>\<open>connect\<close>. \<open>live\<close> are the sessions that were made and not yet freed, by descriptor.
\<close>

record held =
  fds :: "int set"
  live :: "int set"
  caches :: nat
  creds :: nat
  locked :: bool

text \<open>
  The client set to zero; its two buffers have \<^verbatim>\<open>PO_SCLIENT_BUFLEN\<close> bytes, which is 1024 unless a configuration file sets it.
  \<open>c_tls\<close> tells whether \<^verbatim>\<open>tlsSession\<close> is set. A \<^verbatim>\<open>sizeof\<close> of a buffer is the length of the list.
\<close>

definition zero_client :: "nat \<Rightarrow> POSClient" where
  "zero_client buflen = \<lparr>sc_fd = 0, ibuf = replicate buflen 0, obuf = replicate buflen 0, c_tls = False\<rparr>"

subsection \<open>The credentials\<close>

text \<open>The certificate is accepted, with 0, only if gnutls could check it and found nothing wrong with it.\<close>

definition GNUTLS_E_CERTIFICATE_ERROR :: int where "GNUTLS_E_CERTIFICATE_ERROR = -43"

definition verify_certificate_callback :: "int \<Rightarrow> nat \<Rightarrow> int \<Rightarrow> int" where
  "verify_certificate_callback peers status printed = (if peers < 0 then GNUTLS_E_CERTIFICATE_ERROR
     else if printed < 0 then GNUTLS_E_CERTIFICATE_ERROR
     else if status \<noteq> 0 then GNUTLS_E_CERTIFICATE_ERROR else 0)"

definition poTlsC_create :: "bool \<Rightarrow> bool \<Rightarrow> int \<Rightarrow> held \<Rightarrow> (POTlsC \<times> held) option" where
  "poTlsC_create init_ok alloc_ok trusted h = do {
     ASSERT init_ok;
     ASSERT alloc_ok;
     let h = h\<lparr>creds := creds h + 1\<rparr>;
     ASSERT (trusted > 0);
     Some (\<lparr>xcred = True, numClients = 0\<rparr>, h) }"

definition poTlsC_destroy :: "POTlsC \<Rightarrow> held \<Rightarrow> (bool \<times> held) option" where
  "poTlsC_destroy tls h = do {
     ASSERT (xcred tls);
     Some (False, h\<lparr>creds := creds h - 1\<rparr>) }"

subsection \<open>Making and ending a connection\<close>

datatype family = AF_INET | AF_INET6 | AF_OTHER

record connect_answers =
  k_socket :: int
  reuse_ok :: bool
  bind_ok :: bool
  connect_ok :: bool
  session_ok :: bool
  credentials_ok :: bool
  cache_ok :: bool
  set_ok :: bool
  shakes :: "handshake list"

text \<open>The part of \<^verbatim>\<open>poSClient_create\<close> that is done with TLS. The label \<^verbatim>\<open>fail\<close> is its second result.\<close>

definition create_session :: "connect_answers \<Rightarrow> POSClient \<Rightarrow> held \<Rightarrow> (POSClient \<times> bool \<times> held) option" where
  "create_session a c h = do {
     ASSERT (session_ok a);
     let (c, h) = (c\<lparr>c_tls := True\<rparr>, h\<lparr>live := insert (sc_fd c) (live h)\<rparr>);
     ASSERT (credentials_ok a);
     ASSERT (cache_ok a);
     let h = h\<lparr>caches := caches h + 1\<rparr>;
     ASSERT (set_ok a);
     (ok, _) \<leftarrow> handshake_loop (shakes a);
     Some (c, \<not> ok, h) }"

text \<open>
  The result is NULL or the client. \<^verbatim>\<open>PO_THREADPOOL_MAX_NUM_THREADS\<close> tells whether there is a mutex; to lock
  it waits, which is a state where this thread does nothing, so it is free here.
\<close>

definition poSClient_create :: "nat \<Rightarrow> nat \<Rightarrow> family \<Rightarrow> POTlsC option \<Rightarrow> connect_answers \<Rightarrow> held \<Rightarrow> (POSClient option \<times> held) option" where
  "poSClient_create buflen threads fam tls a h = do {
     let c = (zero_client buflen)\<lparr>sc_fd := k_socket a\<rparr>;
     ASSERT (0 \<le> sc_fd c);
     let h = h\<lparr>fds := insert (sc_fd c) (fds h)\<rparr>;
     ASSERT (reuse_ok a);
     ASSERT (fam = AF_INET \<or> fam = AF_INET6);
     let h = (if threads > 0 then h\<lparr>locked := True\<rparr> else h);
     ASSERT (bind_ok a);
     ASSERT (connect_ok a);
     let h = (if threads > 0 then h\<lparr>locked := False\<rparr> else h);
     (c, fail, h) \<leftarrow> (if tls \<noteq> None then create_session a c h else Some (c, False, h));
     if fail then do {
       let h = (if c_tls c then h\<lparr>live := live h - {sc_fd c}\<rparr> else h);
       let h = (if 0 \<le> sc_fd c then h\<lparr>fds := fds h - {sc_fd c}\<rparr> else h);
       Some (None, h)
     } else Some (Some c, h) }"

definition poSClient_destroy :: "bool \<Rightarrow> bool \<Rightarrow> POSClient \<Rightarrow> held \<Rightarrow> (bool \<times> POSClient \<times> held) option" where
  "poSClient_destroy linger_ok close_ok c h = do {
     ASSERT (0 \<le> sc_fd c);
     let h = (if c_tls c then h\<lparr>live := live h - {sc_fd c}\<rparr> else h);
     ASSERT linger_ok;
     ASSERT close_ok;
     let h = h\<lparr>fds := fds h - {sc_fd c}\<rparr>;
     Some (False, zero_client (length (ibuf c)), h) }"

subsection \<open>Sending\<close>

text \<open>\<open>overwrite buf bs\<close>: the bytes \<open>bs\<close> stored at the start of a buffer.\<close>

definition overwrite :: "byte list \<Rightarrow> byte list \<Rightarrow> byte list" where
  "overwrite buf bs = bs @ drop (length bs) buf"

text \<open>The loop around \<^verbatim>\<open>gnutls_record_send\<close>: \<open>Some r\<close> returns \<open>r\<close> at once, \<open>None\<close> is the end of the loop.\<close>

function send_loop :: "int \<Rightarrow> byte list \<Rightarrow> io \<Rightarrow> int option \<times> io" where
  "send_loop fd buf s = (if buf = [] then (None, s)
     else case k_write fd buf s of
       (WSome m, s') \<Rightarrow> if 0 < m then send_loop fd (drop m buf) s' else (Some 0, s')
     | (WIntr, s') \<Rightarrow> send_loop fd buf s'
     | (_, s') \<Rightarrow> (Some (- 1), s'))"
  by pat_completeness auto

termination
  by (relation "measures [\<lambda>(fd, buf, s). length buf, \<lambda>(fd, buf, s). wr_size fd s]")
    (auto dest: k_write_props(6) [OF sym])

text \<open>The argument \<open>txt\<close> is the formatted text, which \<^verbatim>\<open>vsnprintf\<close> ends with a zero byte in \<open>obuf\<close>.\<close>

definition poClient_sendF :: "byte list \<Rightarrow> POSClient \<Rightarrow> io \<Rightarrow> (int \<times> POSClient \<times> io) option" where
  "poClient_sendF txt c s = do {
     ASSERT (0 \<le> sc_fd c);
     ASSERT (length txt < length (obuf c));
     let c = c\<lparr>obuf := overwrite (obuf c) (txt @ [0])\<rparr>;
     if \<not> c_tls c then do {
       (e, s) \<leftarrow> writen (sc_fd c) txt s;
       Some (if e then - 1 else int (length txt), c, s)
     } else case send_loop (sc_fd c) txt s of
         (None, s) \<Rightarrow> Some (int (length txt), c, s)
       | (Some r, s) \<Rightarrow> Some (r, c, s) }"

subsection \<open>Receiving\<close>

text \<open>The loop around \<^verbatim>\<open>gnutls_record_recv\<close>: whether all bytes came, and those that did.\<close>

function recv_loop :: "int \<Rightarrow> nat \<Rightarrow> io \<Rightarrow> bool \<times> byte list \<times> io" where
  "recv_loop fd len s = (if len = 0 then (True, [], s)
     else case k_read fd len s of
       (RData bs, s') \<Rightarrow> if bs \<noteq> [] then (let (ok, cs, t) = recv_loop fd (len - length bs) s' in (ok, bs @ cs, t)) else (False, [], s')
     | (RIntr, s') \<Rightarrow> recv_loop fd len s'
     | (_, s') \<Rightarrow> (False, [], s'))"
  by pat_completeness auto

termination
  by (relation "measures [\<lambda>(fd, len, s). len, \<lambda>(fd, len, s). rd_size fd s]")
    (auto dest: k_read_cons(2) [OF sym])

declare send_loop.simps [simp del] recv_loop.simps [simp del]

text \<open>The first result: the pointer to \<open>ibuf\<close>, or NULL.\<close>

definition poSClient_recv :: "nat \<Rightarrow> POSClient \<Rightarrow> io \<Rightarrow> (bool \<times> POSClient \<times> io) option" where
  "poSClient_recv len c s = do {
     ASSERT (0 \<le> sc_fd c);
     ASSERT (len < length (ibuf c));
     if \<not> c_tls c then do {
       (e, bs, s) \<leftarrow> readn (sc_fd c) len s;
       Some (\<not> e, c\<lparr>ibuf := overwrite (ibuf c) bs\<rparr>, s)
     } else (let (ok, bs, s) = recv_loop (sc_fd c) len s in
       Some (ok, c\<lparr>ibuf := overwrite (ibuf c) (if ok then bs @ [0] else bs)\<rparr>, s)) }"

subsection \<open>Laws of the loops\<close>

lemma send_loop_complete:
  "send_loop fd buf s = (r, t) \<Longrightarrow> rd t = rd s \<and> same_io fd s t \<and>
     (\<exists>sent rest. buf = sent @ rest \<and> out t fd = out s fd @ sent \<and> (r = None \<longrightarrow> rest = []) \<and> (\<forall>x. r = Some x \<longrightarrow> x \<le> 0 \<and> rest \<noteq> []))"
proof (induction fd buf s rule: send_loop.induct)
  case (1 fd buf s)
  show ?case
  proof (cases "buf = []")
    case True
    with "1.prems" show ?thesis by (simp add: send_loop.simps)
  next
    case False
    obtain a s' where K: "k_write fd buf s = (a, s')" by fastforce
    note P = k_write_props(1,2,4) [OF K]
    show ?thesis
    proof (cases a)
      case (WSome m)
      have m: "m \<le> length buf" using k_write_props(7) K WSome by blast
      show ?thesis
      proof (cases "0 < m")
        case True
        with False K WSome "1.prems" have "send_loop fd (drop m buf) s' = (r, t)" by (subst (asm) send_loop.simps) simp
        from "1.IH"(1) [OF False K [symmetric] WSome True this] P WSome obtain sent rest where
          "rd t = rd s" "same_io fd s t" and S: "drop m buf = sent @ rest" "out t fd = out s fd @ take m buf @ sent"
          "r = None \<longrightarrow> rest = []" "\<forall>x. r = Some x \<longrightarrow> x \<le> 0 \<and> rest \<noteq> []" by (auto intro: same_io_trans)
        moreover have "buf = (take m buf @ sent) @ rest" using S(1) by (metis append.assoc append_take_drop_id)
        ultimately show ?thesis by blast
      next
        case F: False
        with False K WSome "1.prems" P show ?thesis by (subst (asm) send_loop.simps) auto
      qed
    next
      case WIntr
      with False K "1.prems" have "send_loop fd buf s' = (r, t)" by (subst (asm) send_loop.simps) simp
      from "1.IH"(2) [OF False K [symmetric] WIntr this] P WIntr show ?thesis by (auto intro: same_io_trans)
    qed (use False K "1.prems" P in \<open>subst (asm) send_loop.simps, auto\<close>)+
  qed
qed

lemma recv_loop_complete:
  "recv_loop fd len s = (ok, bs, t) \<Longrightarrow> stream fd s = bs @ stream fd t \<and> same_io fd s t \<and> wr t = wr s \<and> out t = out s
     \<and> (ok \<longleftrightarrow> length bs = len) \<and> length bs \<le> len"
proof (induction fd len s arbitrary: ok bs t rule: recv_loop.induct)
  case (1 fd len s)
  show ?case
  proof (cases "len = 0")
    case True
    with "1.prems" show ?thesis by (simp add: recv_loop.simps)
  next
    case False
    obtain a s' where K: "k_read fd len s = (a, s')" by fastforce
    note P = k_read_props(1,2,3,5) [OF K]
    show ?thesis
    proof (cases a)
      case (RData cs)
      have l: "length cs \<le> len" using k_read_props(8) K RData by blast
      show ?thesis
      proof (cases "cs = []")
        case True
        with False K RData "1.prems" P show ?thesis by (subst (asm) recv_loop.simps) auto
      next
        case ne: False
        obtain ok' ds t' where R: "recv_loop fd (len - length cs) s' = (ok', ds, t')" by (metis prod_cases3)
        with False K RData ne "1.prems" have "ok' = ok" "bs = cs @ ds" "t' = t" by (subst (asm) recv_loop.simps; simp)+
        with "1.IH"(1) [OF False K [symmetric] RData ne R] P RData l show ?thesis by (auto intro: same_io_trans)
      qed
    next
      case RIntr
      with False K "1.prems" have "recv_loop fd len s' = (ok, bs, t)" by (subst (asm) recv_loop.simps) simp
      from "1.IH"(2) [OF False K [symmetric] RIntr this] P RIntr show ?thesis by (auto intro: same_io_trans)
    qed (use False K "1.prems" P in \<open>subst (asm) recv_loop.simps, auto\<close>)+
  qed
qed

end
