(* ===== verification/RandSequence.thy ===== *)
theory RandSequence
  imports Hash
begin

text \<open>
  The random strings of src/potato_old/randSequence.c, with which client.c and service_test.c test the
  service: a string of hexadecimal digits that is a function of the first eight bytes of another.
\<close>

text \<open>
  \<^verbatim>\<open>nrand48\<close> of the standard library: the state is the 48 bit word that the three shorts of \<^verbatim>\<open>xsubi\<close> make, lowest first;
  the result is its upper 31 bits.
\<close>

type_synonym xsubi = "48 word"

definition nrand48 :: "xsubi \<Rightarrow> 64 word \<times> xsubi" where
  "nrand48 x = (let x = x * 0x5DEECE66D + 0xB in (ucast (drop_bit 17 x), x))"

definition int2char :: "nat \<Rightarrow> byte" where
  "int2char i = (if i < 10 then of_nat (i + 48) else of_nat (i + 55))"

text \<open>The macros \<^verbatim>\<open>PO_RANDSEQUENCE_MIN\<close> and \<^verbatim>\<open>PO_RANDSEQUENCE_MAX\<close> with the range and the checks made of them.\<close>

record rs_config =
  RANDSEQUENCE_MIN :: nat
  RANDSEQUENCE_MAX :: nat

definition RANDSEQUENCE_RANGE :: "rs_config \<Rightarrow> nat" where
  "RANDSEQUENCE_RANGE c = RANDSEQUENCE_MAX c - RANDSEQUENCE_MIN c"

definition rs_config_ok :: "rs_config \<Rightarrow> bool" where
  "rs_config_ok c \<longleftrightarrow> 8 \<le> RANDSEQUENCE_MIN c \<and> 1 \<le> RANDSEQUENCE_RANGE c"

text \<open>\<open>nibbles\<close> is the inner loop, at most six digits of one number; \<open>ptr\<close> are its bytes.\<close>

function nibbles :: "byte list \<Rightarrow> nat \<Rightarrow> nat \<Rightarrow> byte list" where
  "nibbles ptr len j = (if 0 < len \<and> j < 6
     then int2char (unat (drop_bit (4 * (j mod 2)) (ptr ! (j div 2)) AND 0x0F)) # nibbles ptr (len - 1) (j + 1)
     else [])"
  by pat_completeness auto

termination
  by (relation "measure (\<lambda>(ptr, len, j). len)") auto

declare nibbles.simps [simp del]

lemma length_nibbles [simp]: "length (nibbles ptr len j) = min len (6 - j)"
  by (induction ptr len j rule: nibbles.induct) (subst nibbles.simps, auto)

function rand_chars :: "nat \<Rightarrow> xsubi \<Rightarrow> byte list" where
  "rand_chars len x = (if len = 0 then [] else
     let (val, x) = nrand48 x;
         cs = nibbles (le_bytes 8 val) len 0
     in cs @ rand_chars (len - length cs) x)"
  by pat_completeness auto

termination
  by (relation "measure fst") auto

declare rand_chars.simps [simp del]

text \<open>
  The bytes that are copied to \<^verbatim>\<open>xsubi\<close> are the four of \<^verbatim>\<open>seed[0]\<close> and the first two of \<^verbatim>\<open>seed[1]\<close>.
  The result is the string without the zero byte that ends it, its length is what \<^verbatim>\<open>rlen\<close> gets. \<open>ibuf\<close> is read before \<open>buf\<close>
  is written, so the two may be the same. Four and four bytes are hashed: \<open>ibuf\<close> has at least eight, as the texts of client.c have.
\<close>

definition rs_seed :: "byte list \<Rightarrow> xsubi" where
  "rs_seed ibuf = (let seed0 = poMurmurHash (take 4 ibuf) 0x324A5234;
       seed1 = poMurmurHash (take 4 (drop 4 ibuf)) 0xF3245234
     in ucast seed0 OR push_bit 32 (ucast (take_bit 16 seed1)))"

definition poRandSequence_string :: "rs_config \<Rightarrow> byte list \<Rightarrow> byte list" where
  "poRandSequence_string c ibuf = (let (n, x) = nrand48 (rs_seed ibuf)
     in rand_chars (RANDSEQUENCE_MIN c + unat n mod RANDSEQUENCE_RANGE c) x)"

subsection \<open>Its characters and its length\<close>

definition hex_digit :: "byte \<Rightarrow> bool" where
  "hex_digit b \<longleftrightarrow> b \<in> {48..57} \<or> b \<in> {65..70}"

lemma hex_digit_int2char: "i < 16 \<Longrightarrow> hex_digit (int2char i)"
proof -
  assume "i < 16"
  then have "i \<in> {0,1,2,3,4,5,6,7,8,9,10,11,12,13,14,15}" by (simp add: less_Suc_eq numeral_eq_Suc)
  then show ?thesis by (auto simp: hex_digit_def int2char_def)
qed

lemma hex_digit_nibbles: "b \<in> set (nibbles ptr len j) \<Longrightarrow> hex_digit b"
proof (induction ptr len j rule: nibbles.induct)
  case (1 ptr len j)
  have "unat (w AND 0x0F) < 16" for w :: byte
  proof -
    have "w AND 0x0F = take_bit 4 w" by (simp add: take_bit_eq_mask mask_eq_exp_minus_1)
    then have "unat (w AND 0x0F) = take_bit 4 (unat w)" by (simp add: unsigned_take_bit_eq)
    then show ?thesis using take_bit_nat_less_exp [of 4 "unat w"] by simp
  qed
  with 1 show ?case by (subst (asm) (2) nibbles.simps) (auto intro: hex_digit_int2char split: if_splits)
qed

lemma rand_chars_spec: "length (rand_chars len x) = len \<and> (\<forall>b \<in> set (rand_chars len x). hex_digit b)"
proof (induction len x rule: rand_chars.induct)
  case (1 len x)
  show ?case
  proof (cases "len = 0")
    case False
    obtain val x' where N: "nrand48 x = (val, x')" by fastforce
    define cs where "cs = nibbles (le_bytes 8 val) len 0"
    from False N have R: "rand_chars len x = cs @ rand_chars (len - length cs) x'"
      by (subst rand_chars.simps) (simp add: cs_def)
    have L: "length cs \<le> len" by (simp add: cs_def)
    from "1.IH" [OF False N [symmetric] refl] R L show ?thesis
      by (auto simp: cs_def dest: hex_digit_nibbles)
  qed (simp add: rand_chars.simps)
qed

lemma hex_digit_nonzero: "hex_digit b \<Longrightarrow> b \<noteq> 0"
  by (auto simp: hex_digit_def)

lemma rand_string_spec:
  assumes "rs_config_ok c"
  shows "RANDSEQUENCE_MIN c \<le> length (poRandSequence_string c ibuf)" "length (poRandSequence_string c ibuf) < RANDSEQUENCE_MAX c"
    "\<forall>b \<in> set (poRandSequence_string c ibuf). hex_digit b"
proof -
  obtain n x where N: "nrand48 (rs_seed ibuf) = (n, x)" by fastforce
  have "unat n mod RANDSEQUENCE_RANGE c < RANDSEQUENCE_RANGE c" using assms by (simp add: rs_config_ok_def)
  then show "RANDSEQUENCE_MIN c \<le> length (poRandSequence_string c ibuf)" "length (poRandSequence_string c ibuf) < RANDSEQUENCE_MAX c"
    "\<forall>b \<in> set (poRandSequence_string c ibuf). hex_digit b"
    by (auto simp: poRandSequence_string_def N rand_chars_spec RANDSEQUENCE_RANGE_def)
qed

text \<open>A random string is made of upper case hexadecimal digits only, so no zero byte is in it; its length is at
  least \<^verbatim>\<open>PO_RANDSEQUENCE_MIN\<close> and below \<^verbatim>\<open>PO_RANDSEQUENCE_MAX\<close>: with its zero byte it fits a buffer
  of \<^verbatim>\<open>PO_RANDSEQUENCE_MAX\<close> bytes, and it is long enough to make the next one from.\<close>

theorem rand_string_fits:
  assumes "rs_config_ok c"
  shows "8 \<le> length (poRandSequence_string c ibuf) \<and> RANDSEQUENCE_MIN c \<le> length (poRandSequence_string c ibuf)
    \<and> length (poRandSequence_string c ibuf) < RANDSEQUENCE_MAX c
    \<and> (\<forall>b \<in> set (poRandSequence_string c ibuf). hex_digit b)"
  using rand_string_spec [OF assms, of ibuf] assms by (auto simp: rs_config_ok_def)

theorem rand_string_fits_witness:
  "rs_config_ok \<lparr>RANDSEQUENCE_MIN = 10, RANDSEQUENCE_MAX = 200\<rparr>
    \<and> length (poRandSequence_string \<lparr>RANDSEQUENCE_MIN = 10, RANDSEQUENCE_MAX = 200\<rparr> [48, 120, 49, 48, 49, 48, 49, 48]) < 200"
proof -
  have ok: "rs_config_ok \<lparr>RANDSEQUENCE_MIN = 10, RANDSEQUENCE_MAX = 200\<rparr>" by (simp add: rs_config_ok_def RANDSEQUENCE_RANGE_def)
  then show ?thesis using rand_string_fits [of "\<lparr>RANDSEQUENCE_MIN = 10, RANDSEQUENCE_MAX = 200\<rparr>" "[48, 120, 49, 48, 49, 48, 49, 48]"]
    by simp
qed

end
