(* ===== verification/Client.thy ===== *)
theory Client
  imports SClient RandSequence
begin

text \<open>
  The test client of src/potato_old/client.c: each connection sends random strings and compares what
  comes back with the random strings it makes of them. Strings are made from \<^verbatim>\<open>buf\<close> into \<^verbatim>\<open>buf\<close>.
\<close>

text \<open>What \<^verbatim>\<open>printf\<close> makes of a pointer with \<^verbatim>\<open>%p\<close>, and a C string in a buffer.\<close>

fun hex_text :: "nat \<Rightarrow> byte list" where
  "hex_text n = (if n < 16 then [] else hex_text (n div 16)) @ [if n mod 16 < 10 then of_nat (n mod 16 + 48) else of_nat (n mod 16 + 87)]"

declare hex_text.simps [simp del]

definition pointer_text :: "nat \<Rightarrow> byte list" where
  "pointer_text p = [48, 120] @ hex_text p"

definition c_string :: "byte list \<Rightarrow> byte list" where
  "c_string buf = takeWhile (\<lambda>b. b \<noteq> 0) buf"

definition go_count :: "nat \<Rightarrow> nat" where
  "go_count p = 3 + p mod 3"

text \<open>The loop: whether it ends without the jump to \<^verbatim>\<open>fail\<close>.\<close>

fun go_loop :: "rs_config \<Rightarrow> nat \<Rightarrow> byte list \<Rightarrow> POSClient \<Rightarrow> io \<Rightarrow> (bool \<times> POSClient \<times> io) option" where
  "go_loop cfg 0 buf c s = Some (True, c, s)"
| "go_loop cfg (Suc n) buf c s = do {
     let buf = poRandSequence_string cfg buf;
     (w, c, s) \<leftarrow> poClient_sendF buf c s;
     if w < int (RANDSEQUENCE_MIN cfg) then Some (False, c, s) else do {
       let buf = poRandSequence_string cfg buf;
       (ok, c, s) \<leftarrow> poSClient_recv (length buf) c s;
       if \<not> ok then Some (False, c, s) else do {
         let c = c\<lparr>ibuf := (ibuf c)[length buf := 0]\<rparr>;
         if buf \<noteq> c_string (ibuf c) then Some (False, c, s) else go_loop cfg n buf c s } } }"

text \<open>The result is true if \<^verbatim>\<open>go\<close> returns, false if it calls \<^verbatim>\<open>exit(1)\<close>.\<close>

definition go :: "rs_config \<Rightarrow> nat \<Rightarrow> nat \<Rightarrow> family \<Rightarrow> POTlsC option \<Rightarrow> connect_answers \<Rightarrow> bool \<Rightarrow> bool \<Rightarrow> nat \<Rightarrow>
    io \<Rightarrow> held \<Rightarrow> (bool \<times> io \<times> held) option" where
  "go cfg buflen threads fam tls a linger_ok close_ok p s h = do {
     let buf = pointer_text p;
     let n = go_count p;
     (c, h) \<leftarrow> poSClient_create buflen threads fam tls a h;
     case c of None \<Rightarrow> Some (False, s, h)
     | Some c \<Rightarrow> do {
         (ok, c, s) \<leftarrow> go_loop cfg n buf c s;
         (_, c, h) \<leftarrow> poSClient_destroy linger_ok close_ok c h;
         Some (ok, s, h) } }"

subsection \<open>One round\<close>

text \<open>The peer takes what is written: it takes at least one byte each time, and \<open>n\<close> bytes in all.\<close>

definition takes :: "int \<Rightarrow> nat \<Rightarrow> io \<Rightarrow> bool" where
  "takes fd n s \<longleftrightarrow> (\<forall>a \<in> set (wr s fd). \<exists>m > 0. a = WSome m) \<and> n \<le> length (wr s fd)"

lemma takes_less: "takes fd n s \<Longrightarrow> m \<le> n \<Longrightarrow> takes fd m s"
  by (simp add: takes_def)

lemma writen_total:
  "takes fd (length bs + k) s \<Longrightarrow> \<exists>t. writen fd bs s = Some (False, t) \<and> takes fd k t"
proof (induction fd bs s rule: writen.induct)
  case (1 fd bs s)
  show ?case
  proof (cases "bs = []")
    case True
    with "1.prems" show ?thesis by (subst writen.simps) simp
  next
    case False
    from "1.prems" False obtain m as where w: "wr s fd = WSome m # as" "0 < m" "length bs + k \<le> Suc (length as)"
      by (cases "wr s fd") (auto simp: takes_def)
    let ?m = "min m (length bs)" and ?t = "s\<lparr>wr := (wr s)(fd := as), out := (out s)(fd := out s fd @ take m bs)\<rparr>"
    have K: "k_write fd bs s = (WSome ?m, ?t)" using w by (simp add: k_write_def)
    have m: "0 < ?m" using w False by simp
    have "length (drop ?m bs) + k \<le> length as" using w(3) m by (simp add: min_def split: if_splits)
    then have "takes fd (length (drop ?m bs) + k) ?t" using "1.prems" w by (simp add: takes_def)
    from "1.IH" [OF False K [symmetric] refl m this] False K m show ?thesis by (subst writen.simps) auto
  qed
qed

lemma c_string_overwrite:
  assumes "\<forall>b \<in> set buf. b \<noteq> 0" and "length bs = length buf" and "length buf < length old"
  shows "c_string ((overwrite old bs)[length buf := 0]) = buf \<longleftrightarrow> bs = buf"
proof -
  have "drop (length buf) old = old ! length buf # drop (Suc (length buf)) old" using assms(3) by (simp add: Cons_nth_drop_Suc)
  then have e: "(overwrite old bs)[length buf := 0] = bs @ 0 # drop (Suc (length buf)) old"
    using assms(2) by (simp add: overwrite_def list_update_append)
  have t: "takeWhile (\<lambda>b. b \<noteq> 0) (bs @ 0 # r) = takeWhile (\<lambda>b. b \<noteq> 0) bs" for r by (induction bs) auto
  show ?thesis
  proof
    assume "c_string ((overwrite old bs)[length buf := 0]) = buf"
    then have b: "takeWhile (\<lambda>b. b \<noteq> 0) bs = buf" by (simp only: c_string_def e t)
    then have "length (takeWhile (\<lambda>b. b \<noteq> 0) bs) = length bs" using assms(2) by simp
    then show "bs = buf" using b by (metis take_all_iff order_refl takeWhile_eq_take)
  next
    assume b: "bs = buf"
    have "takeWhile (\<lambda>b. b \<noteq> 0) bs = buf" using assms(1) unfolding b by (simp add: takeWhile_eq_all_conv)
    then show "c_string ((overwrite old bs)[length buf := 0]) = buf" unfolding c_string_def e t .
  qed
qed

text \<open>The strings of the rounds: those sent and the replies the client waits for.\<close>

definition rs_sent :: "rs_config \<Rightarrow> byte list \<Rightarrow> byte list" where
  "rs_sent cfg buf = poRandSequence_string cfg buf"

definition rs_reply :: "rs_config \<Rightarrow> byte list \<Rightarrow> byte list" where
  "rs_reply cfg buf = poRandSequence_string cfg (poRandSequence_string cfg buf)"

primrec sent_all :: "rs_config \<Rightarrow> nat \<Rightarrow> byte list \<Rightarrow> byte list" where
  "sent_all cfg 0 buf = []"
| "sent_all cfg (Suc n) buf = rs_sent cfg buf @ sent_all cfg n (rs_reply cfg buf)"

primrec reply_all :: "rs_config \<Rightarrow> nat \<Rightarrow> byte list \<Rightarrow> byte list" where
  "reply_all cfg 0 buf = []"
| "reply_all cfg (Suc n) buf = rs_reply cfg buf @ reply_all cfg n (rs_reply cfg buf)"

definition plain_client :: "nat \<Rightarrow> POSClient \<Rightarrow> bool" where
  "plain_client n c \<longleftrightarrow> 0 \<le> sc_fd c \<and> \<not> c_tls c \<and> n \<le> length (ibuf c) \<and> n \<le> length (obuf c)"

lemma rs_nonzero: "rs_config_ok cfg \<Longrightarrow> \<forall>x \<in> set (poRandSequence_string cfg b). x \<noteq> 0"
  using rand_string_spec(3) hex_digit_nonzero by blast

lemma client_send_plain:
  assumes "plain_client n c" "length txt < n" "takes (sc_fd c) (length txt + k) s"
  shows "\<exists>c' t. poClient_sendF txt c s = Some (int (length txt), c', t) \<and> plain_client n c' \<and> sc_fd c' = sc_fd c
    \<and> takes (sc_fd c) k t \<and> out t (sc_fd c) = out s (sc_fd c) @ txt \<and> rd t = rd s"
proof -
  from writen_total [OF assms(3)] obtain t where W: "writen (sc_fd c) txt s = Some (False, t)" "takes (sc_fd c) k t" by blast
  with assms writen_complete [OF W(1)] show ?thesis by (auto simp: poClient_sendF_def plain_client_def overwrite_def)
qed

lemma client_recv_plain:
  assumes "plain_client n c" "len < n" "given (sc_fd c) s" "len \<le> length (stream (sc_fd c) s)"
  shows "\<exists>t. poSClient_recv len c s = Some (True, c\<lparr>ibuf := overwrite (ibuf c) (take len (stream (sc_fd c) s))\<rparr>, t)
    \<and> given (sc_fd c) t \<and> stream (sc_fd c) t = drop len (stream (sc_fd c) s) \<and> wr t = wr s \<and> out t = out s"
proof -
  from readn_total [OF assms(3,4)] obtain t where
    R: "readn (sc_fd c) len s = Some (False, take len (stream (sc_fd c) s), t)" "given (sc_fd c) t" "stream (sc_fd c) t = drop len (stream (sc_fd c) s)"
    by blast
  with readn_complete [OF R(1)] assms(1,2) show ?thesis by (auto simp: poSClient_recv_def plain_client_def)
qed

lemma go_loop_spec:
  assumes "rs_config_ok cfg"
  shows "plain_client (RANDSEQUENCE_MAX cfg) c \<Longrightarrow> given (sc_fd c) s \<Longrightarrow> takes (sc_fd c) (length (sent_all cfg n buf)) s \<Longrightarrow>
    length (reply_all cfg n buf) \<le> length (stream (sc_fd c) s) \<Longrightarrow>
    \<exists>ok c' t. go_loop cfg n buf c s = Some (ok, c', t) \<and> sc_fd c' = sc_fd c \<and> c_tls c' = c_tls c
      \<and> (ok \<longleftrightarrow> take (length (reply_all cfg n buf)) (stream (sc_fd c) s) = reply_all cfg n buf)
      \<and> (ok \<longrightarrow> out t (sc_fd c) = out s (sc_fd c) @ sent_all cfg n buf)"
proof (induction n arbitrary: buf c s)
  case (Suc n)
  let ?fd = "sc_fd c" and ?x = "poRandSequence_string cfg buf" and ?y = "rs_reply cfg buf"
  let ?l = "length ?y"
  note X = rand_string_spec [OF assms]
  have y: "?y = poRandSequence_string cfg ?x" by (simp add: rs_reply_def)
  have ly: "?l < RANDSEQUENCE_MAX cfg" and zy: "\<forall>b \<in> set ?y. b \<noteq> 0" unfolding y by (rule X(2), rule rs_nonzero [OF assms])
  from Suc.prems(3) have "takes ?fd (length ?x + length (sent_all cfg n ?y)) s" by (simp add: rs_sent_def)
  from client_send_plain [OF Suc.prems(1) X(2) this] obtain c1 s1 where
    S: "poClient_sendF ?x c s = Some (int (length ?x), c1, s1)" "plain_client (RANDSEQUENCE_MAX cfg) c1" "sc_fd c1 = ?fd"
      "takes ?fd (length (sent_all cfg n ?y)) s1" "out s1 ?fd = out s ?fd @ ?x" "rd s1 = rd s" by blast
  have G: "given (sc_fd c1) s1" "stream ?fd s1 = stream ?fd s" using S(3,6) Suc.prems(2) by (simp_all add: given_def stream_def)
  have L: "?l \<le> length (stream (sc_fd c1) s1)" using Suc.prems(4) G(2) S(3) by simp
  from client_recv_plain [OF S(2) ly G(1) L] S(3) G(2) obtain s2 where
    R: "poSClient_recv ?l c1 s1 = Some (True, c1\<lparr>ibuf := overwrite (ibuf c1) (take ?l (stream ?fd s))\<rparr>, s2)"
      "given ?fd s2" "stream ?fd s2 = drop ?l (stream ?fd s)" "wr s2 = wr s1" "out s2 = out s1" by auto
  let ?c2 = "c1\<lparr>ibuf := (overwrite (ibuf c1) (take ?l (stream ?fd s)))[?l := 0]\<rparr>"
  have lt: "length (take ?l (stream ?fd s)) = ?l" using Suc.prems(4) by simp
  have li: "?l < length (ibuf c1)" using S(2) ly by (simp add: plain_client_def)
  have C: "c_string (ibuf ?c2) = ?y \<longleftrightarrow> take ?l (stream ?fd s) = ?y" using c_string_overwrite [OF zy lt li] by simp
  have P2: "plain_client (RANDSEQUENCE_MAX cfg) ?c2" using S(2) lt li by (simp add: plain_client_def overwrite_def)
  have w: "\<not> int (length ?x) < int (RANDSEQUENCE_MIN cfg)" using X(1) [of buf] by simp
  have run: "go_loop cfg (Suc n) buf c s = (if ?y \<noteq> c_string (ibuf ?c2) then Some (False, ?c2, s2) else go_loop cfg n ?y ?c2 s2)"
    using S(1) R(1) w by (simp add: y [symmetric] Let_def)
  show ?case
  proof (cases "take ?l (stream ?fd s) = ?y")
    case False
    moreover have "c_tls ?c2 = c_tls c" using Suc.prems(1) S(2) by (simp add: plain_client_def)
    moreover from False have "take (?l + length (reply_all cfg n ?y)) (stream ?fd s) \<noteq> ?y @ reply_all cfg n ?y"
      by (metis append_eq_append_conv lt take_add)
    ultimately show ?thesis using C S(3) unfolding run by (intro exI [of _ False] exI [of _ ?c2] exI [of _ s2]) simp
  next
    case True
    have I: "given (sc_fd ?c2) s2" "takes (sc_fd ?c2) (length (sent_all cfg n ?y)) s2"
      "length (reply_all cfg n ?y) \<le> length (stream (sc_fd ?c2) s2)"
      using R(2-5) S(3,4) Suc.prems(4) by (simp_all add: takes_def)
    from Suc.IH [OF P2 I] S(3) R(3,5) obtain ok c' t where
      N: "go_loop cfg n ?y ?c2 s2 = Some (ok, c', t)" "sc_fd c' = ?fd" "c_tls c' = c_tls c1"
      "ok \<longleftrightarrow> take (length (reply_all cfg n ?y)) (drop ?l (stream ?fd s)) = reply_all cfg n ?y"
      "ok \<longrightarrow> out t ?fd = out s1 ?fd @ sent_all cfg n ?y" by auto
    have "c_tls c' = c_tls c" using Suc.prems(1) S(2) N(3) by (simp add: plain_client_def)
    moreover have "ok \<longleftrightarrow> take (?l + length (reply_all cfg n ?y)) (stream ?fd s) = ?y @ reply_all cfg n ?y"
      unfolding N(4) take_add True by simp
    moreover have "c_string (ibuf ?c2) = ?y" using C True by simp
    ultimately show ?thesis using N S(5) unfolding run by (simp add: rs_sent_def)
  qed
qed (auto intro: exI [of _ True])

subsection \<open>Properties\<close>

definition connects :: "connect_answers \<Rightarrow> bool" where
  "connects a \<longleftrightarrow> 0 \<le> k_socket a \<and> reuse_ok a \<and> bind_ok a \<and> connect_ok a"

lemma create_plain:
  assumes "connects a" and "fam = AF_INET \<or> fam = AF_INET6" and "\<not> locked h"
  shows "poSClient_create buflen threads fam None a h = Some (Some ((zero_client buflen)\<lparr>sc_fd := k_socket a\<rparr>), h\<lparr>fds := insert (k_socket a) (fds h)\<rparr>)"
  using assms by (auto simp: poSClient_create_def connects_def Let_def)

text \<open>Property C28. Without TLS a connection of the client succeeds exactly if the server answers each string it sent with the random
  string made from it, in order, whatever the pieces are that the answers come in; then all strings were sent, in order,
  the descriptor is closed, and the next connection of the process starts from the same state.\<close>

theorem client_accepts_service:
  assumes "rs_config_ok cfg" and "RANDSEQUENCE_MAX cfg \<le> buflen" and "connects a" and "fam = AF_INET \<or> fam = AF_INET6"
    and "k_socket a \<notin> fds h" and "\<not> locked h" and "given (k_socket a) s"
    and "takes (k_socket a) (length (sent_all cfg (go_count p) (pointer_text p))) s"
    and "length (reply_all cfg (go_count p) (pointer_text p)) \<le> length (stream (k_socket a) s)"
  shows "\<exists>ok t. go cfg buflen threads fam None a True True p s h = Some (ok, t, h)
    \<and> (ok \<longleftrightarrow> (\<exists>rest. stream (k_socket a) s = reply_all cfg (go_count p) (pointer_text p) @ rest))
    \<and> (ok \<longrightarrow> out t (k_socket a) = out s (k_socket a) @ sent_all cfg (go_count p) (pointer_text p))"
proof -
  let ?n = "go_count p" and ?b = "pointer_text p" and ?c = "(zero_client buflen)\<lparr>sc_fd := k_socket a\<rparr>"
  have c: "sc_fd ?c = k_socket a" "plain_client (RANDSEQUENCE_MAX cfg) ?c" "c_tls ?c = False"
    using assms(2,3) by (simp_all add: plain_client_def zero_client_def connects_def)
  from go_loop_spec [OF assms(1) c(2), of s ?n ?b] assms(7-9) c(1,3) obtain ok c' t where
    G: "go_loop cfg ?n ?b ?c s = Some (ok, c', t)" "sc_fd c' = k_socket a" "\<not> c_tls c'"
    "ok \<longleftrightarrow> take (length (reply_all cfg ?n ?b)) (stream (k_socket a) s) = reply_all cfg ?n ?b"
    "ok \<longrightarrow> out t (k_socket a) = out s (k_socket a) @ sent_all cfg ?n ?b" by auto
  have "h\<lparr>fds := insert (k_socket a) (fds h) - {k_socket a}\<rparr> = h" using assms(5) by (cases h) simp
  then have "go cfg buflen threads fam None a True True p s h = Some (ok, t, h)"
    using G(1-3) assms(3) unfolding go_def create_plain [OF assms(3,4,6)] by (simp add: poSClient_destroy_def connects_def Let_def)
  moreover have "ok \<longleftrightarrow> (\<exists>rest. stream (k_socket a) s = reply_all cfg ?n ?b @ rest)"
    unfolding G(4) by (metis append_eq_conv_conj append_take_drop_id)
  ultimately show ?thesis using G(5) by blast
qed

definition cfg1 :: rs_config where "cfg1 = \<lparr>RANDSEQUENCE_MIN = 10, RANDSEQUENCE_MAX = 200\<rparr>"

definition answers1 :: connect_answers where
  "answers1 = \<lparr>k_socket = 5, reuse_ok = True, bind_ok = True, connect_ok = True, session_ok = True,
     credentials_ok = True, cache_ok = True, set_ok = True, shakes = [HsNonFatal, HsDone]\<rparr>"

definition held0 :: held where
  "held0 = \<lparr>fds = {0, 1, 2}, live = {}, caches = 0, creds = 0, locked = False\<rparr>"

definition p1 :: nat where "p1 = 0x100000000"

definition io_reply :: io where
  "io_reply = \<lparr>rd = (\<lambda>_. [RData (reply_all cfg1 (go_count p1) (pointer_text p1))]),
     wr = (\<lambda>_. replicate (length (sent_all cfg1 (go_count p1) (pointer_text p1))) (WSome 1)), out = (\<lambda>_. [])\<rparr>"

theorem client_accepts_service_witness:
  "\<exists>t. go cfg1 200 0 AF_INET None answers1 True True p1 io_reply held0 = Some (True, t, held0)
    \<and> out t 5 = sent_all cfg1 (go_count p1) (pointer_text p1)"
proof -
  have ok: "rs_config_ok cfg1" by (simp add: cfg1_def rs_config_ok_def RANDSEQUENCE_RANGE_def)
  have s: "stream (k_socket answers1) io_reply = reply_all cfg1 (go_count p1) (pointer_text p1)" by (simp add: stream_def io_reply_def)
  have "go_count p1 = Suc (Suc (Suc (p1 mod 3)))" by (simp add: go_count_def)
  then have "reply_all cfg1 (go_count p1) (pointer_text p1) \<noteq> []"
    using rand_string_spec(1) [OF ok, of "rs_sent cfg1 (pointer_text p1)"] by (auto simp: rs_reply_def rs_sent_def cfg1_def)
  then have g: "given (k_socket answers1) io_reply" by (simp add: given_def io_reply_def)
  have t: "takes (k_socket answers1) (length (sent_all cfg1 (go_count p1) (pointer_text p1))) io_reply" by (simp add: takes_def io_reply_def)
  have "RANDSEQUENCE_MAX cfg1 \<le> 200" "connects answers1" "k_socket answers1 = 5" "k_socket answers1 \<notin> fds held0" "\<not> locked held0" "out io_reply 5 = []"
    by (simp_all add: cfg1_def connects_def answers1_def held0_def io_reply_def)
  with client_accepts_service [OF ok, of 200 answers1 AF_INET held0 io_reply p1 0] g t s show ?thesis by auto
qed

text \<open>\<open>poClient_sendF\<close> returns the length of the text exactly if all of it was written, and 0 or -1 if only a first part
  was; it needs no more room than the buffer has.\<close>

theorem client_send_all:
  assumes "poClient_sendF txt c s = Some (r, c', t)"
  shows "length txt < length (obuf c) \<and> rd t = rd s \<and> same_io (sc_fd c) s t
    \<and> (\<exists>sent rest. txt = sent @ rest \<and> out t (sc_fd c) = out s (sc_fd c) @ sent \<and> (rest = [] \<longleftrightarrow> r = int (length txt))
        \<and> (rest \<noteq> [] \<longrightarrow> r = 0 \<or> r < 0))"
proof (cases "c_tls c")
  case False
  with assms obtain e where W: "writen (sc_fd c) txt s = Some (e, t)" "length txt < length (obuf c)" "r = (if e then - 1 else int (length txt))"
    by (auto simp: poClient_sendF_def bind_eq_Some_conv Let_def)
  from writen_complete [OF W(1)] W(2,3) show ?thesis by auto
next
  case True
  obtain o' t' where L: "send_loop (sc_fd c) txt s = (o', t')" by fastforce
  from True L assms have R: "t = t'" "r = (case o' of None \<Rightarrow> int (length txt) | Some r \<Rightarrow> r)" "length txt < length (obuf c)"
    by (auto simp: poClient_sendF_def bind_eq_Some_conv Let_def split: option.splits)
  from send_loop_complete [OF L] obtain sent rest where
    S: "rd t' = rd s" "same_io (sc_fd c) s t'" "txt = sent @ rest" "out t' (sc_fd c) = out s (sc_fd c) @ sent"
    "o' = None \<longrightarrow> rest = []" "\<forall>x. o' = Some x \<longrightarrow> x \<le> 0 \<and> rest \<noteq> []" by blast
  have "rest = [] \<and> r = int (length txt) \<or> rest \<noteq> [] \<and> r \<le> 0" using S(5,6) R(2) by (cases o') simp_all
  moreover have "rest \<noteq> [] \<Longrightarrow> 0 < length txt" using S(3) by simp
  ultimately have "rest = [] \<longleftrightarrow> r = int (length txt)" "rest \<noteq> [] \<longrightarrow> r = 0 \<or> r < 0" by linarith+
  then show ?thesis using S R(1,3) by blast
qed

theorem client_send_all_witness:
  "\<exists>c' t. poClient_sendF [65, 66] ((zero_client 10)\<lparr>c_tls := True\<rparr>) \<lparr>rd = (\<lambda>_. []), wr = (\<lambda>_. [WSome 1, WIntr, WGone]), out = (\<lambda>_. [])\<rparr>
     = Some (- 1, c', t) \<and> out t 0 = [65] \<and> rd t = (\<lambda>_. [])"
proof -
  let ?s = "\<lparr>rd = (\<lambda>_. []), wr = (\<lambda>_. [WSome 1, WIntr, WGone]), out = (\<lambda>_. [])\<rparr>" and ?c = "(zero_client 10)\<lparr>c_tls := True\<rparr>"
  obtain c' t where e: "poClient_sendF [65, 66] ?c ?s = Some (- 1, c', t)" "out t 0 = [65]"
    by (simp add: poClient_sendF_def zero_client_def send_loop.simps k_write_def)
  from client_send_all [OF e(1)] have "rd t = (\<lambda>_. [])" by simp
  with e show ?thesis by blast
qed

text \<open>With TLS each connection, also one whose handshake fails, leaves a priority cache behind that nothing frees; its
  descriptor and its session are given back.\<close>

theorem client_leaks_cache:
  assumes "poSClient_create buflen threads fam (Some tls) a h = Some (c, h')" and "k_socket a \<notin> fds h" and "k_socket a \<notin> live h"
  shows "caches h' = Suc (caches h) \<and> (case c of None \<Rightarrow> fds h' = fds h \<and> live h' = live h
    | Some c \<Rightarrow> c_tls c \<and> sc_fd c = k_socket a \<and> (\<exists>c' h''. poSClient_destroy True True c h' = Some (False, c', h'')
        \<and> caches h'' = Suc (caches h) \<and> fds h'' = fds h \<and> live h'' = live h))"
  using assms by (auto simp: poSClient_create_def create_session_def poSClient_destroy_def zero_client_def bind_eq_Some_conv Let_def
      split: option.splits if_splits)

theorem client_leaks_cache_witness:
  "\<exists>c h'. poSClient_create 200 0 AF_INET (Some \<lparr>xcred = True, numClients = 0\<rparr>) answers1 held0 = Some (Some c, h') \<and> caches h' = 1"
proof -
  obtain c h' where e: "poSClient_create 200 0 AF_INET (Some \<lparr>xcred = True, numClients = 0\<rparr>) answers1 held0 = Some (Some c, h')"
    by (simp add: poSClient_create_def create_session_def answers1_def)
  moreover have "k_socket answers1 \<notin> fds held0" "k_socket answers1 \<notin> live held0" "caches held0 = 0" by (simp_all add: answers1_def held0_def)
  ultimately show ?thesis using client_leaks_cache [OF e] by auto
qed

end
