(* ===== verification/ServiceTest.thy ===== *)
theory ServiceTest
  imports Client ServiceProperties
begin

text \<open>
  The request callback of src/potato_old/service_test.c with the service, and how it meets the test client.
\<close>

text \<open>
  The callback ends the request with a 0 and answers with the random string that its first eight bytes make. For a request of fewer
  than seven bytes the code also reads bytes that earlier requests left in the buffer, and the model only the bytes there are; the property below is about the
  strings of the client, which have more than eight.
\<close>

definition test_read :: "rs_config \<Rightarrow> byte list \<Rightarrow> unit \<Rightarrow> unit prog" where
  "test_read cfg msg a = SendF (poRandSequence_string cfg (msg @ [0])) (\<lambda>_. Return POSERVICE_CONTINUE a)"

definition test_requests :: "rs_config \<Rightarrow> unit requests" where
  "test_requests cfg k d msg a = test_read cfg msg a"

lemma test_polite: "rs_config_ok cfg \<Longrightarrow> polite (test_requests cfg k d msg a)"
  using rand_string_spec(1) [of cfg "msg @ [0]"] by (auto simp: test_requests_def test_read_def rs_config_ok_def)

lemma rs_prefix: "8 \<le> length b \<Longrightarrow> poRandSequence_string cfg (b @ c) = poRandSequence_string cfg b"
  by (simp add: poRandSequence_string_def rs_seed_def)

lemma test_reply: "rs_config_ok cfg \<Longrightarrow> poRandSequence_string cfg (rs_sent cfg buf @ [0]) = rs_reply cfg buf"
  using rand_string_spec(1) [of cfg buf] by (subst rs_prefix) (auto simp: rs_sent_def rs_reply_def rs_config_ok_def)

text \<open>Property C29. The test service gives the test client the answer it waits for. When a string that the client sends has come in one piece,
  on a connection without TLS with nothing left from before, \<open>Read\<close> returns 0 and keeps the connection; it has read the whole string, has forgotten it, and what it wrote
  and has queued to write is the reply the client waits for, nothing else. The strings are not longer than \<^verbatim>\<open>MAX_MESSAGE_LENGTH\<close>, which is \<^verbatim>\<open>PO_RANDSEQUENCE_MAX\<close>.\<close>

theorem service_test_answers:
  assumes "rs_config_ok cfg" and "plain_at d x u s []" and "inBuffer s = []" and "\<not> tlsSession s"
    and "rd (sio u) (c_fd x) = [RData (rs_sent cfg buf)]" and "RANDSEQUENCE_MAX cfg \<le> maxMessageLength (services u (service_of s))"
  shows "\<exists>x' u' s' bs' w. Read (test_requests cfg) d x u = Some (0, x', u') \<and> plain_at d x' u' s' bs' \<and> inBuffer s' = []
    \<and> readCallback x' = readCallback x \<and> rd (sio u') (c_fd x) = [] \<and> out (sio u') (c_fd x) = out (sio u) (c_fd x) @ w
    \<and> w @ pending bs' = rs_reply cfg buf"
proof -
  let ?m = "rs_sent cfg buf"
  from Read_spec [OF assms(2), of "test_requests cfg"] test_polite [OF assms(1)] obtain rt x' u' where
    R: "Read (test_requests cfg) d x u = Some (rt, x', u')" "read_done (test_requests cfg) d x u s [] rt x' u'" by blast
  from R(2) obtain s' bs' new w ws r where
    D: "rt = 0 \<longrightarrow> plain_at d x' u' s' bs'" "stopped (maxMessageLength (services u (service_of s))) (rd (sio u) (c_fd x)) (rd (sio u') (c_fd x))
          (length (inBuffer s)) (inSize s) (inSize s') new r" "out (sio u') (c_fd x) = out (sio u) (c_fd x) @ w"
      "delivered (tlsSession s) (pending [] @ concat ws) w (pending bs')"
    and C: "if r = 2 \<and> inBuffer s @ new \<noteq> []
        then \<exists>a. sends (test_read cfg (inBuffer s @ new) (user u)) ws a (user u') \<and> answered a (inBuffer s @ new) x rt x' (inBuffer s') (bs' = [])
        else rt = (if r = 2 then 0 else r) \<and> ws = [] \<and> w = [] \<and> x' = x \<and> user u' = user u \<and> inBuffer s' = inBuffer s @ new"
    unfolding read_done_def test_requests_def by blast
  have len: "8 \<le> length ?m" "length ?m < RANDSEQUENCE_MAX cfg"
    using rand_string_spec(1,2) [OF assms(1), of buf] assms(1) by (simp_all add: rs_sent_def rs_config_ok_def)
  then have ne: "?m \<noteq> []" by auto
  from stopped_one_piece [OF D(2) [unfolded assms(5)] ne] len(2) assms(3,6)
  have m: "r = 2" "new = ?m" "rd (sio u') (c_fd x) = []" by auto
  have b: "inBuffer s @ new = ?m" "r = 2 \<and> ?m \<noteq> []" using m(1,2) assms(3) ne by simp_all
  from C obtain a where a: "sends (test_read cfg ?m (user u)) ws a (user u')" "answered a ?m x rt x' (inBuffer s') (bs' = [])"
    unfolding b(1) if_P [OF b(2)] by blast
  have A: "ws = [rs_reply cfg buf]" "a = POSERVICE_CONTINUE"
    using a(1) test_reply [OF assms(1), of buf] unfolding test_read_def by (auto elim!: sends_SendFE sends_ReturnE)
  have "rt = 0" "inBuffer s' = []" "readCallback x' = readCallback x" using a(2) by (simp_all add: A(2) answered_def)
  moreover have "w @ pending bs' = rs_reply cfg buf" using D(4) assms(4) by (simp add: A(1) delivered_def)
  ultimately show ?thesis using R(1) D(1,3) m(3) by auto
qed

text \<open>The string that the first round of a connection sends.\<close>

definition svc_string :: "unit svc" where
  "svc_string = svc1\<lparr>services := (\<lambda>_. \<lparr>maxMessageLength = 200, tls = None, s_callback = 0, s_callbackData = 0\<rparr>),
     sio := io1\<lparr>rd := (\<lambda>_. [])(5 := [RData (rs_sent cfg1 (pointer_text 5))])\<rparr>\<rparr>"

theorem service_test_answers_witness:
  "\<exists>x' u' s' bs'. Read (test_requests cfg1) 1 x_old svc_string = Some (0, x', u') \<and> plain_at 1 x' u' s' bs'
     \<and> out (sio u') 5 @ pending bs' = rs_reply cfg1 (pointer_text 5)"
proof -
  have c: "rs_config_ok cfg1" "RANDSEQUENCE_MAX cfg1 \<le> maxMessageLength (services svc_string (service_of (new_session 0 svc0)))"
    by (simp_all add: cfg1_def rs_config_ok_def RANDSEQUENCE_RANGE_def svc_string_def svc1_def svc0_def)
  have p: "plain_at 1 x_old svc_string (new_session 0 svc0) []"
    by (simp add: plain_at_def sess_at_def x_old_def x_new_def svc_string_def svc1_def svc0_def new_session_def zero_conn_def oq_empty
        calm_fd_def io1_def CHUNKLEN_def)
  have s: "inBuffer (new_session 0 svc0) = []" "\<not> tlsSession (new_session 0 svc0)" by (simp_all add: new_session_def svc0_def)
  have r: "c_fd x_old = 5" "rd (sio svc_string) (c_fd x_old) = [RData (rs_sent cfg1 (pointer_text 5))]" "out (sio svc_string) 5 = []"
    by (simp_all add: x_old_def x_new_def svc_string_def io1_def)
  from service_test_answers [OF c(1) p s r(2) c(2)] show ?thesis unfolding r(1) by (auto simp: r(3))
qed

end
