(* ===== verification/Primes.thy ===== *)
theory Primes
  imports Prelude
begin

text \<open>
  The prime numbers of src/python_C/primes.c: \<^verbatim>\<open>generate\<close> fills an array with the first \<open>num\<close> of them.
\<close>

text \<open>\<^verbatim>\<open>for(; i<current; ++i)\<close>: whether the loop is left with \<^verbatim>\<open>break\<close>.\<close>

fun divided :: "uint32 list \<Rightarrow> uint32 \<Rightarrow> bool" where
  "divided [] n = False"
| "divided (p # ps) n = (if n mod p = 0 then True else divided ps n)"

text \<open>
  The outer loop; \<open>primes\<close> is the array up to \<^verbatim>\<open>current\<close>, \<open>num\<close> its size. \<^verbatim>\<open>nextPrime\<close> wraps around at 2 to the 32, and a loop that
  does not end is \<open>None\<close>.
\<close>

partial_function (option) generate_loop :: "nat \<Rightarrow> uint32 list \<Rightarrow> uint32 \<Rightarrow> uint32 list option" where
  "generate_loop num primes nextPrime = (if length primes < num
     then (if divided primes nextPrime then generate_loop num primes (nextPrime + 2)
       else generate_loop num (primes @ [nextPrime]) nextPrime)
     else Some primes)"

text \<open>The first element is stored without a look at \<open>num\<close>: with 0 it is outside the array.\<close>

definition generate :: "nat \<Rightarrow> uint32 list option" where
  "generate num = do { ASSERT (0 < num); generate_loop num [2] 3 }"

subsection \<open>Prime numbers\<close>

definition is_prime :: "nat \<Rightarrow> bool" where
  "is_prime n \<longleftrightarrow> 2 \<le> n \<and> (\<forall>d. d dvd n \<longrightarrow> d = 1 \<or> d = n)"

definition primes_below :: "nat \<Rightarrow> nat list" where
  "primes_below n = filter is_prime [0..<n]"

lemma is_prime_2: "is_prime 2"
proof -
  have "d = 1 \<or> d = 2" if "d dvd 2" for d :: nat
  proof -
    have "d \<le> 2" "d \<noteq> 0" using that dvd_imp_le [OF that] by (auto intro: Nat.gr0I)
    then show ?thesis by linarith
  qed
  then show ?thesis by (simp add: is_prime_def)
qed

lemma odd_prime: "is_prime n \<Longrightarrow> n \<noteq> 2 \<Longrightarrow> odd n"
  by (auto simp: is_prime_def)

text \<open>Every number from 2 has a prime divisor, so a number with none below it is prime.\<close>

lemma prime_divisor: "2 \<le> n \<Longrightarrow> \<exists>p. is_prime p \<and> p dvd n"
proof (induction n rule: less_induct)
  case (less n)
  show ?case
  proof (cases "is_prime n")
    case False
    with less.prems obtain d where d: "d dvd n" "d \<noteq> 1" "d \<noteq> n" by (auto simp: is_prime_def)
    then have "d \<noteq> 0" "d \<le> n" using less.prems dvd_imp_le [OF d(1)] by (auto intro: Nat.gr0I)
    with d have "2 \<le> d" "d < n" by auto
    with less.IH [of d] d(1) show ?thesis by (meson dvd_trans)
  qed auto
qed

lemma prime_iff: "2 \<le> n \<Longrightarrow> is_prime n \<longleftrightarrow> (\<forall>p \<in> set (primes_below n). \<not> p dvd n)"
proof
  assume "2 \<le> n" "is_prime n"
  then show "\<forall>p \<in> set (primes_below n). \<not> p dvd n" by (auto simp: primes_below_def is_prime_def)
next
  assume n: "2 \<le> n" and none: "\<forall>p \<in> set (primes_below n). \<not> p dvd n"
  from prime_divisor [OF n] obtain p where p: "is_prime p" "p dvd n" by blast
  with none dvd_imp_le [OF p(2)] n have "p = n" by (force simp: primes_below_def)
  with p(1) show "is_prime n" by simp
qed

lemma primes_below_Suc: "primes_below (Suc n) = (if is_prime n then primes_below n @ [n] else primes_below n)"
  by (simp add: primes_below_def)

lemma primes_below_even: "odd n \<Longrightarrow> 1 < n \<Longrightarrow> primes_below (n + 2) = primes_below (n + 1)"
  using odd_prime [of "Suc n"] by (auto simp: primes_below_Suc)

lemma primes_below_3: "primes_below 3 = [2]"
proof -
  have "[0..<3] = [0, 1, 2 :: nat]" by (simp add: upt_rec)
  moreover have "\<not> is_prime 0" "\<not> is_prime 1" by (simp_all add: is_prime_def)
  ultimately show ?thesis by (simp add: primes_below_def is_prime_2)
qed

text \<open>The values of an \<^verbatim>\<open>unsigned int\<close> are below this.\<close>

definition word_limit :: nat where "word_limit = 2 ^ 32"

lemma unat_limit: "unat (n :: uint32) < word_limit"
  using unsigned_less [of n] by (simp add: word_limit_def)

lemma primes_below_prefix: "m \<le> n \<Longrightarrow> primes_below n = primes_below m @ filter is_prime [m..<n]"
  using upt_add_eq_append [of 0 m "n - m"] by (simp add: primes_below_def)

lemma take_primes_below: "m \<le> n \<Longrightarrow> take (length (primes_below m)) (primes_below n) = primes_below m"
  using primes_below_prefix [of m n] by simp

lemma three_limit: "3 \<le> word_limit"
  by (simp add: word_limit_def)

subsection \<open>The loop\<close>

lemma divided_iff: "divided ps n \<longleftrightarrow> (\<exists>p \<in> set (map unat ps). p dvd unat n)"
proof (induction ps)
  case (Cons p ps)
  have "n mod p = 0 \<longleftrightarrow> unat p dvd unat n" by (simp add: dvd_eq_mod_eq_0 unat_mod [symmetric] unat_eq_zero_iff)
  with Cons show ?case by simp
qed simp

text \<open>\<open>primes_at ps n\<close>: the array has the primes below \<open>n\<close>, and \<open>n\<close> too if that is what was stored last.\<close>

definition primes_at :: "uint32 list \<Rightarrow> uint32 \<Rightarrow> bool" where
  "primes_at ps n \<longleftrightarrow> odd (unat n) \<and> 3 \<le> unat n
     \<and> (map unat ps = primes_below (unat n) \<or> is_prime (unat n) \<and> map unat ps = primes_below (unat n + 1))"

lemma primes_at_store:
  assumes "primes_at ps n" and "\<not> divided ps n"
  shows "primes_at (ps @ [n]) n" "map unat ps = primes_below (unat n)"
proof -
  have False if t: "map unat ps = primes_below (unat n + 1)" "is_prime (unat n)"
  proof -
    have "unat n \<in> set (primes_below (unat n + 1))" using t(2) by (simp add: primes_below_def)
    then have "unat n \<in> set (map unat ps)" by (simp only: t(1))
    then show False using assms(2) [unfolded divided_iff] dvd_refl by blast
  qed
  with assms(1) show m: "map unat ps = primes_below (unat n)" by (auto simp: primes_at_def)
  have "2 \<le> unat n" using assms(1) by (simp add: primes_at_def)
  then have "is_prime (unat n)" using assms(2) prime_iff [of "unat n"] unfolding divided_iff m by blast
  then show "primes_at (ps @ [n]) n" using assms(1) m by (simp add: primes_at_def primes_below_Suc)
qed

lemma primes_at_skip:
  assumes "primes_at ps n" and "divided ps n" and "length ps < length (primes_below (word_limit))"
  shows "primes_at ps (n + 2)" "unat (n + 2) = unat n + 2"
proof -
  have n: "odd (unat n)" "3 \<le> unat n" using assms(1) by (simp_all add: primes_at_def)
  have m: "map unat ps = primes_below (unat n + 1)"
  proof (cases "map unat ps = primes_below (unat n)")
    case True
    then have "\<not> is_prime (unat n)" using assms(2) prime_iff [of "unat n"] n(2) unfolding divided_iff by auto
    with True show ?thesis by (simp add: primes_below_Suc)
  qed (use assms(1) in \<open>simp add: primes_at_def\<close>)
  have "unat n + 1 \<noteq> word_limit" using assms(3) m by (metis length_map less_irrefl)
  moreover have "unat n < word_limit" by (rule unat_limit)
  moreover have "unat n + 2 \<noteq> word_limit" using n(1) by (auto simp: word_limit_def)
  ultimately have "unat n + unat (2 :: uint32) < 2 ^ LENGTH(32)" by (simp add: word_limit_def)
  then have "unat (n + 2) = unat n + unat (2 :: uint32)" by (rule unat_add_lem [THEN iffD1])
  then show u: "unat (n + 2) = unat n + 2" by simp
  show "primes_at ps (n + 2)" unfolding primes_at_def u m using n primes_below_even [of "unat n"] by simp
qed

lemma generate_loop_run:
  assumes "num \<le> length (primes_below (word_limit))"
  shows "primes_at ps n \<Longrightarrow> length ps \<le> num \<Longrightarrow>
    \<exists>qs. generate_loop num ps n = Some qs \<and> map unat qs = take num (primes_below (word_limit))"
proof (induction "(word_limit - unat n) + (num - length ps)" arbitrary: ps n rule: less_induct)
  case less
  have n: "unat n < word_limit" by (rule unat_limit)
  show ?case
  proof (cases "length ps < num")
    case False
    with less.prems(2) have l: "length ps = num" by simp
    from less.prems(1) obtain m where m: "map unat ps = primes_below m" "m \<le> word_limit"
      using n unfolding primes_at_def by (metis Suc_eq_plus1 Suc_leI less_imp_le_nat)
    have "take num (primes_below (word_limit)) = primes_below m"
      using take_primes_below [OF m(2)] l m(1) by (metis length_map)
    with False m(1) show ?thesis by (subst generate_loop.simps) simp
  next
    case True
    show ?thesis
    proof (cases "divided ps n")
      case d: True
      have "length ps < length (primes_below (word_limit))" using True assms by simp
      note S = primes_at_skip [OF less.prems(1) d this]
      have "(word_limit - unat (n + 2)) + (num - length ps) < (word_limit - unat n) + (num - length ps)" using S(2) n by linarith
      from less.hyps [OF this S(1) less.prems(2)] True d show ?thesis by (subst generate_loop.simps) simp
    next
      case nd: False
      have "(word_limit - unat n) + (num - length (ps @ [n])) < (word_limit - unat n) + (num - length ps)" "length (ps @ [n]) \<le> num" using True by simp_all
      from less.hyps [OF this(1) primes_at_store(1) [OF less.prems(1) nd] this(2)] True nd show ?thesis
        by (subst generate_loop.simps) simp
    qed
  qed
qed

text \<open>Property C30. \<^verbatim>\<open>generate\<close> returns, with the first \<open>num\<close> prime numbers in ascending order, for every \<open>num\<close> from 1 up to the number of
  primes that an \<^verbatim>\<open>unsigned int\<close> can hold.\<close>

theorem generate_first_primes:
  assumes "0 < num" and "num \<le> length (primes_below (word_limit))"
  shows "\<exists>qs. generate num = Some qs \<and> length qs = num \<and> map unat qs = take num (filter is_prime [0..<word_limit])"
proof -
  have "primes_at [2] 3" by (simp add: primes_at_def primes_below_3)
  from generate_loop_run [OF assms(2) this] assms(1) obtain qs where
    Q: "generate num = Some qs" "map unat qs = take num (primes_below (word_limit))" by (auto simp: generate_def)
  have "length qs = num" using arg_cong [OF Q(2), of length] assms(2) by simp
  with Q show ?thesis by (simp add: primes_below_def)
qed

theorem generate_first_primes_witness: "\<exists>p. generate 1 = Some [p] \<and> unat p = 2"
proof -
  have e: "primes_below (word_limit) = 2 # filter is_prime [3..<word_limit]"
    using primes_below_prefix [of 3 word_limit] primes_below_3 by (simp add: three_limit)
  then have "1 \<le> length (primes_below (word_limit))" by simp
  from generate_first_primes [OF _ this] obtain qs where "generate 1 = Some qs" "map unat qs = take 1 (primes_below (word_limit))"
    unfolding primes_below_def [symmetric] by auto
  then show ?thesis unfolding e by (cases qs) auto
qed

end
