(* ===== verification/Fork.thy ===== *)
theory Fork
  imports PotatoProperties
begin

text \<open>
  What a child process has after \<^verbatim>\<open>poTato_fork\<close> of src/potato_old/potato.c: an epoll descriptor of its own for each server,
  which watches all listeners of the server.
\<close>

text \<open>
  A server that has handled no event since its listeners were set up: nothing waits, no connection is open, its epoll descriptor and
  its listeners are open descriptors.
\<close>

definition idle_server :: "sv_config \<Rightarrow> process \<Rightarrow> nat \<Rightarrow> bool" where
  "idle_server cfg p i \<longleftrightarrow> unat (numListeners (sv p i)) = NUM_LISTENERS cfg \<and> wq_first (waitingq (sv p i)) = None
     \<and> cl_first (used (sv p i)) = None \<and> 0 \<le> efd (sv p i) \<and> efd (sv p i) \<in> fst ` set (descrs p)
     \<and> (\<forall>j < NUM_LISTENERS cfg. 0 \<le> l_fd (listener (sv p i) j))"

text \<open>No two servers share an epoll descriptor, none is a listener.\<close>

definition epolls_apart :: "sv_config \<Rightarrow> process \<Rightarrow> nat list \<Rightarrow> bool" where
  "epolls_apart cfg p xs \<longleftrightarrow> distinct (map (\<lambda>i. efd (sv p i)) xs)
     \<and> (\<forall>i \<in> set xs. \<forall>k \<in> set xs. \<forall>j < NUM_LISTENERS cfg. efd (sv p i) \<noteq> l_fd (listener (sv p k) j)
        \<and> l_fd (listener (sv p k) j) \<in> fst ` set (descrs p))"

text \<open>A server of the child that is ready: its epoll descriptor is the new one and watches its listeners.\<close>

definition own_epoll :: "sv_config \<Rightarrow> (nat \<Rightarrow> nat) \<Rightarrow> process \<Rightarrow> nat \<Rightarrow> bool" where
  "own_epoll cfg e p i \<longleftrightarrow> map_of (descrs p) (efd (sv p i)) = Some (e i)
     \<and> set (watch p (efd (sv p i))) = (\<lambda>j. l_fd (listener (sv p i) j)) ` {..<NUM_LISTENERS cfg}"

text \<open>\<open>forked\<close>: between \<open>p\<close> and \<open>q\<close> only epoll descriptors have changed.\<close>

definition forked :: "sv_config \<Rightarrow> nat list \<Rightarrow> process \<Rightarrow> process \<Rightarrow> bool" where
  "forked cfg xs p q \<longleftrightarrow> po q = po p \<and> sv_next q = sv_next p \<and> sv_prev q = sv_prev p
     \<and> (\<forall>i. sv q i = (sv p i)\<lparr>efd := efd (sv q i)\<rparr>)
     \<and> (\<forall>i \<in> set xs. \<forall>j < NUM_LISTENERS cfg. map_of (descrs q) (l_fd (listener (sv p i) j)) = map_of (descrs p) (l_fd (listener (sv p i) j)))"

lemma map_of_close: "map_of (descrs (close_descr fd p)) x = (if x = fd then None else map_of (descrs p) x)"
proof -
  have "map_of (filter (\<lambda>d. fst d \<noteq> fd) ds) x = (if x = fd then None else map_of ds x)" for ds :: "(int \<times> nat) list"
    by (induction ds) auto
  then show ?thesis by (simp add: close_descr_def)
qed

lemma fst_descrs: "x \<in> fst ` set (descrs p) \<longleftrightarrow> map_of (descrs p) x \<noteq> None"
  by (metis map_of_eq_None_iff)

text \<open>The child's own state is untouched by \<open>close_descr\<close>.\<close>

lemma close_descr_fields [simp]:
  "po (close_descr fd p) = po p" "sv (close_descr fd p) = sv p" "sv_next (close_descr fd p) = sv_next p"
  "sv_prev (close_descr fd p) = sv_prev p" "watch (close_descr fd p) = watch p"
  by (simp_all add: close_descr_def)

text \<open>One turn of the loop.\<close>

lemma fork_server_spec:
  assumes "idle_server cfg p i"
  shows "\<exists>n. fork_server cfg e i p = Some ((close_descr (efd (sv p i)) p)\<lparr>descrs := (n, e i) # descrs (close_descr (efd (sv p i)) p),
      watch := (watch p)(n := map (\<lambda>j. l_fd (listener (sv p i) j)) (rev [0..<NUM_LISTENERS cfg])), sv := upd (sv p) i (\<lambda>s. s\<lparr>efd := n\<rparr>)\<rparr>)
    \<and> 0 \<le> n \<and> map_of (descrs (close_descr (efd (sv p i)) p)) n = None"
proof -
  let ?c = "close_descr (efd (sv p i)) p"
  let ?n = "new_fd (map fst (descrs ?c))"
  have "?n \<notin> fst ` set (descrs ?c)" using new_fd(1) [of "map fst (descrs ?c)"] by simp
  then have "map_of (descrs ?c) ?n = None" by (simp add: map_of_eq_None_iff)
  moreover have "fork_server cfg e i p = Some (?c\<lparr>descrs := (?n, e i) # descrs ?c,
      watch := (watch p)(?n := map (\<lambda>j. l_fd (listener (sv p i) j)) (rev [0..<NUM_LISTENERS cfg])), sv := upd (sv p) i (\<lambda>s. s\<lparr>efd := ?n\<rparr>)\<rparr>)"
    using assms by (simp add: fork_server_def idle_server_def Let_def)
  ultimately show ?thesis using new_fd(2) by blast
qed

lemma fork_server_loop:
  assumes "distinct (ys @ zs)" and "\<forall>i \<in> set zs. idle_server cfg p i" and "epolls_apart cfg p (ys @ zs)"
    and "\<forall>i \<in> set ys. own_epoll cfg e p i"
  shows "\<exists>q. fold_opt (fork_server cfg e) zs p = Some q \<and> forked cfg (ys @ zs) p q \<and> epolls_apart cfg q (ys @ zs)
    \<and> (\<forall>i \<in> set (ys @ zs). own_epoll cfg e q i)"
  using assms
proof (induction zs arbitrary: ys p)
  case Nil
  then show ?case by (simp add: forked_def)
next
  case (Cons i zs)
  let ?all = "ys @ i # zs" and ?f = "efd (sv p i)"
  have idle: "idle_server cfg p i" using Cons.prems(2) by simp
  from fork_server_spec [OF idle] obtain n where F: "fork_server cfg e i p = Some ((close_descr ?f p)\<lparr>descrs := (n, e i) # descrs (close_descr ?f p),
      watch := (watch p)(n := map (\<lambda>j. l_fd (listener (sv p i) j)) (rev [0..<NUM_LISTENERS cfg])), sv := upd (sv p) i (\<lambda>s. s\<lparr>efd := n\<rparr>)\<rparr>)"
    and n: "0 \<le> n" "map_of (descrs (close_descr ?f p)) n = None" by blast
  define p1 where "p1 = (close_descr ?f p)\<lparr>descrs := (n, e i) # descrs (close_descr ?f p),
      watch := (watch p)(n := map (\<lambda>j. l_fd (listener (sv p i) j)) (rev [0..<NUM_LISTENERS cfg])), sv := upd (sv p) i (\<lambda>s. s\<lparr>efd := n\<rparr>)\<rparr>"
  have D: "map_of (descrs p1) x = (if x = n then Some (e i) else if x = ?f then None else map_of (descrs p) x)" for x
    by (simp add: p1_def map_of_close)
  have S: "sv p1 k = (if k = i then (sv p i)\<lparr>efd := n\<rparr> else sv p k)" for k by (simp add: p1_def upd_apply)
  have W: "watch p1 = (watch p)(n := map (\<lambda>j. l_fd (listener (sv p i) j)) (rev [0..<NUM_LISTENERS cfg]))" by (simp add: p1_def)
  have apart: "distinct (map (\<lambda>k. efd (sv p k)) ?all)"
    and lst: "k \<in> set ?all \<Longrightarrow> l \<in> set ?all \<Longrightarrow> j < NUM_LISTENERS cfg \<Longrightarrow> efd (sv p k) \<noteq> l_fd (listener (sv p l) j) \<and> map_of (descrs p) (l_fd (listener (sv p l) j)) \<noteq> None"
    for k l j using Cons.prems(3) unfolding epolls_apart_def fst_descrs by blast+
  have open_fd: "map_of (descrs p) (efd (sv p k)) \<noteq> None" if "k \<in> set ?all" for k
    using that Cons.prems(2,4) by (auto simp: idle_server_def own_epoll_def fst_descrs)
  have other: "efd (sv p k) \<noteq> ?f" if "k \<in> set ?all" "k \<noteq> i" for k using apart that Cons.prems(1) by (auto simp: image_iff)
  have fresh: "efd (sv p k) \<noteq> n" if "k \<in> set ?all" "k \<noteq> i" for k
    using n(2) open_fd [OF that(1)] other [OF that] by (auto simp: map_of_close split: if_splits)
  have lfresh: "l_fd (listener (sv p l) j) \<noteq> n \<and> l_fd (listener (sv p l) j) \<noteq> ?f" if "l \<in> set ?all" "j < NUM_LISTENERS cfg" for l j
    using n(2) lst [OF _ that, of i] by (auto simp: map_of_close split: if_splits)
  have own: "own_epoll cfg e p1 k" if "k \<in> set (ys @ [i])" for k
  proof (cases "k = i")
    case True
    have "set (map (\<lambda>j. l_fd (listener (sv p i) j)) (rev [0..<NUM_LISTENERS cfg])) = (\<lambda>j. l_fd (listener (sv p i) j)) ` {..<NUM_LISTENERS cfg}"
      by (simp add: atLeast0LessThan)
    with True show ?thesis by (simp add: own_epoll_def S D W)
  next
    case False
    with that have "own_epoll cfg e p k" "k \<in> set ?all" using Cons.prems(4) by auto
    with False other fresh show ?thesis by (simp add: own_epoll_def S D W)
  qed
  have e1: "efd (sv p1 k) = (if k = i then n else efd (sv p k))" for k by (simp add: S)
  have inj: "inj_on (\<lambda>k. efd (sv p k)) (set ?all)" using apart by (simp only: distinct_map)
  have "inj_on (\<lambda>k. efd (sv p1 k)) (set ?all)"
  proof (rule inj_onI)
    fix k l assume kl: "k \<in> set ?all" "l \<in> set ?all" "efd (sv p1 k) = efd (sv p1 l)"
    then show "k = l" using fresh [of k] fresh [of l] inj_onD [OF inj, of k l] unfolding e1 by (auto split: if_splits)
  qed
  then have dist1: "distinct (map (\<lambda>k. efd (sv p1 k)) ?all)" using Cons.prems(1) by (simp only: distinct_map)
  have l1: "listener (sv p1 k) = listener (sv p k)" for k by (simp add: S)
  have lst1: "efd (sv p1 k) \<noteq> l_fd (listener (sv p1 l) j) \<and> map_of (descrs p1) (l_fd (listener (sv p1 l) j)) \<noteq> None"
    if "k \<in> set ?all" "l \<in> set ?all" "j < NUM_LISTENERS cfg" for k l j
    using lst [OF that] lfresh [OF that(2,3)] unfolding e1 l1 D by (auto split: if_splits)
  have ap: "epolls_apart cfg p1 ?all" unfolding epolls_apart_def fst_descrs using dist1 lst1 by blast
  have idl: "idle_server cfg p1 k" if "k \<in> set zs" for k
    using Cons.prems(1,2) that other [of k] fresh [of k] unfolding idle_server_def fst_descrs by (auto simp: S D)
  have fk: "forked cfg ?all p p1"
    using lfresh by (auto simp: forked_def S D) (simp_all add: p1_def)
  from Cons.IH [of "ys @ [i]" p1] Cons.prems(1) idl ap own obtain q where
    Q: "fold_opt (fork_server cfg e) zs p1 = Some q" "forked cfg ?all p1 q" "epolls_apart cfg q ?all" "\<forall>k \<in> set ?all. own_epoll cfg e q k"
    by auto
  have "forked cfg ?all p q"
  proof -
    have "sv q k = (sv p k)\<lparr>efd := efd (sv q k)\<rparr>" for k
    proof -
      have "sv q k = (sv p1 k)\<lparr>efd := efd (sv q k)\<rparr>" using Q(2) by (simp add: forked_def)
      then show ?thesis by (simp add: S split: if_splits)
    qed
    moreover have "listener (sv p1 k) = listener (sv p k)" for k by (simp add: S)
    ultimately show ?thesis using fk Q(2) by (simp add: forked_def)
  qed
  with F Q(1,3,4) show ?case unfolding p1_def [symmetric] by simp
qed

text \<open>Property C24. A child process that \<^verbatim>\<open>poTato_fork\<close> made, before any event was handled, returns 0 and can serve: each server has an epoll
  descriptor of its own, different from that of every other server, which watches exactly the listeners of the server; the listeners
  are still the sockets of the parent, nothing else of the servers has changed, and the child has no children and no exit status yet.\<close>

theorem fork_child_serves:
  assumes "servers_at p xs" and "xs \<noteq> []" and "\<forall>i \<in> set xs. idle_server cfg p i" and "epolls_apart cfg p xs"
  shows "\<exists>q. fork_child cfg e tid p = Some (0, q) \<and> servers_at q xs \<and> (\<forall>i \<in> set xs. own_epoll cfg e q i) \<and> epolls_apart cfg q xs
    \<and> (\<forall>i. sv q i = (sv p i)\<lparr>efd := efd (sv q i)\<rparr>)
    \<and> (\<forall>i \<in> set xs. \<forall>j < NUM_LISTENERS cfg. map_of (descrs q) (l_fd (listener (sv p i) j)) = map_of (descrs p) (l_fd (listener (sv p i) j)))
    \<and> childPids (po q) = [] \<and> exitStatus (po q) = 0 \<and> masterTid (po q) = tid"
proof -
  have d: "distinct xs" using assms(1) by (auto simp: servers_at_def dest: dll_distinct)
  from fork_server_loop [of "[]" xs cfg p e] d assms(3,4) obtain q where
    Q: "fold_opt (fork_server cfg e) xs p = Some q" "forked cfg xs p q" "epolls_apart cfg q xs" "\<forall>i \<in> set xs. own_epoll cfg e q i" by auto
  have "po_servers (po p) \<noteq> None" using assms(1,2) unfolding servers_at_def using dll_None_iff by blast
  with Q(1) have "fork_child cfg e tid p = Some (0, upd_po (\<lambda>q. q\<lparr>masterTid := tid, childPids := [], exitStatus := 0\<rparr>) q)"
    by (simp add: fork_child_def each_server_at [OF assms(1)])
  with Q(2-4) assms(1) show ?thesis
    by (auto simp: forked_def servers_at_def own_epoll_def epolls_apart_def)
qed

text \<open>A server with one listener, on the descriptor 4, and the epoll descriptor 3.\<close>

definition fork_process :: process where
  "fork_process = addServer 0 (proc0\<lparr>sv := (\<lambda>_. zero_server\<lparr>numListeners := 1, efd := 3,
       listener := (\<lambda>_. zero_listener\<lparr>l_fd := 4, l_addr := 2\<rparr>)\<rparr>), descrs := [(4, 7), (3, 1)]\<rparr>)"

theorem fork_child_serves_witness:
  "\<exists>q. fork_child one_listener (\<lambda>_. 9) 50 fork_process = Some (0, q) \<and> map_of (descrs q) (efd (sv q 0)) = Some 9
     \<and> set (watch q (efd (sv q 0))) = {4}"
proof -
  have at: "servers_at fork_process [0]"
    using addServer_at [of _ "[]" 0] by (simp add: fork_process_def servers_at_def proc0_def po0_def)
  have f: "sv fork_process = (\<lambda>_. zero_server\<lparr>numListeners := 1, efd := 3, listener := (\<lambda>_. zero_listener\<lparr>l_fd := 4, l_addr := 2\<rparr>)\<rparr>)"
    "descrs fork_process = [(4, 7), (3, 1)]" by (simp_all add: fork_process_def addServer_def Let_def proc0_def po0_def)
  have "idle_server one_listener fork_process 0" "epolls_apart one_listener fork_process [0]"
    by (simp_all add: idle_server_def epolls_apart_def f one_listener_def zero_server_def)
  then obtain q where Q: "fork_child one_listener (\<lambda>_. 9) 50 fork_process = Some (0, q)" "own_epoll one_listener (\<lambda>_. 9) q 0"
    "sv q 0 = (sv fork_process 0)\<lparr>efd := efd (sv q 0)\<rparr>" using fork_child_serves [OF at, of one_listener "\<lambda>_. 9" 50] by auto
  have "listener (sv q 0) = listener (sv fork_process 0)" using arg_cong [OF Q(3), of listener] by simp
  with Q(1,2) show ?thesis by (auto simp: own_epoll_def one_listener_def f)
qed

end
