(* ===== verification/DirectPool.thy ===== *)
theory DirectPool
  imports ThreadPool
begin

text \<open>
  What is left of src/potato_old/threadPool.c and threadPool.h: freeing the object of a pool, and the build with
  \<^verbatim>\<open>PO_THREADPOOL_MAX_NUM_THREADS\<close> 0, where the struct has no members and a task is run at once. Also the loop of client.c,
  which is built like that (client\_conf.h) and gives the pool one task for each connection.
\<close>

text \<open>\<^verbatim>\<open>_poThreadPool_destroy\<close>; \<open>ok\<close> are the answers to destroying the conditions of the workers, the mutex and the condition.\<close>

definition destroy_object :: "tp_config \<Rightarrow> (nat \<Rightarrow> bool) \<Rightarrow> POThreadPool \<Rightarrow> (bool \<times> POThreadPool) option" where
  "destroy_object cfg ok p = do {
     ASSERT (\<forall>i < MAX_NUM_THREADS cfg. ok i);
     ASSERT (ok (MAX_NUM_THREADS cfg));
     ASSERT (ok (Suc (MAX_NUM_THREADS cfg)));
     Some (False, zero_pool cfg) }"

subsection \<open>Without threads\<close>

text \<open>The pool is \<open>()\<close>. A callback may end the process, with the status in \<open>Inl\<close>.\<close>

definition direct_create :: "unit \<Rightarrow> unit" where
  "direct_create p = p"

definition direct_runTask :: "('d \<Rightarrow> 'w \<Rightarrow> int + 'w) \<Rightarrow> 'd \<Rightarrow> unit \<Rightarrow> 'w \<Rightarrow> int + (bool \<times> 'w)" where
  "direct_runTask callback callbackData p w = (case callback callbackData w of Inl c \<Rightarrow> Inl c | Inr w \<Rightarrow> Inr (False, w))"

definition direct_checkIdleThreadTimeout :: "unit \<Rightarrow> bool" where
  "direct_checkIdleThreadTimeout p = False"

definition direct_destroy :: "unit \<Rightarrow> bool" where
  "direct_destroy p = False"

definition direct_destroyForce :: "unit \<Rightarrow> bool" where
  "direct_destroyForce p = False"

subsection \<open>The loop of the client\<close>

text \<open>
  \<open>running made\<close> is the value of the flag, which the handler of SIGINT clears, when \<open>made\<close> connections were made. The result
  is the number of connections, or the status of \<^verbatim>\<open>exit\<close>.
\<close>

function client_loop :: "(nat \<Rightarrow> 'w \<Rightarrow> int + 'w) \<Rightarrow> nat \<Rightarrow> (nat \<Rightarrow> bool) \<Rightarrow> nat \<Rightarrow> nat \<Rightarrow> 'w \<Rightarrow> int + (nat \<times> 'w)" where
  "client_loop go maxCount running p made w = (if \<not> running made then Inr (made, w)
     else let p = p + 1 in case direct_runTask go p () w of
       Inl c \<Rightarrow> Inl c
     | Inr (_, w) \<Rightarrow> let made = made + 1 in
         if made \<ge> maxCount then Inr (made, w) else client_loop go maxCount running p made w)"
  by pat_completeness auto

termination
  by (relation "measure (\<lambda>(go, maxCount, running, p, made, w). maxCount - made)") auto

declare client_loop.simps [simp del]

text \<open>Every connection of the client is one task, run once, in order, until one fails; nothing is left for the pool to wait for.\<close>

lemma client_loop_connects:
  assumes "\<And>i. running i" and "\<And>k w. go k w = Inr (step k w)"
  shows "client_loop go (made + Suc n) running p made w = Inr (made + Suc n, fold step [p + 1..<p + 2 + n] w)"
proof (induction n arbitrary: p made w)
  case 0
  show ?case using assms by (subst client_loop.simps) (simp add: direct_runTask_def upt_rec)
next
  case (Suc n)
  have u: "[p + 1..<p + 2 + Suc n] = (p + 1) # [p + 1 + 1..<p + 1 + 2 + n]" by (subst upt_conv_Cons) (simp_all add: eval_nat_numeral del: upt_Suc)
  have "client_loop go (made + Suc (Suc n)) running p made w = client_loop go (made + 1 + Suc n) running (p + 1) (made + 1) (step (p + 1) w)"
    using assms by (subst client_loop.simps) (simp add: direct_runTask_def Let_def)
  also have "\<dots> = Inr (made + 1 + Suc n, fold step [p + 1 + 1..<p + 1 + 2 + n] (step (p + 1) w))" by (rule Suc.IH)
  finally show ?case unfolding u by simp
qed

end
