(* ===== verification/Address.thy ===== *)
theory Address
  imports Prelude
begin

text \<open>
  \<^verbatim>\<open>poUtil_setAddress\<close> of src/potato_old/util.h, which the server and the client call for the address of a host and port (the code
  between \<^verbatim>\<open>#ifdef OLD\<close> is not compiled). \<^verbatim>\<open>getaddrinfo\<close> is a library: whether it succeeds and its list of addresses are arguments;
  the length of an address is that of its bytes.
\<close>

definition AF_INET_no :: int where "AF_INET_no = 2"
definition AF_INET6_no :: int where "AF_INET6_no = 10"

text \<open>\<^verbatim>\<open>sizeof(struct sockaddr)\<close> and, of an IP version 6 address, \<^verbatim>\<open>sizeof(struct sockaddr_in6)\<close>.\<close>

definition sockaddr_size :: nat where "sockaddr_size = 16"
definition sockaddr_in6_size :: nat where "sockaddr_in6_size = 28"

record addrinfo =
  ai_family :: int
  ai_addr :: "byte list"

primrec find_address :: "addrinfo list \<Rightarrow> addrinfo option" where
  "find_address [] = None"
| "find_address (p # ps) = (if (ai_family p = AF_INET_no \<or> ai_family p = AF_INET6_no) \<and> length (ai_addr p) \<le> sockaddr_size
     then Some p else find_address ps)"

text \<open>The result is the returned flag, true for an error, and the 16 bytes of \<open>saddr\<close>.\<close>

definition poUtil_setAddress :: "bool \<Rightarrow> addrinfo list \<Rightarrow> (bool \<times> byte list) option" where
  "poUtil_setAddress ok info = do {
     ASSERT ok;
     ASSERT (info \<noteq> []);
     p \<leftarrow> find_address info;
     Some (False, ai_addr p @ replicate (sockaddr_size - length (ai_addr p)) 0) }"

lemma find_address_in: "find_address ps = Some p \<Longrightarrow> p \<in> set ps \<and> length (ai_addr p) \<le> sockaddr_size \<and> (ai_family p = AF_INET_no \<or> ai_family p = AF_INET6_no)"
  by (induction ps) (auto split: if_splits)

lemma setAddress_size: "poUtil_setAddress ok info = Some (e, a) \<Longrightarrow> length a = sockaddr_size"
  by (auto simp: poUtil_setAddress_def bind_eq_Some_conv dest: find_address_in)

text \<open>An IP version 6 address is longer than the room for it and is never taken, although the loop asks for its family too.\<close>

lemma setAddress_no_ipv6:
  assumes "\<forall>p \<in> set info. ai_family p = AF_INET6_no \<longrightarrow> length (ai_addr p) = sockaddr_in6_size"
  shows "find_address info = Some p \<Longrightarrow> ai_family p = AF_INET_no"
    and "\<forall>p \<in> set info. ai_family p \<noteq> AF_INET_no \<Longrightarrow> poUtil_setAddress ok info = None"
proof -
  show "ai_family p = AF_INET_no" if "find_address info = Some p" for p
    using find_address_in [OF that] assms by (auto simp: sockaddr_size_def sockaddr_in6_size_def)
  then show "\<forall>p \<in> set info. ai_family p \<noteq> AF_INET_no \<Longrightarrow> poUtil_setAddress ok info = None"
    using find_address_in [of info] by (cases "find_address info") (auto simp: poUtil_setAddress_def)
qed

end
