(* ===== verification/CrtsOpt.thy ===== *)
theory CrtsOpt
  imports Prelude
begin

text \<open>
  The command line of the radio program: bin/get_opt.cpp, bin/get_opt.hpp and the loop of \<^verbatim>\<open>main\<close> in bin/crts\_radio.cpp of
  src/lanceman2\_crts. An argument is a string without its final zero, \<open>argv\<close> the list of all of them, and the pointer
  \<^verbatim>\<open>moduleArgv\<close> into \<^verbatim>\<open>argv\<close> an index. A number of type \<^verbatim>\<open>double\<close> is the real number it is; what \<^verbatim>\<open>strtod\<close> makes of a
  string (the number, how many characters it used, whether it set \<^verbatim>\<open>ERANGE\<close>) is an argument.
\<close>

subsection \<open>One option\<close>

text \<open>\<^verbatim>\<open>strncmp\<close> finds no difference in the first \<open>n\<close> characters.\<close>

definition strncmp_eq :: "string \<Rightarrow> string \<Rightarrow> nat \<Rightarrow> bool" where
  "strncmp_eq a b n \<longleftrightarrow> take n a = take n b"

text \<open>
  \<^verbatim>\<open>get_opt\<close>: the value and the index after it, or \<open>None\<close> for false. The forms are \<^verbatim>\<open>long=VALUE\<close>,
  then \<^verbatim>\<open>long VALUE\<close> or \<^verbatim>\<open>short VALUE\<close>, then \<^verbatim>\<open>shortVALUE\<close>. An empty \<open>shorT\<close> stands also for NULL.
\<close>

definition get_opt :: "string \<Rightarrow> string \<Rightarrow> string list \<Rightarrow> nat \<Rightarrow> (string \<times> nat) option" where
  "get_opt shorT lonG argv i =
     (let arg = argv ! i;
          key = takeWhile (\<lambda>c. c \<noteq> CHR ''='') arg;
          rest = dropWhile (\<lambda>c. c \<noteq> CHR ''='') arg;
          len = (if rest = [] then 0 else length key);
          str = tl rest
      in if i < length argv \<and> len \<noteq> 0 \<and> strncmp_eq arg lonG len \<and> str \<noteq> [] then Some (str, i + 1)
         else if i + 1 < length argv \<and> (arg = lonG \<or> shorT \<noteq> [] \<and> arg = shorT) then Some (argv ! (i + 1), i + 2)
         else if shorT = [] then None
         else if i < length argv \<and> strncmp_eq arg shorT (length shorT) \<and> length shorT < length arg
              then Some (drop (length shorT) arg, i + 1)
         else None)"

text \<open>\<^verbatim>\<open>get_opt\<close> of a module: its name, and the arguments between \<^verbatim>\<open>[\<close> and \<^verbatim>\<open>]\<close> that may follow.\<close>

record module_opt =
  moduleName :: string
  moduleArgc :: nat
  moduleArgv :: ptr

text \<open>The loop over the arguments of the module: how many there are, and how far it went.\<close>

fun module_scan :: "string list \<Rightarrow> nat \<times> nat" where
  "module_scan [] = (0, 0)"
| "module_scan (a # as) = (if a \<noteq> '']'' then let (n, k) = module_scan as in (Suc n, Suc k) else (0, 1))"

definition get_opt_module :: "string \<Rightarrow> string \<Rightarrow> string list \<Rightarrow> nat \<Rightarrow> (module_opt \<times> nat) option" where
  "get_opt_module shorT lonG argv i = (case get_opt shorT lonG argv i of
       None \<Rightarrow> None
     | Some (name, j) \<Rightarrow>
         if j \<ge> length argv \<or> argv ! j \<noteq> ''['' then Some (\<lparr>moduleName = name, moduleArgc = 0, moduleArgv = None\<rparr>, j)
         else let (n, k) = module_scan (drop (j + 1) argv)
              in Some (\<lparr>moduleName = name, moduleArgc = n, moduleArgv = Some (j + 1)\<rparr>, j + 1 + k))"

text \<open>\<^verbatim>\<open>get_opt_double\<close>: the outer \<open>None\<close> is the assertion that the text is a number.\<close>

type_synonym strtod = "string \<Rightarrow> real \<times> nat \<times> bool"

definition get_opt_double :: "strtod \<Rightarrow> string \<Rightarrow> string \<Rightarrow> string list \<Rightarrow> nat \<Rightarrow> (real \<times> nat) option option" where
  "get_opt_double strtod shorT lonG argv i = (case get_opt shorT lonG argv i of
       None \<Rightarrow> Some None
     | Some (str, j) \<Rightarrow> (let (val, endptr, erange) = strtod str
                         in if endptr = 0 \<or> erange then None else Some (Some (val, j))))"

subsection \<open>All options\<close>

record radio_opts =
  uhd_args :: string
  iMod :: module_opt
  oMod :: module_opt
  ioMod :: module_opt
  rx_freq :: real
  rx_rate :: real
  rx_gain :: real
  tx_freq :: real
  tx_rate :: real
  tx_gain :: real

definition radio_defaults :: radio_opts where
  "radio_defaults = \<lparr>uhd_args = [],
     iMod = \<lparr>moduleName = ''fd0'', moduleArgc = 0, moduleArgv = None\<rparr>,
     oMod = \<lparr>moduleName = ''fd1'', moduleArgc = 0, moduleArgv = None\<rparr>,
     ioMod = \<lparr>moduleName = [], moduleArgc = 0, moduleArgv = None\<rparr>,
     rx_freq = 914.5, rx_rate = 1, rx_gain = 0, tx_freq = 915.5, tx_rate = 1, tx_gain = 0\<rparr>"

text \<open>A turn of the loop reads an option (\<open>Go\<close>), or prints the usage, with the argument that is unknown.\<close>

datatype turn = Go radio_opts nat | Usage "string option"

definition parse_numbers :: "strtod \<Rightarrow> string list \<Rightarrow> nat \<Rightarrow> radio_opts \<Rightarrow> turn option" where
  "parse_numbers strtod argv i r = do {
     a \<leftarrow> get_opt_double strtod ''-f'' ''--rx-freq'' argv i;
     case a of Some (x, j) \<Rightarrow> Some (Go (r\<lparr>rx_freq := x\<rparr>) j) | None \<Rightarrow> do {
     a \<leftarrow> get_opt_double strtod ''-r'' ''--rx-rate'' argv i;
     case a of Some (x, j) \<Rightarrow> Some (Go (r\<lparr>rx_rate := x\<rparr>) j) | None \<Rightarrow> do {
     a \<leftarrow> get_opt_double strtod ''-g'' ''--rx-gain'' argv i;
     case a of Some (x, j) \<Rightarrow> Some (Go (r\<lparr>rx_gain := x\<rparr>) j) | None \<Rightarrow> do {
     a \<leftarrow> get_opt_double strtod ''-F'' ''--tx-freq'' argv i;
     case a of Some (x, j) \<Rightarrow> Some (Go (r\<lparr>tx_freq := x\<rparr>) j) | None \<Rightarrow> do {
     a \<leftarrow> get_opt_double strtod ''-R'' ''--tx-rate'' argv i;
     case a of Some (x, j) \<Rightarrow> Some (Go (r\<lparr>tx_rate := x\<rparr>) j) | None \<Rightarrow> do {
     a \<leftarrow> get_opt_double strtod ''-G'' ''--tx-gain'' argv i;
     case a of Some (x, j) \<Rightarrow> Some (Go (r\<lparr>tx_gain := x\<rparr>) j) | None \<Rightarrow>
       Some (Usage (if argv ! i = ''-h'' \<or> argv ! i = ''--help'' then None else Some (argv ! i)))}}}}}}"

definition parse_turn :: "strtod \<Rightarrow> string list \<Rightarrow> nat \<Rightarrow> radio_opts \<Rightarrow> turn option" where
  "parse_turn strtod argv i r =
     (case get_opt ''-A'' ''--uhd-args'' argv i of Some (s, j) \<Rightarrow> Some (Go (r\<lparr>uhd_args := s\<rparr>) j) | None \<Rightarrow>
      case get_opt_module ''-i'' ''--input'' argv i of Some (m, j) \<Rightarrow> Some (Go (r\<lparr>iMod := m\<rparr>) j) | None \<Rightarrow>
      case get_opt_module ''-o'' ''--output'' argv i of Some (m, j) \<Rightarrow> Some (Go (r\<lparr>oMod := m\<rparr>) j) | None \<Rightarrow>
      case get_opt_module ''-p'' ''--io'' argv i of Some (m, j) \<Rightarrow> Some (Go (r\<lparr>ioMod := m\<rparr>) j) | None \<Rightarrow>
      parse_numbers strtod argv i r)"

text \<open>Each option takes at least an argument, and no more than there are.\<close>

lemma get_opt_progress: "get_opt s l argv i = Some (v, j) \<Longrightarrow> i < j \<and> j \<le> length argv"
  by (auto simp: get_opt_def Let_def split: if_splits)

lemma module_scan_le: "module_scan as = (n, k) \<Longrightarrow> n \<le> k \<and> k \<le> length as"
  by (induction as arbitrary: n k) (fastforce split: if_splits prod.splits)+

lemma get_opt_module_progress:
  assumes "get_opt_module s l argv i = Some (m, j)"
  shows "i < j \<and> j \<le> length argv"
proof -
  obtain v p where v: "get_opt s l argv i = Some (v, p)"
    using assms by (auto simp: get_opt_module_def split: option.splits)
  obtain n k where nk: "module_scan (drop (Suc p) argv) = (n, k)" by fastforce
  show ?thesis
    using assms get_opt_progress [OF v] v nk module_scan_le [OF nk]
    by (auto simp: get_opt_module_def split: if_splits)
qed

lemma get_opt_double_progress: "get_opt_double f s l argv i = Some (Some (x, j)) \<Longrightarrow> i < j \<and> j \<le> length argv"
  by (auto simp: get_opt_double_def Let_def split: option.splits if_splits prod.splits dest: get_opt_progress)

lemma parse_turn_progress:
  assumes "parse_turn f argv i r = Some (Go q j)"
  shows "i < j \<and> j \<le> length argv"
proof -
  have numbers: "parse_numbers f argv i r = Some (Go q j) \<Longrightarrow> ?thesis"
    by (auto simp: parse_numbers_def split: bind_splits option.splits prod.splits dest: get_opt_double_progress)
  show ?thesis
    using assms unfolding parse_turn_def
    by (auto split: option.splits prod.splits dest: numbers get_opt_progress get_opt_module_progress)
qed

text \<open>The loop: the options, or the usage and exit status 1.\<close>

function parse_args :: "strtod \<Rightarrow> string list \<Rightarrow> nat \<Rightarrow> radio_opts \<Rightarrow> (radio_opts + string option) option" where
  "parse_args strtod argv i r =
     (if i < length argv then (case parse_turn strtod argv i r of
          None \<Rightarrow> None
        | Some (Usage u) \<Rightarrow> Some (Inr u)
        | Some (Go q j) \<Rightarrow> parse_args strtod argv j q)
      else Some (Inl r))"
  by pat_completeness auto
termination
  by (relation "measure (\<lambda>(f, argv, i, r). length argv - i)") (auto dest: parse_turn_progress)

declare parse_args.simps [simp del]

subsection \<open>Options as they are written\<close>

text \<open>
  The four forms of an option with the short key \<open>s\<close> and the long key \<open>l\<close>. A value that is joined to the key must
  not be empty.
\<close>

datatype form = LongNext | ShortNext | LongEq | ShortJoined

fun written :: "form \<Rightarrow> string \<Rightarrow> string \<Rightarrow> string \<Rightarrow> string list" where
  "written LongNext s l v = [l, v]"
| "written ShortNext s l v = [s, v]"
| "written LongEq s l v = [l @ ''='' @ v]"
| "written ShortJoined s l v = [s @ v]"

definition joinable :: "form \<Rightarrow> string \<Rightarrow> bool" where
  "joinable f v \<longleftrightarrow> f \<in> {LongEq, ShortJoined} \<longrightarrow> v \<noteq> []"

text \<open>A pair of keys as the program has them.\<close>

definition keys :: "string \<Rightarrow> string \<Rightarrow> bool" where
  "keys s l \<longleftrightarrow> (\<exists>c. s = [CHR ''-'', c] \<and> c \<notin> {CHR ''-'', CHR ''=''}) \<and> take 2 l = ''--'' \<and> CHR ''='' \<notin> set l"

text \<open>An argument list with \<open>as\<close> at index \<open>i\<close>.\<close>

definition has_at :: "string list \<Rightarrow> nat \<Rightarrow> string list \<Rightarrow> bool" where
  "has_at argv i as \<longleftrightarrow> i \<le> length argv \<and> (\<exists>bs. drop i argv = as @ bs)"

lemma has_at_Cons [simp]: "has_at argv i (a # as) \<longleftrightarrow> i < length argv \<and> argv ! i = a \<and> has_at argv (Suc i) as"
proof
  assume "has_at argv i (a # as)"
  then obtain bs where d: "drop i argv = a # as @ bs" by (auto simp: has_at_def)
  then have "i < length argv" by (metis drop_all leI list.distinct(1))
  with d show "i < length argv \<and> argv ! i = a \<and> has_at argv (Suc i) as"
    by (auto simp: has_at_def Cons_nth_drop_Suc [symmetric])
qed (auto simp: has_at_def Cons_nth_drop_Suc [symmetric])

lemma has_at_Nil [simp]: "has_at argv i [] \<longleftrightarrow> i \<le> length argv"
  by (auto simp: has_at_def)

lemma has_at_append: "has_at argv i (as @ bs) \<longleftrightarrow> has_at argv i as \<and> has_at argv (i + length as) bs"
proof (induction as arbitrary: i)
  case (Cons a as)
  then show ?case by auto
qed (auto simp: has_at_def)

lemma split_at_eq:
  assumes "CHR ''='' \<notin> set k"
  shows "takeWhile (\<lambda>c. c \<noteq> CHR ''='') (k @ CHR ''='' # v) = k" "dropWhile (\<lambda>c. c \<noteq> CHR ''='') (k @ CHR ''='' # v) = CHR ''='' # v"
    "dropWhile (\<lambda>c. c \<noteq> CHR ''='') k = []"
  using assms by (induction k) auto

lemma dropWhile_hd_tl: "dropWhile P xs = y # ys \<Longrightarrow> xs = takeWhile P xs @ y # ys"
  by (metis takeWhile_dropWhile_id)

text \<open>Each form gives the value, and the index after it.\<close>

lemma get_opt_written:
  assumes "keys s l" and "has_at argv i (written f s l v)" and "joinable f v"
  shows "get_opt s l argv i = Some (v, i + length (written f s l v))"
proof -
  obtain c where s: "s = [CHR ''-'', c]" "c \<noteq> CHR ''-''" "c \<noteq> CHR ''=''" and l: "take 2 l = ''--''" "CHR ''='' \<notin> set l"
    using assms(1) by (auto simp: keys_def)
  obtain m where m: "l = CHR ''-'' # CHR ''-'' # m"
    using l(1) by (cases l; cases "tl l") auto
  show ?thesis
  proof (cases f)
    case LongNext
    then have "argv ! i = l" "i + 1 < length argv" "argv ! (i + 1) = v" using assms(2) by auto
    with LongNext split_at_eq(3) [OF l(2)] show ?thesis by (simp add: get_opt_def Let_def)
  next
    case ShortNext
    then have "argv ! i = s" "i + 1 < length argv" "argv ! (i + 1) = v" using assms(2) by auto
    moreover have "dropWhile (\<lambda>c. c \<noteq> CHR ''='') s = []" using s by simp
    ultimately show ?thesis using ShortNext s by (simp add: get_opt_def Let_def)
  next
    case LongEq
    then have "argv ! i = l @ CHR ''='' # v" "i < length argv" "v \<noteq> []" "l \<noteq> []" using assms(2,3) m by (auto simp: joinable_def)
    with LongEq split_at_eq [OF l(2)] show ?thesis by (simp add: get_opt_def Let_def strncmp_eq_def)
  next
    case ShortJoined
    then have a: "i < length argv" "argv ! i = CHR ''-'' # c # v" "v \<noteq> []" using assms(2,3) s by (auto simp: joinable_def)
    have "\<not> strncmp_eq (argv ! i) l n" if "n \<noteq> 0" "n \<noteq> 1" for n
      using that a(2) m s(2) by (cases n; cases "n - 1") (auto simp: strncmp_eq_def)
    moreover have "length (takeWhile (\<lambda>c. c \<noteq> CHR ''='') (argv ! i)) \<ge> 2" using a(2) s(3) by simp
    ultimately show ?thesis using a s ShortJoined m by (simp add: get_opt_def Let_def strncmp_eq_def)
  qed
qed

text \<open>And the other options do not see it.\<close>

lemma get_opt_other:
  assumes "keys s l" "keys s' l'" and "s \<noteq> s'" and "take (length l') l \<noteq> l'" and "has_at argv i (written f s' l' v)" and "joinable f v"
  shows "get_opt s l argv i = None"
proof -
  obtain c where s: "s = [CHR ''-'', c]" "c \<noteq> CHR ''-''" and l: "take 2 l = ''--''" "CHR ''='' \<notin> set l"
    using assms(1) by (auto simp: keys_def)
  obtain c' where s': "s' = [CHR ''-'', c']" "c' \<noteq> CHR ''-''" "c' \<noteq> CHR ''=''" and l': "take 2 l' = ''--''" "CHR ''='' \<notin> set l'"
    using assms(2) by (auto simp: keys_def)
  obtain m m' where m: "l = CHR ''-'' # CHR ''-'' # m" "l' = CHR ''-'' # CHR ''-'' # m'"
    using l(1) l'(1) by (cases l; cases "tl l"; cases l'; cases "tl l'") auto
  have c: "c \<noteq> c'" using assms(3) s(1) s'(1) by simp
  show ?thesis
  proof (cases "f \<in> {LongNext, LongEq}")
    case True
    then consider (plain) "argv ! i = l'" | (eq) "argv ! i = l' @ CHR ''='' # v" using assms(5) by auto
    then have a: "take (length l') (argv ! i) = l'" "argv ! i \<noteq> l" "take 2 (argv ! i) = ''--''" "argv ! i \<noteq> s"
      using assms(4) l(2) m s by (cases; fastforce)+
    have "takeWhile (\<lambda>c. c \<noteq> CHR ''='') (argv ! i) = l' \<or> dropWhile (\<lambda>c. c \<noteq> CHR ''='') (argv ! i) = []"
      using \<open>f \<in> {LongNext, LongEq}\<close> assms(5) split_at_eq [OF l'(2)] by fastforce
    moreover have "\<not> strncmp_eq (argv ! i) l (length l')" using a(1) assms(4) by (metis strncmp_eq_def)
    moreover have "\<not> strncmp_eq (argv ! i) s (length s)" using a(3) s by (simp add: strncmp_eq_def numeral_2_eq_2)
    ultimately show ?thesis using a(2,4) unfolding get_opt_def Let_def by auto
  next
    case False
    then obtain w where a: "argv ! i = CHR ''-'' # c' # w" using assms(5) s' by (cases f) auto
    have "\<not> strncmp_eq (argv ! i) l n" if "n \<noteq> 0" "n \<noteq> 1" for n
      using that a m s' by (cases n; cases "n - 1") (auto simp: strncmp_eq_def)
    moreover have "length (takeWhile (\<lambda>c. c \<noteq> CHR ''='') (argv ! i)) \<noteq> 0" "length (takeWhile (\<lambda>c. c \<noteq> CHR ''='') (argv ! i)) \<noteq> 1"
      using a s' by simp_all
    moreover have "argv ! i \<noteq> l" using a m s' by simp
    moreover have "argv ! i \<noteq> s" using a s c by simp
    moreover have "\<not> strncmp_eq (argv ! i) s (length s)" using a s c by (simp add: strncmp_eq_def)
    ultimately show ?thesis unfolding get_opt_def Let_def by auto
  qed
qed

subsection \<open>A command line and what it means\<close>

datatype which = Args | In | Out | Io | RxFreq | RxRate | RxGain | TxFreq | TxRate | TxGain

fun short_key :: "which \<Rightarrow> string" where
  "short_key Args = ''-A''" | "short_key In = ''-i''" | "short_key Out = ''-o''" | "short_key Io = ''-p''"
| "short_key RxFreq = ''-f''" | "short_key RxRate = ''-r''" | "short_key RxGain = ''-g''"
| "short_key TxFreq = ''-F''" | "short_key TxRate = ''-R''" | "short_key TxGain = ''-G''"

fun long_key :: "which \<Rightarrow> string" where
  "long_key Args = ''--uhd-args''" | "long_key In = ''--input''" | "long_key Out = ''--output''" | "long_key Io = ''--io''"
| "long_key RxFreq = ''--rx-freq''" | "long_key RxRate = ''--rx-rate''" | "long_key RxGain = ''--rx-gain''"
| "long_key TxFreq = ''--tx-freq''" | "long_key TxRate = ''--tx-rate''" | "long_key TxGain = ''--tx-gain''"

lemma keys_of [simp]: "keys (short_key w) (long_key w)"
  by (cases w) (simp_all add: keys_def)

lemma keys_differ: "w \<noteq> w' \<Longrightarrow> short_key w \<noteq> short_key w' \<and> take (length (long_key w')) (long_key w) \<noteq> long_key w'"
  by (cases w; cases w') simp_all

text \<open>An option as the user gives it: which one, in which form, its value, and the arguments of a module.\<close>

record given =
  which :: which
  how :: form
  val :: string
  margs :: "string list"

definition is_module :: "which \<Rightarrow> bool" where
  "is_module w \<longleftrightarrow> w \<in> {In, Out, Io}"

definition is_number :: "which \<Rightarrow> bool" where
  "is_number w \<longleftrightarrow> w \<notin> {Args, In, Out, Io}"

definition render :: "given \<Rightarrow> string list" where
  "render g = written (how g) (short_key (which g)) (long_key (which g)) (val g) @
     (if is_module (which g) \<and> margs g \<noteq> [] then ''['' # margs g @ ['']''] else [])"

definition well_given :: "strtod \<Rightarrow> given \<Rightarrow> bool" where
  "well_given strtod g \<longleftrightarrow> joinable (how g) (val g) \<and> '']'' \<notin> set (margs g) \<and>
     (is_number (which g) \<longrightarrow> (case strtod (val g) of (x, n, e) \<Rightarrow> n \<noteq> 0 \<and> \<not> e))"

text \<open>What the options say in the end.\<close>

datatype setting = Text string | Module string "string list" | Number real

definition module_args :: "string list \<Rightarrow> module_opt \<Rightarrow> string list" where
  "module_args argv m = (case moduleArgv m of None \<Rightarrow> [] | Some p \<Rightarrow> take (moduleArgc m) (drop p argv))"

definition module_setting :: "string list \<Rightarrow> module_opt \<Rightarrow> setting" where
  "module_setting argv m = Module (moduleName m) (module_args argv m)"

fun setting_of :: "string list \<Rightarrow> radio_opts \<Rightarrow> which \<Rightarrow> setting" where
  "setting_of argv r Args = Text (uhd_args r)"
| "setting_of argv r In = module_setting argv (iMod r)"
| "setting_of argv r Out = module_setting argv (oMod r)"
| "setting_of argv r Io = module_setting argv (ioMod r)"
| "setting_of argv r RxFreq = Number (rx_freq r)"
| "setting_of argv r RxRate = Number (rx_rate r)"
| "setting_of argv r RxGain = Number (rx_gain r)"
| "setting_of argv r TxFreq = Number (tx_freq r)"
| "setting_of argv r TxRate = Number (tx_rate r)"
| "setting_of argv r TxGain = Number (tx_gain r)"

definition meant :: "strtod \<Rightarrow> given \<Rightarrow> setting" where
  "meant strtod g = (if which g = Args then Text (val g)
     else if is_module (which g) then Module (val g) (margs g) else Number (fst (strtod (val g))))"

text \<open>What an option of the command line changes.\<close>

fun put_module :: "which \<Rightarrow> module_opt \<Rightarrow> radio_opts \<Rightarrow> radio_opts" where
  "put_module In m r = r\<lparr>iMod := m\<rparr>" | "put_module Out m r = r\<lparr>oMod := m\<rparr>" | "put_module Io m r = r\<lparr>ioMod := m\<rparr>"
| "put_module _ m r = r"

fun put_number :: "which \<Rightarrow> real \<Rightarrow> radio_opts \<Rightarrow> radio_opts" where
  "put_number RxFreq x r = r\<lparr>rx_freq := x\<rparr>" | "put_number RxRate x r = r\<lparr>rx_rate := x\<rparr>" | "put_number RxGain x r = r\<lparr>rx_gain := x\<rparr>"
| "put_number TxFreq x r = r\<lparr>tx_freq := x\<rparr>" | "put_number TxRate x r = r\<lparr>tx_rate := x\<rparr>" | "put_number TxGain x r = r\<lparr>tx_gain := x\<rparr>"
| "put_number _ x r = r"

lemma module_scan_bracket: "'']'' \<notin> set as \<Longrightarrow> module_scan (as @ '']'' # bs) = (length as, Suc (length as))"
  by (induction as) auto

lemma module_option:
  assumes "get_opt s l argv i = Some (v, j)" and "j \<le> length argv" and "'']'' \<notin> set as"
    and "has_at argv j (if as = [] then [] else ''['' # as @ ['']''])"
    and "as = [] \<Longrightarrow> j < length argv \<Longrightarrow> argv ! j \<noteq> ''[''"
  shows "\<exists>m. get_opt_module s l argv i = Some (m, j + (if as = [] then 0 else length as + 2)) \<and> module_setting argv m = Module v as"
proof (cases "as = []")
  case True
  then show ?thesis
    using assms by (fastforce simp: get_opt_module_def module_setting_def module_args_def)
next
  case False
  then have b: "j < length argv" "argv ! j = ''[''" and "has_at argv (j + 1) (as @ ['']''])" using assms(4) by auto
  then obtain bs where d: "drop (j + 1) argv = as @ '']'' # bs" by (auto simp: has_at_def)
  then show ?thesis
    using assms(1,3) b False by (simp add: get_opt_module_def module_scan_bracket module_setting_def module_args_def)
qed

lemma parse_turn_render:
  assumes at: "has_at argv i (render g)" and ok: "well_given strtod g"
    and nxt: "i + length (render g) < length argv \<Longrightarrow> argv ! (i + length (render g)) \<noteq> ''[''"
  shows "\<exists>q. parse_turn strtod argv i r = Some (Go q (i + length (render g))) \<and>
    (\<forall>w. setting_of argv q w = (if w = which g then meant strtod g else setting_of argv r w))"
proof -
  define j where "j = i + length (written (how g) (short_key (which g)) (long_key (which g)) (val g))"
  have w: "has_at argv i (written (how g) (short_key (which g)) (long_key (which g)) (val g))"
    and rest: "has_at argv j (if is_module (which g) \<and> margs g \<noteq> [] then ''['' # margs g @ ['']''] else [])"
    using at by (simp_all add: render_def has_at_append j_def)
  have join: "joinable (how g) (val g)" and br: "'']'' \<notin> set (margs g)" using ok by (simp_all add: well_given_def)
  have hit: "get_opt (short_key (which g)) (long_key (which g)) argv i = Some (val g, j)"
    using get_opt_written [OF keys_of w join] by (simp add: j_def)
  have other: "get_opt (short_key k) (long_key k) argv i = None" if "k \<noteq> which g" for k
    using get_opt_other [OF keys_of keys_of _ _ w join] keys_differ [OF that] by blast
  have skip: "get_opt_module (short_key k) (long_key k) argv i = None"
    "get_opt_double strtod (short_key k) (long_key k) argv i = Some None" if "k \<noteq> which g" for k
    using other [OF that] by (simp_all add: get_opt_module_def get_opt_double_def)
  have num: "get_opt_double strtod (short_key (which g)) (long_key (which g)) argv i = Some (Some (fst (strtod (val g)), j))"
    if "is_number (which g)"
    using hit ok that by (auto simp: get_opt_double_def well_given_def Let_def split: prod.splits)
  have len: "i + length (render g) = j + (if is_module (which g) \<and> margs g \<noteq> [] then length (margs g) + 2 else 0)"
    by (simp add: render_def j_def)
  have modl: "\<exists>m. get_opt_module (short_key (which g)) (long_key (which g)) argv i = Some (m, i + length (render g)) \<and>
      module_setting argv m = Module (val g) (margs g)" if "is_module (which g)"
    using module_option [OF hit _ br] rest nxt get_opt_progress [OF hit] len that by (auto split: if_splits)
  note others = other skip
  note all = others [of Args] others [of In] others [of Out] others [of Io] others [of RxFreq] others [of RxRate] others [of RxGain]
    others [of TxFreq] others [of TxRate] others [of TxGain]
  consider "which g = Args" | "is_module (which g)" | "is_number (which g)" by (auto simp: is_module_def is_number_def)
  then show ?thesis
  proof cases
    case 1
    then have "setting_of argv (r\<lparr>uhd_args := val g\<rparr>) w = (if w = which g then meant strtod g else setting_of argv r w)" for w
      by (cases w) (simp_all add: meant_def)
    with 1 hit len show ?thesis by (auto simp: parse_turn_def is_module_def)
  next
    case 2
    with modl obtain m where m: "get_opt_module (short_key (which g)) (long_key (which g)) argv i = Some (m, i + length (render g))"
      "module_setting argv m = Module (val g) (margs g)" by blast
    have "parse_turn strtod argv i r = Some (Go (put_module (which g) m r) (i + length (render g)))"
      using 2 m(1) all by (cases "which g") (simp_all add: parse_turn_def is_module_def)
    moreover have "setting_of argv (put_module (which g) m r) w = (if w = which g then meant strtod g else setting_of argv r w)" for w
      using 2 m(2) by (cases "which g"; cases w) (simp_all add: is_module_def meant_def)
    ultimately show ?thesis by blast
  next
    case 3
    define x where "x = fst (strtod (val g))"
    have "parse_turn strtod argv i r = Some (Go (put_number (which g) x r) (i + length (render g)))"
      using 3 num len all by (cases "which g") (simp_all add: parse_turn_def parse_numbers_def is_number_def is_module_def x_def)
    moreover have "setting_of argv (put_number (which g) x r) w = (if w = which g then meant strtod g else setting_of argv r w)" for w
      using 3 by (cases "which g"; cases w) (simp_all add: is_number_def is_module_def meant_def x_def)
    ultimately show ?thesis by blast
  qed
qed

lemma render_head:
  assumes "render g = a # as"
  shows "a \<noteq> ''[''"
proof -
  have "a \<in> {long_key (which g), short_key (which g), long_key (which g) @ ''='' @ val g, short_key (which g) @ val g}"
    using assms by (cases "how g") (auto simp: render_def)
  then show ?thesis by (cases "which g") auto
qed

lemma render_not_Nil: "render g \<noteq> []"
  by (cases "how g") (simp_all add: render_def)

lemma find_append: "find P (xs @ ys) = (case find P xs of None \<Rightarrow> find P ys | Some x \<Rightarrow> Some x)"
  by (induction xs) auto

lemma parse_args_render:
  assumes "i + length (concat (map render gs)) = length argv" and "has_at argv i (concat (map render gs))"
    and "\<forall>g \<in> set gs. well_given strtod g"
  shows "\<exists>q. parse_args strtod argv i r = Some (Inl q) \<and>
    (\<forall>w. setting_of argv q w = (case find (\<lambda>g. which g = w) (rev gs) of None \<Rightarrow> setting_of argv r w | Some g \<Rightarrow> meant strtod g))"
  using assms
proof (induction gs arbitrary: i r)
  case Nil
  then show ?case by (subst parse_args.simps) simp
next
  case (Cons g gs)
  let ?j = "i + length (render g)"
  have at: "has_at argv i (render g)" "has_at argv ?j (concat (map render gs))" and ok: "well_given strtod g"
    using Cons.prems by (simp_all add: has_at_append)
  have next_arg: "argv ! ?j \<noteq> ''[''" if "?j < length argv"
  proof (cases gs)
    case (Cons h hs)
    with at(2) render_not_Nil [of h] render_head [of h] show ?thesis by (cases "render h") auto
  qed (use Cons.prems that in simp)
  obtain p where p: "parse_turn strtod argv i r = Some (Go p ?j)"
    "\<forall>w. setting_of argv p w = (if w = which g then meant strtod g else setting_of argv r w)"
    using parse_turn_render [OF at(1) ok next_arg] by blast
  have eq: "parse_args strtod argv i r = parse_args strtod argv ?j p"
    using Cons.prems(1) p(1) render_not_Nil [of g] by (subst parse_args.simps) (simp add: length_greater_0_conv [symmetric] del: length_greater_0_conv)
  obtain q where "parse_args strtod argv ?j p = Some (Inl q)"
    "\<forall>w. setting_of argv q w = (case find (\<lambda>g. which g = w) (rev gs) of None \<Rightarrow> setting_of argv p w | Some g \<Rightarrow> meant strtod g)"
    using Cons.IH [of ?j p] Cons.prems at(2) by auto
  with eq p(2) show ?case
    by (auto simp: find_append split: option.splits)
qed

subsection \<open>Properties\<close>

text \<open>
  Property C36. Reading the command line gives back what was written on it. For any number of options, in any order and each in
  any of its four forms, with any texts for their values and module arguments (no argument is the closing bracket), the radio
  program reads all of them, and each setting has the value of the last option that gives it, or the default;
  the arguments of a module are those between the brackets.
\<close>

theorem command_line_roundtrip:
  assumes "\<forall>g \<in> set gs. well_given strtod g"
  shows "let argv = prog # concat (map render gs) in \<exists>q. parse_args strtod argv 1 radio_defaults = Some (Inl q) \<and>
    (\<forall>w. setting_of argv q w = (case find (\<lambda>g. which g = w) (rev gs) of None \<Rightarrow> setting_of argv radio_defaults w | Some g \<Rightarrow> meant strtod g))"
proof -
  have "has_at (prog # concat (map render gs)) 1 (concat (map render gs))" by (simp add: has_at_def)
  then show ?thesis
    using parse_args_render [OF _ _ assms, of 1 "prog # concat (map render gs)" radio_defaults] by (simp add: Let_def)
qed

definition one_number :: strtod where
  "one_number s = (if s = ''2.5'' then (5 / 2, 3, False) else (0, 0, False))"

theorem command_line_roundtrip_witness:
  "let gs = [\<lparr>which = In, how = ShortNext, val = ''stdin'', margs = [''--buffer-size'', ''100'']\<rparr>,
             \<lparr>which = TxGain, how = LongEq, val = ''2.5'', margs = []\<rparr>];
       argv = ''crts_radio'' # concat (map render gs)
   in argv = [''crts_radio'', ''-i'', ''stdin'', ''['', ''--buffer-size'', ''100'', '']'', ''--tx-gain=2.5''] \<and>
      (\<exists>q. parse_args one_number argv 1 radio_defaults = Some (Inl q) \<and> setting_of argv q TxGain = Number (5 / 2) \<and>
         setting_of argv q In = Module ''stdin'' [''--buffer-size'', ''100''])"
proof -
  let ?gs = "[\<lparr>which = In, how = ShortNext, val = ''stdin'', margs = [''--buffer-size'', ''100'']\<rparr>,
             \<lparr>which = TxGain, how = LongEq, val = ''2.5'', margs = []\<rparr>]"
  have "\<forall>g \<in> set ?gs. well_given one_number g"
    by (simp add: well_given_def joinable_def is_number_def one_number_def)
  from command_line_roundtrip [OF this, of "''crts_radio''"] obtain q where
    q: "parse_args one_number (''crts_radio'' # concat (map render ?gs)) 1 radio_defaults = Some (Inl q)"
    "\<forall>w. setting_of (''crts_radio'' # concat (map render ?gs)) q w = (case find (\<lambda>g. which g = w) (rev ?gs) of
        None \<Rightarrow> setting_of (''crts_radio'' # concat (map render ?gs)) radio_defaults w | Some g \<Rightarrow> meant one_number g)"
    unfolding Let_def by blast
  have "setting_of (''crts_radio'' # concat (map render ?gs)) q TxGain = Number (5 / 2)"
    "setting_of (''crts_radio'' # concat (map render ?gs)) q In = Module ''stdin'' [''--buffer-size'', ''100'']"
    unfolding q(2) [rule_format] by (simp_all add: meant_def is_module_def one_number_def)
  with q(1) show ?thesis unfolding Let_def by (simp add: render_def is_module_def)
qed

text \<open>
  With \<^verbatim>\<open>=\<close> any first part of a long key is taken for the key, for each option and every value: \<^verbatim>\<open>--uhd=x\<close>, and even
  \<^verbatim>\<open>-=x\<close>, sets what \<^verbatim>\<open>--uhd-args=x\<close> sets, and is not reported as unknown; with what is ambiguous the first option in the
  order of the code wins, so \<^verbatim>\<open>--tx-=5\<close> changes the frequency.
\<close>

theorem command_line_prefix:
  assumes "p \<noteq> []" and "take (length p) (long_key w) = p" and "v \<noteq> []"
    and "i < length argv" and "argv ! i = p @ ''='' @ v"
  shows "get_opt (short_key w) (long_key w) argv i = Some (v, i + 1)"
proof -
  have "CHR ''='' \<notin> set (long_key w)" using keys_of [of w] by (auto simp: keys_def)
  with assms(2) have "CHR ''='' \<notin> set p" by (metis in_set_takeD)
  with assms show ?thesis by (simp add: get_opt_def Let_def split_at_eq strncmp_eq_def)
qed

theorem command_line_prefix_witness:
  "get_opt ''-A'' ''--uhd-args'' [''crts_radio'', ''-=x''] 1 = Some (''x'', 2) \<and>
   get_opt ''-G'' ''--tx-gain'' [''crts_radio'', ''--tx-=5''] 1 = Some (''5'', 2) \<and>
   parse_turn (\<lambda>s. (5, 1, False)) [''crts_radio'', ''--tx-=5''] 1 radio_defaults = Some (Go (radio_defaults\<lparr>tx_freq := 5\<rparr>) 2)"
proof (intro conjI)
  show "get_opt ''-A'' ''--uhd-args'' [''crts_radio'', ''-=x''] 1 = Some (''x'', 2)"
    using command_line_prefix [of "''-''" Args "''x''" 1 "[''crts_radio'', ''-=x'']"] by simp
  show "get_opt ''-G'' ''--tx-gain'' [''crts_radio'', ''--tx-=5''] 1 = Some (''5'', 2)"
    using command_line_prefix [of "''--tx-''" TxGain "''5''" 1 "[''crts_radio'', ''--tx-=5'']"] by simp
  show "parse_turn (\<lambda>s. (5, 1, False)) [''crts_radio'', ''--tx-=5''] 1 radio_defaults = Some (Go (radio_defaults\<lparr>tx_freq := 5\<rparr>) 2)"
    by (simp add: parse_turn_def parse_numbers_def get_opt_module_def get_opt_double_def get_opt_def Let_def strncmp_eq_def)
qed

end
