(* ===== verification/CrtsPath.thy ===== *)
theory CrtsPath
  imports Prelude
begin

text \<open>
  Paths that the CRTS programs make from the path of their own binary: \<^verbatim>\<open>GetPluginPath\<close> of bin/module\_util.cpp and
  \<^verbatim>\<open>getPathTo_CRTS_mkTUN\<close> of lib/getTunViaUSocket.cpp in src/lanceman2\_crts. What \<^verbatim>\<open>/proc/self/exe\<close> links to is the
  argument \<open>exe\<close>; \<^verbatim>\<open>readlink\<close> copies what fits. \<open>debug\<close> says if the build has \<^verbatim>\<open>DASSERT\<close> (macro \<^verbatim>\<open>DEBUG\<close> of lib/debug.h).
  Memory is the size of the block that was allocated: a string fits if it is shorter than that.
\<close>

subsection \<open>Reading the link and going back to a slash\<close>

definition DASSERT :: "bool \<Rightarrow> bool \<Rightarrow> unit option" where
  "DASSERT debug b = ASSERT (debug \<longrightarrow> b)"

lemma DASSERT_simps [simp]: "DASSERT debug True = Some ()" "DASSERT False b = Some ()" "DASSERT True b = ASSERT b"
  by (simp_all add: DASSERT_def)

text \<open>
  The loop that makes the buffer larger by 128 while the path and \<open>post\<close> more characters do not fit in it. The result is the
  size of the buffer.
\<close>

definition readlink :: "string \<Rightarrow> nat \<Rightarrow> string" where
  "readlink exe n = take n exe"

function grow :: "bool \<Rightarrow> string \<Rightarrow> nat \<Rightarrow> nat \<Rightarrow> nat option" where
  "grow debug exe post bufLen =
     (if length (readlink exe bufLen) = 0 then None
      else if length (readlink exe bufLen) + post < bufLen then Some bufLen
      else if debug \<and> 1024 * 1024 \<le> bufLen then None
      else grow debug exe post (bufLen + 128))"
  by pat_completeness auto
termination
  by (relation "measure (\<lambda>(d, e, p, b). length e + p + 1 - b)") (auto simp: readlink_def)

declare grow.simps [simp del]

text \<open>The loop that goes back to a slash, but not before index \<open>k\<close>.\<close>

fun step_back :: "nat \<Rightarrow> string \<Rightarrow> nat \<Rightarrow> nat" where
  "step_back k buf rl = (if k < rl \<and> buf ! rl \<noteq> CHR ''/'' then step_back k buf (rl - 1) else rl)"

declare step_back.simps [simp del]

lemma grow_fits:
  assumes "exe \<noteq> []" and "length exe + post < 1024 * 1024" and "0 < b"
  shows "\<exists>n. grow debug exe post b = Some n \<and> length exe + post < n"
  using assms
proof (induction debug exe post b rule: grow.induct)
  case (1 debug exe post b)
  have pos: "length (readlink exe b) \<noteq> 0" using 1(2,4) by (simp add: readlink_def)
  show ?case
  proof (cases "length (readlink exe b) + post < b")
    case True
    then have "length exe + post < b" by (auto simp: readlink_def min_def split: if_splits)
    with True pos show ?thesis by (subst grow.simps) simp
  next
    case False
    with 1(3) have small: "\<not> (debug \<and> 1024 * 1024 \<le> b)" by (auto simp: readlink_def min_def split: if_splits)
    obtain n where "grow debug exe post (b + 128) = Some n" "length exe + post < n"
      using 1(1) [OF pos False small] 1(2,3) by auto
    with False pos small show ?thesis by (subst grow.simps) auto
  qed
qed

lemma grow_Some: "grow debug exe post b = Some n \<Longrightarrow> exe \<noteq> [] \<and> length exe + post < n"
proof (induction debug exe post b rule: grow.induct)
  case (1 debug exe post b)
  show ?case
  proof (cases "length (readlink exe b) \<noteq> 0 \<and> \<not> length (readlink exe b) + post < b \<and> \<not> (debug \<and> 1024 * 1024 \<le> b)")
    case True
    with 1(2) have "grow debug exe post (b + 128) = Some n" by (subst (asm) grow.simps) (auto split: if_splits)
    with True 1(1) show ?thesis by blast
  next
    case False
    with 1(2) have "length (readlink exe b) \<noteq> 0" "length (readlink exe b) + post < b" "b = n"
      by (subst (asm) grow.simps, simp split: if_splits)+
    then show ?thesis by (auto simp: readlink_def min_def split: if_splits)
  qed
qed

text \<open>After the last slash of a path there is a name without a slash.\<close>

lemma step_back_slash:
  assumes "CHR ''/'' \<notin> set name" and "k \<le> length dir" and "m \<le> length name"
  shows "step_back k (dir @ CHR ''/'' # name @ rest) (length dir + m) = length dir"
  using assms(3)
proof (induction m)
  case 0
  then show ?case by (subst step_back.simps) (simp add: nth_append)
next
  case (Suc m)
  then have "(dir @ CHR ''/'' # name @ rest) ! (length dir + Suc m) = name ! m"
    by (simp add: nth_append)
  with Suc assms(1,2) show ?case
    by (subst step_back.simps) (auto simp: in_set_conv_nth)
qed

text \<open>Without a slash from \<open>k\<close> on, the loop stops at \<open>k\<close>.\<close>

lemma step_back_stops:
  assumes "\<forall>i. k < i \<and> i \<le> n \<longrightarrow> buf ! i \<noteq> CHR ''/''" and "k \<le> n"
  shows "step_back k buf n = k"
  using assms
proof (induction n)
  case (Suc n)
  then show ?case by (subst step_back.simps) (auto simp: le_Suc_eq step_back.simps)
qed (simp add: step_back.simps)

subsection \<open>\<open>GetPluginPath\<close>\<close>

text \<open>
  \<open>static_len\<close> is the static variable \<^verbatim>\<open>postLen\<close>, which is set in the first call only. The result is the returned string, the
  size of the block it is in, and the static variable.
\<close>

definition PRE :: string where
  "PRE = ''/share/crts/plugins/''"

definition post_len :: "string \<Rightarrow> string \<Rightarrow> nat" where
  "post_len category name = length PRE + length category + length name + 5"

definition GetPluginPath ::
  "bool \<Rightarrow> string \<Rightarrow> ptr \<Rightarrow> string \<Rightarrow> string \<Rightarrow> (string \<times> nat \<times> ptr) option" where
  "GetPluginPath debug exe static_len category name = do {
     DASSERT debug (1 \<le> length name);
     DASSERT debug (1 \<le> length category);
     let postLen = (case static_len of None \<Rightarrow> post_len category name | Some n \<Rightarrow> n);
     DASSERT debug (0 < postLen \<and> postLen < 1024 * 1024);
     bufLen \<leftarrow> grow debug exe postLen (128 + postLen);
     let buf = readlink exe bufLen;
     let rl = step_back 5 buf (length buf - 1);
     ASSERT (buf ! rl = CHR ''/'');
     let rl = step_back 5 buf (rl - 1);
     ASSERT (buf ! rl = CHR ''/'');
     let buf = take rl buf;
     DASSERT debug (length buf + length PRE + length category + 1 + length name + 1 < bufLen);
     let buf = buf @ PRE @ category @ ''/'' @ name;
     Some (if drop (length buf - 3) buf \<noteq> ''.so'' then buf @ ''.so'' else buf, bufLen, Some postLen)}"

definition getPathTo_CRTS_mkTUN :: "bool \<Rightarrow> string \<Rightarrow> (string \<times> nat) option" where
  "getPathTo_CRTS_mkTUN debug exe = do {
     bufLen \<leftarrow> grow debug exe (length ''crts_mkTUN'' + 1) 128;
     let buf = readlink exe bufLen;
     let rl = step_back 3 buf (length buf - 1);
     ASSERT (buf ! rl = CHR ''/'');
     Some (take (rl + 1) buf @ ''crts_mkTUN'', bufLen)}"

text \<open>The file name of a plugin.\<close>

definition so_name :: "string \<Rightarrow> string" where
  "so_name s = (if drop (length s - 3) s = ''.so'' then s else s @ ''.so'')"

lemma plugin_dir:
  assumes "CHR ''/'' \<notin> set prog" and "prog \<noteq> []" and "CHR ''/'' \<notin> set bin" and "bin \<noteq> []" and "5 \<le> length base"
  defines "exe \<equiv> base @ ''/'' @ bin @ ''/'' @ prog"
  defines "rl \<equiv> step_back 5 exe (length exe - 1)"
  shows "exe ! rl = CHR ''/''" "step_back 5 exe (rl - 1) = length base" "exe ! length base = CHR ''/''"
proof -
  have e: "exe = (base @ ''/'' @ bin) @ CHR ''/'' # prog @ []" by (simp add: exe_def)
  have rl: "rl = length (base @ ''/'' @ bin)"
    using step_back_slash [OF assms(1), of 5 "base @ ''/'' @ bin" "length prog" "[]"] assms(5) by (simp add: rl_def e add.assoc)
  then show "exe ! rl = CHR ''/''" by (simp add: exe_def nth_append)
  have "exe = base @ CHR ''/'' # bin @ (CHR ''/'' # prog)" by (simp add: exe_def)
  then show "step_back 5 exe (rl - 1) = length base"
    using step_back_slash [OF assms(3,5), of "length bin" "CHR ''/'' # prog"] rl by simp
  show "exe ! length base = CHR ''/''" by (simp add: exe_def)
qed

lemma step_back_props:
  "step_back k buf n \<le> n" "n \<le> k \<Longrightarrow> step_back k buf n = n" "k \<le> n \<Longrightarrow> k \<le> step_back k buf n"
  by (induction k buf n rule: step_back.induct; subst step_back.simps; force)+

text \<open>In a path whose second slash from the right is before index 5, there is no way back to it.\<close>

lemma plugin_dir_short:
  assumes "CHR ''/'' \<notin> set prog" and "prog \<noteq> []" and "CHR ''/'' \<notin> set bin" and "bin \<noteq> []" and "length base < 5"
  defines "exe \<equiv> base @ ''/'' @ bin @ ''/'' @ prog"
  defines "rl \<equiv> step_back 5 exe (length exe - 1)"
  assumes "exe ! rl = CHR ''/''"
  shows "exe ! step_back 5 exe (rl - 1) \<noteq> CHR ''/''"
proof
  define p where "p = length base + 1 + length bin"
  have slash: "i = p" if "exe ! i = CHR ''/''" "length base < i" "i < length exe" for i
  proof (rule ccontr)
    assume "i \<noteq> p"
    then consider "i < p" | "p < i" by linarith
    then show False
    proof cases
      case 1
      with that(2) obtain m where m: "i = length base + Suc m" "m < length bin" unfolding p_def
        by (metis add.assoc add_less_cancel_left less_imp_add_positive gr0_implies_Suc plus_1_eq_Suc nat_add_left_cancel_less)
      then have "exe ! i = bin ! m" by (simp add: exe_def nth_append)
      with that(1) m(2) assms(3) show False by (auto simp: in_set_conv_nth)
    next
      case 2
      then obtain m where m: "i = p + Suc m" by (metis less_imp_add_positive gr0_implies_Suc)
      then have "m < length prog" "exe ! i = prog ! m" using that(3) by (simp_all add: exe_def p_def nth_append)
      with that(1) assms(1) show False by (auto simp: in_set_conv_nth)
    qed
  qed
  define r where "r = step_back 5 exe (rl - 1)"
  have le: "rl \<le> length exe - 1" "r \<le> rl - 1" unfolding rl_def r_def by (rule step_back_props(1))+
  have long: "length exe = p + 1 + length prog" "0 < length prog" "p > length base + 1"
    using assms(2,4) by (auto simp: exe_def p_def)
  assume "exe ! step_back 5 exe (rl - 1) = CHR ''/''"
  then have r: "exe ! r = CHR ''/''" by (simp add: r_def)
  have rl5: "5 \<le> rl"
  proof (rule ccontr)
    assume "\<not> 5 \<le> rl"
    then have "rl = length exe - 1" using step_back_props(2,3) [where k = 5 and n = "length exe - 1" and buf = exe] by (fastforce simp: rl_def)
    then have "exe ! rl = last exe" using long(1) by (metis last_conv_nth length_0_conv add_is_0 one_neq_zero)
    also have "last exe = last prog" using assms(2) by (simp add: exe_def)
    finally have "exe ! rl = last prog" .
    with assms(1,2) \<open>exe ! rl = CHR ''/''\<close> show False by (metis last_in_set)
  qed
  have "rl = p" using slash [OF \<open>exe ! rl = CHR ''/''\<close>] rl5 le long assms(5) by linarith
  moreover have "5 \<le> r \<or> r = 4 \<and> rl = 5"
    using rl5 step_back_props(2,3) [where k = 5 and n = "rl - 1" and buf = exe] by (fastforce simp: r_def)
  ultimately show False using slash [OF r] le long assms(5) by linarith
qed

subsection \<open>Properties\<close>

lemma so_name_eq: "so_name s = (if drop (length s - 3) s \<noteq> ''.so'' then s @ ''.so'' else s)"
  by (simp add: so_name_def)

text \<open>
  Property C37. The file name of a plugin. For a binary \<^verbatim>\<open>base/bin/prog\<close> the first call of \<^verbatim>\<open>GetPluginPath\<close> returns
  \<^verbatim>\<open>base/share/crts/plugins/category/name.so\<close>, where a \<^verbatim>\<open>.so\<close> that the name has is not written twice, in a block that is large enough,
  however long the path of the binary is (up to a megabyte), if \<^verbatim>\<open>base\<close> has 5 characters or more; and
  \<^verbatim>\<open>getPathTo_CRTS_mkTUN\<close> gives the program of the same directory.
\<close>

theorem plugin_path:
  assumes "CHR ''/'' \<notin> set prog" "prog \<noteq> []" "CHR ''/'' \<notin> set bin" "bin \<noteq> []" "5 \<le> length base"
    and "category \<noteq> []" "name \<noteq> []"
    and "length (base @ ''/'' @ bin @ ''/'' @ prog) + post_len category name < 1024 * 1024"
  shows "(\<exists>n. GetPluginPath debug (base @ ''/'' @ bin @ ''/'' @ prog) None category name =
       Some (so_name (base @ PRE @ category @ ''/'' @ name), n, Some (post_len category name)) \<and>
       length (so_name (base @ PRE @ category @ ''/'' @ name)) < n) \<and>
     (\<exists>n. getPathTo_CRTS_mkTUN debug (base @ ''/'' @ bin @ ''/'' @ prog) = Some (base @ ''/'' @ bin @ ''/crts_mkTUN'', n) \<and>
       length (base @ ''/'' @ bin @ ''/crts_mkTUN'') < n)"
proof -
  let ?exe = "base @ ''/'' @ bin @ ''/'' @ prog"
  let ?rl = "step_back 5 ?exe (length ?exe - 1)"
  note dir = plugin_dir [OF assms(1-5)]
  obtain n where n: "grow debug ?exe (post_len category name) (128 + post_len category name) = Some n"
    "length ?exe + post_len category name < n"
    using grow_fits [of ?exe "post_len category name" "128 + post_len category name" debug] assms(8) by auto
  have all: "readlink ?exe n = ?exe" using n(2) by (simp add: readlink_def)
  have len: "length (base @ PRE @ category @ ''/'' @ name) + 4 \<le> n" using n(2) by (simp add: post_len_def)
  have "GetPluginPath debug ?exe None category name =
      Some (so_name (base @ PRE @ category @ ''/'' @ name), n, Some (post_len category name))"
    using assms(6-8) n(1) all dir len
    by (simp add: GetPluginPath_def so_name_eq post_len_def Suc_le_eq PRE_def del: append.simps)
  then have plugin: "\<exists>n. GetPluginPath debug ?exe None category name =
       Some (so_name (base @ PRE @ category @ ''/'' @ name), n, Some (post_len category name)) \<and>
       length (so_name (base @ PRE @ category @ ''/'' @ name)) < n"
    using len by (intro exI [of _ n]) (simp add: so_name_def)
  obtain k where k: "grow debug ?exe (length ''crts_mkTUN'' + 1) 128 = Some k" "length ?exe + (length ''crts_mkTUN'' + 1) < k"
    using grow_fits [of ?exe "length ''crts_mkTUN'' + 1" 128 debug] assms(8) by (auto simp: post_len_def PRE_def)
  have allk: "readlink ?exe k = ?exe" using k(2) by (simp add: readlink_def)
  have b: "step_back 3 ?exe (length ?exe - 1) = length (base @ ''/'' @ bin)"
    using step_back_slash [OF assms(1), of 3 "base @ ''/'' @ bin" "length prog" "[]"] assms(5) by (simp add: add.assoc)
  have "\<exists>n. getPathTo_CRTS_mkTUN debug ?exe = Some (base @ ''/'' @ bin @ ''/crts_mkTUN'', n) \<and>
       length (base @ ''/'' @ bin @ ''/crts_mkTUN'') < n"
    using k allk b by (intro exI [of _ k]) (simp add: getPathTo_CRTS_mkTUN_def nth_append)
  with plugin show ?thesis by blast
qed

theorem plugin_path_witness:
  "\<exists>n. GetPluginPath True ''/home/crts/bin/crts_radio'' None ''RadioInput'' ''stdin'' =
       Some (''/home/crts/share/crts/plugins/RadioInput/stdin.so'', n, Some 40)"
  using plugin_path [of "''crts_radio''" "''bin''" "''/home/crts''" "''RadioInput''" "''stdin''" True]
  by (simp add: so_name_def post_len_def PRE_def) blast

text \<open>
  A binary that is installed under a directory with a name of less than 5 characters, as in \<^verbatim>\<open>/usr/bin\<close> or \<^verbatim>\<open>/opt/bin\<close>,
  cannot load a plugin: \<^verbatim>\<open>GetPluginPath\<close> looks for the second slash no further than index 5, and its assertion that it
  is at a slash fails.
\<close>

theorem plugin_path_short_base:
  assumes "CHR ''/'' \<notin> set prog" "prog \<noteq> []" "CHR ''/'' \<notin> set bin" "bin \<noteq> []" "length base < 5"
  shows "GetPluginPath debug (base @ ''/'' @ bin @ ''/'' @ prog) static_len category name = None"
proof -
  let ?exe = "base @ ''/'' @ bin @ ''/'' @ prog"
  have "readlink ?exe n = ?exe" if "grow debug ?exe post m = Some n" for n post m
    using grow_Some [OF that] by (simp add: readlink_def)
  moreover have "\<not> (?exe ! step_back 5 ?exe (length ?exe - 1) = CHR ''/'' \<and>
      ?exe ! step_back 5 ?exe (step_back 5 ?exe (length ?exe - 1) - 1) = CHR ''/'')"
    using plugin_dir_short [OF assms] by blast
  ultimately show ?thesis
    unfolding GetPluginPath_def Let_def by (auto simp: ASSERT_def simp del: append.simps append_assoc split: bind_splits)
qed

theorem plugin_path_short_base_witness:
  "GetPluginPath True ''/usr/bin/crts_radio'' None ''RadioInput'' ''stdin'' = None"
  using plugin_path_short_base [of "''crts_radio''" "''bin''" "''/usr''" True None "''RadioInput''" "''stdin''"] by simp

text \<open>
  The second plugin of a process can overflow its block. \<^verbatim>\<open>postLen\<close> is a static variable that keeps the value of
  the first call; if the name of the second plugin is longer than the first by 132 characters, less those of \<^verbatim>\<open>base\<close>, a build
  without \<^verbatim>\<open>DASSERT\<close> writes a string that is longer than the block, and the other build stops at the assertion.
\<close>

theorem plugin_path_overflow:
  assumes "CHR ''/'' \<notin> set prog" "prog \<noteq> []" "CHR ''/'' \<notin> set bin" "bin \<noteq> []" "5 \<le> length base"
    and "length (base @ ''/'' @ bin @ ''/'' @ prog) < 128" and "post_len category first < 1024 * 1024"
    and "132 + length category + length first \<le> length base + length category' + length name"
  shows "GetPluginPath True (base @ ''/'' @ bin @ ''/'' @ prog) (Some (post_len category first)) category' name = None \<and>
    (\<exists>path n st. GetPluginPath False (base @ ''/'' @ bin @ ''/'' @ prog) (Some (post_len category first)) category' name =
       Some (path, n, st) \<and> n \<le> length path)"
proof -
  let ?exe = "base @ ''/'' @ bin @ ''/'' @ prog"
  let ?post = "post_len category first"
  note dir = plugin_dir [OF assms(1-5)]
  have g: "grow debug ?exe ?post (128 + ?post) = Some (128 + ?post)" for debug
    using assms(6) by (subst grow.simps) (simp add: readlink_def)
  have all: "readlink ?exe (128 + ?post) = ?exe" using assms(6) by (simp add: readlink_def)
  have p: "0 < ?post" by (simp add: post_len_def)
  have "GetPluginPath False ?exe (Some ?post) category' name =
      Some (so_name (base @ PRE @ category' @ ''/'' @ name), 128 + ?post, Some ?post)"
    using g all dir by (simp add: GetPluginPath_def so_name_eq Let_def del: append_Cons)
  moreover have "128 + ?post \<le> length (so_name (base @ PRE @ category' @ ''/'' @ name))"
    using assms(8) by (simp add: so_name_def post_len_def)
  moreover have "GetPluginPath True ?exe (Some ?post) category' name = None"
    using g all dir p assms(7,8)
    by (auto simp: GetPluginPath_def ASSERT_def post_len_def simp del: append.simps split: bind_splits)
  ultimately show ?thesis by blast
qed

theorem plugin_path_overflow_witness:
  "GetPluginPath True ''/home/crts/bin/crts_radio'' (Some (post_len ''RadioInput'' ''fd0'')) ''RadioOutput'' (replicate 124 CHR ''a'') = None"
  using plugin_path_overflow [of "''crts_radio''" "''bin''" "''/home/crts''" "''RadioInput''" "''fd0''" "''RadioOutput''"
      "replicate 124 (CHR ''a'')"] by (simp add: post_len_def PRE_def)

end
