(* ===== verification/CrtsRadio.thy ===== *)
theory CrtsRadio
  imports CrtsOpt CrtsPath
begin

text \<open>
  The parts of the radio program bin/crts\_radio.cpp of src/lanceman2\_crts: loading the plugins (ModuleLoader.hpp,
  module\_util.hpp), checking the settings of the device (usrp\_set\_parameters.hpp), and the work of the two threads
  (txThread.cpp, rxThread.cpp). The plugins, liquid-dsp and UHD are not code of the program: what they answer is an argument. The
  samples themselves are theirs; a frame is its header and payload.
\<close>

subsection \<open>Loading a plugin\<close>

text \<open>
  What the dynamic loader and the plugin answer: \<^verbatim>\<open>dlopen\<close>, \<^verbatim>\<open>dlsym\<close>, the two functions that \<^verbatim>\<open>loader\<close> sets, and
  what \<^verbatim>\<open>create\<close> does.
\<close>

datatype made = Made | Null | Throws

record plugin =
  opens :: bool
  has_loader :: bool
  gives_create :: bool
  gives_destroy :: bool
  creates :: made

record ModuleLoader =
  dhandle :: bool
  create :: bool
  destroy :: bool

text \<open>\<^verbatim>\<open>loadFile\<close>: true for an error.\<close>

definition loadFile :: "plugin \<Rightarrow> bool \<times> ModuleLoader" where
  "loadFile p =
     (if \<not> opens p then (True, \<lparr>dhandle = False, create = False, destroy = False\<rparr>)
      else if \<not> has_loader p then (True, \<lparr>dhandle = False, create = False, destroy = False\<rparr>)
      else if \<not> gives_create p then (True, \<lparr>dhandle = False, create = False, destroy = False\<rparr>)
      else (False, \<lparr>dhandle = True, create = True, destroy = gives_destroy p\<rparr>))"

text \<open>
  What a process has of its plugins: the static variable of \<^verbatim>\<open>GetPluginPath\<close>, and how many path strings were not freed. \<^verbatim>\<open>LoadModule\<close>
  returns if there is an object, and if \<^verbatim>\<open>destroyer\<close> is set; \<open>None\<close> is a failed assertion.
\<close>

record loads =
  postLen :: ptr
  paths :: nat

definition LoadModule ::
  "bool \<Rightarrow> string \<Rightarrow> plugin \<Rightarrow> string \<Rightarrow> string \<Rightarrow> loads \<Rightarrow> (bool \<times> bool \<times> loads) option" where
  "LoadModule debug exe p name category st = do {
     (path, n, len) \<leftarrow> GetPluginPath debug exe (postLen st) category name;
     let st = st\<lparr>postLen := len, paths := paths st + 1\<rparr>;
     let (failed, l) = loadFile p;
     if failed then Some (False, False, st)
     else (case creates p of
         Throws \<Rightarrow> Some (False, False, st\<lparr>paths := paths st - 1\<rparr>)
       | Null \<Rightarrow> None
       | Made \<Rightarrow> do {
           DASSERT debug (destroy l);
           Some (True, destroy l, st\<lparr>paths := paths st - 1\<rparr>)})}"

subsection \<open>The plugins of the radio\<close>

text \<open>Which plugins there are, and which destroyers are set. One I/O plugin is both an input and an output.\<close>

record radio_mods =
  has_input :: bool
  has_output :: bool
  destroyInput :: bool
  destroyOutput :: bool
  destroyIO :: bool

definition no_mods :: radio_mods where
  "no_mods = \<lparr>has_input = False, has_output = False, destroyInput = False, destroyOutput = False, destroyIO = False\<rparr>"

definition is_null :: "string \<Rightarrow> bool" where
  "is_null name \<longleftrightarrow> name = ''null'' \<or> name = ''null.so''"

text \<open>
  The part of \<^verbatim>\<open>main\<close> that loads them. \<open>plugins\<close> gives the answers for the plugin with a name of a category; an inner \<open>None\<close> is the
  return with status 1.
\<close>

definition load_mods ::
  "bool \<Rightarrow> string \<Rightarrow> (string \<Rightarrow> string \<Rightarrow> plugin) \<Rightarrow> radio_opts \<Rightarrow> loads \<Rightarrow> (radio_mods option \<times> loads) option" where
  "load_mods debug exe plugins r st =
     (let i = moduleName (iMod r); out = moduleName (oMod r); io = moduleName (ioMod r) in
      if 0 < length io then
        (if is_null io then Some (Some no_mods, st)
         else do {
           (obj, destroyer, st) \<leftarrow> LoadModule debug exe (plugins ''RadioIO'' io) io ''RadioIO'' st;
           if \<not> obj then Some (None, st)
           else Some (Some \<lparr>has_input = True, has_output = True, destroyInput = False, destroyOutput = False, destroyIO = destroyer\<rparr>, st)})
      else do {
        (obj, destroyer, st) \<leftarrow> (if is_null i then Some (False, False, st)
                                else LoadModule debug exe (plugins ''RadioInput'' i) i ''RadioInput'' st);
        if \<not> is_null i \<and> \<not> obj then Some (None, st)
        else do {
          let m = no_mods\<lparr>has_input := obj, destroyInput := destroyer\<rparr>;
          (obj, destroyer, st) \<leftarrow> (if is_null out then Some (False, False, st)
                                  else LoadModule debug exe (plugins ''RadioOutput'' out) out ''RadioOutput'' st);
          if \<not> is_null out \<and> \<not> obj then Some (None, st)
          else Some (Some (m\<lparr>has_output := obj, destroyOutput := destroyer\<rparr>), st)}})"

text \<open>With \<^verbatim>\<open>DASSERT\<close>, every plugin that was loaded has its destroyer, and there is no I/O plugin beside others.\<close>

definition mods_ok :: "radio_mods \<Rightarrow> bool" where
  "mods_ok m \<longleftrightarrow>
     (destroyIO m \<longrightarrow> has_input m \<and> has_output m \<and> \<not> destroyInput m \<and> \<not> destroyOutput m) \<and>
     (\<not> destroyIO m \<longrightarrow> destroyInput m = has_input m \<and> destroyOutput m = has_output m)"

lemma LoadModule_destroyer:
  "LoadModule True exe p name category st = Some (obj, d, st') \<Longrightarrow> d = obj"
  by (auto simp: LoadModule_def Let_def ASSERT_bind_Some split: bind_splits if_splits made.splits prod.splits)

lemma load_mods_ok:
  assumes "load_mods True exe plugins r st = Some (Some m, st')"
  shows "mods_ok m"
  using assms
  by (auto simp: load_mods_def Let_def mods_ok_def no_mods_def split: bind_splits if_splits prod.splits dest!: LoadModule_destroyer)

text \<open>\<^verbatim>\<open>LoadModule\<close> frees the path unless the file could not be loaded.\<close>

lemma LoadModule_paths:
  assumes "LoadModule debug exe p name category st = Some (obj, d, st')"
  shows "paths st' = paths st + (if opens p \<and> has_loader p \<and> gives_create p then 0 else 1)"
  using assms
  by (auto simp: LoadModule_def loadFile_def Let_def ASSERT_bind_Some DASSERT_def split: bind_splits if_splits made.splits prod.splits)

subsection \<open>The settings of the device\<close>

text \<open>\<^verbatim>\<open>CHECK_COMPARE\<close>, and the checks of \<^verbatim>\<open>crts_usrp_rx_set\<close> and \<^verbatim>\<open>crts_usrp_tx_set\<close>, which are alike. The numbers are reals; the C code compares doubles.\<close>

record usrp_set =
  freq :: real
  rate :: real
  gain :: real

definition check_compare :: "real \<Rightarrow> real \<Rightarrow> unit option" where
  "check_compare x y = do { ASSERT (x \<le> y * 1.001); ASSERT (x \<ge> y * 0.999) }"

definition crts_usrp_set :: "bool \<Rightarrow> usrp_set \<Rightarrow> usrp_set \<Rightarrow> unit option" where
  "crts_usrp_set debug want got = do {
     DASSERT debug (freq want > 0);
     DASSERT debug (rate want > 0);
     DASSERT debug (gain want \<ge> 0);
     check_compare (rate want) (rate got);
     check_compare (freq want) (freq got);
     check_compare (gain want) (gain got)}"

subsection \<open>Transmitting\<close>

text \<open>
  What \<^verbatim>\<open>read\<close> of the input plugin returns, and what the thread has the libraries do: a frame with its header is assembled, and
  samples are sent with the flags for the start and the end of the burst. The counters are 64 bits wide.
\<close>

datatype input_answer = Input "byte list" | InputError

datatype tx_event = Assemble "64 word" "byte list" | Samples bool bool

record tx_thread =
  start_of_burst :: bool
  tx_header :: "64 word"
  totalBytesRead :: "64 word"
  sent :: "tx_event list"

definition tx_init :: tx_thread where
  "tx_init = \<lparr>start_of_burst = True, tx_header = 0, totalBytesRead = 0, sent = []\<rparr>"

text \<open>
  \<^verbatim>\<open>TXReadTransmitLoop\<close> with what was read; \<open>k\<close> is the number of symbols before the last one of the frame. True: go on.
\<close>

definition TXReadTransmitLoop :: "input_answer \<Rightarrow> nat \<Rightarrow> tx_thread \<Rightarrow> bool \<times> tx_thread" where
  "TXReadTransmitLoop a k t = (case a of
       InputError \<Rightarrow> (False, t)
     | Input bs \<Rightarrow> if bs = [] then (False, t)
         else let header = tx_header t + 1 in
           (True, t\<lparr>totalBytesRead := totalBytesRead t + of_nat (length bs), tx_header := header,
                    sent := sent t @ [Assemble header bs] @ replicate (Suc k) (Samples (start_of_burst t) False) @
                            [Samples (start_of_burst t) False]\<rparr>))"

text \<open>After a first turn that is to go on the burst has started.\<close>

definition tx_turn :: "input_answer \<Rightarrow> nat \<Rightarrow> tx_thread \<Rightarrow> bool \<times> tx_thread" where
  "tx_turn a k t = (case TXReadTransmitLoop a k t of (go, t') \<Rightarrow> (go, if go then t'\<lparr>start_of_burst := False\<rparr> else t'))"

definition tx_finish :: "tx_thread \<Rightarrow> tx_thread" where
  "tx_finish t = (if totalBytesRead t > 0 then t\<lparr>sent := sent t @ [Samples (start_of_burst t) True]\<rparr> else t)"

text \<open>The whole loop of \<^verbatim>\<open>TXThreadCallback\<close>, for the answers to come and until \<^verbatim>\<open>isTXLooping\<close> is false, that is for the answers there are.\<close>

fun tx_loop :: "(input_answer \<times> nat) list \<Rightarrow> tx_thread \<Rightarrow> tx_thread" where
  "tx_loop [] t = tx_finish t"
| "tx_loop ((a, k) # as) t = (let (go, t) = tx_turn a k t in if go then tx_loop as t else tx_finish t)"

subsection \<open>Receiving\<close>

text \<open>
  A frame that the synchronizer found: if its header is valid, its payload, if that is valid; \<open>nwrite\<close> is what \<^verbatim>\<open>write\<close> of the
  output plugin returns.
\<close>

record frame =
  header_valid :: bool
  payload :: "byte list"
  payload_valid :: bool
  nwrite :: int

record rx_thread =
  totalBytesRecv :: "64 word"
  written_out :: "byte list"

definition rx_init :: rx_thread where
  "rx_init = \<lparr>totalBytesRecv = 0, written_out = []\<rparr>"

definition rxFrameSyncCallback :: "bool \<Rightarrow> frame \<Rightarrow> rx_thread \<Rightarrow> rx_thread option" where
  "rxFrameSyncCallback debug f r =
     (if header_valid f then do {
        let r = r\<lparr>totalBytesRecv := totalBytesRecv r + of_nat (length (payload f))\<rparr>;
        DASSERT debug (length (payload f) > 0);
        let r = r\<lparr>written_out := written_out r @ take (nat (nwrite f)) (payload f)\<rparr>;
        DASSERT debug (nwrite f > 0);
        DASSERT debug (nwrite f = int (length (payload f)));
        Some r}
      else Some r)"

text \<open>\<^verbatim>\<open>RXRecvWriteLoop\<close> with what \<^verbatim>\<open>recv\<close> returns, and the frames that are found in the samples. It always goes on.\<close>

record recv_answer =
  error_code :: int
  numSamples :: nat
  frames :: "frame list"

fun sync_execute :: "bool \<Rightarrow> frame list \<Rightarrow> rx_thread \<Rightarrow> rx_thread option" where
  "sync_execute debug [] r = Some r"
| "sync_execute debug (f # fs) r = do { r \<leftarrow> rxFrameSyncCallback debug f r; sync_execute debug fs r }"

definition RXRecvWriteLoop :: "bool \<Rightarrow> recv_answer \<Rightarrow> rx_thread \<Rightarrow> (bool \<times> rx_thread) option" where
  "RXRecvWriteLoop debug a r = do {
     DASSERT debug (\<not> (error_code a \<noteq> 0 \<and> numSamples a \<noteq> 0));
     r \<leftarrow> (if numSamples a \<noteq> 0 then sync_execute debug (frames a) r else Some r);
     Some (True, r)}"

fun rx_loop :: "bool \<Rightarrow> recv_answer list \<Rightarrow> rx_thread \<Rightarrow> rx_thread option" where
  "rx_loop debug [] r = Some r"
| "rx_loop debug (a # as) r = do { (go, r) \<leftarrow> RXRecvWriteLoop debug a r; if go then rx_loop debug as r else Some r }"

subsection \<open>What is sent and what is received\<close>

text \<open>The bytes of the reads up to the first that ends the loop, with the symbols that each frame takes.\<close>

fun reads :: "(input_answer \<times> nat) list \<Rightarrow> (byte list \<times> nat) list" where
  "reads [] = []"
| "reads ((InputError, k) # as) = []"
| "reads ((Input bs, k) # as) = (if bs = [] then [] else (bs, k) # reads as)"

text \<open>The events of the frame that has the header \<open>h\<close>.\<close>

definition frame_events :: "bool \<Rightarrow> 64 word \<Rightarrow> byte list \<times> nat \<Rightarrow> tx_event list" where
  "frame_events start h b = Assemble h (fst b) # replicate (snd b + 2) (Samples start False)"

fun events :: "bool \<Rightarrow> 64 word \<Rightarrow> (byte list \<times> nat) list \<Rightarrow> tx_event list" where
  "events start h [] = []"
| "events start h (b # bs) = frame_events start (h + 1) b @ events False (h + 1) bs"

lemma replicate_two: "replicate (Suc k) x @ [x] = replicate (k + 2) x"
  by (simp add: replicate_append_same)

lemma tx_turn_data:
  "bs \<noteq> [] \<Longrightarrow> tx_turn (Input bs) k t = (True, t\<lparr>start_of_burst := False, totalBytesRead := totalBytesRead t + of_nat (length bs),
     tx_header := tx_header t + 1, sent := sent t @ frame_events (start_of_burst t) (tx_header t + 1) (bs, k)\<rparr>)"
  by (simp add: tx_turn_def TXReadTransmitLoop_def frame_events_def Let_def replicate_append_same)

lemma tx_turn_end: "a = InputError \<or> a = Input [] \<Longrightarrow> tx_turn a k t = (False, t)"
  by (auto simp: tx_turn_def TXReadTransmitLoop_def)

definition all_read :: "(input_answer \<times> nat) list \<Rightarrow> byte list" where
  "all_read as = concat (map fst (reads as))"

lemma tx_loop_general:
  "\<exists>t'. tx_loop as t = tx_finish t' \<and> totalBytesRead t' = totalBytesRead t + of_nat (length (all_read as)) \<and>
     sent t' = sent t @ events (start_of_burst t) (tx_header t) (reads as) \<and>
     start_of_burst t' = (start_of_burst t \<and> reads as = [])"
proof (induction as arbitrary: t rule: reads.induct)
  case (3 bs k as)
  show ?case
  proof (cases "bs = []")
    case False
    from 3 [OF False, of "snd (tx_turn (Input bs) k t)"] show ?thesis
      using False by (simp add: tx_turn_data all_read_def algebra_simps)
  qed (auto simp: tx_turn_end all_read_def)
qed (auto simp: tx_turn_end all_read_def)

text \<open>The headers and payloads of the frames, in order.\<close>

fun assembled :: "tx_event list \<Rightarrow> (64 word \<times> byte list) list" where
  "assembled [] = []"
| "assembled (Assemble h bs # es) = (h, bs) # assembled es"
| "assembled (Samples s e # es) = assembled es"

lemma assembled_append [simp]: "assembled (es @ fs) = assembled es @ assembled fs"
  by (induction es rule: assembled.induct) simp_all

lemma assembled_samples [simp]: "assembled (replicate k (Samples s e)) = []"
  by (induction k) simp_all

lemma assembled_events: "map snd (assembled (events s h bs)) = map fst bs"
  by (induction bs arbitrary: s h) (simp_all add: frame_events_def)

lemma events_header: "i < length bs \<Longrightarrow> fst (assembled (events s h bs) ! i) = h + of_nat (i + 1)"
proof (induction bs arbitrary: s h i)
  case (Cons b bs)
  then show ?case by (cases i) (simp_all add: frame_events_def add.assoc)
qed simp

lemma length_assembled: "length (assembled (events s h bs)) = length bs"
  using arg_cong [OF assembled_events, of length] by simp

lemma reads_nonempty: "reads as = [] \<longleftrightarrow> all_read as = []"
  by (induction as rule: reads.induct) (simp_all add: all_read_def)

lemma tx_sends:
  assumes "length (all_read as) < 2 ^ 64"
  shows "concat (map snd (assembled (sent (tx_loop as tx_init)))) = all_read as"
    "totalBytesRead (tx_loop as tx_init) = of_nat (length (all_read as))"
    "sent (tx_loop as tx_init) = events True 0 (reads as) @ (if all_read as = [] then [] else [Samples False True])"
proof -
  obtain t where t: "tx_loop as tx_init = tx_finish t" "totalBytesRead t = of_nat (length (all_read as))"
    "sent t = events True 0 (reads as)" "start_of_burst t = (reads as = [])"
    using tx_loop_general [of as tx_init] by (auto simp: tx_init_def)
  have zero: "0 < totalBytesRead t \<longleftrightarrow> all_read as \<noteq> []"
    using assms t(2) by (simp add: word_gt_0 unat_eq_0 [symmetric] unat_of_nat take_bit_nat_eq_self)
  show s: "sent (tx_loop as tx_init) = events True 0 (reads as) @ (if all_read as = [] then [] else [Samples False True])"
    using t(1,3,4) zero by (simp add: tx_finish_def reads_nonempty)
  show "totalBytesRead (tx_loop as tx_init) = of_nat (length (all_read as))"
    using t(1,2) by (simp add: tx_finish_def)
  show "concat (map snd (assembled (sent (tx_loop as tx_init)))) = all_read as"
    by (simp add: s assembled_events all_read_def)
qed

text \<open>
  Property C34. What the transmitting thread sends: for any answers of the input plugin it assembles one frame for each read
  up to the first that has no byte or fails, in order, with the headers 1, 2, 3 and so on; only the first frame starts a burst; and
  if there was a byte (less than 2^64 of them), the burst is ended once, after all frames. Without a byte nothing is sent.
\<close>

theorem tx_sends_what_it_read:
  assumes "length (all_read as) < 2 ^ 64"
  shows "sent (tx_loop as tx_init) = events True 0 (reads as) @ (if all_read as = [] then [] else [Samples False True]) \<and>
    concat (map snd (assembled (sent (tx_loop as tx_init)))) = all_read as \<and>
    map fst (assembled (sent (tx_loop as tx_init))) = map (\<lambda>i. of_nat (i + 1)) [0..<length (reads as)] \<and>
    totalBytesRead (tx_loop as tx_init) = of_nat (length (all_read as))"
proof -
  have "map fst (assembled (events True 0 (reads as))) = map (\<lambda>i. of_nat (i + 1)) [0..<length (reads as)]"
    by (intro nth_equalityI) (simp_all add: length_assembled events_header)
  then show ?thesis using tx_sends [OF assms] by simp
qed

theorem tx_sends_what_it_read_witness:
  "sent (tx_loop [(Input [7, 8], 1), (Input [9], 0), (Input [], 0), (Input [1], 0)] tx_init) =
     [Assemble 1 [7, 8], Samples True False, Samples True False, Samples True False,
      Assemble 2 [9], Samples False False, Samples False False, Samples False True]"
proof -
  have e: "events True 0 [([7, 8], 1), ([9], 0)] = [Assemble 1 [7, 8], Samples True False, Samples True False, Samples True False,
      Assemble 2 [9], Samples False False, Samples False False]"
    by (simp add: frame_events_def numeral_eq_Suc)
  have r: "reads [(Input [7, 8], 1), (Input [9], 0), (Input [], 0), (Input [1], 0)] = [([7, 8], 1), ([9], 0)]" by simp
  show ?thesis
    using tx_sends_what_it_read [of "[(Input [7, 8], 1), (Input [9], 0), (Input [], 0), (Input [1], 0)]"]
    unfolding all_read_def r e by (simp del: tx_loop.simps)
qed

text \<open>
  The frames with a valid header that the synchronizer finds in what \<^verbatim>\<open>recv\<close> returns, what the output plugin takes of each, and the conditions that the code asserts:
  no samples come with an error, no payload is empty, and the plugin takes each payload whole.
\<close>

definition found :: "recv_answer list \<Rightarrow> frame list" where
  "found as = filter header_valid (concat (map frames (filter (\<lambda>a. numSamples a \<noteq> 0) as)))"

definition taken :: "frame \<Rightarrow> byte list" where
  "taken f = take (nat (nwrite f)) (payload f)"

definition frame_ok :: "frame \<Rightarrow> bool" where
  "frame_ok f \<longleftrightarrow> payload f \<noteq> [] \<and> nwrite f = int (length (payload f))"

definition rx_ok :: "recv_answer list \<Rightarrow> bool" where
  "rx_ok as \<longleftrightarrow> list_all (\<lambda>a. error_code a = 0 \<or> numSamples a = 0) as \<and> list_all frame_ok (found as)"

lemma found_simps [simp]:
  "found [] = []" "found (a # as) = (if numSamples a \<noteq> 0 then filter header_valid (frames a) else []) @ found as"
  by (simp_all add: found_def)

definition rx_adds :: "frame list \<Rightarrow> rx_thread \<Rightarrow> rx_thread" where
  "rx_adds fs r = r\<lparr>totalBytesRecv := totalBytesRecv r + of_nat (length (concat (map payload fs))), written_out := written_out r @ concat (map taken fs)\<rparr>"

lemma rx_adds_simps [simp]: "rx_adds [] r = r" "rx_adds gs (rx_adds fs r) = rx_adds (fs @ gs) r"
  by (simp_all add: rx_adds_def algebra_simps)

lemma callback_run:
  "rxFrameSyncCallback debug f r = (if header_valid f then if debug \<and> \<not> frame_ok f then None else Some (rx_adds [f] r) else Some r)"
  by (auto simp: rxFrameSyncCallback_def rx_adds_def taken_def frame_ok_def DASSERT_def Let_def)

lemma sync_execute_run:
  "sync_execute debug fs r = (if debug \<and> \<not> list_all frame_ok (filter header_valid fs) then None else Some (rx_adds (filter header_valid fs) r))"
  by (induction fs arbitrary: r) (auto simp: callback_run)

lemma rx_loop_run: "rx_loop debug as r = (if debug \<and> \<not> rx_ok as then None else Some (rx_adds (found as) r))"
proof (induction as arbitrary: r)
  case (Cons a as)
  then show ?case
    by (cases "numSamples a = 0"; cases "error_code a = 0") (auto simp: RXRecvWriteLoop_def sync_execute_run rx_ok_def DASSERT_def)
qed (simp add: rx_ok_def)

text \<open>
  Property C35. What the receiving thread does, for any answers of the radio, the synchronizer and the output plugin: it counts and writes the payload of each frame
  with a valid header, in the order the frames are found, once, whether the check of the payload failed or not, and nothing else. With \<^verbatim>\<open>DASSERT\<close> it stops exactly when
  samples come with an error, a payload is empty, or the plugin does not take a payload whole; without, what the plugin does not take is lost, though counted. So while the
  asserted conditions hold the plugin is given all of the payloads.
\<close>

theorem rx_writes_what_it_finds:
  "rx_loop debug as rx_init = (if debug \<and> \<not> rx_ok as then None
     else Some \<lparr>totalBytesRecv = of_nat (length (concat (map payload (found as)))), written_out = concat (map taken (found as))\<rparr>)
   \<and> (rx_ok as \<longrightarrow> concat (map taken (found as)) = concat (map payload (found as)))"
proof -
  have t: "list_all frame_ok fs \<Longrightarrow> map taken fs = map payload fs" for fs
    by (induction fs) (simp_all add: taken_def frame_ok_def)
  have c: "concat (map taken (found as)) = concat (map payload (found as))" if "rx_ok as"
  proof -
    have "list_all frame_ok (found as)" using that by (simp add: rx_ok_def)
    from t [OF this] show ?thesis by (rule arg_cong)
  qed
  have a: "rx_adds (found as) rx_init
      = \<lparr>totalBytesRecv = of_nat (length (concat (map payload (found as)))), written_out = concat (map taken (found as))\<rparr>"
    by (simp add: rx_adds_def rx_init_def)
  show ?thesis unfolding rx_loop_run a using c by blast
qed

text \<open>A frame with a bad header, a frame with a good one whose payload is damaged, and a timeout.\<close>

definition rx_answers :: "recv_answer list" where
  "rx_answers = [\<lparr>error_code = 0, numSamples = 363, frames = [\<lparr>header_valid = False, payload = [1], payload_valid = False, nwrite = 0\<rparr>,
     \<lparr>header_valid = True, payload = [7, 8], payload_valid = False, nwrite = 2\<rparr>]\<rparr>, \<lparr>error_code = 1, numSamples = 0, frames = []\<rparr>]"

theorem rx_writes_what_it_finds_witness:
  "rx_loop True rx_answers rx_init = Some \<lparr>totalBytesRecv = 2, written_out = [7, 8]\<rparr> \<and> rx_ok rx_answers"
proof -
  have f: "rx_ok rx_answers" "concat (map payload (found rx_answers)) = [7, 8]"
    by (simp_all add: rx_answers_def rx_ok_def frame_ok_def)
  then show ?thesis using rx_writes_what_it_finds [of True rx_answers] by simp
qed

end
