(* ===== verification/CrtsThreads.thy ===== *)
theory CrtsThreads
  imports CrtsRadio
begin

text \<open>
  The threads of the radio program of src/lanceman2\_crts: \<^verbatim>\<open>main\<close> of bin/crts\_radio.cpp from the creation of the threads
  to its end, \<^verbatim>\<open>RXThreadCallback\<close> and \<^verbatim>\<open>TXThreadCallback\<close>, and the handler of the exit signal, as a machine whose moves are the sections of the
  code between two points where threads can wait or see each other: the mutex of FFTW, the barrier, the two flags, the
  joins. The plugins and the libraries are answers of a move. A use of a plugin or of a library object that was destroyed is \<open>Aborted\<close>, like a
  failed assertion.
\<close>

subsection \<open>State\<close>

datatype main_pc = CreateRx | CreateTx | MEnter | MWait | JoinRx | JoinTx | DestroyInput | DestroyOutput | DestroyIO | Exit

datatype thread_pc = NotYet | LockMake | Make | Enter | Wait | Start | Loop | Turn | Stop | LockFree | Free | Returned

datatype who = Rx | Tx

record radio_cfg =
  mods :: radio_mods
  dbg :: bool
  rx_want :: usrp_set
  rx_got :: usrp_set
  tx_want :: usrp_set
  tx_got :: usrp_set

text \<open>
  \<open>rx_object\<close> and \<open>tx_object\<close> are the frame synchronizer and the frame generator; \<open>tx_seen\<close> and \<open>rx_seen\<close> are the answers
  the threads had, which the program does not keep.
\<close>

record radio =
  main_at :: main_pc
  rx_at :: thread_pc
  tx_at :: thread_pc
  arrived :: nat
  fftw3_mutex :: "who option"
  isRXLooping :: bool
  isTXLooping :: bool
  interrupted :: bool
  input_alive :: bool
  output_alive :: bool
  rx_object :: bool
  tx_object :: bool
  streaming :: bool
  txd :: tx_thread
  rxd :: rx_thread
  tx_seen :: "(input_answer \<times> nat) list"
  rx_seen :: "recv_answer list"

definition radio_start :: "radio_cfg \<Rightarrow> radio" where
  "radio_start c = \<lparr>main_at = CreateRx, rx_at = NotYet, tx_at = NotYet, arrived = 0, fftw3_mutex = None,
     isRXLooping = True, isTXLooping = True, interrupted = False,
     input_alive = has_input (mods c), output_alive = has_output (mods c), rx_object = False, tx_object = False, streaming = False,
     txd = tx_init, rxd = rx_init, tx_seen = [], rx_seen = []\<rparr>"

datatype outcome = Blocked | Aborted | Moved radio

definition barrier_count :: "radio_mods \<Rightarrow> nat" where
  "barrier_count m = (if has_output m then 1 else 0) + (if has_input m then 1 else 0) + 1"

subsection \<open>The main thread\<close>

definition destroy_plugins :: "radio_cfg \<Rightarrow> radio \<Rightarrow> outcome" where
  "destroy_plugins c s = (case main_at s of
       DestroyInput \<Rightarrow>
         if destroyInput (mods c) then
           if (dbg c \<longrightarrow> \<not> destroyIO (mods c)) \<and> input_alive s then Moved (s\<lparr>input_alive := False, main_at := DestroyOutput\<rparr>) else Aborted
         else Moved (s\<lparr>main_at := DestroyOutput\<rparr>)
     | DestroyOutput \<Rightarrow>
         if destroyOutput (mods c) then
           if (dbg c \<longrightarrow> \<not> destroyIO (mods c)) \<and> output_alive s then Moved (s\<lparr>output_alive := False, main_at := DestroyIO\<rparr>) else Aborted
         else Moved (s\<lparr>main_at := DestroyIO\<rparr>)
     | DestroyIO \<Rightarrow>
         if destroyIO (mods c) then
           if (dbg c \<longrightarrow> \<not> destroyInput (mods c) \<and> \<not> destroyOutput (mods c)) \<and> input_alive s \<and> output_alive s
           then Moved (s\<lparr>input_alive := False, output_alive := False, main_at := Exit\<rparr>) else Aborted
         else Moved (s\<lparr>main_at := Exit\<rparr>)
     | _ \<Rightarrow> Blocked)"

definition main_move :: "radio_cfg \<Rightarrow> radio \<Rightarrow> outcome" where
  "main_move c s = (case main_at s of
       CreateRx \<Rightarrow>
         if has_output (mods c) then
           (case crts_usrp_set (dbg c) (rx_want c) (rx_got c) of None \<Rightarrow> Aborted
            | Some _ \<Rightarrow> Moved (s\<lparr>rx_at := LockMake, main_at := CreateTx\<rparr>))
         else Moved (s\<lparr>main_at := CreateTx\<rparr>)
     | CreateTx \<Rightarrow>
         if has_input (mods c) then
           (case crts_usrp_set (dbg c) (tx_want c) (tx_got c) of None \<Rightarrow> Aborted
            | Some _ \<Rightarrow> Moved (s\<lparr>tx_at := LockMake, main_at := MEnter\<rparr>))
         else Moved (s\<lparr>main_at := MEnter\<rparr>)
     | MEnter \<Rightarrow> Moved (s\<lparr>arrived := arrived s + 1, main_at := MWait\<rparr>)
     | MWait \<Rightarrow> if arrived s = barrier_count (mods c) then Moved (s\<lparr>main_at := JoinRx\<rparr>) else Blocked
     | JoinRx \<Rightarrow> if has_output (mods c) \<and> rx_at s \<noteq> Returned then Blocked else Moved (s\<lparr>main_at := JoinTx\<rparr>)
     | JoinTx \<Rightarrow> if has_input (mods c) \<and> tx_at s \<noteq> Returned then Blocked else Moved (s\<lparr>main_at := DestroyInput\<rparr>)
     | _ \<Rightarrow> destroy_plugins c s)"

text \<open>The signal is blocked until the threads are created, and resets its handler; a second one kills the process.\<close>

definition signalExitProgramCatcher :: "radio \<Rightarrow> outcome" where
  "signalExitProgramCatcher s =
     (if main_at s \<in> {CreateRx, CreateTx, Exit} \<or> interrupted s then Blocked
      else Moved (s\<lparr>isTXLooping := False, isRXLooping := False, interrupted := True\<rparr>))"

subsection \<open>The receiving thread\<close>

definition RXThreadCallback :: "radio_cfg \<Rightarrow> radio \<Rightarrow> outcome" where
  "RXThreadCallback c s = (case rx_at s of
       LockMake \<Rightarrow> if fftw3_mutex s = None then Moved (s\<lparr>fftw3_mutex := Some Rx, rx_at := Make\<rparr>) else Blocked
     | Make \<Rightarrow> Moved (s\<lparr>rx_object := True, fftw3_mutex := None, rx_at := Enter\<rparr>)
     | Enter \<Rightarrow> Moved (s\<lparr>arrived := arrived s + 1, rx_at := Wait\<rparr>)
     | Wait \<Rightarrow> if arrived s = barrier_count (mods c) then Moved (s\<lparr>rx_at := Start\<rparr>) else Blocked
     | Start \<Rightarrow> Moved (s\<lparr>streaming := isRXLooping s, rx_at := Loop\<rparr>)
     | Loop \<Rightarrow> Moved (s\<lparr>rx_at := if isRXLooping s then Turn else Stop\<rparr>)
     | Stop \<Rightarrow> Moved (s\<lparr>streaming := False, rx_at := LockFree\<rparr>)
     | LockFree \<Rightarrow> if fftw3_mutex s = None then Moved (s\<lparr>fftw3_mutex := Some Rx, rx_at := Free\<rparr>) else Blocked
     | Free \<Rightarrow> if rx_object s then Moved (s\<lparr>rx_object := False, fftw3_mutex := None, rx_at := Returned\<rparr>) else Aborted
     | _ \<Rightarrow> Blocked)"

definition rx_turn :: "radio_cfg \<Rightarrow> recv_answer \<Rightarrow> radio \<Rightarrow> outcome" where
  "rx_turn c a s =
     (if rx_at s \<noteq> Turn then Blocked
      else if \<not> (output_alive s \<and> rx_object s) then Aborted
      else case RXRecvWriteLoop (dbg c) a (rxd s) of
          None \<Rightarrow> Aborted
        | Some (go, r) \<Rightarrow> Moved (s\<lparr>rxd := r, rx_seen := rx_seen s @ [a], rx_at := if go then Loop else Stop\<rparr>))"

subsection \<open>The transmitting thread\<close>

definition TXThreadCallback :: "radio_cfg \<Rightarrow> radio \<Rightarrow> outcome" where
  "TXThreadCallback c s = (case tx_at s of
       LockMake \<Rightarrow> if fftw3_mutex s = None then Moved (s\<lparr>fftw3_mutex := Some Tx, tx_at := Make\<rparr>) else Blocked
     | Make \<Rightarrow> Moved (s\<lparr>tx_object := True, fftw3_mutex := None, tx_at := Enter\<rparr>)
     | Enter \<Rightarrow> Moved (s\<lparr>arrived := arrived s + 1, tx_at := Wait\<rparr>)
     | Wait \<Rightarrow> if arrived s = barrier_count (mods c) then Moved (s\<lparr>tx_at := Loop\<rparr>) else Blocked
     | Loop \<Rightarrow> Moved (s\<lparr>tx_at := if isTXLooping s then Turn else Stop\<rparr>)
     | Stop \<Rightarrow> Moved (s\<lparr>txd := tx_finish (txd s), tx_at := LockFree\<rparr>)
     | LockFree \<Rightarrow> if fftw3_mutex s = None then Moved (s\<lparr>fftw3_mutex := Some Tx, tx_at := Free\<rparr>) else Blocked
     | Free \<Rightarrow> if tx_object s then Moved (s\<lparr>tx_object := False, fftw3_mutex := None, tx_at := Returned\<rparr>) else Aborted
     | _ \<Rightarrow> Blocked)"

definition tx_thread_turn :: "radio_cfg \<Rightarrow> input_answer \<Rightarrow> nat \<Rightarrow> radio \<Rightarrow> outcome" where
  "tx_thread_turn c a k s =
     (if tx_at s \<noteq> Turn then Blocked
      else if \<not> (input_alive s \<and> tx_object s) then Aborted
      else case tx_turn a k (txd s) of
        (go, t) \<Rightarrow> Moved (s\<lparr>txd := t, tx_seen := tx_seen s @ [(a, k)], tx_at := if go then Loop else Stop\<rparr>))"

subsection \<open>Steps\<close>

datatype move = MainMove | RxMove | TxMove | RxTurn recv_answer | TxTurn input_answer nat | Interrupt

fun radio_move :: "radio_cfg \<Rightarrow> move \<Rightarrow> radio \<Rightarrow> outcome" where
  "radio_move c MainMove s = main_move c s"
| "radio_move c RxMove s = RXThreadCallback c s"
| "radio_move c TxMove s = TXThreadCallback c s"
| "radio_move c (RxTurn a) s = rx_turn c a s"
| "radio_move c (TxTurn a k) s = tx_thread_turn c a k s"
| "radio_move c Interrupt s = signalExitProgramCatcher s"

definition radio_step :: "radio_cfg \<Rightarrow> radio \<Rightarrow> radio \<Rightarrow> bool" where
  "radio_step c s t \<longleftrightarrow> (\<exists>m. radio_move c m s = Moved t)"

definition radio_reach :: "radio_cfg \<Rightarrow> radio \<Rightarrow> bool" where
  "radio_reach c = reachable (\<lambda>s. s = radio_start c) (radio_step c)"

subsection \<open>Invariant\<close>

text \<open>Which threads there are, and that \<^verbatim>\<open>main\<close> gets past a join only when the thread has returned.\<close>

definition gone :: "thread_pc \<Rightarrow> bool" where
  "gone p \<longleftrightarrow> p \<in> {NotYet, Returned}"

definition rx_joined :: "main_pc \<Rightarrow> bool" where
  "rx_joined p \<longleftrightarrow> p \<in> {JoinTx, DestroyInput, DestroyOutput, DestroyIO, Exit}"

definition tx_joined :: "main_pc \<Rightarrow> bool" where
  "tx_joined p \<longleftrightarrow> p \<in> {DestroyInput, DestroyOutput, DestroyIO, Exit}"

definition threads_inv :: "radio_mods \<Rightarrow> radio \<Rightarrow> bool" where
  "threads_inv m s \<longleftrightarrow>
     (rx_at s = NotYet \<longleftrightarrow> main_at s = CreateRx \<or> \<not> has_output m) \<and>
     (tx_at s = NotYet \<longleftrightarrow> main_at s = CreateRx \<or> main_at s = CreateTx \<or> \<not> has_input m) \<and>
     (rx_joined (main_at s) \<longrightarrow> gone (rx_at s)) \<and> (tx_joined (main_at s) \<longrightarrow> gone (tx_at s)) \<and> tx_at s \<noteq> Start"

text \<open>The barrier: who has arrived, and that nobody is past it before all have.\<close>

definition before_barrier :: "thread_pc \<Rightarrow> bool" where
  "before_barrier p \<longleftrightarrow> p \<in> {NotYet, LockMake, Make, Enter}"

definition past_barrier :: "thread_pc \<Rightarrow> bool" where
  "past_barrier p \<longleftrightarrow> \<not> before_barrier p \<and> p \<noteq> Wait"

definition main_came :: "main_pc \<Rightarrow> bool" where
  "main_came p \<longleftrightarrow> p \<notin> {CreateRx, CreateTx, MEnter}"

definition came :: "bool \<Rightarrow> nat" where
  "came b = (if b then 1 else 0)"

lemma came_simps [simp]: "came True = 1" "came False = 0"
  by (simp_all add: came_def)

lemma came_le: "came b \<le> 1" "came b \<le> Suc 0"
  by (simp_all add: came_def)

definition barrier_inv :: "radio_mods \<Rightarrow> radio \<Rightarrow> bool" where
  "barrier_inv m s \<longleftrightarrow>
     arrived s = came (main_came (main_at s)) + came (\<not> before_barrier (rx_at s)) + came (\<not> before_barrier (tx_at s)) \<and>
     (main_came (main_at s) \<and> main_at s \<noteq> MWait \<or> past_barrier (rx_at s) \<or> past_barrier (tx_at s) \<longrightarrow> arrived s = barrier_count m)"

text \<open>The mutex, the objects of the libraries, the stream.\<close>

definition has_object :: "thread_pc \<Rightarrow> bool" where
  "has_object p \<longleftrightarrow> p \<in> {Enter, Wait, Start, Loop, Turn, Stop, LockFree, Free}"

definition holds_lock :: "thread_pc \<Rightarrow> bool" where
  "holds_lock p \<longleftrightarrow> p \<in> {Make, Free}"

definition lock_inv :: "radio \<Rightarrow> bool" where
  "lock_inv s \<longleftrightarrow> (holds_lock (rx_at s) \<longrightarrow> \<not> holds_lock (tx_at s)) \<and>
     fftw3_mutex s = (if holds_lock (rx_at s) then Some Rx else if holds_lock (tx_at s) then Some Tx else None) \<and>
     rx_object s = has_object (rx_at s) \<and> tx_object s = has_object (tx_at s) \<and>
     (streaming s \<longrightarrow> rx_at s \<in> {Loop, Turn, Stop})"

text \<open>The plugins live until \<^verbatim>\<open>main\<close> destroys them.\<close>

definition plugins_inv :: "radio_mods \<Rightarrow> radio \<Rightarrow> bool" where
  "plugins_inv m s \<longleftrightarrow>
     input_alive s = (has_input m \<and> \<not> (destroyInput m \<and> main_at s \<in> {DestroyOutput, DestroyIO, Exit}) \<and> \<not> (destroyIO m \<and> main_at s = Exit)) \<and>
     output_alive s = (has_output m \<and> \<not> (destroyOutput m \<and> main_at s \<in> {DestroyIO, Exit}) \<and> \<not> (destroyIO m \<and> main_at s = Exit))"

text \<open>The threads have done what \<open>tx_loop\<close> and \<open>rx_loop\<close> say, with the answers they had.\<close>

definition data_inv :: "bool \<Rightarrow> radio \<Rightarrow> bool" where
  "data_inv d s \<longleftrightarrow> rx_loop d (rx_seen s) rx_init = Some (rxd s) \<and>
     (if tx_at s = Stop then tx_loop (tx_seen s) tx_init = tx_finish (txd s)
      else if tx_at s \<in> {LockFree, Free, Returned} then tx_loop (tx_seen s) tx_init = txd s
      else \<forall>as. tx_loop (tx_seen s @ as) tx_init = tx_loop as (txd s))"

text \<open>The flags and the signal.\<close>

definition flags_inv :: "radio \<Rightarrow> bool" where
  "flags_inv s \<longleftrightarrow> isRXLooping s = (\<not> interrupted s) \<and> isTXLooping s = (\<not> interrupted s) \<and>
     (interrupted s \<longrightarrow> main_at s \<noteq> CreateRx \<and> main_at s \<noteq> CreateTx)"

definition radio_inv :: "radio_cfg \<Rightarrow> radio \<Rightarrow> bool" where
  "radio_inv c s \<longleftrightarrow> threads_inv (mods c) s \<and> barrier_inv (mods c) s \<and> lock_inv s \<and> plugins_inv (mods c) s \<and> data_inv (dbg c) s \<and> flags_inv s"

lemma rx_loop_snoc:
  "rx_loop d as r = Some r' \<Longrightarrow> RXRecvWriteLoop d a r' = Some (go, r'') \<Longrightarrow> rx_loop d (as @ [a]) r = Some r''"
proof (induction as arbitrary: r)
  case (Cons b as)
  from Cons.prems(1) obtain g q where g: "RXRecvWriteLoop d b r = Some (g, q)" "rx_loop d as q = Some r'"
    by (auto simp: RXRecvWriteLoop_def split: bind_splits)
  then have "g" by (auto simp: RXRecvWriteLoop_def split: bind_splits)
  with g Cons.IH [OF g(2) Cons.prems(2)] show ?case by simp
qed (auto split: if_splits)


lemma RXRecvWriteLoop_goes_on: "RXRecvWriteLoop d a r = Some (go, r') \<Longrightarrow> go"
  by (auto simp: RXRecvWriteLoop_def split: bind_splits)

lemma place_simps [simp]:
  "before_barrier NotYet" "before_barrier LockMake" "before_barrier Make" "before_barrier Enter"
  "\<not> before_barrier Wait" "\<not> before_barrier Start" "\<not> before_barrier Loop" "\<not> before_barrier Turn" "\<not> before_barrier Stop"
  "\<not> before_barrier LockFree" "\<not> before_barrier Free" "\<not> before_barrier Returned"
  "\<not> rx_joined CreateRx" "\<not> rx_joined CreateTx" "\<not> rx_joined MEnter" "\<not> rx_joined MWait" "\<not> rx_joined JoinRx" "rx_joined JoinTx"
  "rx_joined DestroyInput" "rx_joined DestroyOutput" "rx_joined DestroyIO" "rx_joined Exit"
  "\<not> tx_joined CreateRx" "\<not> tx_joined CreateTx" "\<not> tx_joined MEnter" "\<not> tx_joined MWait" "\<not> tx_joined JoinRx" "\<not> tx_joined JoinTx"
  "tx_joined DestroyInput" "tx_joined DestroyOutput" "tx_joined DestroyIO" "tx_joined Exit"
  "gone NotYet" "gone Returned" "\<not> gone LockMake" "\<not> gone Make" "\<not> gone Enter" "\<not> gone Wait" "\<not> gone Start" "\<not> gone Loop"
  "\<not> gone Turn" "\<not> gone Stop" "\<not> gone LockFree" "\<not> gone Free"
  "\<not> past_barrier NotYet" "\<not> past_barrier LockMake" "\<not> past_barrier Make" "\<not> past_barrier Enter"
  "\<not> past_barrier Wait" "past_barrier Start" "past_barrier Loop" "past_barrier Turn" "past_barrier Stop"
  "past_barrier LockFree" "past_barrier Free" "past_barrier Returned"
  "\<not> main_came CreateRx" "\<not> main_came CreateTx" "\<not> main_came MEnter" "main_came MWait" "main_came JoinRx" "main_came JoinTx"
  "main_came DestroyInput" "main_came DestroyOutput" "main_came DestroyIO" "main_came Exit"
  "\<not> has_object NotYet" "\<not> has_object LockMake" "\<not> has_object Make" "\<not> has_object Returned"
  "has_object Enter" "has_object Wait" "has_object Start" "has_object Loop" "has_object Turn" "has_object Stop"
  "has_object LockFree" "has_object Free"
  "holds_lock Make" "holds_lock Free" "\<not> holds_lock NotYet" "\<not> holds_lock LockMake" "\<not> holds_lock Enter" "\<not> holds_lock Wait"
  "\<not> holds_lock Start" "\<not> holds_lock Loop" "\<not> holds_lock Turn" "\<not> holds_lock Stop" "\<not> holds_lock LockFree" "\<not> holds_lock Returned"
  by (simp_all add: before_barrier_def has_object_def holds_lock_def past_barrier_def main_came_def gone_def rx_joined_def tx_joined_def)
lemma barrier_room:
  assumes "threads_inv m s" and "barrier_inv m s"
  shows "rx_at s = Enter \<Longrightarrow> arrived s < barrier_count m" "tx_at s = Enter \<Longrightarrow> arrived s < barrier_count m"
    "main_at s = MEnter \<Longrightarrow> arrived s < barrier_count m"
proof -
  have rx: "came (\<not> before_barrier (rx_at s)) \<le> (came (has_output m) :: nat)"
    using assms(1) by (cases "has_output m") (simp_all add: threads_inv_def came_le)
  have tx: "came (\<not> before_barrier (tx_at s)) \<le> (came (has_input m) :: nat)"
    using assms(1) by (cases "has_input m") (simp_all add: threads_inv_def came_le)
  have arr: "arrived s = came (main_came (main_at s)) + came (\<not> before_barrier (rx_at s)) + came (\<not> before_barrier (tx_at s))"
    using assms(2) unfolding barrier_inv_def by blast
  have main: "came (main_came (main_at s)) \<le> (1 :: nat)" by (rule came_le(1))
  have count: "barrier_count m = came (has_output m) + came (has_input m) + 1" by (simp add: barrier_count_def came_def)
  { assume "rx_at s = Enter"
    moreover from this have "has_output m" using assms(1) unfolding threads_inv_def by auto
    ultimately show "arrived s < barrier_count m" using arr count main tx by simp }
  { assume "tx_at s = Enter"
    moreover from this have "has_input m" using assms(1) unfolding threads_inv_def by auto
    ultimately show "arrived s < barrier_count m" using arr count main rx by simp }
  { assume "main_at s = MEnter"
    then show "arrived s < barrier_count m" using arr count rx tx by simp }
qed

text \<open>Where each move can be made, and what it does.\<close>

lemma rx_move_cases:
  assumes "RXThreadCallback c s = Moved t"
  obtains "rx_at s = LockMake" "fftw3_mutex s = None" "t = s\<lparr>fftw3_mutex := Some Rx, rx_at := Make\<rparr>"
  | "rx_at s = Make" "t = s\<lparr>rx_object := True, fftw3_mutex := None, rx_at := Enter\<rparr>"
  | "rx_at s = Enter" "t = s\<lparr>arrived := arrived s + 1, rx_at := Wait\<rparr>"
  | "rx_at s = Wait" "arrived s = barrier_count (mods c)" "t = s\<lparr>rx_at := Start\<rparr>"
  | "rx_at s = Start" "t = s\<lparr>streaming := isRXLooping s, rx_at := Loop\<rparr>"
  | p where "rx_at s = Loop" "p = (if isRXLooping s then Turn else Stop)" "t = s\<lparr>rx_at := p\<rparr>"
  | "rx_at s = Stop" "t = s\<lparr>streaming := False, rx_at := LockFree\<rparr>"
  | "rx_at s = LockFree" "fftw3_mutex s = None" "t = s\<lparr>fftw3_mutex := Some Rx, rx_at := Free\<rparr>"
  | "rx_at s = Free" "rx_object s" "t = s\<lparr>rx_object := False, fftw3_mutex := None, rx_at := Returned\<rparr>"
  using assms unfolding RXThreadCallback_def
  by (cases "rx_at s"; simp only: thread_pc.case outcome.inject outcome.distinct split: if_split_asm; blast)

lemma tx_move_cases:
  assumes "TXThreadCallback c s = Moved t"
  obtains "tx_at s = LockMake" "fftw3_mutex s = None" "t = s\<lparr>fftw3_mutex := Some Tx, tx_at := Make\<rparr>"
  | "tx_at s = Make" "t = s\<lparr>tx_object := True, fftw3_mutex := None, tx_at := Enter\<rparr>"
  | "tx_at s = Enter" "t = s\<lparr>arrived := arrived s + 1, tx_at := Wait\<rparr>"
  | "tx_at s = Wait" "arrived s = barrier_count (mods c)" "t = s\<lparr>tx_at := Loop\<rparr>"
  | p where "tx_at s = Loop" "p = (if isTXLooping s then Turn else Stop)" "t = s\<lparr>tx_at := p\<rparr>"
  | "tx_at s = Stop" "t = s\<lparr>txd := tx_finish (txd s), tx_at := LockFree\<rparr>"
  | "tx_at s = LockFree" "fftw3_mutex s = None" "t = s\<lparr>fftw3_mutex := Some Tx, tx_at := Free\<rparr>"
  | "tx_at s = Free" "tx_object s" "t = s\<lparr>tx_object := False, fftw3_mutex := None, tx_at := Returned\<rparr>"
  using assms unfolding TXThreadCallback_def
  by (cases "tx_at s"; simp only: thread_pc.case outcome.inject outcome.distinct split: if_split_asm; blast)

lemma rx_turn_cases:
  assumes "rx_turn c a s = Moved t"
  obtains r where "rx_at s = Turn" "output_alive s" "rx_object s" "RXRecvWriteLoop (dbg c) a (rxd s) = Some (True, r)"
    "t = s\<lparr>rxd := r, rx_seen := rx_seen s @ [a], rx_at := Loop\<rparr>"
  using assms by (auto simp: rx_turn_def split: if_split_asm option.split_asm dest: RXRecvWriteLoop_goes_on)

lemma tx_turn_cases:
  assumes "tx_thread_turn c a k s = Moved t"
  obtains go u where "tx_at s = Turn" "input_alive s" "tx_object s" "tx_turn a k (txd s) = (go, u)"
    "t = s\<lparr>txd := u, tx_seen := tx_seen s @ [(a, k)], tx_at := if go then Loop else Stop\<rparr>"
  using assms unfolding tx_thread_turn_def
  by (auto split: if_split_asm prod.split_asm)

lemma destroy_cases:
  assumes "destroy_plugins c s = Moved t"
  obtains "main_at s = DestroyInput" "t = (if destroyInput (mods c) then s\<lparr>input_alive := False, main_at := DestroyOutput\<rparr> else s\<lparr>main_at := DestroyOutput\<rparr>)"
  | "main_at s = DestroyOutput" "t = (if destroyOutput (mods c) then s\<lparr>output_alive := False, main_at := DestroyIO\<rparr> else s\<lparr>main_at := DestroyIO\<rparr>)"
  | "main_at s = DestroyIO" "t = (if destroyIO (mods c) then s\<lparr>input_alive := False, output_alive := False, main_at := Exit\<rparr> else s\<lparr>main_at := Exit\<rparr>)"
proof (cases "main_at s")
  case DestroyInput
  with assms have "t = (if destroyInput (mods c) then s\<lparr>input_alive := False, main_at := DestroyOutput\<rparr> else s\<lparr>main_at := DestroyOutput\<rparr>)"
    by (auto simp: destroy_plugins_def split: if_split_asm)
  with DestroyInput show thesis by (rule that(1))
next
  case DestroyOutput
  with assms have "t = (if destroyOutput (mods c) then s\<lparr>output_alive := False, main_at := DestroyIO\<rparr> else s\<lparr>main_at := DestroyIO\<rparr>)"
    by (auto simp: destroy_plugins_def split: if_split_asm)
  with DestroyOutput show thesis by (rule that(2))
next
  case DestroyIO
  with assms have "t = (if destroyIO (mods c) then s\<lparr>input_alive := False, output_alive := False, main_at := Exit\<rparr> else s\<lparr>main_at := Exit\<rparr>)"
    by (auto simp: destroy_plugins_def split: if_split_asm)
  with DestroyIO show thesis by (rule that(3))
qed (use assms in \<open>simp_all only: destroy_plugins_def main_pc.case outcome.distinct\<close>)

lemma main_move_cases:
  assumes "main_move c s = Moved t"
  obtains "main_at s = CreateRx" "t = (if has_output (mods c) then s\<lparr>rx_at := LockMake, main_at := CreateTx\<rparr> else s\<lparr>main_at := CreateTx\<rparr>)"
  | "main_at s = CreateTx" "t = (if has_input (mods c) then s\<lparr>tx_at := LockMake, main_at := MEnter\<rparr> else s\<lparr>main_at := MEnter\<rparr>)"
  | "main_at s = MEnter" "t = s\<lparr>arrived := arrived s + 1, main_at := MWait\<rparr>"
  | "main_at s = MWait" "arrived s = barrier_count (mods c)" "t = s\<lparr>main_at := JoinRx\<rparr>"
  | "main_at s = JoinRx" "has_output (mods c) \<Longrightarrow> rx_at s = Returned" "t = s\<lparr>main_at := JoinTx\<rparr>"
  | "main_at s = JoinTx" "has_input (mods c) \<Longrightarrow> tx_at s = Returned" "t = s\<lparr>main_at := DestroyInput\<rparr>"
  | "destroy_plugins c s = Moved t"
proof (cases "main_at s")
  case CreateRx
  with assms have "t = (if has_output (mods c) then s\<lparr>rx_at := LockMake, main_at := CreateTx\<rparr> else s\<lparr>main_at := CreateTx\<rparr>)"
    by (auto simp: main_move_def split: if_split_asm option.split_asm)
  with CreateRx show thesis by (rule that(1))
next
  case CreateTx
  with assms have "t = (if has_input (mods c) then s\<lparr>tx_at := LockMake, main_at := MEnter\<rparr> else s\<lparr>main_at := MEnter\<rparr>)"
    by (auto simp: main_move_def split: if_split_asm option.split_asm)
  with CreateTx show thesis by (rule that(2))
next
  case MEnter
  with assms have "t = s\<lparr>arrived := arrived s + 1, main_at := MWait\<rparr>" by (auto simp: main_move_def)
  with MEnter show thesis by (rule that(3))
next
  case MWait
  with assms have "arrived s = barrier_count (mods c)" "t = s\<lparr>main_at := JoinRx\<rparr>" by (auto simp: main_move_def split: if_split_asm)
  with MWait show thesis by (rule that(4))
next
  case JoinRx
  with assms have "has_output (mods c) \<Longrightarrow> rx_at s = Returned" "t = s\<lparr>main_at := JoinTx\<rparr>" by (auto simp: main_move_def split: if_split_asm)
  with JoinRx show thesis by (rule that(5))
next
  case JoinTx
  with assms have "has_input (mods c) \<Longrightarrow> tx_at s = Returned" "t = s\<lparr>main_at := DestroyInput\<rparr>" by (auto simp: main_move_def split: if_split_asm)
  with JoinTx show thesis by (rule that(6))
qed (use assms that(7) in \<open>simp_all only: main_move_def main_pc.case\<close>)

lemma interrupt_cases:
  assumes "signalExitProgramCatcher s = Moved t"
  obtains "main_at s \<notin> {CreateRx, CreateTx, Exit}" "\<not> interrupted s"
    "t = s\<lparr>isTXLooping := False, isRXLooping := False, interrupted := True\<rparr>"
  using assms unfolding signalExitProgramCatcher_def
  by (simp only: outcome.inject outcome.distinct split: if_split_asm) blast

lemma rx_move_inv:
  assumes "RXThreadCallback c s = Moved t"
  shows "threads_inv m s \<Longrightarrow> threads_inv m t" "lock_inv s \<Longrightarrow> lock_inv t" "plugins_inv m s \<Longrightarrow> plugins_inv m t"
    "data_inv d s \<Longrightarrow> data_inv d t" "threads_inv (mods c) s \<Longrightarrow> barrier_inv (mods c) s \<Longrightarrow> barrier_inv (mods c) t"
proof -
  show "threads_inv m s \<Longrightarrow> threads_inv m t" using assms by (rule rx_move_cases) (simp_all add: threads_inv_def)
  show "lock_inv s \<Longrightarrow> lock_inv t" using assms by (rule rx_move_cases) (simp_all add: lock_inv_def split: if_splits)
  show "plugins_inv m s \<Longrightarrow> plugins_inv m t" using assms by (rule rx_move_cases) (simp_all add: plugins_inv_def)
  show "data_inv d s \<Longrightarrow> data_inv d t" using assms by (rule rx_move_cases) (simp_all add: data_inv_def)
  show "threads_inv (mods c) s \<Longrightarrow> barrier_inv (mods c) s \<Longrightarrow> barrier_inv (mods c) t"
    using assms barrier_room(1) [of "mods c" s] by (elim rx_move_cases) (auto simp: barrier_inv_def)
qed

lemma tx_move_inv:
  assumes "TXThreadCallback c s = Moved t"
  shows "threads_inv m s \<Longrightarrow> threads_inv m t" "lock_inv s \<Longrightarrow> lock_inv t" "plugins_inv m s \<Longrightarrow> plugins_inv m t"
    "data_inv d s \<Longrightarrow> data_inv d t" "threads_inv (mods c) s \<Longrightarrow> barrier_inv (mods c) s \<Longrightarrow> barrier_inv (mods c) t"
proof -
  show "threads_inv m s \<Longrightarrow> threads_inv m t" using assms by (rule tx_move_cases) (simp_all add: threads_inv_def)
  show "lock_inv s \<Longrightarrow> lock_inv t" using assms by (rule tx_move_cases) (simp_all add: lock_inv_def split: if_splits)
  show "plugins_inv m s \<Longrightarrow> plugins_inv m t" using assms by (rule tx_move_cases) (simp_all add: plugins_inv_def)
  have "tx_loop (tx_seen s) tx_init = tx_loop [] (txd s)" if "\<forall>as. tx_loop (tx_seen s @ as) tx_init = tx_loop as (txd s)"
    using that [rule_format, of "[]"] by simp
  then show "data_inv d s \<Longrightarrow> data_inv d t"
    using assms by (elim tx_move_cases) (simp_all add: data_inv_def)
  show "threads_inv (mods c) s \<Longrightarrow> barrier_inv (mods c) s \<Longrightarrow> barrier_inv (mods c) t"
    using assms barrier_room(2) [of "mods c" s] by (elim tx_move_cases) (auto simp: barrier_inv_def)
qed

lemma rx_turn_inv:
  assumes "rx_turn c a s = Moved t"
  shows "threads_inv m s \<Longrightarrow> threads_inv m t" "lock_inv s \<Longrightarrow> lock_inv t" "plugins_inv m s \<Longrightarrow> plugins_inv m t"
    "data_inv (dbg c) s \<Longrightarrow> data_inv (dbg c) t" "barrier_inv m s \<Longrightarrow> barrier_inv m t"
  using assms rx_loop_snoc [of "dbg c" "rx_seen s" rx_init "rxd s" a]
  by (elim rx_turn_cases; simp add: threads_inv_def lock_inv_def plugins_inv_def barrier_inv_def data_inv_def)+

lemma tx_turn_inv:
  assumes "tx_thread_turn c a k s = Moved t"
  shows "threads_inv m s \<Longrightarrow> threads_inv m t" "lock_inv s \<Longrightarrow> lock_inv t" "plugins_inv m s \<Longrightarrow> plugins_inv m t"
    "barrier_inv m s \<Longrightarrow> barrier_inv m t" "data_inv d s \<Longrightarrow> data_inv d t"
proof -
  show "threads_inv m s \<Longrightarrow> threads_inv m t" "lock_inv s \<Longrightarrow> lock_inv t" "plugins_inv m s \<Longrightarrow> plugins_inv m t"
    "barrier_inv m s \<Longrightarrow> barrier_inv m t"
    using assms by (elim tx_turn_cases; simp add: threads_inv_def lock_inv_def plugins_inv_def barrier_inv_def)+
  assume inv: "data_inv d s"
  from assms obtain go u where u: "tx_at s = Turn" "tx_turn a k (txd s) = (go, u)"
    "t = s\<lparr>txd := u, tx_seen := tx_seen s @ [(a, k)], tx_at := if go then Loop else Stop\<rparr>" by (rule tx_turn_cases)
  then have "tx_loop (tx_seen s @ (a, k) # as) tx_init = (if go then tx_loop as u else tx_finish u)" for as
    using inv by (simp add: data_inv_def)
  with inv u show "data_inv d t" by (simp add: data_inv_def)
qed

lemma main_move_inv:
  assumes "main_move c s = Moved t" and "mods_ok (mods c)" and "threads_inv (mods c) s"
  shows "threads_inv (mods c) t" "lock_inv s \<Longrightarrow> lock_inv t" "plugins_inv (mods c) s \<Longrightarrow> plugins_inv (mods c) t"
    "data_inv d s \<Longrightarrow> data_inv d t" "barrier_inv (mods c) s \<Longrightarrow> barrier_inv (mods c) t"
proof -
  have none: "main_at s = CreateRx \<Longrightarrow> rx_at s = NotYet" "main_at s \<in> {CreateRx, CreateTx} \<Longrightarrow> tx_at s = NotYet"
    "\<not> has_output (mods c) \<Longrightarrow> rx_at s = NotYet" "\<not> has_input (mods c) \<Longrightarrow> tx_at s = NotYet"
    using assms(3) unfolding threads_inv_def by auto
  show "threads_inv (mods c) t" using assms(1,3) none by (elim main_move_cases destroy_cases) (auto simp: threads_inv_def)
  show "lock_inv s \<Longrightarrow> lock_inv t" using assms(1) none by (elim main_move_cases destroy_cases; simp add: lock_inv_def; blast)
  show "plugins_inv (mods c) s \<Longrightarrow> plugins_inv (mods c) t"
    using assms(1,2) by (elim main_move_cases destroy_cases) (simp_all add: plugins_inv_def mods_ok_def)
  show "data_inv d s \<Longrightarrow> data_inv d t" using assms(1) none by (elim main_move_cases destroy_cases) (simp_all add: data_inv_def)
  show "barrier_inv (mods c) s \<Longrightarrow> barrier_inv (mods c) t"
    using assms(1) none barrier_room(3) [OF assms(3)] by (elim main_move_cases destroy_cases) (auto simp: barrier_inv_def)
qed

lemma interrupt_inv:
  assumes "signalExitProgramCatcher s = Moved t"
  shows "threads_inv m s \<Longrightarrow> threads_inv m t" "lock_inv s \<Longrightarrow> lock_inv t" "plugins_inv m s \<Longrightarrow> plugins_inv m t"
    "barrier_inv m s \<Longrightarrow> barrier_inv m t" "data_inv d s \<Longrightarrow> data_inv d t"
proof -
  from assms have t: "t = s\<lparr>isTXLooping := False, isRXLooping := False, interrupted := True\<rparr>" by (rule interrupt_cases)
  show "threads_inv m s \<Longrightarrow> threads_inv m t" by (simp add: t threads_inv_def)
  show "lock_inv s \<Longrightarrow> lock_inv t" by (simp add: t lock_inv_def)
  show "plugins_inv m s \<Longrightarrow> plugins_inv m t" by (simp add: t plugins_inv_def)
  show "barrier_inv m s \<Longrightarrow> barrier_inv m t" unfolding t barrier_inv_def by auto
  show "data_inv d s \<Longrightarrow> data_inv d t" by (simp add: t data_inv_def)
qed

lemma flags_inv_move:
  assumes "radio_move c m s = Moved t" and "flags_inv s"
  shows "flags_inv t"
proof (cases m)
  case MainMove
  with assms show ?thesis by (simp, elim main_move_cases destroy_cases) (simp_all add: flags_inv_def)
next
  case RxMove
  with assms show ?thesis by (simp, elim rx_move_cases) (simp_all add: flags_inv_def)
next
  case TxMove
  with assms show ?thesis by (simp, elim tx_move_cases) (simp_all add: flags_inv_def)
next
  case (RxTurn a)
  with assms show ?thesis by (simp, elim rx_turn_cases) (simp add: flags_inv_def)
next
  case (TxTurn a k)
  with assms show ?thesis by (simp, elim tx_turn_cases) (simp add: flags_inv_def)
next
  case Interrupt
  with assms show ?thesis by (simp, elim interrupt_cases) (simp add: flags_inv_def)
qed

lemma radio_inv_start: "radio_inv c (radio_start c)"
  by (simp add: radio_inv_def threads_inv_def barrier_inv_def lock_inv_def plugins_inv_def data_inv_def flags_inv_def radio_start_def)

lemma radio_inv_move:
  assumes "mods_ok (mods c)" and "radio_inv c s" and "radio_move c m s = Moved t"
  shows "radio_inv c t"
proof -
  have inv: "threads_inv (mods c) s" "barrier_inv (mods c) s" "lock_inv s" "plugins_inv (mods c) s" "data_inv (dbg c) s" "flags_inv s"
    using assms(2) by (simp_all add: radio_inv_def)
  have "threads_inv (mods c) t \<and> barrier_inv (mods c) t \<and> lock_inv t \<and> plugins_inv (mods c) t \<and> data_inv (dbg c) t"
  proof (cases m)
    case MainMove
    with assms(3) have "main_move c s = Moved t" by simp
    from main_move_inv [OF this assms(1) inv(1)] inv show ?thesis by blast
  next
    case RxMove
    with assms(3) have "RXThreadCallback c s = Moved t" by simp
    from rx_move_inv [OF this] inv show ?thesis by blast
  next
    case TxMove
    with assms(3) have "TXThreadCallback c s = Moved t" by simp
    from tx_move_inv [OF this] inv show ?thesis by blast
  next
    case (RxTurn a)
    with assms(3) have "rx_turn c a s = Moved t" by simp
    from rx_turn_inv [OF this] inv show ?thesis by blast
  next
    case (TxTurn a k)
    with assms(3) have "tx_thread_turn c a k s = Moved t" by simp
    from tx_turn_inv [OF this] inv show ?thesis by blast
  next
    case Interrupt
    with assms(3) have "signalExitProgramCatcher s = Moved t" by simp
    from interrupt_inv [OF this] inv show ?thesis by blast
  qed
  with flags_inv_move [OF assms(3) inv(6)] show ?thesis by (simp add: radio_inv_def)
qed

lemma radio_machine:
  assumes "mods_ok (mods c)"
  shows "state_machine (\<lambda>s. s = radio_start c) (radio_step c) (radio_inv c)"
  by unfold_locales (use assms radio_inv_start radio_inv_move in \<open>auto simp: radio_step_def\<close>)

lemma radio_reach_inv: "mods_ok (mods c) \<Longrightarrow> radio_reach c s \<Longrightarrow> radio_inv c s"
  unfolding radio_reach_def by (rule state_machine.inv_reachable [OF radio_machine])

subsection \<open>Runs\<close>

fun radio_run :: "radio_cfg \<Rightarrow> move list \<Rightarrow> radio \<Rightarrow> outcome" where
  "radio_run c [] s = Moved s"
| "radio_run c (m # ms) s = (case radio_move c m s of Moved t \<Rightarrow> radio_run c ms t | r \<Rightarrow> r)"

lemma radio_run_reach: "radio_run c ms s = Moved t \<Longrightarrow> radio_reach c s \<Longrightarrow> radio_reach c t"
  unfolding radio_reach_def
proof (induction ms arbitrary: s)
  case (Cons m ms)
  then obtain u where "radio_move c m s = Moved u" "radio_run c ms u = Moved t" by (auto split: outcome.split_asm)
  with Cons show ?case by (meson radio_step_def reachable.next_state)
qed simp

lemma radio_reach_start: "radio_reach c (radio_start c)"
  unfolding radio_reach_def by (rule reachable.start) simp

text \<open>What the moves take, at most, once the flags are off.\<close>

fun thread_rank :: "thread_pc \<Rightarrow> nat" where
  "thread_rank LockMake = 11" | "thread_rank Make = 10" | "thread_rank Enter = 9" | "thread_rank Wait = 8" | "thread_rank Start = 7"
| "thread_rank Turn = 6" | "thread_rank Loop = 5" | "thread_rank Stop = 4" | "thread_rank LockFree = 3" | "thread_rank Free = 2"
| "thread_rank Returned = 1" | "thread_rank NotYet = 0"

fun main_rank :: "main_pc \<Rightarrow> nat" where
  "main_rank CreateRx = 9" | "main_rank CreateTx = 8" | "main_rank MEnter = 7" | "main_rank MWait = 6" | "main_rank JoinRx = 5"
| "main_rank JoinTx = 4" | "main_rank DestroyInput = 3" | "main_rank DestroyOutput = 2" | "main_rank DestroyIO = 1" | "main_rank Exit = 0"

definition radio_rank :: "radio \<Rightarrow> nat" where
  "radio_rank s = main_rank (main_at s) + thread_rank (rx_at s) + thread_rank (tx_at s)"

lemma rank_less:
  assumes "flags_inv s" and "interrupted s" and "radio_move c m s = Moved t"
  shows "radio_rank t < radio_rank s \<and> interrupted t"
proof -
  have f: "\<not> isRXLooping s" "\<not> isTXLooping s" "main_at s \<noteq> CreateRx" "main_at s \<noteq> CreateTx"
    using assms(1,2) by (auto simp: flags_inv_def)
  show ?thesis
  proof (cases m)
    case MainMove
    with assms f show ?thesis by (simp, elim main_move_cases destroy_cases) (simp_all add: radio_rank_def)
  next
    case RxMove
    with assms f show ?thesis by (simp, elim rx_move_cases) (simp_all add: radio_rank_def)
  next
    case TxMove
    with assms f show ?thesis by (simp, elim tx_move_cases) (simp_all add: radio_rank_def)
  next
    case (RxTurn a)
    with assms show ?thesis by (simp, elim rx_turn_cases) (simp add: radio_rank_def)
  next
    case (TxTurn a k)
    with assms show ?thesis by (simp, elim tx_turn_cases) (simp add: radio_rank_def)
  next
    case Interrupt
    with assms show ?thesis by (simp, elim interrupt_cases) simp
  qed
qed

lemma rank_bound: "flags_inv s \<Longrightarrow> interrupted s \<Longrightarrow> radio_rank s \<le> 29"
proof -
  assume "flags_inv s" "interrupted s"
  then have "main_rank (main_at s) \<le> 7" by (cases "main_at s") (simp_all add: flags_inv_def)
  moreover have "thread_rank (rx_at s) \<le> 11" by (cases "rx_at s") simp_all
  moreover have "thread_rank (tx_at s) \<le> 11" by (cases "tx_at s") simp_all
  ultimately show "radio_rank s \<le> 29" unfolding radio_rank_def by linarith
qed

end
