(* ===== verification/CrtsProperties.thy ===== *)
theory CrtsProperties
  imports CrtsThreads
begin

text \<open>
  What holds for the threads of the radio program (theory CrtsThreads) in every order of their moves, for all answers of the plugins
  and the libraries.
\<close>

text \<open>The device takes the settings of the threads that there are.\<close>

definition device_ok :: "radio_cfg \<Rightarrow> bool" where
  "device_ok c \<longleftrightarrow> (has_output (mods c) \<longrightarrow> crts_usrp_set (dbg c) (rx_want c) (rx_got c) \<noteq> None) \<and>
     (has_input (mods c) \<longrightarrow> crts_usrp_set (dbg c) (tx_want c) (tx_got c) \<noteq> None)"

lemma plugins_used:
  assumes "radio_inv c s"
  shows "rx_at s = Turn \<Longrightarrow> output_alive s \<and> rx_object s" "tx_at s = Turn \<Longrightarrow> input_alive s \<and> tx_object s"
    "rx_at s = Free \<Longrightarrow> rx_object s" "tx_at s = Free \<Longrightarrow> tx_object s"
proof -
  have inv: "threads_inv (mods c) s" "lock_inv s" "plugins_inv (mods c) s" using assms by (simp_all add: radio_inv_def)
  have early: "\<not> rx_joined (main_at s) \<Longrightarrow> main_at s \<notin> {DestroyOutput, DestroyIO, Exit}"
    "\<not> tx_joined (main_at s) \<Longrightarrow> main_at s \<notin> {DestroyOutput, DestroyIO, Exit}"
    by (auto simp: rx_joined_def tx_joined_def)
  { assume "rx_at s = Turn"
    then have "has_output (mods c)" "\<not> rx_joined (main_at s)" "rx_object s"
      using inv(1,2) by (auto simp: threads_inv_def lock_inv_def)
    with early(1) inv(3) show "output_alive s \<and> rx_object s" by (auto simp: plugins_inv_def) }
  { assume "tx_at s = Turn"
    then have "has_input (mods c)" "\<not> tx_joined (main_at s)" "tx_object s"
      using inv(1,2) by (auto simp: threads_inv_def lock_inv_def)
    with early(2) inv(3) show "input_alive s \<and> tx_object s" by (auto simp: plugins_inv_def) }
  show "rx_at s = Free \<Longrightarrow> rx_object s" "tx_at s = Free \<Longrightarrow> tx_object s"
    using inv(2) by (auto simp: lock_inv_def)
qed

lemma destroy_not_aborted:
  assumes "mods_ok (mods c)" and "plugins_inv (mods c) s"
  shows "destroy_plugins c s \<noteq> Aborted"
  using assms by (cases "main_at s") (auto simp: destroy_plugins_def mods_ok_def plugins_inv_def)

lemma move_not_aborted:
  assumes "mods_ok (mods c)" and "radio_inv c s" and "device_ok c"
    and "\<And>a. m = RxTurn a \<Longrightarrow> RXRecvWriteLoop (dbg c) a (rxd s) \<noteq> None"
  shows "radio_move c m s \<noteq> Aborted"
proof -
  have "plugins_inv (mods c) s" using assms(2) by (simp add: radio_inv_def)
  note destroy = destroy_not_aborted [OF assms(1) this] and used = plugins_used [OF assms(2)]
  show ?thesis
  proof (cases m)
    case MainMove
    with destroy assms(3) show ?thesis
      by (cases "main_at s") (auto simp: main_move_def device_ok_def)
  next
    case RxMove
    with used show ?thesis by (cases "rx_at s") (auto simp: RXThreadCallback_def)
  next
    case TxMove
    with used show ?thesis by (cases "tx_at s") (auto simp: TXThreadCallback_def)
  next
    case (RxTurn a)
    with used assms(4) [OF RxTurn] show ?thesis by (auto simp: rx_turn_def)
  next
    case (TxTurn a k)
    with used show ?thesis by (auto simp: tx_thread_turn_def split: prod.split)
  next
    case Interrupt
    then show ?thesis by (simp add: signalExitProgramCatcher_def)
  qed
qed

text \<open>While \<^verbatim>\<open>main\<close> has not ended, somebody can go on, if the device answers.\<close>

lemma somebody_moves:
  assumes "mods_ok (mods c)" and "radio_inv c s" and "device_ok c" and "main_at s \<noteq> Exit"
    and "RXRecvWriteLoop (dbg c) b (rxd s) \<noteq> None"
  shows "\<exists>m \<in> {MainMove, RxMove, TxMove, RxTurn b, TxTurn a k}. \<exists>t. radio_move c m s = Moved t"
proof (rule ccontr)
  assume "\<not> ?thesis"
  moreover have "radio_move c m s \<noteq> Aborted" if "m \<in> {MainMove, RxMove, TxMove, RxTurn b, TxTurn a k}" for m
    using move_not_aborted [OF assms(1-3)] that assms(5) by blast
  ultimately have blocked: "radio_move c m s = Blocked" if "m \<in> {MainMove, RxMove, TxMove, RxTurn b, TxTurn a k}" for m
    using that by (metis outcome.exhaust)
  have inv: "threads_inv (mods c) s" "barrier_inv (mods c) s" "lock_inv s" using assms(2) by (simp_all add: radio_inv_def)
  have "main_move c s = Blocked" using blocked [of MainMove] by simp
  then have main: "main_at s \<in> {MWait, JoinRx, JoinTx}" "main_at s = MWait \<Longrightarrow> arrived s \<noteq> barrier_count (mods c)"
    "main_at s = JoinRx \<Longrightarrow> has_output (mods c) \<and> rx_at s \<noteq> Returned" "main_at s = JoinTx \<Longrightarrow> has_input (mods c) \<and> tx_at s \<noteq> Returned"
    using assms(4) by (cases "main_at s"; auto simp: main_move_def destroy_plugins_def split: if_split_asm option.split_asm)+
  have "RXThreadCallback c s = Blocked" "rx_turn c b s = Blocked" using blocked [of RxMove] blocked [of "RxTurn b"] by simp_all
  then have rx: "gone (rx_at s) \<or> rx_at s \<in> {LockMake, LockFree} \<and> fftw3_mutex s \<noteq> None \<or>
      rx_at s = Wait \<and> arrived s \<noteq> barrier_count (mods c)"
    by (cases "rx_at s") (auto simp: RXThreadCallback_def rx_turn_def gone_def split: if_split_asm option.split_asm)
  have "TXThreadCallback c s = Blocked" "tx_thread_turn c a k s = Blocked" using blocked [of TxMove] blocked [of "TxTurn a k"] by simp_all
  then have tx: "gone (tx_at s) \<or> tx_at s \<in> {LockMake, LockFree} \<and> fftw3_mutex s \<noteq> None \<or>
      tx_at s = Wait \<and> arrived s \<noteq> barrier_count (mods c) \<or> tx_at s = Start"
    by (cases "tx_at s") (auto simp: TXThreadCallback_def tx_thread_turn_def gone_def split: if_split_asm prod.split_asm)
  have "\<not> holds_lock (rx_at s)" "\<not> holds_lock (tx_at s)" using rx tx by (auto simp: gone_def)
  with inv(3) have free: "fftw3_mutex s = None" by (simp add: lock_inv_def)
  have rx: "gone (rx_at s) \<or> rx_at s = Wait \<and> arrived s \<noteq> barrier_count (mods c)" using rx free by blast
  have tx: "gone (tx_at s) \<or> tx_at s = Wait \<and> arrived s \<noteq> barrier_count (mods c)" using tx free inv(1) by (auto simp: threads_inv_def)
  have arr: "arrived s = came (main_came (main_at s)) + came (\<not> before_barrier (rx_at s)) + came (\<not> before_barrier (tx_at s))"
    "main_came (main_at s) \<and> main_at s \<noteq> MWait \<or> past_barrier (rx_at s) \<or> past_barrier (tx_at s) \<Longrightarrow> arrived s = barrier_count (mods c)"
    using inv(2) unfolding barrier_inv_def by blast+
  have born: "rx_at s = NotYet \<longleftrightarrow> \<not> has_output (mods c)" "tx_at s = NotYet \<longleftrightarrow> \<not> has_input (mods c)"
    using inv(1) main(1) by (auto simp: threads_inv_def)
  show False
  proof (cases "main_at s = MWait")
    case True
    with main(2) arr(2) have "\<not> past_barrier (rx_at s)" "\<not> past_barrier (tx_at s)" by blast+
    with rx tx have "rx_at s \<in> {NotYet, Wait}" "tx_at s \<in> {NotYet, Wait}" by (auto simp: gone_def)
    with born True arr(1) have "arrived s = barrier_count (mods c)" by (auto simp: barrier_count_def)
    with main(2) True show False by blast
  next
    case False
    with main(1) arr(2) have "arrived s = barrier_count (mods c)" by auto
    with rx tx have "gone (rx_at s)" "gone (tx_at s)" by blast+
    with born main False show False by (auto simp: gone_def)
  qed
qed

lemma run_rank:
  assumes "mods_ok (mods c)"
  shows "radio_run c ms s = Moved t \<Longrightarrow> radio_inv c s \<Longrightarrow> interrupted s \<Longrightarrow> length ms + radio_rank t \<le> radio_rank s \<and> radio_inv c t \<and> interrupted t"
proof (induction ms arbitrary: s)
  case (Cons m ms)
  then obtain u where u: "radio_move c m s = Moved u" "radio_run c ms u = Moved t" by (auto split: outcome.split_asm)
  have "radio_rank u < radio_rank s \<and> interrupted u" using rank_less [OF _ Cons.prems(3) u(1)] Cons.prems(2) by (simp add: radio_inv_def)
  with Cons.IH [OF u(2) radio_inv_move [OF assms Cons.prems(2) u(1)]] show ?case by simp
qed simp

subsection \<open>A run\<close>

text \<open>A radio with an input and an output plugin, which sends two bytes, receives nothing, and is interrupted.\<close>

definition cfg1 :: radio_cfg where
  "cfg1 = \<lparr>mods = \<lparr>has_input = True, has_output = True, destroyInput = True, destroyOutput = True, destroyIO = False\<rparr>, dbg = True,
     rx_want = \<lparr>freq = 1, rate = 1, gain = 0\<rparr>, rx_got = \<lparr>freq = 1, rate = 1, gain = 0\<rparr>,
     tx_want = \<lparr>freq = 1, rate = 1, gain = 0\<rparr>, tx_got = \<lparr>freq = 1, rate = 1, gain = 0\<rparr>\<rparr>"

lemma cfg1_ok: "mods_ok (mods cfg1)" "device_ok cfg1"
  by (simp_all add: cfg1_def mods_ok_def device_ok_def crts_usrp_set_def check_compare_def)

definition silence :: recv_answer where
  "silence = \<lparr>error_code = 1, numSamples = 0, frames = []\<rparr>"

definition run1 :: "move list" where
  "run1 = [MainMove, RxMove, MainMove, RxMove, TxMove, TxMove, MainMove, RxMove, TxMove, RxMove, RxMove, RxMove, RxTurn silence,
     TxMove, TxMove, TxTurn (Input [7, 8]) 0, TxMove, Interrupt]"

definition run2 :: "move list" where
  "run2 = [TxTurn (Input []) 0, TxMove, TxMove, TxMove, MainMove, RxMove, RxMove, RxMove, RxMove, MainMove, MainMove,
     MainMove, MainMove, MainMove]"

lemmas radio_eval = main_move_def destroy_plugins_def RXThreadCallback_def TXThreadCallback_def rx_turn_def tx_thread_turn_def
  signalExitProgramCatcher_def cfg1_def barrier_count_def crts_usrp_set_def check_compare_def RXRecvWriteLoop_def silence_def

lemma run1_state:
  "\<exists>s. radio_run cfg1 run1 (radio_start cfg1) = Moved s \<and> interrupted s \<and> main_at s = MWait \<and> rx_at s = Loop \<and> tx_at s = Turn \<and>
     txd s = snd (tx_turn (Input [7, 8]) 0 tx_init) \<and> tx_seen s = [(Input [7, 8], 0)] \<and>
     (\<exists>t. radio_run cfg1 run2 s = Moved t \<and> main_at t = Exit \<and> tx_seen t = [(Input [7, 8], 0), (Input [], 0)])"
  by (simp add: run1_def run2_def radio_start_def radio_eval tx_turn_data tx_turn_end)

subsection \<open>Properties\<close>

text \<open>
  Property C31. Nothing goes wrong between the threads. In every state that the radio program can reach, for every order of the moves of its
  threads and of the signal, no move fails an assertion or uses a plugin or a library object that was destroyed, if the device took the settings and
  the output plugin takes whole frames; the functions of FFTW that may not overlap are never in two threads; and while a thread is past the barrier,
  all threads have come to it.
\<close>

theorem radio_threads_safe:
  assumes "mods_ok (mods c)" and "radio_reach c s" and "device_ok c"
    and "\<forall>a. m = RxTurn a \<longrightarrow> RXRecvWriteLoop (dbg c) a (rxd s) \<noteq> None"
  shows "radio_move c m s \<noteq> Aborted \<and> \<not> (rx_at s \<in> {Make, Free} \<and> tx_at s \<in> {Make, Free}) \<and>
    (past_barrier (rx_at s) \<or> past_barrier (tx_at s) \<longrightarrow> arrived s = barrier_count (mods c))"
proof -
  have inv: "radio_inv c s" by (rule radio_reach_inv [OF assms(1,2)])
  then have "lock_inv s" "barrier_inv (mods c) s" by (simp_all add: radio_inv_def)
  then have "\<not> (holds_lock (rx_at s) \<and> holds_lock (tx_at s))"
    "past_barrier (rx_at s) \<or> past_barrier (tx_at s) \<longrightarrow> arrived s = barrier_count (mods c)"
    unfolding lock_inv_def barrier_inv_def by blast+
  with move_not_aborted [OF assms(1) inv assms(3)] assms(4) show ?thesis by (auto simp: holds_lock_def)
qed

theorem radio_threads_safe_witness:
  "\<exists>s. radio_run cfg1 run1 (radio_start cfg1) = Moved s \<and> radio_move cfg1 (TxTurn InputError 0) s \<noteq> Aborted"
proof -
  obtain s where s: "radio_run cfg1 run1 (radio_start cfg1) = Moved s" using run1_state by blast
  from radio_threads_safe [OF cfg1_ok(1) radio_run_reach [OF s radio_reach_start] cfg1_ok(2), of "TxTurn InputError 0"] s
  show ?thesis by blast
qed

text \<open>
  Property C33. When \<^verbatim>\<open>main\<close> returns, both threads have returned, the plugins are destroyed, each once, the library objects are freed, the mutex is free and the
  device does not stream; and the threads have sent and received what \<open>tx_loop\<close> and \<open>rx_loop\<close> give for the answers they had.
\<close>

theorem radio_exit_clean:
  assumes "mods_ok (mods c)" and "radio_reach c s" and "main_at s = Exit"
  shows "rx_at s \<in> {NotYet, Returned} \<and> tx_at s \<in> {NotYet, Returned} \<and> \<not> input_alive s \<and> \<not> output_alive s \<and>
    \<not> rx_object s \<and> \<not> tx_object s \<and> fftw3_mutex s = None \<and> \<not> streaming s \<and>
    (has_input (mods c) \<longrightarrow> txd s = tx_loop (tx_seen s) tx_init) \<and> rx_loop (dbg c) (rx_seen s) rx_init = Some (rxd s)"
proof -
  have inv: "threads_inv (mods c) s" "lock_inv s" "plugins_inv (mods c) s" "data_inv (dbg c) s"
    using radio_reach_inv [OF assms(1,2)] by (simp_all add: radio_inv_def)
  have g: "gone (rx_at s)" "gone (tx_at s)" "has_input (mods c) \<longrightarrow> tx_at s = Returned"
    using inv(1) assms(3) by (auto simp: threads_inv_def gone_def)
  have p: "\<not> input_alive s" "\<not> output_alive s" using inv(3) assms(1,3) by (auto simp: plugins_inv_def mods_ok_def)
  have l: "\<not> rx_object s" "\<not> tx_object s" "fftw3_mutex s = None" "\<not> streaming s"
    using inv(2) g(1,2) by (auto simp: lock_inv_def gone_def)
  have d: "has_input (mods c) \<longrightarrow> txd s = tx_loop (tx_seen s) tx_init" "rx_loop (dbg c) (rx_seen s) rx_init = Some (rxd s)"
    using inv(4) g(3) by (auto simp: data_inv_def)
  show ?thesis using g p l d by (simp add: gone_def)
qed

theorem radio_exit_clean_witness:
  "\<exists>s. radio_reach cfg1 s \<and> main_at s = Exit \<and> tx_seen s = [(Input [7, 8], 0), (Input [], 0)] \<and> txd s = tx_loop (tx_seen s) tx_init"
proof -
  obtain s t where s: "radio_run cfg1 run1 (radio_start cfg1) = Moved s" and t: "radio_run cfg1 run2 s = Moved t" "main_at t = Exit"
    "tx_seen t = [(Input [7, 8], 0), (Input [], 0)]" using run1_state by blast
  have r: "radio_reach cfg1 t" by (rule radio_run_reach [OF t(1) radio_run_reach [OF s radio_reach_start]])
  have "has_input (mods cfg1)" by (simp add: cfg1_def)
  with radio_exit_clean [OF cfg1_ok(1) r t(2)] r t(2,3) show ?thesis by blast
qed

text \<open>
  Property C32. The exit signal ends the program. From the moment the signal has been handled, the threads make at most 29 moves more, whatever
  their order, and while \<^verbatim>\<open>main\<close> has not returned one of them can move, given that a read of the input plugin and of the device
  returns; so the program cannot deadlock or go on for ever.
\<close>

theorem radio_ends_after_signal:
  assumes "mods_ok (mods c)" and "radio_reach c s" and "interrupted s" and "radio_run c ms s = Moved t"
  shows "length ms \<le> 29 \<and> (device_ok c \<and> main_at t \<noteq> Exit \<and> RXRecvWriteLoop (dbg c) b (rxd t) \<noteq> None \<longrightarrow>
    (\<exists>m \<in> {MainMove, RxMove, TxMove, RxTurn b, TxTurn a k}. \<exists>u. radio_move c m t = Moved u))"
proof -
  have inv: "radio_inv c s" by (rule radio_reach_inv [OF assms(1,2)])
  have "radio_rank s \<le> 29" using rank_bound [of s] inv assms(3) by (simp add: radio_inv_def)
  moreover have r: "length ms + radio_rank t \<le> radio_rank s \<and> radio_inv c t \<and> interrupted t"
    by (rule run_rank [OF assms(1,4) inv assms(3)])
  ultimately have "length ms \<le> 29" by linarith
  with somebody_moves [OF assms(1)] r show ?thesis by blast
qed

theorem radio_ends_after_signal_witness:
  "\<exists>s t. radio_run cfg1 run1 (radio_start cfg1) = Moved s \<and> radio_run cfg1 run2 s = Moved t \<and> main_at t = Exit \<and> length run2 \<le> 29"
proof -
  obtain s t where s: "radio_run cfg1 run1 (radio_start cfg1) = Moved s" "interrupted s"
    and t: "radio_run cfg1 run2 s = Moved t" "main_at t = Exit" using run1_state by blast
  from radio_ends_after_signal [OF cfg1_ok(1) radio_run_reach [OF s(1) radio_reach_start] s(2) t(1), of silence InputError 0] s(1) t
  show ?thesis by blast
qed

end
