(* ===== verification/CrtsTun.thy ===== *)
theory CrtsTun
  imports CrtsPath Strtol "HOL-Library.Sublist"
begin

text \<open>
  The TUN device of src/lanceman2\_crts: lib/getTunViaUSocket.cpp (a program asks for one), lib/tun\_alloc.cpp (making it) and
  bin/crts\_mkTUN.cpp, the program that is installed with the rights of the superuser and makes it for others. What the
  kernel answers is a record; the descriptors of a process are a set, and a \<^verbatim>\<open>close\<close> of one that is not open is counted. The texts
  that are run as commands of the shell are kept, with the effective user at that time.
\<close>

subsection \<open>The text of a subnet\<close>

text \<open>The loop over the four numbers; \<open>n\<close> more dots are to come. True is an error.\<close>

fun check_numbers :: "nat \<Rightarrow> string \<Rightarrow> bool" where
  "check_numbers 0 s = (let (val, e) = strtoul s in e \<or> val > 255)"
| "check_numbers (Suc n) s =
     (let (val, e) = strtoul s; rest = dropWhile (\<lambda>c. c \<noteq> CHR ''.'') s
      in if e \<or> val > 255 then True
         else if rest = [] then True
         else check_numbers n (tl rest))"

definition checkSubnetAddress :: "string \<Rightarrow> bool" where
  "checkSubnetAddress subnet =
     (let len = length subnet in
      if len > 18 \<or> len < 10 then True
      else if subnet ! (len - 3) \<noteq> CHR ''/'' then True
      else let (val, e) = strtoul (drop (len - 2) subnet)
        in if e \<or> val > 31 \<or> val < 24 then True
        else check_numbers 3 subnet)"

subsection \<open>Making the device\<close>

record proc =
  opened :: "int set"
  bad_closes :: nat
  commands :: "(string \<times> nat) list"
  euid :: nat

definition close_fd :: "int \<Rightarrow> proc \<Rightarrow> proc" where
  "close_fd fd w = (if fd \<in> opened w then w\<lparr>opened := opened w - {fd}\<rparr> else w\<lparr>bad_closes := bad_closes w + 1\<rparr>)"

definition open_fd :: "int \<Rightarrow> proc \<Rightarrow> proc" where
  "open_fd fd w = w\<lparr>opened := insert fd (opened w)\<rparr>"

text \<open>\<^verbatim>\<open>Run\<close>: true if the command is too long, or \<^verbatim>\<open>system\<close> does not return 0.\<close>

definition Run :: "string \<Rightarrow> int \<Rightarrow> proc \<Rightarrow> bool \<times> proc" where
  "Run cmd answer w = (if length cmd \<ge> 512 then (True, w) else (answer \<noteq> 0, w\<lparr>commands := commands w @ [(cmd, euid w)]\<rparr>))"

record tun_answers =
  clone_fd :: int
  set_iff :: int
  ifr_name :: string
  set_owner :: int
  link_up :: int
  addr_add :: int
  set_uid :: int

definition up_command :: "string \<Rightarrow> string" where
  "up_command tunName = ''/sbin/ip link set dev '' @ tunName @ '' up''"

definition addr_command :: "string \<Rightarrow> string \<Rightarrow> string" where
  "addr_command ipSubNet tunName = ''/sbin/ip addr add '' @ ipSubNet @ '' dev '' @ tunName"

definition tun_alloc :: "tun_answers \<Rightarrow> string \<Rightarrow> bool \<Rightarrow> nat \<Rightarrow> proc \<Rightarrow> int \<times> proc" where
  "tun_alloc a ipSubNet setOwner u w =
     (let eu = euid w; fd = clone_fd a in
      if fd < 0 then (-1, w)
      else let w = open_fd fd w; fail = (\<lambda>w. (-1, close_fd fd w)) in
        if set_iff a < 0 then fail w
        else if setOwner \<and> eu \<noteq> u \<and> set_owner a < 0 then fail w
        else let (bad, w) = Run (up_command (ifr_name a)) (link_up a) w in
          if bad then fail w
          else let (bad, w) = Run (addr_command ipSubNet (ifr_name a)) (addr_add a) w in
            if bad then fail w
            else if eu = 0 \<or> u \<noteq> eu then
              if set_uid a \<noteq> 0 then fail w else (fd, w\<lparr>euid := u\<rparr>)
            else (fd, w))"

subsection \<open>The program \<open>crts_mkTUN\<close>\<close>

text \<open>
  \<^verbatim>\<open>checkParentPath\<close>: the outer \<open>None\<close> is a failed assertion, or a read past the block. \<open>rest\<close> is what the rest of the
  block \<^verbatim>\<open>parentPath\<close> holds, which \<^verbatim>\<open>malloc\<close> and \<^verbatim>\<open>readlink\<close> leave as it is. True is a failure.
\<close>

definition checkParentPath :: "bool \<Rightarrow> string \<Rightarrow> string \<Rightarrow> string \<Rightarrow> bool option" where
  "checkParentPath debug exe parent rest = do {
     bufLen \<leftarrow> grow debug exe 0 128;
     let buf = readlink exe bufLen;
     let rl = step_back 3 buf (length buf - 1);
     ASSERT (buf ! rl = CHR ''/'');
     let buf = take rl buf;
     let bufLen = bufLen + 128;
     let prl = length (readlink parent bufLen);
     ASSERT (prl > 0);
     let parentPath = take bufLen (readlink parent bufLen @ rest);
     if prl < rl then Some True
     else (let s = dropWhile (\<lambda>c. c \<noteq> NUL \<and> c \<noteq> CHR ''/'') (drop (rl - 1) parentPath) in
       if s = [] then None
       else if hd s \<noteq> CHR ''/'' then Some True
       else Some (takeWhile (\<lambda>c. c \<noteq> NUL) (take (length parentPath - length s) parentPath) \<noteq> buf))}"

text \<open>\<^verbatim>\<open>main\<close> with the exit status; \<^verbatim>\<open>sendfd\<close> is the answer of \<^verbatim>\<open>sendmsg\<close>.\<close>

definition sendfd :: "int \<Rightarrow> bool" where
  "sendfd answer \<longleftrightarrow> answer < 0"

definition mkTUN_main ::
  "bool \<Rightarrow> string \<Rightarrow> string \<Rightarrow> string \<Rightarrow> bool \<Rightarrow> tun_answers \<Rightarrow> int \<Rightarrow> nat \<Rightarrow> string list \<Rightarrow> proc \<Rightarrow> (nat \<times> proc) option" where
  "mkTUN_main debug exe parent rest isatty a sent u argv w =
     (if length argv \<noteq> 2 \<or> (argv ! 1 \<noteq> [] \<and> hd (argv ! 1) = CHR ''-'') then Some (1, w)
      else if isatty then Some (1, w)
      else do {
        bad \<leftarrow> checkParentPath debug exe parent rest;
        if bad then Some (1, w)
        else if checkSubnetAddress (argv ! 1) then Some (1, w)
        else (let (fd, w) = tun_alloc a (argv ! 1) True u w in
          if fd < 0 then Some (1, w)
          else if sendfd sent then Some (1, w)
          else Some (0, w))})"

subsection \<open>Asking for a device\<close>

text \<open>
  What \<^verbatim>\<open>recvmsg\<close> gives: an error, a message without a descriptor, or the number that the descriptor got. A message without one
  has no control data, so the code follows a null pointer.
\<close>

datatype recvmsg = RecvFails | RecvNoFd | RecvFd int

record usocket_answers =
  socketpair :: "(int \<times> int) option"
  fork_pid :: int
  waitpid_fails :: bool
  select_ready :: int
  recv :: recvmsg
  dup2_fails :: bool

definition checkHaveRead :: "int \<Rightarrow> int" where
  "checkHaveRead answer = answer"

definition recvfd :: "usocket_answers \<Rightarrow> int \<Rightarrow> proc \<Rightarrow> (int \<times> proc) option" where
  "recvfd a socket w = (case recv a of
       RecvFails \<Rightarrow> Some (-1, close_fd socket w)
     | RecvNoFd \<Rightarrow> None
     | RecvFd fd \<Rightarrow> (let w = close_fd socket (open_fd fd w) in
         if dup2_fails a then Some (-1, close_fd (-1) w)
         else Some (socket, open_fd socket w)))"

text \<open>The child: the program and its arguments that \<^verbatim>\<open>execl\<close> gets.\<close>

definition tun_child :: "bool \<Rightarrow> string \<Rightarrow> string \<Rightarrow> (string \<times> string list) option" where
  "tun_child debug exe subnet = do {
     (mkTUN, n) \<leftarrow> getPathTo_CRTS_mkTUN debug exe;
     Some (mkTUN, [mkTUN, subnet])}"

text \<open>The parent. \<open>sv1\<close> is -1 when \<^verbatim>\<open>sv[1]\<close> was closed.\<close>

definition usocket_fail :: "int \<Rightarrow> int \<Rightarrow> proc \<Rightarrow> int \<times> proc" where
  "usocket_fail sv0 sv1 w =
     (let w = (if sv0 > -1 then close_fd sv0 w else w);
          w = (if sv1 > -1 then close_fd sv0 w else w)
      in (-1, w))"

definition getTunViaUSocket :: "bool \<Rightarrow> usocket_answers \<Rightarrow> string \<Rightarrow> proc \<Rightarrow> (int \<times> proc) option" where
  "getTunViaUSocket debug a subnet w =
     (if checkSubnetAddress subnet then Some (-1, w)
      else case socketpair a of
        None \<Rightarrow> Some (usocket_fail (-1) (-1) w)
      | Some (sv0, sv1) \<Rightarrow> do {
          let w = open_fd sv1 (open_fd sv0 w);
          DASSERT debug (sv0 > -1 \<and> sv1 > -1);
          if fork_pid a < 0 then Some (usocket_fail sv0 sv1 w)
          else (let w = close_fd sv1 w in
            if waitpid_fails a then Some (usocket_fail sv0 (-1) w)
            else if checkHaveRead (select_ready a) > 0 then recvfd a sv0 w
            else Some (-1, w))})"

subsection \<open>Which subnets are accepted\<close>

definition dotted :: "string \<Rightarrow> string \<Rightarrow> string \<Rightarrow> string \<Rightarrow> nat \<Rightarrow> string" where
  "dotted a b c d n = a @ ''.'' @ b @ ''.'' @ c @ ''.'' @ d @ ''/'' @ decimal n"

text \<open>A part of the text that is taken for a number of at most 255: such a number, or a text that is no number at all.\<close>

definition number_part :: "string \<Rightarrow> bool" where
  "number_part s \<longleftrightarrow> (\<exists>n \<le> 255. s = decimal n) \<or> no_number s"

lemma number_part_value:
  assumes "number_part s" and "rest = [] \<or> \<not> is_digit (hd rest)"
  shows "snd (strtoul (s @ rest)) = False" "fst (strtoul (s @ rest)) \<le> 255"
proof -
  have "\<exists>n \<le> 255. strtoul (s @ rest) = (int n, False)"
    using assms(1) unfolding number_part_def
  proof
    assume "\<exists>n \<le> 255. s = decimal n"
    then obtain n where n: "n \<le> 255" "s = decimal n" by blast
    then have "strtoul (s @ rest) = (int n, False)" using strtoul_decimal [OF assms(2), of n] by simp
    with n(1) show ?thesis by blast
  next
    assume "no_number s"
    then have "strtoul (s @ rest) = (int 0, False)" using strtoul_no_number by simp
    then show ?thesis by (metis le0)
  qed
  then show "snd (strtoul (s @ rest)) = False" "fst (strtoul (s @ rest)) \<le> 255" by auto
qed

lemma decimal_no_dot: "CHR ''.'' \<notin> set (decimal n)" "CHR ''/'' \<notin> set (decimal n)"
  using decimal_props(2) [of n] by (auto simp: is_digit_def)

lemma check_numbers_Suc:
  assumes "number_part s" and "CHR ''.'' \<notin> set s"
  shows "check_numbers (Suc n) (s @ CHR ''.'' # rest) = check_numbers n rest"
proof -
  have "dropWhile (\<lambda>c. c \<noteq> CHR ''.'') (s @ CHR ''.'' # rest) = CHR ''.'' # rest" using assms(2) by (induction s) auto
  moreover have "\<not> is_digit CHR ''.''" by (simp add: is_digit_def)
  ultimately show ?thesis using number_part_value [OF assms(1), of "CHR ''.'' # rest"] by (auto split: prod.split)
qed

lemma length_decimal: "length (decimal n) = (if n < 10 then 1 else Suc (length (decimal (n div 10))))"
  by (subst decimal.simps) simp

lemma decimal_two:
  assumes "24 \<le> n" "n \<le> 31"
  shows "length (decimal n) = 2"
proof -
  have "n div 10 < 10" "\<not> n < 10" using assms by linarith+
  then show ?thesis using length_decimal [of n] length_decimal [of "n div 10"] by simp
qed

lemma decimal_three:
  assumes "n \<le> 255"
  shows "1 \<le> length (decimal n) \<and> length (decimal n) \<le> 3"
proof -
  have "n div 10 div 10 < 10" using assms by linarith
  then have "length (decimal (n div 10 div 10)) = 1" using length_decimal [of "n div 10 div 10"] by simp
  then have "length (decimal (n div 10)) \<le> 2" using length_decimal [of "n div 10"] by auto
  then show ?thesis using length_decimal [of n] by auto
qed

lemma subnet_accepted:
  assumes "number_part a" "number_part b" "number_part c" "number_part d"
    and "CHR ''.'' \<notin> set a" "CHR ''.'' \<notin> set b" "CHR ''.'' \<notin> set c" and "24 \<le> n" "n \<le> 31"
    and "length (dotted a b c d n) \<le> 18" and "10 \<le> length (dotted a b c d n)"
  shows "checkSubnetAddress (dotted a b c d n) = False"
proof -
  let ?s = "dotted a b c d n"
  define p where "p = a @ ''.'' @ b @ ''.'' @ c @ ''.'' @ d"
  have s: "?s = p @ CHR ''/'' # decimal n" by (simp add: dotted_def p_def)
  have l: "length ?s = length p + 3" using decimal_two [OF assms(8,9)] by (simp add: s)
  have slash: "?s ! (length ?s - 3) = CHR ''/''" unfolding l by (simp add: s)
  have tail: "drop (length ?s - 2) ?s = decimal n" unfolding l by (simp add: s)
  have "strtoul (decimal n @ []) = (int n, False)" by (rule strtoul_decimal) (use assms(9) in simp_all)
  with tail assms(8,9) have mask: "strtoul (drop (length ?s - 2) ?s) = (int n, False)" by simp
  have "\<not> is_digit CHR ''/''" by (simp add: is_digit_def)
  then have last: "check_numbers 0 (d @ CHR ''/'' # decimal n) = False"
    using number_part_value [OF assms(4), of "CHR ''/'' # decimal n"] by (auto split: prod.split)
  have "check_numbers 3 ?s = check_numbers 0 (d @ CHR ''/'' # decimal n)"
    using assms(1-3,5-7) by (simp add: dotted_def numeral_3_eq_3 check_numbers_Suc del: check_numbers.simps)
  with last slash mask assms(8-11) show ?thesis by (simp add: checkSubnetAddress_def Let_def)
qed

lemma number_part_decimal: "n \<le> 255 \<Longrightarrow> number_part (decimal n)"
  unfolding number_part_def by blast

text \<open>
  Every proper subnet is accepted: any four numbers up to 255 with a mask of 24 to 31 bits. What is accepted has 10 to 18 characters, so
  with the name of a device, which has at most 15, both commands fit in the buffer of 512 bytes of \<^verbatim>\<open>Run\<close>.
\<close>

theorem subnet_check_complete:
  assumes "a \<le> 255" "b \<le> 255" "c \<le> 255" "d \<le> 255" and "24 \<le> n" "n \<le> 31"
  shows "checkSubnetAddress (dotted (decimal a) (decimal b) (decimal c) (decimal d) n) = False \<and>
    (\<forall>s t. \<not> checkSubnetAddress s \<and> length t \<le> 15 \<longrightarrow> length (addr_command s t) < 512 \<and> length (up_command t) < 512)"
proof
  show "checkSubnetAddress (dotted (decimal a) (decimal b) (decimal c) (decimal d) n) = False"
    using decimal_three [OF assms(1)] decimal_three [OF assms(2)] decimal_three [OF assms(3)] decimal_three [OF assms(4)] decimal_two [OF assms(5,6)]
    by (intro subnet_accepted number_part_decimal decimal_no_dot assms) (auto simp: dotted_def)
  show "\<forall>s t. \<not> checkSubnetAddress s \<and> length t \<le> 15 \<longrightarrow> length (addr_command s t) < 512 \<and> length (up_command t) < 512"
    by (auto simp: checkSubnetAddress_def addr_command_def up_command_def Let_def split: if_splits)
qed

theorem subnet_check_complete_witness:
  "checkSubnetAddress (dotted (decimal 10) (decimal 0) (decimal 0) (decimal 1) 24) = False"
  using subnet_check_complete [of 10 0 0 1 24] by simp

subsection \<open>The parent of \<open>crts_mkTUN\<close>\<close>

lemma own_dir:
  assumes "CHR ''/'' \<notin> set name" and "3 \<le> length dir"
  shows "step_back 3 (dir @ CHR ''/'' # name) (length (dir @ CHR ''/'' # name) - 1) = length dir"
  using step_back_slash [OF assms, of "length name" "[]"] by simp

lemma cut_at_slash:
  fixes junk :: string
  assumes "NUL \<notin> set P" and "length dir < length P" and "dir \<noteq> []" and "last dir \<noteq> CHR ''/''" and "NUL \<notin> set dir"
  defines "pp \<equiv> P @ junk"
  defines "s \<equiv> dropWhile (\<lambda>c. c \<noteq> NUL \<and> c \<noteq> CHR ''/'') (drop (length dir - 1) pp)"
  shows "s \<noteq> [] \<and> hd s = CHR ''/'' \<and> takeWhile (\<lambda>c. c \<noteq> NUL) (take (length pp - length s) pp) = dir \<longleftrightarrow> (\<exists>r. P = dir @ CHR ''/'' # r)"
proof
  assume "\<exists>r. P = dir @ CHR ''/'' # r"
  then obtain r where r: "P = dir @ CHR ''/'' # r" by blast
  have "drop (length dir - 1) dir = [last dir]" using assms(3) by (metis append_butlast_last_id append_eq_conv_conj length_butlast)
  then have d: "drop (length dir - 1) pp = last dir # CHR ''/'' # r @ junk" by (simp add: pp_def r)
  have "last dir \<noteq> NUL" using assms(3,5) last_in_set by metis
  with d assms(4) have s: "s = CHR ''/'' # r @ junk" by (simp add: s_def NUL_def)
  have "takeWhile (\<lambda>c. c \<noteq> NUL) dir = dir" using assms(5) by (simp add: takeWhile_eq_all_conv) blast
  then show "s \<noteq> [] \<and> hd s = CHR ''/'' \<and> takeWhile (\<lambda>c. c \<noteq> NUL) (take (length pp - length s) pp) = dir"
    unfolding s by (simp add: pp_def r)
next
  assume a: "s \<noteq> [] \<and> hd s = CHR ''/'' \<and> takeWhile (\<lambda>c. c \<noteq> NUL) (take (length pp - length s) pp) = dir"
  obtain q where q: "pp = q @ s"
  proof
    show "pp = (take (length dir - 1) pp @ takeWhile (\<lambda>c. c \<noteq> NUL \<and> c \<noteq> CHR ''/'') (drop (length dir - 1) pp)) @ s"
      by (simp add: s_def)
  qed
  then have dir: "takeWhile (\<lambda>c. c \<noteq> NUL) q = dir" using a by simp
  have "length q = length dir"
  proof (rule ccontr)
    assume "length q \<noteq> length dir"
    then have "length dir < length q" using length_takeWhile_le [of "\<lambda>c. c \<noteq> NUL" q] by (simp add: dir)
    then have "q ! length dir = NUL" using nth_length_takeWhile [of "\<lambda>c. c \<noteq> NUL" q] by (simp add: dir)
    moreover have "pp ! length dir = q ! length dir" unfolding q using \<open>length dir < length q\<close> by (rule nth_append_left)
    ultimately have "pp ! length dir = NUL" by simp
    with assms(2) have "P ! length dir = NUL" by (simp add: pp_def nth_append)
    with assms(1,2) show False by (metis nth_mem)
  qed
  with dir have "q = dir" by (metis takeWhile_eq_take take_all_iff order_refl)
  moreover obtain r where "s = CHR ''/'' # r" using a by (cases s) auto
  ultimately have e: "P @ junk = dir @ CHR ''/'' # r" using q by (simp add: pp_def)
  have "take (length dir) P = dir" "drop (length dir) P \<noteq> []"
    using arg_cong [OF e, of "take (length dir)"] assms(2) by simp_all
  moreover have "hd (drop (length dir) P) = CHR ''/''"
    using arg_cong [OF e, of "\<lambda>x. x ! length dir"] assms(2) by (simp add: nth_append hd_drop_conv_nth)
  ultimately have "P = dir @ CHR ''/'' # tl (drop (length dir) P)" by (metis append_take_drop_id list.collapse)
  then show "\<exists>r. P = dir @ CHR ''/'' # r" by blast
qed

lemma parent_in_dir:
  assumes "CHR ''/'' \<notin> set name" "name \<noteq> []" "3 \<le> length dir" "last dir \<noteq> CHR ''/''" "length (dir @ ''/'' @ name) < 1024 * 1024"
    and "NUL \<notin> set dir" "NUL \<notin> set parent" "length dir < length parent"
  shows "checkParentPath debug (dir @ ''/'' @ name) parent rest = Some False \<longleftrightarrow> (\<exists>r. parent = dir @ ''/'' @ r)"
proof -
  let ?exe = "dir @ CHR ''/'' # name"
  obtain n where n: "grow debug ?exe 0 128 = Some n" "length ?exe < n"
    using grow_fits [of ?exe 0 128 debug] assms(5) by auto
  have buf: "readlink ?exe n = ?exe" using n(2) by (simp add: readlink_def)
  note own = own_dir [OF assms(1,3)]
  let ?P = "readlink parent (n + 128)"
  have P: "?P = take (n + 128) parent" by (simp add: readlink_def)
  have len: "length dir < length ?P" using assms(8) n(2) by (simp add: P)
  have clean: "NUL \<notin> set ?P" using assms(7) by (auto simp: P dest: in_set_takeD)
  have ne: "dir \<noteq> []" using assms(3) by auto
  define junk where "junk = take (n + 128 - length ?P) rest"
  have pp: "take (n + 128) (?P @ rest) = ?P @ junk" by (simp add: P junk_def)
  have own_prefix: "take (length dir) ?exe = dir" by simp
  have some: "?P \<noteq> []" "\<not> length ?P < length dir" using len by auto
  define S where "S = dropWhile (\<lambda>c. c \<noteq> NUL \<and> c \<noteq> CHR ''/'') (drop (length dir - 1) (?P @ junk))"
  have "checkParentPath debug ?exe parent rest = (if S = [] then None else if hd S \<noteq> CHR ''/'' then Some True
      else Some (takeWhile (\<lambda>c. c \<noteq> NUL) (take (length (?P @ junk) - length S) (?P @ junk)) \<noteq> dir))"
    unfolding checkParentPath_def Let_def n(1) bind.bind_lunit buf own pp S_def own_prefix
    using some by (simp del: take_append drop_append length_append)
  then have "checkParentPath debug ?exe parent rest = Some False \<longleftrightarrow> (\<exists>r. ?P = dir @ CHR ''/'' # r)"
    unfolding cut_at_slash [OF clean len ne assms(4,6), of junk, symmetric] S_def [symmetric] by auto
  also have "(\<exists>r. ?P = dir @ CHR ''/'' # r) \<longleftrightarrow> (\<exists>r. parent = dir @ CHR ''/'' # r)"
  proof
    assume "\<exists>r. ?P = dir @ CHR ''/'' # r"
    then obtain r where "take (n + 128) parent = dir @ CHR ''/'' # r" by (auto simp: P)
    then have "parent = dir @ CHR ''/'' # (r @ drop (n + 128) parent)" by (metis append_take_drop_id append_assoc append_Cons)
    then show "\<exists>r. parent = dir @ CHR ''/'' # r" by blast
  next
    assume "\<exists>r. parent = dir @ CHR ''/'' # r"
    then obtain r where "parent = dir @ CHR ''/'' # r" by blast
    moreover have "n + 128 - length dir = Suc (n + 127 - length dir)" using n(2) by simp
    ultimately have "?P = dir @ CHR ''/'' # take (n + 127 - length dir) r" using n(2) unfolding P by simp
    then show "\<exists>r. ?P = dir @ CHR ''/'' # r" by blast
  qed
  finally show ?thesis by simp
qed

text \<open>
  Which parents \<^verbatim>\<open>crts_mkTUN\<close> works for, whatever the rest of the block holds: exactly those whose binary has a path that starts with
  the directory of \<^verbatim>\<open>crts_mkTUN\<close> and a slash. So a binary in any directory below is accepted too, where the comment demands the same directory.
\<close>

theorem mktun_parents:
  assumes "CHR ''/'' \<notin> set name" "name \<noteq> []" "3 \<le> length dir" "last dir \<noteq> CHR ''/''" "length (dir @ ''/'' @ name) < 1024 * 1024"
    and "NUL \<notin> set dir" "NUL \<notin> set parent" "length dir < length parent"
  shows "(checkParentPath debug (dir @ ''/'' @ name) parent rest = Some False \<longleftrightarrow> (\<exists>r. parent = dir @ ''/'' @ r)) \<and>
    (NUL \<notin> set sub \<and> NUL \<notin> set prog \<longrightarrow> checkParentPath debug (dir @ ''/'' @ name) (dir @ ''/'' @ sub @ ''/'' @ prog) rest = Some False)"
proof -
  have "checkParentPath debug (dir @ ''/'' @ name) (dir @ ''/'' @ sub @ ''/'' @ prog) rest = Some False"
    if "NUL \<notin> set sub" "NUL \<notin> set prog"
    using parent_in_dir [OF assms(1-6), of "dir @ ''/'' @ sub @ ''/'' @ prog" debug rest] that assms(6) by (simp add: NUL_def)
  with parent_in_dir [OF assms, of debug rest] show ?thesis by blast
qed

theorem mktun_parents_witness:
  "checkParentPath True ''/usr/bin/crts_mkTUN'' ''/usr/bin/crts_radio'' [] = Some False \<and>
   checkParentPath True ''/usr/bin/crts_mkTUN'' ''/usr/bin/mine/evil'' [] = Some False \<and>
   checkParentPath True ''/usr/bin/crts_mkTUN'' ''/home/me/bin/evil'' [] \<noteq> Some False"
  using mktun_parents [of "''crts_mkTUN''" "''/usr/bin''" "''/usr/bin/crts_radio''" True "[]" "''mine''" "''evil''"]
    mktun_parents [of "''crts_mkTUN''" "''/usr/bin''" "''/home/me/bin/evil''" True "[]" "[]" "[]"]
  by (simp add: NUL_def)

subsection \<open>What the device costs\<close>

text \<open>
  Property C38. \<^verbatim>\<open>tun_alloc\<close> as a transaction: either it returns the open descriptor of the device, has run exactly its two commands with the rights
  it had, and gives these rights up; or it returns -1 and leaves descriptors and rights as they were.
\<close>

theorem tun_alloc_result:
  assumes "clone_fd a \<notin> opened w" and "tun_alloc a subnet setOwner u w = (fd, v)"
  shows "(fd = clone_fd a \<and> 0 \<le> fd \<and> opened v = insert fd (opened w) \<and> euid v = u \<and>
        commands v = commands w @ [(up_command (ifr_name a), euid w), (addr_command subnet (ifr_name a), euid w)] \<or>
      fd = -1 \<and> opened v = opened w \<and> euid v = euid w \<and> prefix (commands w) (commands v)) \<and> bad_closes v = bad_closes w"
proof -
  have "prefix xs (xs @ ys)" for xs ys :: "(string \<times> nat) list" by (simp add: prefix_def)
  then show ?thesis
    using assms unfolding tun_alloc_def Let_def Run_def open_fd_def close_fd_def
    by (auto split: if_splits)
qed

definition tun_ok :: tun_answers where
  "tun_ok = \<lparr>clone_fd = 5, set_iff = 0, ifr_name = ''tun0'', set_owner = 0, link_up = 0, addr_add = 0, set_uid = 0\<rparr>"

definition root_proc :: proc where
  "root_proc = \<lparr>opened = {0, 1, 2}, bad_closes = 0, commands = [], euid = 0\<rparr>"

theorem tun_alloc_result_witness:
  "let (fd, v) = tun_alloc tun_ok ''10.0.0.1/24'' True 1000 root_proc in fd = 5 \<and> opened v = {0, 1, 2, 5} \<and> euid v = 1000"
proof -
  obtain fd v where v: "tun_alloc tun_ok ''10.0.0.1/24'' True 1000 root_proc = (fd, v)" by fastforce
  moreover have "fd = 5"
    using v by (auto simp: tun_alloc_def tun_ok_def Run_def up_command_def addr_command_def open_fd_def Let_def root_proc_def)
  moreover have "clone_fd tun_ok \<notin> opened root_proc" by (simp add: tun_ok_def root_proc_def)
  ultimately show ?thesis
    using tun_alloc_result [of tun_ok root_proc "''10.0.0.1/24''" True 1000 fd v] by (auto simp: root_proc_def)
qed

text \<open>
  Property C39. The text of the user reaches the shell of the superuser. Texts that are no numbers count as 0, and what follows a number is not
  looked at; so a subnet made of four texts without dots (the last may have them) passes both programs' check, and
  \<^verbatim>\<open>crts_mkTUN\<close>, called by a program of its directory, runs a command with it before it gives up its rights.
\<close>

theorem mktun_runs_any_text:
  assumes "CHR ''/'' \<notin> set name" "name \<noteq> []" "3 \<le> length dir" "last dir \<noteq> CHR ''/''" "length (dir @ ''/'' @ name) < 1024 * 1024"
    and "NUL \<notin> set dir" "NUL \<notin> set prog"
    and "number_part b" "number_part c" "number_part d" "number_part e" "hd b \<noteq> CHR ''-''" "b \<noteq> []"
    and "CHR ''.'' \<notin> set b" "CHR ''.'' \<notin> set c" "CHR ''.'' \<notin> set d" "24 \<le> n" "n \<le> 31"
    and "length (dotted b c d e n) \<le> 18" "10 \<le> length (dotted b c d e n)"
  shows "\<exists>v. mkTUN_main debug (dir @ ''/'' @ name) (dir @ ''/'' @ prog) rest False tun_ok 0 1000 [arg0, dotted b c d e n] root_proc = Some (0, v) \<and>
    (''/sbin/ip addr add '' @ dotted b c d e n @ '' dev tun0'', 0) \<in> set (commands v)"
proof -
  let ?s = "dotted b c d e n"
  have parent: "checkParentPath debug (dir @ ''/'' @ name) (dir @ ''/'' @ prog) rest = Some False"
    using parent_in_dir [OF assms(1-6), of "dir @ ''/'' @ prog" debug rest] assms(6,7) by (simp add: NUL_def)
  have ok: "\<not> checkSubnetAddress ?s" using subnet_accepted [OF assms(8-11,14-20)] by simp
  have s: "?s \<noteq> [] \<and> hd ?s \<noteq> CHR ''-''" using assms(12,13) by (simp add: dotted_def)
  have "length ?s \<le> 18" by (rule assms(19))
  then have "tun_alloc tun_ok ?s True 1000 root_proc = (5, \<lparr>opened = {5, 0, 1, 2}, bad_closes = 0,
      commands = [(up_command ''tun0'', 0), (addr_command ?s ''tun0'', 0)], euid = 1000\<rparr>)"
    by (auto simp: tun_alloc_def tun_ok_def Run_def up_command_def addr_command_def open_fd_def Let_def root_proc_def)
  with parent ok s show ?thesis
    by (simp add: mkTUN_main_def sendfd_def addr_command_def)
qed

theorem mktun_runs_any_text_witness:
  "\<exists>v. mkTUN_main True ''/usr/bin/crts_mkTUN'' ''/usr/bin/crts_radio'' [] False tun_ok 0 1000 [''crts_mkTUN'', ''1.1.1.;reboot;/24''] root_proc
     = Some (0, v) \<and> (''/sbin/ip addr add 1.1.1.;reboot;/24 dev tun0'', 0) \<in> set (commands v)"
proof -
  have one: "decimal 1 = ''1''" by code_simp
  have mask: "decimal 24 = ''24''" by code_simp
  have whole: "dotted ''1'' ''1'' ''1'' '';reboot;'' 24 = ''1.1.1.;reboot;/24''" by (simp add: dotted_def mask)
  have "number_part ''1''" using number_part_decimal [of 1] unfolding one by simp
  moreover have "number_part '';reboot;''" by (simp add: number_part_def no_number_def is_digit_def is_space_def)
  ultimately show ?thesis
    using mktun_runs_any_text [of "''crts_mkTUN''" "''/usr/bin''" "''crts_radio''" "''1''" "''1''" "''1''" "'';reboot;''" 24 True "[]" "''crts_mkTUN''"]
    unfolding whole by (simp add: NUL_def)
qed

text \<open>
  Property C40. What a program that asks for a device has afterwards, for a socket pair of two new descriptors. A descriptor is left open with every
  answer but a failed \<^verbatim>\<open>waitpid\<close> or \<^verbatim>\<open>recvmsg\<close>: after a failed \<^verbatim>\<open>fork\<close> (which closes one end twice and the other never), when nothing comes,
  and also when the device is received, since the number it came with stays open beside its copy.
\<close>

theorem usocket_descriptors:
  assumes "\<not> checkSubnetAddress subnet" and "socketpair a = Some (p, q)" and "0 \<le> p" "0 \<le> q" "p \<noteq> q" "p \<notin> opened w" "q \<notin> opened w"
    and "\<forall>n. recv a = RecvFd n \<longrightarrow> 0 \<le> n \<and> n \<noteq> p \<and> n \<notin> opened w" and "-1 \<notin> opened w"
    and "getTunViaUSocket debug a subnet w = Some (fd, v)"
  shows "if fork_pid a < 0 then fd = -1 \<and> opened v = insert q (opened w) \<and> bad_closes v = bad_closes w + 1
    else if waitpid_fails a then fd = -1 \<and> opened v = opened w \<and> bad_closes v = bad_closes w
    else if select_ready a \<le> 0 then fd = -1 \<and> opened v = insert p (opened w) \<and> bad_closes v = bad_closes w
    else (case recv a of RecvNoFd \<Rightarrow> False
      | RecvFails \<Rightarrow> fd = -1 \<and> opened v = opened w \<and> bad_closes v = bad_closes w
      | RecvFd n \<Rightarrow> if dup2_fails a then fd = -1 \<and> opened v = insert n (opened w) \<and> bad_closes v = bad_closes w + 1
          else fd = p \<and> opened v = {p, n} \<union> opened w \<and> bad_closes v = bad_closes w)"
  using assms
  by (cases "recv a") (auto simp: getTunViaUSocket_def usocket_fail_def recvfd_def checkHaveRead_def open_fd_def close_fd_def Let_def ASSERT_bind_Some
      DASSERT_def split: if_splits)

theorem usocket_descriptors_witness:
  "\<exists>v. getTunViaUSocket True \<lparr>socketpair = Some (3, 4), fork_pid = 77, waitpid_fails = False, select_ready = 1, recv = RecvFd 4, dup2_fails = False\<rparr>
     ''10.0.0.1/24'' root_proc = Some (3, v) \<and> opened v = {0, 1, 2, 3, 4}"
proof -
  let ?a = "\<lparr>socketpair = Some (3, 4), fork_pid = 77, waitpid_fails = False, select_ready = 1, recv = RecvFd 4, dup2_fails = False\<rparr>"
  have ok: "\<not> checkSubnetAddress ''10.0.0.1/24''"
    by (simp add: checkSubnetAddress_def numeral_3_eq_3 strtoul_def is_space_def is_digit_def digits_value_def)
  then obtain fd v where v: "getTunViaUSocket True ?a ''10.0.0.1/24'' root_proc = Some (fd, v)"
    by (auto simp: getTunViaUSocket_def checkHaveRead_def recvfd_def Let_def)
  from usocket_descriptors [OF ok _ _ _ _ _ _ _ _ v, of 3 4] v show ?thesis by (auto simp: root_proc_def)
qed

end
