(* ===== verification/CrtsIO.thy ===== *)
theory CrtsIO
  imports Prelude
begin

text \<open>
  The ends of the radio's data paths in src/lanceman2\_crts: the relay of bin/udpTunnelServer.cpp between the TUN device and a UDP
  socket, and the plugins RadioIO/readline.cpp and RadioInput/readline.cpp of share/crts/plugins, which send lines that the
  user types.
\<close>

subsection \<open>The relay\<close>

text \<open>
  Both descriptors carry packets: a \<^verbatim>\<open>read\<close> takes a whole packet, of which what does not fit in the buffer is lost, and each \<^verbatim>\<open>write\<close>
  makes a packet. \<open>w i\<close> is what the \<open>i\<close>-th write returns, at most what it was given.
\<close>

record relay =
  calls :: nat
  shown :: "byte list list"
  delivered :: "byte list list"

function relay_writen :: "(nat \<Rightarrow> int) \<Rightarrow> byte list \<Rightarrow> relay \<Rightarrow> bool \<times> relay" where
  "relay_writen w buf r =
     (if buf = [] then (False, r)
      else let ret = min (w (calls r)) (int (length buf)); r = r\<lparr>calls := calls r + 1\<rparr>
        in if ret < 1 then (True, r)
           else relay_writen w (drop (nat ret) buf) (r\<lparr>delivered := delivered r @ [take (nat ret) buf]\<rparr>))"
  by pat_completeness auto
termination
  by (relation "measure (\<lambda>(w, buf, r). length buf)") (auto simp: Let_def)

declare relay_writen.simps [simp del]

definition relay_len :: nat where
  "relay_len = 256"

text \<open>
  \<^verbatim>\<open>readWrite\<close> for the packets to come; a \<open>None\<close> is an error of \<^verbatim>\<open>read\<close>. True: it has returned; otherwise it waits for
  the next packet.
\<close>

fun readWrite :: "(nat \<Rightarrow> int) \<Rightarrow> byte list option list \<Rightarrow> relay \<Rightarrow> bool \<times> relay" where
  "readWrite w [] r = (False, r)"
| "readWrite w (None # ps) r = (True, r)"
| "readWrite w (Some p # ps) r =
     (let buf = take relay_len p in
      if buf = [] then (True, r)
      else let (done, r) = relay_writen w buf (r\<lparr>shown := shown r @ [buf]\<rparr>)
        in if done then (True, r) else readWrite w ps r)"

definition relay0 :: relay where
  "relay0 = \<lparr>calls = 0, shown = [], delivered = []\<rparr>"

lemma relay_writen_whole:
  assumes "buf \<noteq> []" and "int (length buf) \<le> w (calls r)"
  shows "relay_writen w buf r = (False, r\<lparr>calls := calls r + 1, delivered := delivered r @ [buf]\<rparr>)"
proof -
  have "min (w (calls r)) (int (length buf)) = int (length buf)" using assms(2) by simp
  then show ?thesis using assms(1) by (subst relay_writen.simps) (simp add: Let_def relay_writen.simps)
qed

text \<open>The packets up to the first empty one or error.\<close>

fun until_end :: "byte list option list \<Rightarrow> byte list list" where
  "until_end [] = []"
| "until_end (None # ps) = []"
| "until_end (Some p # ps) = (if p = [] then [] else p # until_end ps)"

lemma readWrite_whole:
  assumes "\<And>i. int relay_len \<le> w i"
  shows "delivered (snd (readWrite w ps r)) = delivered r @ map (take relay_len) (until_end ps)"
proof (induction ps arbitrary: r rule: until_end.induct)
  case (3 p ps)
  have "int (length (take relay_len p)) \<le> w i" for i using assms [of i] by simp
  with 3 show ?case by (cases "p = []") (simp_all add: relay_writen_whole Let_def relay_len_def)
qed simp_all

text \<open>
  The relay passes packets on one for one, in order, when every write takes what it is given: those of up to 256 bytes as they are, and
  of a longer one the first 256 bytes only, though the device has packets of up to 1500 bytes. When the first write fails, as it does on
  the UDP socket, which is bound to the address but never connected, nothing is passed on and that direction has ended.
\<close>

theorem relay_packets:
  assumes "\<forall>i. 256 \<le> w i"
  shows "delivered (snd (readWrite w ps relay0)) = map (take 256) (until_end ps) \<and>
    ((\<forall>p. Some p \<in> set ps \<longrightarrow> length p \<le> 256) \<longrightarrow> delivered (snd (readWrite w ps relay0)) = until_end ps) \<and>
    (p \<noteq> [] \<longrightarrow> readWrite (\<lambda>i. -1) (Some p # ps) relay0 = (True, \<lparr>calls = 1, shown = [take 256 p], delivered = []\<rparr>))"
proof -
  have all: "delivered (snd (readWrite w ps relay0)) = map (take 256) (until_end ps)"
    using readWrite_whole [of w ps relay0] assms by (simp add: relay0_def relay_len_def)
  have "map (take 256) (until_end ps) = until_end ps" if "\<forall>p. Some p \<in> set ps \<longrightarrow> length p \<le> 256"
    using that by (induction ps rule: until_end.induct) auto
  moreover have "readWrite (\<lambda>i. -1) (Some p # ps) relay0 = (True, \<lparr>calls = 1, shown = [take 256 p], delivered = []\<rparr>)" if "p \<noteq> []"
    using that by (simp add: relay_len_def relay_writen.simps Let_def relay0_def min_def)
  ultimately show ?thesis using all by simp
qed

theorem relay_packets_witness:
  "delivered (snd (readWrite (\<lambda>i. 300) [Some [1, 2], Some [3], None] relay0)) = [[1, 2], [3]]"
  using relay_packets [of "\<lambda>i. 300" "[Some [1, 2], Some [3], None]"] by simp

subsection \<open>Lines from the user\<close>

text \<open>
  What the object keeps. \<open>line_held\<close> says if \<^verbatim>\<open>line\<close> points to a line that is not freed; \<open>exits\<close> counts the calls of \<^verbatim>\<open>crtsExit\<close>.
\<close>

record Readline =
  reading :: bool
  prompt :: string
  sendPrefix :: string
  line_held :: bool
  history :: "string list"
  exits :: nat

text \<open>The constructor, with the arguments of the module that it does not know.\<close>

fun readline_args :: "string list \<Rightarrow> Readline \<Rightarrow> string list \<times> Readline" where
  "readline_args [] r = ([], r)"
| "readline_args [a] r = ([a], r)"
| "readline_args (a # b # as) r =
     (if a = ''--prompt'' then readline_args as (r\<lparr>prompt := b\<rparr>)
      else if a = ''--send-prefix'' then readline_args as (r\<lparr>sendPrefix := b\<rparr>)
      else let (us, r) = readline_args (b # as) r in (a # us, r))"

definition readline_new :: "string list \<Rightarrow> string list \<times> Readline" where
  "readline_new args = readline_args args
     \<lparr>reading = True, prompt = ''> '', sendPrefix = [], line_held = False, history = [], exits = 0\<rparr>"

text \<open>\<^verbatim>\<open>IS_WHITE\<close>: everything but the visible ASCII characters; a \<^verbatim>\<open>char\<close> over 127 is negative.\<close>

definition IS_WHITE :: "char \<Rightarrow> bool" where
  "IS_WHITE c \<longleftrightarrow> (of_char c :: nat) < 33 \<or> (of_char c :: nat) > 126"

definition strip :: "string \<Rightarrow> string" where
  "strip l = rev (dropWhile IS_WHITE (rev l))"

definition cleanExit :: "Readline \<Rightarrow> Readline" where
  "cleanExit r = r\<lparr>reading := False, exits := exits r + 1\<rparr>"

text \<open>
  What \<^verbatim>\<open>read\<close> does with a line: the characters that it puts in the buffer, from its start, and what it returns.
\<close>

definition send_line :: "nat \<Rightarrow> string \<Rightarrow> Readline \<Rightarrow> string \<times> nat \<times> Readline" where
  "send_line bufferLen l r =
     (let pre = (if sendPrefix r \<noteq> [] \<and> length (sendPrefix r) < bufferLen then sendPrefix r else []);
          room = bufferLen - length pre;
          (text, n) = (if length l < room then (l, length l) else (take (room - 1) l, room))
      in (pre @ text @ [NUL], length pre + n, r\<lparr>history := history r @ [text], line_held := False\<rparr>))"

text \<open>
  \<^verbatim>\<open>Readline::read\<close> of RadioIO for the lines to come, where \<open>None\<close> is the end of the input: what is in the buffer, the returned number, and the
  lines that are left. Without a line to come it waits: \<open>None\<close>.
\<close>

fun readline_read :: "nat \<Rightarrow> string option list \<Rightarrow> Readline \<Rightarrow> (string \<times> nat \<times> Readline \<times> string option list) option" where
  "readline_read bufferLen ls r =
     (if \<not> reading r then Some ([], 0, r, ls)
      else case ls of
        [] \<Rightarrow> None
      | None # ls \<Rightarrow> Some ([], 0, cleanExit (r\<lparr>line_held := False\<rparr>), ls)
      | Some l # ls \<Rightarrow>
          let l = strip l; r = r\<lparr>line_held := True\<rparr> in
          if l = [] then readline_read bufferLen ls (r\<lparr>line_held := False\<rparr>)
          else if l = ''exit'' \<or> l = ''quit'' then Some ([], 0, cleanExit r, ls)
          else (case send_line bufferLen l r of (b, n, r) \<Rightarrow> Some (b, n, r, ls)))"

declare readline_read.simps [simp del]

text \<open>\<^verbatim>\<open>Readline::write\<close>: what is printed, if \<^verbatim>\<open>fwrite\<close> wrote its item, and the returned number.\<close>

definition readline_write :: "string \<Rightarrow> bool \<Rightarrow> Readline \<Rightarrow> string \<times> nat" where
  "readline_write buffer ok r =
     ([CHR 0x0D] @ (if ok then buffer else []) @ replicate (length (prompt r) - length buffer) (CHR '' '') @ [CHR 0x0A] @ prompt r,
      length buffer * (if ok then 1 else 0))"

text \<open>\<^verbatim>\<open>Readline::read\<close> of RadioInput: only a line feed is white; at the end of the input it asks again, and it sends the final zero.\<close>

fun input_read :: "nat \<Rightarrow> string option list \<Rightarrow> (string \<times> nat \<times> string option list) option" where
  "input_read bufferLen [] = None"
| "input_read bufferLen (None # ls) = input_read bufferLen ls"
| "input_read bufferLen (Some l # ls) =
     (let l = rev (dropWhile (\<lambda>c. c = CHR 0x0A) (rev l)) in
      if l = [] then input_read bufferLen ls
      else if length l < bufferLen then Some (l @ [NUL], length l + 1, ls)
      else Some (take (bufferLen - 1) l @ [NUL], bufferLen, ls))"

lemma send_line_fits:
  assumes "0 < bufferLen" and "send_line bufferLen l r = (b, n, r')"
  shows "length b \<le> bufferLen" "n \<le> length b" "\<not> line_held r'" "reading r' = reading r"
    "length (sendPrefix r) + length l < bufferLen \<Longrightarrow> take n b = sendPrefix r @ l"
  using assms by (auto simp: send_line_def Let_def split: if_splits)

text \<open>
  What the plugin \<^verbatim>\<open>readline\<close> of RadioIO returns, for any lines and any buffer that is not empty: it writes no further than the
  buffer and returns no more than it wrote; it keeps no line unless the user asked to leave, and then it sends nothing any more; and for a line that
  fits with the prefix the returned characters are the prefix and the line without the white characters at its end.
\<close>

theorem readline_read_fits:
  assumes "0 < bufferLen" and "readline_read bufferLen ls r = Some (b, n, r', ls')" and "\<not> line_held r"
  shows "length b \<le> bufferLen \<and> n \<le> length b \<and> (line_held r' \<longrightarrow> \<not> reading r') \<and>
    (\<not> reading r' \<longrightarrow> n = 0 \<and> readline_read bufferLen ls' r' = Some ([], 0, r', ls')) \<and>
    (n \<noteq> 0 \<longrightarrow> (\<exists>l. Some l \<in> set ls \<and> (length (sendPrefix r) + length (strip l) < bufferLen \<longrightarrow> take n b = sendPrefix r @ strip l)))"
proof (cases "reading r")
  case False
  with assms(2,3) show ?thesis by (subst (asm) readline_read.simps) (auto simp: readline_read.simps)
next
  case True
  have keep: "r\<lparr>line_held := False\<rparr> = r" using assms(3) by (cases r) simp
  show ?thesis
    using assms(2)
  proof (induction ls)
    case Nil
    with True show ?case by (simp add: readline_read.simps)
  next
    case (Cons a ks)
    show ?case
    proof (cases a)
      case None
      with Cons.prems True have "b = [] \<and> n = 0 \<and> \<not> reading r' \<and> \<not> line_held r'"
        by (subst (asm) readline_read.simps) (auto simp: cleanExit_def)
      then show ?thesis by (subst readline_read.simps) simp
    next
      case (Some l)
      note eq = Cons.prems [unfolded Some, simplified readline_read.simps [of bufferLen "Some l # ks"]]
      consider (blank) "strip l = []" | (quit) "strip l \<noteq> []" "strip l = ''exit'' \<or> strip l = ''quit''"
        | (send) "strip l \<noteq> []" "\<not> (strip l = ''exit'' \<or> strip l = ''quit'')" by blast
      then show ?thesis
      proof cases
        case blank
        with eq True keep have "readline_read bufferLen ks r = Some (b, n, r', ls')" by (simp add: Let_def)
        from Cons.IH [OF this] show ?thesis by auto
      next
        case quit
        with eq True have "b = [] \<and> n = 0 \<and> \<not> reading r'" by (auto simp: Let_def cleanExit_def)
        then show ?thesis by (subst readline_read.simps) simp
      next
        case send
        with eq True have "send_line bufferLen (strip l) (r\<lparr>line_held := True\<rparr>) = (b, n, r')" by (auto simp: Let_def split: prod.split_asm)
        from send_line_fits [OF assms(1) this] True Some show ?thesis by auto
      qed
    qed
  qed
qed

definition typed :: Readline where
  "typed = snd (readline_new [''--send-prefix'', ''A:''])"

theorem readline_read_fits_witness:
  "readline_read 8 [Some ''  '', Some ''hi ''] typed = Some (''A:hi'' @ [NUL], 4, typed\<lparr>history := [''hi'']\<rparr>, []) \<and> take 4 (''A:hi'' @ [NUL]) = ''A:hi''"
proof -
  have strip: "strip ''  '' = []" "strip ''hi '' = ''hi''" by (simp_all add: strip_def IS_WHITE_def)
  have run: "readline_read 8 [Some ''  '', Some ''hi ''] typed = Some (''A:hi'' @ [NUL], 4, typed\<lparr>history := [''hi'']\<rparr>, [])"
    by (simp add: readline_read.simps strip typed_def readline_new_def send_line_def)
  have "\<not> line_held typed" by (simp add: typed_def readline_new_def)
  from readline_read_fits [OF _ run this] run show ?thesis by simp
qed

text \<open>
  A line that is too long is cut, and the zero that ends it in the buffer is sent with it, by both plugins; and the plugin of RadioInput sends
  that zero with every line. At the end of the input the plugin of RadioInput asks for ever.
\<close>

theorem readline_sends_zero:
  assumes "1 < bufferLen" and "bufferLen \<le> length (strip l)" and "reading r" and "sendPrefix r = []"
    and "strip l \<noteq> ''exit''" "strip l \<noteq> ''quit''"
  shows "(\<exists>r'. readline_read bufferLen (Some l # ls) r = Some (take (bufferLen - 1) (strip l) @ [NUL], bufferLen, r', ls)) \<and>
    input_read bufferLen (replicate k None) = None \<and>
    (m \<noteq> [] \<and> last m \<noteq> CHR 0x0A \<and> length m < bufferLen \<longrightarrow> input_read bufferLen (Some m # ls) = Some (m @ [NUL], length m + 1, ls))"
proof -
  have "strip l \<noteq> []" using assms(1,2) by auto
  then have "\<exists>r'. readline_read bufferLen (Some l # ls) r = Some (take (bufferLen - 1) (strip l) @ [NUL], bufferLen, r', ls)"
    using assms by (subst readline_read.simps) (simp add: send_line_def Let_def)
  moreover have "input_read bufferLen (replicate k None) = None" by (induction k) simp_all
  moreover have "rev (dropWhile (\<lambda>c. c = CHR 0x0A) (rev m)) = m" if "m \<noteq> []" "last m \<noteq> CHR 0x0A"
    using that by (cases m rule: rev_cases) simp_all
  ultimately show ?thesis by (auto simp: Let_def)
qed

theorem readline_sends_zero_witness:
  "\<exists>r'. readline_read 3 [Some ''hello''] (typed\<lparr>sendPrefix := []\<rparr>) = Some (''he'' @ [NUL], 3, r', [])"
proof -
  have "strip ''hello'' = ''hello''" by (simp add: strip_def IS_WHITE_def)
  then show ?thesis
    using readline_sends_zero [of 3 "''hello''" "typed\<lparr>sendPrefix := []\<rparr>" "[]" 0 "[]"] by (simp add: typed_def readline_new_def numeral_eq_Suc)
qed

subsection \<open>Where the output goes\<close>

text \<open>
  \<^verbatim>\<open>startupFunction\<close> of lib/libcrts\_radio.c, on the table from descriptors to open files: it runs before the program, and keeps what was the standard
  output as descriptor 3, for the plugins, while the libraries write to descriptor 1.
\<close>

definition dup2 :: "int \<Rightarrow> int \<Rightarrow> (int \<rightharpoonup> 'f) \<Rightarrow> (int \<times> (int \<rightharpoonup> 'f))" where
  "dup2 old new t = (case t old of None \<Rightarrow> (-1, t) | Some f \<Rightarrow> (new, t(new \<mapsto> f)))"

definition startupFunction :: "(int \<rightharpoonup> 'f) \<Rightarrow> (int \<rightharpoonup> 'f) option" where
  "startupFunction t = do {
     let (r, t) = dup2 1 3 t;
     ASSERT (r = 3);
     let (r, t) = dup2 2 1 t;
     ASSERT (r = 1);
     Some t}"

lemma startup_output:
  assumes "t 1 = Some out" and "t 2 = Some err"
  shows "startupFunction t = Some (t(3 \<mapsto> out, 1 \<mapsto> err))"
  using assms by (simp add: startupFunction_def dup2_def)

end
