(* ===== verification/Spec2Isabelle.thy ===== *)
theory Spec2Isabelle
  imports PoolProperties MasterRuns ServiceProperties PotatoProperties HashTable ServiceTest Primes Fork DirectPool Address
    CrtsProperties CrtsTun CrtsIO
begin

text \<open>
  A verification of \<^verbatim>\<open>potato\<close>, the server library in src/potato_old, of the radio programs in src/lanceman2\_crts, and of the
  prime number generator of src/python_C.

  The program. A process has servers (server.c), each with an epoll loop, a fixed array of connection structs and a fixed number of
  listeners. What happens on a connection is decided by three callbacks: read, write, cleanup. The callbacks run in the loop, or in
  a pool of threads (threadPool.c) that the server gives a task for each event. service.c is a set of callbacks that collects
  requests, hands them to a user and queues what the user sends, with or without TLS (tls.c); http.c has callbacks for it, and
  serverEchoRequest.c is a simpler set of callbacks. potato.c knows the servers of a process: signals, forked children, and the
  hand-off of listening sockets to a new process. sClient.c is a blocking client; client.c and service_test.c test
  the service with random strings (randSequence.c) that are made with a hash (murmurHash.c), which random.h and hashTable.h use too.

  The radio program crts\_radio of src/lanceman2\_crts loads an input and an output plugin that the command line names; a
  thread sends what the input plugin reads, another hands what is received to the output plugin, until a signal ends both. Other programs of the
  directory pass packets between a TUN device and a socket; the device is made by crts\_mkTUN, which runs with the rights of the superuser.

  Conventions. An assertion of aSsert.h does not come back when it fails: it is the value \<open>None\<close> (theory Prelude). What the kernel
  and gnutls answer is an argument, a list of answers for each descriptor (theory SysIO) or a record of answers for the calls
  that set something up; so every theorem holds for all answers, unless it names those it needs. Pointers are indexes of structs in
  maps; \<^verbatim>\<open>uint32_t\<close> is \<open>32 word\<close>. Loops that follow pointers, or that might not end, are \<^theory_text>\<open>partial_function (option)\<close>:
  that they return is proved where a property says so. The other loops end because each turn uses up an
  answer, a byte or an element. Only the echo callbacks, which call each other, have fuel (\<open>echo\<close>): the answers left for the descriptor, with one more;
  each call uses up an answer, and property C14 shows that it is never exhausted. Where a loop waits for ever without an answer, it is \<open>None\<close>.
  Sizes that are macros are arguments, but for the default chunk of service.h, \<open>CHUNKLEN\<close>.

  Theories, in the order of the code.

  Address: the choice of an address in util.h. Linked, TaskQueue, ThreadPool: threadPool.h and threadPool.c, the lists of workers, the ring of tasks, and one definition for each section
  between two releases of the mutex (\<open>worker_enter\<close>, \<open>worker_done\<close>, \<open>runTask_turn\<close>, \<open>destroy_next\<close> and others). PoolMachine makes a step
  relation of them, in which threads take turns at the mutex in any order. PoolInvariant has the invariant, PoolProperties the
  properties: no assertion fails in any interleaving, no task is lost, the master that waits is never stuck,
  destroying ends with every task done; and two behaviours that are defects. DirectPool has the build without threads and the loop of
  client.c, which uses it.

  ServerLists, Server, ServerSeq, ServerThreads, ServerLife: server.h and server.c. ServerLists has the queues and the list of connections,
  Server the operations on a connection, ServerSeq the event loop without a thread pool, ServerThreads the steps of the master and of \<^verbatim>\<open>ServiceConnection\<close> with
  one, ServerLife creating, shutting down and destroying: how long the shutdown takes, and that without a long timeout it waits for the clients. ServerMaster makes these steps a program: what the master does next is a place in the
  code of its loop, of the shutdown and of the end, and a step is one move of the master, of a worker, of the kernel or of the signal; MasterInvariant has its
  invariant, MasterProgress a measure of what the workers have left, MasterRuns the properties. The callbacks are a parameter; locale \<open>server_cb\<close> of theory Callbacks says what the server
  needs of them, Echo and ServiceClient show that the echo callbacks and the service give it. ServerProperties and ServerRuns have the
  properties of the loop without threads: descriptors and structs are never lost or used twice, nothing fails, echo gives back what it read.

  OutQueue, Tls, ServiceIO, ServiceRead, Service, ServiceClient, ServiceSession, SessionInvariant, ServiceProperties: tls.c, service.c and http.c. Locale
  \<open>reader\<close> of ServiceRead has what the two read functions share: which bytes they take and what they stop for (\<open>stopped\<close>). ServiceSession compares writing with
  what the answers of the socket allow (\<open>socket_takes\<close>). The user of
  the service is a program (\<open>prog\<close>) that calls the functions of service.h. The invariant of a session, with TLS or without, is \<open>sess_at\<close>. Properties: without TLS
  what is sent is written once, in order, as far as the socket takes it (with TLS bytes can be lost); a request reaches the user as it was sent; sessions are set up and freed, or
  lost when a handshake fails; the input buffer is bounded.

  Potato, Handoff, PotatoProperties, Fork: potato.c. \<open>process\<close> has the static \<^verbatim>\<open>po\<close>, the servers and the descriptors. Handoff has the laws of the bytes
  and descriptors that go through the UNIX socket; properties: the list of servers, the hand-off as a round trip, the exit status of the
  children, the two forms of an option, and that a forked child has its own epoll descriptors with all listeners.

  Hash, HashTable, RandSequence: murmurHash.c, random.h, hashTable.h, randSequence.c. The steps of the hash can be undone, so random numbers do not
  repeat; the search in a table is that of \<open>List.find\<close> in the order of the probes, so what is put in is found; the strings are bounded.

  SClient, Client, ServiceTest: sClient.c, client.c and the callback of service_test.c. The connection of the client succeeds exactly with
  the replies that the callback of the service makes.

  Primes: src/python_C/primes.c. Strtol: the reading of numbers, for Potato and CrtsTun.

  CrtsOpt: the options (get\_opt.cpp) and the command line of crts\_radio.cpp, as a round trip with the ways to write it. CrtsPath: the paths made
  from that of the binary, and the size of their blocks (module\_util.cpp). CrtsRadio: loading the plugins (ModuleLoader.hpp, module\_util.hpp), and
  the work of the two threads (txThread.cpp, rxThread.cpp): a frame sent for each read, in order, and each frame that is found written once, in order. CrtsThreads: the threads, the barrier, the mutex of FFTW, the signal and the destruction of the plugins as a machine, with its invariant;
  CrtsProperties: nothing is used after it was destroyed, the program ends within 29 moves of a signal, and leaves nothing behind. CrtsTun:
  getTunViaUSocket.cpp, tun\_alloc.cpp and crts\_mkTUN.cpp, with what the check of a subnet lets through and which descriptors are lost.
  CrtsIO: the relay of udpTunnelServer.cpp, the readline plugins, and where libcrts\_radio.c sends the output.

  Not modelled. Logging and what is printed (elog.c, debug.c), the clock (tIme.h, timer.cpp): glue that decides nothing. Spurious wake-ups of
  \<^verbatim>\<open>pthread_cond_wait\<close>; a signal handler in the middle of a C statement; the samples of the radio and the floating point arithmetic on them. The main
  programs of the tests. The radio examples in UHD\_example, which are sequences of calls of the library UHD. The build system suffixbuild (make and Ruby),
  language bindings, tutorials and scripts, which are not C; and three files with examples copied from elsewhere (gnutls\_echo\_server.c,
  passFD.c, sendfd.c).
\<close>

end
